(* ===== verification/Bpe_Prelude.thy ===== *)
theory Bpe_Prelude
  imports Main "HOL-Library.Word" "HOL-Library.Sublist" "HOL-Library.Monad_Syntax"
begin

text \<open>
  Shared vocabulary of the development.

  The C code works on byte arrays, arrays of \<^verbatim>\<open>uint32_t\<close> and pointers into them.
  A byte is an \<open>8 word\<close>; token ids, sizes and offsets are \<open>nat\<close>, with
  the constant \<open>UINT32_MAX\<close> that the code uses as "no token".
  A computation that reads or writes an array does so through \<open>rd\<close> and
  \<open>wr\<close>, which return \<open>None\<close> outside the array: a result \<open>Some r\<close> of
  the model therefore says that the C code stays inside its arrays, that its
  loops stop, and that it returns \<open>r\<close>.
\<close>

type_synonym byte = "8 word"
type_synonym bytes = "8 word list"
type_synonym u32 = "32 word"
type_synonym u64 = "64 word"

text \<open>Facts for unfolding the array accesses of a definition.\<close>

named_theorems arr_simps

definition UINT32_MAX :: nat where
  "UINT32_MAX = 4294967295"

definition INT32_MAX :: nat where
  "INT32_MAX = 2147483647"

definition SIZE_MAX :: nat where
  "SIZE_MAX = 18446744073709551615"

subsection \<open>Array reads and writes\<close>

definition rd :: "'a list \<Rightarrow> nat \<Rightarrow> 'a option" where
  "rd xs i = (if i < length xs then Some (xs ! i) else None)"

definition wr :: "'a list \<Rightarrow> nat \<Rightarrow> 'a \<Rightarrow> 'a list option" where
  "wr xs i v = (if i < length xs then Some (xs[i := v]) else None)"

lemma rd_in [simp, arr_simps]: "i < length xs \<Longrightarrow> rd xs i = Some (xs ! i)"
  by (simp add: rd_def)

lemma rd_Some_iff: "rd xs i = Some v \<longleftrightarrow> i < length xs \<and> xs ! i = v"
  by (auto simp: rd_def)

lemma rd_None_iff: "rd xs i = None \<longleftrightarrow> length xs \<le> i"
  by (auto simp: rd_def)

lemma wr_in [simp, arr_simps]: "i < length xs \<Longrightarrow> wr xs i v = Some (xs[i := v])"
  by (simp add: wr_def)

lemma wr_Some_iff: "wr xs i v = Some ys \<longleftrightarrow> i < length xs \<and> ys = xs[i := v]"
  by (auto simp: wr_def)

text \<open>A slice \<open>xs[i..<j]\<close>, the C idiom \<^verbatim>\<open>xs + i\<close> with length \<^verbatim>\<open>j - i\<close>.\<close>

definition slice :: "'a list \<Rightarrow> nat \<Rightarrow> nat \<Rightarrow> 'a list" where
  "slice xs i j = take (j - i) (drop i xs)"

lemma length_slice [simp]: "j \<le> length xs \<Longrightarrow> length (slice xs i j) = j - i"
  by (simp add: slice_def)

lemma slice_0 [simp]: "slice xs 0 j = take j xs"
  by (simp add: slice_def)

lemma slice_self [simp]: "slice xs i i = []"
  by (simp add: slice_def)

lemma slice_append: "i \<le> j \<Longrightarrow> j \<le> k \<Longrightarrow> slice xs i j @ slice xs j k = slice xs i k"
proof -
  assume a: "i \<le> j" "j \<le> k"
  have "take (k - i) (drop i xs) = take (j - i + (k - j)) (drop i xs)" using a by simp
  also have "\<dots> = take (j - i) (drop i xs) @ take (k - j) (drop (j - i) (drop i xs))"
    by (rule take_add)
  finally show ?thesis using a by (simp add: slice_def)
qed

lemma take_slice: "i \<le> j \<Longrightarrow> take i xs @ slice xs i j = take j xs"
  using slice_append [of 0 i j xs] by simp

lemma slice_to_end: "slice xs i (length xs) = drop i xs"
  by (simp add: slice_def)

lemma nth_slice: "i + k < j \<Longrightarrow> j \<le> length xs \<Longrightarrow> slice xs i j ! k = xs ! (i + k)"
  by (simp add: slice_def)

text \<open>\<^verbatim>\<open>memcpy\<close> and \<^verbatim>\<open>memset\<close> into an array, from index \<open>i\<close> on.\<close>

definition wr_slice :: "'a list \<Rightarrow> nat \<Rightarrow> 'a list \<Rightarrow> 'a list option" where
  "wr_slice xs i ws =
     (if i + length ws \<le> length xs then Some (take i xs @ ws @ drop (i + length ws) xs) else None)"

subsection \<open>Arrays from malloc\<close>

text \<open>
  An array from \<^verbatim>\<open>malloc\<close> is a list of options, \<open>None\<close> where nothing has been written yet.
  \<open>part_array cap xs\<close> has \<open>cap\<close> entries, of which the first hold \<open>xs\<close>; \<open>filled\<close> reads the first
  \<open>n\<close> entries, which is what the caller of a function that returns an array and a count does: it has no
  value when one of them was never written or lies outside the array.
\<close>

definition part_array :: "nat \<Rightarrow> 'a list \<Rightarrow> 'a option list" where
  "part_array cap xs = map Some xs @ replicate (cap - length xs) None"

fun filled :: "'a option list \<Rightarrow> nat \<Rightarrow> 'a list option" where
  "filled arr 0 = Some []"
| "filled [] (Suc n) = None"
| "filled (x # arr) (Suc n) = do { v \<leftarrow> x; vs \<leftarrow> filled arr n; Some (v # vs) }"

lemma length_part_array [simp]: "length xs \<le> cap \<Longrightarrow> length (part_array cap xs) = cap"
  by (simp add: part_array_def)

lemma part_array_new: "part_array cap [] = replicate cap None"
  by (simp add: part_array_def)

lemma part_array_full: "part_array (length xs) xs = map Some xs"
  by (simp add: part_array_def)

lemma part_array_grow: "length xs \<le> cap \<Longrightarrow> part_array cap xs @ replicate n None = part_array (cap + n) xs"
  by (simp add: part_array_def replicate_add [symmetric])

lemma replicate_None_split: "k \<le> n \<Longrightarrow> replicate n None = replicate k None @ replicate (n - k) None"
  by (simp add: replicate_add [symmetric])

lemma wr_slice_part_array:
  assumes "length xs + length ws \<le> cap"
  shows "wr_slice (part_array cap xs) (length xs) (map Some ws) = Some (part_array cap (xs @ ws))"
  using assms by (simp add: wr_slice_def part_array_def)

lemma wr_part_array:
  assumes "length xs < cap"
  shows "wr (part_array cap xs) (length xs) (Some x) = Some (part_array cap (xs @ [x]))"
proof -
  have "replicate (cap - length xs) None = None # replicate (cap - Suc (length xs)) (None :: 'a option)"
    using assms by (metis Suc_diff_Suc replicate_Suc)
  then show ?thesis using assms by (simp add: wr_def part_array_def list_update_append)
qed

lemma filled_map_Some: "filled (map Some xs @ ys) (length xs) = Some xs"
  by (induction xs) simp_all

lemma filled_part_array: "filled (part_array cap xs) (length xs) = Some xs"
  by (simp add: part_array_def filled_map_Some)

text \<open>Subtraction on \<^verbatim>\<open>size_t\<close>, which wraps below 0.\<close>

definition usub :: "nat \<Rightarrow> nat \<Rightarrow> nat" where
  "usub a b = (if b \<le> a then a - b else a + 2 ^ 64 - b)"

lemma usub_le [simp]: "b \<le> a \<Longrightarrow> usub a b = a - b"
  by (simp add: usub_def)

subsection \<open>Adjacent pairs\<close>

text \<open>\<open>adj P xs\<close>: every two neighbours of \<open>xs\<close> are related by \<open>P\<close>.\<close>

fun adj :: "('a \<Rightarrow> 'a \<Rightarrow> bool) \<Rightarrow> 'a list \<Rightarrow> bool" where
  "adj P (x # y # zs) = (P x y \<and> adj P (y # zs))"
| "adj P _ = True"

lemma adj_append:
  "adj P (xs @ ys) \<longleftrightarrow>
     adj P xs \<and> adj P ys \<and> (xs \<noteq> [] \<longrightarrow> ys \<noteq> [] \<longrightarrow> P (last xs) (hd ys))"
proof (induction xs)
  case (Cons x xs)
  then show ?case by (cases xs; cases ys) auto
qed simp

lemma adj_snoc: "adj P (xs @ [y]) \<longleftrightarrow> adj P xs \<and> (xs \<noteq> [] \<longrightarrow> P (last xs) y)"
  by (auto simp: adj_append)

lemma adj_mono: "adj P xs \<Longrightarrow> (\<And>x y. x \<in> set xs \<Longrightarrow> y \<in> set xs \<Longrightarrow> P x y \<Longrightarrow> Q x y) \<Longrightarrow> adj Q xs"
  by (induction P xs rule: adj.induct) auto

lemma adj_map: "adj P (map f xs) \<longleftrightarrow> adj (\<lambda>x y. P (f x) (f y)) xs"
proof (induction xs)
  case (Cons x xs)
  then show ?case by (cases xs) auto
qed simp

end
