(* ===== verification/Bpe_Reference.thy ===== *)
theory Bpe_Reference
  imports Bpe_Prelude
begin

text \<open>
  The reference semantics of byte pair encoding, independent of the C code.
  A dictionary \<open>D\<close> lists the tokens' byte strings in rank order. The text starts
  as a list of single bytes, and phase \<open>k\<close> merges every adjacent pair of segments
  whose concatenation is \<open>D ! k\<close>, from left to right. \<open>bpe_phase D k\<close> is the
  segmentation after the phases below \<open>k\<close>.

  The theory proves what the C encoders rest on: a segmentation is the
  encoding of its text if and only if every segment encodes to itself and
  every two neighbours do not merge (\<open>bpe_phase_iff\<close>), hence a text has
  exactly one such segmentation.
\<close>

fun merge_pass :: "'a list \<Rightarrow> 'a list list \<Rightarrow> 'a list list" where
  "merge_pass w [] = []"
| "merge_pass w [x] = [x]"
| "merge_pass w (x # y # zs) =
     (if x @ y = w then w # merge_pass w zs else x # merge_pass w (y # zs))"

fun bpe_phase :: "'a list list \<Rightarrow> nat \<Rightarrow> 'a list \<Rightarrow> 'a list list" where
  "bpe_phase D 0 t = map (\<lambda>b. [b]) t"
| "bpe_phase D (Suc k) t = merge_pass (D ! k) (bpe_phase D k t)"

subsection \<open>One pass\<close>

lemma concat_merge_pass [simp]: "concat (merge_pass w X) = concat X"
  by (induction w X rule: merge_pass.induct) auto

lemma merge_pass_eq_Nil [simp]: "merge_pass w X = [] \<longleftrightarrow> X = []"
  by (induction w X rule: merge_pass.induct) auto

lemma merge_pass_nonempty: "[] \<notin> set X \<Longrightarrow> [] \<notin> set (merge_pass w X)"
  by (induction w X rule: merge_pass.induct) auto

lemma set_merge_pass: "set (merge_pass w X) \<subseteq> insert w (set X)"
  by (induction w X rule: merge_pass.induct) auto

text \<open>A pass acts on two parts separately when the seam does not form \<open>w\<close>.\<close>

lemma merge_pass_append:
  assumes "U \<noteq> []" and "V \<noteq> []" and "last (merge_pass w U) @ hd V \<noteq> w"
  shows "merge_pass w (U @ V) = merge_pass w U @ merge_pass w V"
  using assms
proof (induction w U rule: merge_pass.induct)
  case (1 w)
  then show ?case by simp
next
  case (2 w x)
  then show ?case by (cases V) auto
next
  case (3 w x y zs)
  show ?case
  proof (cases "x @ y = w \<and> zs = []")
    case True
    then show ?thesis by simp
  next
    case False
    then show ?thesis using 3 by (auto split: if_splits)
  qed
qed

text \<open>When the seam forms \<open>w\<close>, the pass merges across it.\<close>

lemma merge_pass_cross:
  assumes "U \<noteq> []" and "V \<noteq> []" and "last (merge_pass w U) @ hd V = w"
    and "[] \<notin> set V"
  shows "merge_pass w (U @ V) = butlast (merge_pass w U) @ w # merge_pass w (tl V)"
  using assms
proof (induction w U rule: merge_pass.induct)
  case (1 w)
  then show ?case by simp
next
  case (2 w x)
  then show ?case by (cases V) auto
next
  case (3 w x y zs)
  show ?case
  proof (cases "x @ y = w")
    case True
    have "zs \<noteq> []"
    proof
      assume "zs = []"
      with True 3(5) have "hd V = []" by simp
      with 3(4) 3(6) show False by (cases V) auto
    qed
    with True 3 show ?thesis by auto
  next
    case False
    with 3 show ?thesis by auto
  qed
qed

lemma merge_pass_append_iff:
  assumes "U \<noteq> []" and "V \<noteq> []" and "[] \<notin> set V"
  shows "merge_pass w (U @ V) = merge_pass w U @ merge_pass w V
     \<longleftrightarrow> last (merge_pass w U) @ hd V \<noteq> w"
proof (cases "last (merge_pass w U) @ hd V = w")
  case False
  then show ?thesis using merge_pass_append assms by auto
next
  case True
  let ?M = "merge_pass w U"
  have M: "?M = butlast ?M @ [last ?M]" using assms by simp
  have "hd V \<noteq> []" using assms by (cases V) auto
  with True have "last ?M \<noteq> w" by auto
  have "merge_pass w (U @ V) = butlast ?M @ w # merge_pass w (tl V)"
    using merge_pass_cross assms True by blast
  moreover have "?M @ merge_pass w V = butlast ?M @ last ?M # merge_pass w V"
    by (subst M) simp
  ultimately have "merge_pass w (U @ V) \<noteq> ?M @ merge_pass w V"
    using \<open>last ?M \<noteq> w\<close> by (metis append_same_eq list.inject same_append_eq)
  then show ?thesis using True by simp
qed

lemma last_merge_pass:
  "X \<noteq> [] \<Longrightarrow> last (merge_pass w X) = w \<or> last (merge_pass w X) = last X"
proof (induction w X rule: merge_pass.induct)
  case (3 w x y zs)
  then show ?case by (cases "zs = []") auto
qed auto

text \<open>Any cut of the output comes from a cut of the input.\<close>

lemma merge_pass_split:
  assumes "merge_pass w X = U @ V"
  shows "\<exists>X1 X2. X = X1 @ X2 \<and> merge_pass w X1 = U \<and> merge_pass w X2 = V"
  using assms
proof (induction w X arbitrary: U rule: merge_pass.induct)
  case (1 w)
  then show ?case by simp
next
  case (2 w x)
  then show ?case by (cases U) (auto intro: exI [of _ "[x]"] exI [of _ "[]"])
next
  case (3 w x y zs)
  show ?case
  proof (cases U)
    case Nil
    with 3(3) show ?thesis
      by (intro exI [of _ "[]"] exI [of _ "x # y # zs"]) simp
  next
    case (Cons u U')
    show ?thesis
    proof (cases "x @ y = w")
      case True
      with 3(3) Cons have "merge_pass w zs = U' @ V" "u = w" by auto
      with 3(1) [OF True] obtain X1 X2
        where "zs = X1 @ X2" "merge_pass w X1 = U'" "merge_pass w X2 = V" by blast
      with True Cons \<open>u = w\<close> show ?thesis
        by (intro exI [of _ "x # y # X1"] exI [of _ X2]) auto
    next
      case False
      with 3(3) Cons have "merge_pass w (y # zs) = U' @ V" "u = x" by auto
      with 3(2) [OF False] obtain X1 X2
        where X: "y # zs = X1 @ X2" "merge_pass w X1 = U'" "merge_pass w X2 = V" by blast
      have "merge_pass w (x # X1) = x # U'"
        using X False by (cases X1) auto
      with X Cons \<open>u = x\<close> show ?thesis
        by (intro exI [of _ "x # X1"] exI [of _ X2]) auto
    qed
  qed
qed

subsection \<open>All phases\<close>

lemma concat_bpe_phase [simp]: "concat (bpe_phase D k t) = t"
  by (induction k) auto

lemma bpe_phase_nonempty: "[] \<notin> set (bpe_phase D k t)"
  by (induction k) (auto simp: merge_pass_nonempty)

lemma bpe_phase_eq_Nil [simp]: "bpe_phase D k t = [] \<longleftrightarrow> t = []"
  by (induction k) auto

lemma bpe_phase_Nil [simp]: "bpe_phase D k [] = []"
  by simp

lemma bpe_phase_single [simp]: "bpe_phase D k [b] = [[b]]"
  by (induction k) auto

lemma set_bpe_phase:
  "k \<le> length D \<Longrightarrow> s \<in> set (bpe_phase D k t) \<Longrightarrow> (\<exists>b \<in> set t. s = [b]) \<or> (\<exists>i < k. s = D ! i)"
proof (induction k)
  case (Suc k)
  then show ?case using set_merge_pass [of "D ! k" "bpe_phase D k t"]
    by (auto simp: less_Suc_eq)
qed auto

text \<open>A segment that is alone stays alone.\<close>

lemma bpe_phase_alone_mono:
  "bpe_phase D j s = [s] \<Longrightarrow> j \<le> k \<Longrightarrow> bpe_phase D k s = [s]"
proof (induction k)
  case (Suc k)
  then show ?case by (cases "j = Suc k") auto
qed auto

text \<open>
  Every cut of an encoding cuts the text, and at every earlier phase the two
  sides were segmented independently.
\<close>

lemma bpe_phase_split:
  assumes "bpe_phase D k t = U @ V"
  shows "bpe_phase D k (concat U) = U \<and> bpe_phase D k (concat V) = V \<and>
     (\<forall>j \<le> k. bpe_phase D j t = bpe_phase D j (concat U) @ bpe_phase D j (concat V))"
  using assms
proof (induction k arbitrary: U V)
  case 0
  then obtain t1 t2 where "t = t1 @ t2" "U = map (\<lambda>b. [b]) t1" "V = map (\<lambda>b. [b]) t2"
    by (auto simp: map_eq_append_conv)
  then show ?case by simp
next
  case (Suc k)
  then obtain U' V' where *: "bpe_phase D k t = U' @ V'"
    "merge_pass (D ! k) U' = U" "merge_pass (D ! k) V' = V"
    using merge_pass_split [of "D ! k" "bpe_phase D k t" U V] by auto
  have c: "concat U = concat U'" "concat V = concat V'"
    using * by (metis concat_merge_pass)+
  from Suc.IH [OF *(1)] * c Suc.prems show ?case by (auto simp: le_Suc_eq)
qed

lemma bpe_phase_join_iff:
  assumes "u \<noteq> []" and "v \<noteq> []"
  shows "bpe_phase D k (u @ v) = bpe_phase D k u @ bpe_phase D k v \<longleftrightarrow>
     (\<forall>j < k. last (bpe_phase D (Suc j) u) @ hd (bpe_phase D j v) \<noteq> D ! j)"
    (is "?eq k \<longleftrightarrow> ?free k")
proof (induction k)
  case (Suc k)
  have step: "merge_pass (D ! k) (bpe_phase D k u @ bpe_phase D k v) =
      bpe_phase D (Suc k) u @ bpe_phase D (Suc k) v \<longleftrightarrow>
      last (bpe_phase D (Suc k) u) @ hd (bpe_phase D k v) \<noteq> D ! k"
    using merge_pass_append_iff [of "bpe_phase D k u" "bpe_phase D k v" "D ! k"]
      assms bpe_phase_nonempty [of D k v] by simp
  show ?case
  proof
    assume e: "?eq (Suc k)"
    have "?eq k"
      using bpe_phase_split [OF e] by simp
    with e step have "last (bpe_phase D (Suc k) u) @ hd (bpe_phase D k v) \<noteq> D ! k" by simp
    with Suc \<open>?eq k\<close> show "?free (Suc k)" by (auto simp: less_Suc_eq)
  next
    assume f: "?free (Suc k)"
    then have "?eq k" using Suc by auto
    moreover have "last (bpe_phase D (Suc k) u) @ hd (bpe_phase D k v) \<noteq> D ! k"
      using f by blast
    ultimately show "?eq (Suc k)" using step by simp
  qed
qed simp

text \<open>
  The characterisation of encodings: every segment encodes to itself and every
  two neighbours encode to themselves.
\<close>

definition seg_pair :: "'a list list \<Rightarrow> nat \<Rightarrow> 'a list \<Rightarrow> 'a list \<Rightarrow> bool" where
  "seg_pair D k a b \<longleftrightarrow> bpe_phase D k (a @ b) = [a, b]"

lemma seg_pair_free:
  assumes "bpe_phase D k a = [a]" and "bpe_phase D k b = [b]" and "a \<noteq> []" and "b \<noteq> []"
  shows "seg_pair D k a b \<longleftrightarrow>
    (\<forall>j < k. last (bpe_phase D (Suc j) a) @ hd (bpe_phase D j b) \<noteq> D ! j)"
  using bpe_phase_join_iff [of a b D k] assms by (simp add: seg_pair_def)

lemma bpe_phase_chain:
  assumes "\<forall>s \<in> set ts. bpe_phase D k s = [s]" and "adj (seg_pair D k) ts"
  shows "bpe_phase D k (concat ts) = ts"
  using assms
proof (induction ts)
  case (Cons a ts)
  note IH = Cons.IH and prems = Cons.prems
  show ?case
  proof (cases ts)
    case Nil
    with prems show ?thesis by simp
  next
    case (Cons b rest)
    have IH': "bpe_phase D k (concat ts) = [b] @ rest"
      using IH prems Cons by simp
    have ne: "a \<noteq> []" "b \<noteq> []"
      using prems Cons bpe_phase_eq_Nil [of D k a] bpe_phase_eq_Nil [of D k b] by auto
    have hds: "hd (bpe_phase D j (concat ts)) = hd (bpe_phase D j b)" if "j < k" for j
    proof -
      have "bpe_phase D j (concat ts) = bpe_phase D j b @ bpe_phase D j (concat rest)"
        using bpe_phase_split [OF IH'] that by simp
      moreover have "bpe_phase D j b \<noteq> []" using ne by simp
      ultimately show ?thesis by simp
    qed
    have "seg_pair D k a b" using prems Cons by simp
    then have "\<forall>j < k. last (bpe_phase D (Suc j) a) @ hd (bpe_phase D j b) \<noteq> D ! j"
      using seg_pair_free [of D k a b] prems Cons ne by simp
    then have "\<forall>j < k. last (bpe_phase D (Suc j) a) @ hd (bpe_phase D j (concat ts)) \<noteq> D ! j"
      using hds by simp
    then have "bpe_phase D k (a @ concat ts) = bpe_phase D k a @ bpe_phase D k (concat ts)"
      using bpe_phase_join_iff [of a "concat ts" D k] ne Cons by simp
    then show ?thesis using IH' prems Cons by simp
  qed
qed simp

lemma bpe_phase_chainD:
  assumes "bpe_phase D k (concat ts) = ts"
  shows "(\<forall>s \<in> set ts. bpe_phase D k s = [s]) \<and> adj (seg_pair D k) ts"
  using assms
proof (induction ts)
  case (Cons a ts)
  have *: "bpe_phase D k a = [a]" "bpe_phase D k (concat ts) = ts"
    using bpe_phase_split [of D k "concat (a # ts)" "[a]" ts] Cons.prems by simp_all
  have "seg_pair D k a b" if "ts = b # rest" for b rest
    using bpe_phase_split [of D k "concat (a # ts)" "[a, b]" rest] Cons.prems that
    by (simp add: seg_pair_def)
  with * Cons.IH show ?case by (cases ts) auto
qed simp

lemma bpe_phase_iff:
  "bpe_phase D k t = ts \<longleftrightarrow>
     concat ts = t \<and> (\<forall>s \<in> set ts. bpe_phase D k s = [s]) \<and> adj (seg_pair D k) ts"
  using bpe_phase_chain bpe_phase_chainD concat_bpe_phase by metis

text \<open>Consequences for prefixes, suffixes and appended segments.\<close>

lemma bpe_phase_prefix:
  "bpe_phase D k t = U @ V \<Longrightarrow> bpe_phase D k (concat U) = U"
  by (drule bpe_phase_split) simp

lemma bpe_phase_suffix:
  "bpe_phase D k t = U @ V \<Longrightarrow> bpe_phase D k (concat V) = V"
  by (drule bpe_phase_split) simp

lemma bpe_phase_chain_iff:
  "bpe_phase D k (concat ts) = ts \<longleftrightarrow> (\<forall>s \<in> set ts. bpe_phase D k s = [s]) \<and> adj (seg_pair D k) ts"
  by (rule iffI, erule bpe_phase_chainD) (erule conjE, erule (1) bpe_phase_chain)

lemma bpe_phase_self:
  "(\<forall>s \<in> set (bpe_phase D k u). bpe_phase D k s = [s]) \<and> adj (seg_pair D k) (bpe_phase D k u)"
  by (rule bpe_phase_chainD) simp

lemma adj_Cons: "ys \<noteq> [] \<Longrightarrow> adj P (x # ys) \<longleftrightarrow> P x (hd ys) \<and> adj P ys"
  by (cases ys) auto

lemma bpe_phase_snoc:
  assumes s: "bpe_phase D k s = [s]" and u: "u \<noteq> []"
  shows "bpe_phase D k (u @ s) = bpe_phase D k u @ [s] \<longleftrightarrow>
     seg_pair D k (last (bpe_phase D k u)) s"
proof -
  define X where "X = bpe_phase D k u"
  have X: "X \<noteq> []" "concat X = u" "\<forall>s \<in> set X. bpe_phase D k s = [s]" "adj (seg_pair D k) X"
    using u bpe_phase_self [of D k u] by (simp_all add: X_def)
  have "bpe_phase D k (concat (X @ [s])) = X @ [s] \<longleftrightarrow> seg_pair D k (last X) s"
    unfolding bpe_phase_chain_iff adj_snoc using X s by simp
  then show ?thesis using X by (simp add: X_def)
qed

lemma bpe_phase_cons:
  assumes s: "bpe_phase D k s = [s]" and u: "u \<noteq> []"
  shows "bpe_phase D k (s @ u) = s # bpe_phase D k u \<longleftrightarrow>
     seg_pair D k s (hd (bpe_phase D k u))"
proof -
  define X where "X = bpe_phase D k u"
  have X: "X \<noteq> []" "concat X = u" "\<forall>s \<in> set X. bpe_phase D k s = [s]" "adj (seg_pair D k) X"
    using u bpe_phase_self [of D k u] by (simp_all add: X_def)
  have "bpe_phase D k (concat (s # X)) = s # X \<longleftrightarrow> seg_pair D k s (hd X)"
    unfolding bpe_phase_chain_iff adj_Cons [OF X(1)] using X s by simp
  then show ?thesis using X by (simp add: X_def)
qed

text \<open>Replacing a prefix of an encoding by another with the same last segment.\<close>

lemma bpe_phase_graft:
  assumes "bpe_phase D k t = U @ R" and "bpe_phase D k u = W"
    and "U \<noteq> []" and "W \<noteq> []" and "last U = last W"
  shows "bpe_phase D k (u @ concat R) = W @ R"
proof -
  have W: "concat W = u" using assms(2) by auto
  have "adj (seg_pair D k) (U @ R)" "\<forall>s \<in> set (U @ R). bpe_phase D k s = [s]"
    using assms(1) bpe_phase_iff by blast+
  moreover have "adj (seg_pair D k) W" "\<forall>s \<in> set W. bpe_phase D k s = [s]"
    using assms(2) bpe_phase_iff by blast+
  ultimately have "adj (seg_pair D k) (W @ R)" "\<forall>s \<in> set (W @ R). bpe_phase D k s = [s]"
    using assms(3-5) by (auto simp: adj_append)
  then have "bpe_phase D k (concat (W @ R)) = W @ R" by (rule bpe_phase_chain [rotated])
  then show ?thesis using W by simp
qed

end
