(* ===== verification/Bpe_Merges.thy ===== *)
theory Bpe_Merges
  imports Bpe_Reference
begin

text \<open>
  Dictionaries and merge tables. A dictionary is well formed when its tokens are
  distinct and not empty and every token longer than one byte is made, in its
  own phase, from two tokens of smaller rank: this is what a dictionary trained
  by byte pair encoding satisfies. The encoding of a text is then a list of token
  ids. The split table and the pair table of the C code record for each
  token the two parts it is made from; \<open>tables_ok D k\<close> says that they do so for
  the tokens below \<open>k\<close>. The last part relates the walk of
  \<^verbatim>\<open>bpe_is_valid_token_pair\<close> over these tables to the reference semantics.
\<close>

subsection \<open>Well-formed dictionaries\<close>

definition formed :: "'a list list \<Rightarrow> nat \<Rightarrow> bool" where
  "formed D k \<longleftrightarrow>
     (case bpe_phase D k (D ! k) of
        [a, b] \<Rightarrow> a \<in> set (take k D) \<and> b \<in> set (take k D)
      | _ \<Rightarrow> False)"

definition wf_dict :: "'a list list \<Rightarrow> bool" where
  "wf_dict D \<longleftrightarrow> distinct D \<and> [] \<notin> set D \<and>
     (\<forall>k \<in> set [0..<length D]. length (D ! k) = 1 \<or> formed D k)"

definition covers :: "'a list list \<Rightarrow> 'a list \<Rightarrow> bool" where
  "covers D t \<longleftrightarrow> (\<forall>b \<in> set t. [b] \<in> set D)"

fun tok_id :: "'a list list \<Rightarrow> 'a list \<Rightarrow> nat" where
  "tok_id [] s = 0"
| "tok_id (d # D) s = (if d = s then 0 else Suc (tok_id D s))"

text \<open>The encoding of a text: the reference result the encoders are compared with.\<close>

definition bpe_encode :: "'a list list \<Rightarrow> 'a list \<Rightarrow> 'a list list" where
  "bpe_encode D t = bpe_phase D (length D) t"

definition bpe_ids :: "'a list list \<Rightarrow> 'a list \<Rightarrow> nat list" where
  "bpe_ids D t = map (tok_id D) (bpe_encode D t)"

lemma tok_id_less: "s \<in> set D \<Longrightarrow> tok_id D s < length D"
  by (induction D) auto

lemma nth_tok_id [simp]: "s \<in> set D \<Longrightarrow> D ! tok_id D s = s"
  by (induction D) auto

lemma tok_id_nth: "distinct D \<Longrightarrow> i < length D \<Longrightarrow> tok_id D (D ! i) = i"
  by (metis nth_eq_iff_index_eq nth_mem nth_tok_id tok_id_less)

lemma formed_cases:
  assumes "formed D k" and "k < length D"
  obtains i j where "i < k" "j < k" "bpe_phase D k (D ! k) = [D ! i, D ! j]"
proof -
  obtain a b where ab: "bpe_phase D k (D ! k) = [a, b]" "a \<in> set (take k D)" "b \<in> set (take k D)"
    using assms(1) by (auto simp: formed_def split: list.splits)
  then obtain i j where "i < k" "j < k" "a = D ! i" "b = D ! j"
    using assms(2) by (auto simp: in_set_conv_nth)
  with ab that show ?thesis by blast
qed

lemma wf_dict_distinct: "wf_dict D \<Longrightarrow> distinct D"
  by (simp add: wf_dict_def)

lemma wf_dict_nonempty: "wf_dict D \<Longrightarrow> i < length D \<Longrightarrow> D ! i \<noteq> []"
  unfolding wf_dict_def by (metis nth_mem)

lemma wf_dict_formed: "wf_dict D \<Longrightarrow> i < length D \<Longrightarrow> length (D ! i) \<noteq> 1 \<Longrightarrow> formed D i"
  unfolding wf_dict_def by (metis atLeastLessThan_iff le0 set_upt)

lemma unit_alone: "length s = 1 \<Longrightarrow> bpe_phase D j s = [s]"
  by (cases s) auto

lemma formed_alone:
  assumes "formed D i" and "i < length D" and "i < j"
  shows "bpe_phase D j (D ! i) = [D ! i]"
proof -
  obtain a b where "bpe_phase D i (D ! i) = [D ! a, D ! b]"
    using formed_cases assms by metis
  moreover then have "D ! a @ D ! b = D ! i" by (metis concat_bpe_phase concat.simps append_Nil2)
  ultimately have "bpe_phase D (Suc i) (D ! i) = [D ! i]" by simp
  then show ?thesis using assms(3) by (meson Suc_leI bpe_phase_alone_mono)
qed

lemma wf_dict_alone:
  assumes "wf_dict D" and "i < length D" and "length (D ! i) = 1 \<or> i < j"
  shows "bpe_phase D j (D ! i) = [D ! i]"
  using assms unit_alone formed_alone wf_dict_formed by blast

lemma wf_dict_covers:
  assumes "wf_dict D" and "i < length D"
  shows "covers D (D ! i)"
  using assms(2)
proof (induction i rule: less_induct)
  case (less i)
  show ?case
  proof (cases "length (D ! i) = 1")
    case True
    then obtain b where "D ! i = [b]" by (auto simp: length_Suc_conv)
    then show ?thesis using less.prems by (metis covers_def empty_iff empty_set insert_iff list.simps(15) nth_mem)
  next
    case False
    then obtain a b where ab: "a < i" "b < i" "bpe_phase D i (D ! i) = [D ! a, D ! b]"
      using wf_dict_formed formed_cases assms(1) less.prems by metis
    then have "D ! i = D ! a @ D ! b"
      by (metis concat_bpe_phase concat.simps append_Nil2)
    then show ?thesis using less ab by (auto simp: covers_def)
  qed
qed

lemma bpe_encode_tokens:
  assumes "covers D t" and "s \<in> set (bpe_encode D t)"
  shows "s \<in> set D"
  using assms set_bpe_phase [of "length D" D s t] by (auto simp: bpe_encode_def covers_def)

lemma concat_bpe_encode [simp]: "concat (bpe_encode D t) = t"
  by (simp add: bpe_encode_def)

lemma bpe_ids_decode:
  "covers D t \<Longrightarrow> concat (map (\<lambda>i. D ! i) (bpe_ids D t)) = t"
proof -
  assume "covers D t"
  then have "map (\<lambda>i. D ! i) (bpe_ids D t) = bpe_encode D t"
    unfolding bpe_ids_def map_map by (intro map_idI) (simp add: bpe_encode_tokens)
  then show ?thesis by simp
qed

lemma bpe_ids_less: "covers D t \<Longrightarrow> i \<in> set (bpe_ids D t) \<Longrightarrow> i < length D"
  by (auto simp: bpe_ids_def dest: bpe_encode_tokens intro: tok_id_less)

lemma bpe_ids_Nil [simp]: "bpe_ids D [] = []"
  by (simp add: bpe_ids_def bpe_encode_def)

text \<open>
  The pairs of tokens that may stand next to each other in an encoding, by id,
  and the characterisation of encodings by ids.
\<close>

definition ok_pair :: "'a list list \<Rightarrow> nat \<Rightarrow> nat \<Rightarrow> bool" where
  "ok_pair D i j \<longleftrightarrow> seg_pair D (length D) (D ! i) (D ! j)"

lemma bpe_ids_iff:
  assumes "wf_dict D" and "\<forall>i \<in> set ts. i < length D"
  shows "bpe_ids D (concat (map (\<lambda>i. D ! i) ts)) = ts \<longleftrightarrow> adj (ok_pair D) ts"
proof -
  let ?ss = "map (\<lambda>i. D ! i) ts"
  have cov: "covers D (concat ?ss)"
    using wf_dict_covers [OF assms(1)] assms(2) by (auto simp: covers_def)
  have alone: "\<forall>s \<in> set ?ss. bpe_phase D (length D) s = [s]"
    using wf_dict_alone assms by auto
  have inv: "map (tok_id D) ?ss = ts"
    unfolding map_map using tok_id_nth [OF wf_dict_distinct [OF assms(1)]] assms(2)
    by (intro map_idI) simp
  have "bpe_ids D (concat ?ss) = ts \<longleftrightarrow> bpe_encode D (concat ?ss) = ?ss"
  proof
    assume "bpe_ids D (concat ?ss) = ts"
    then have "?ss = map (\<lambda>i. D ! i) (map (tok_id D) (bpe_encode D (concat ?ss)))"
      by (simp add: bpe_ids_def)
    also have "\<dots> = bpe_encode D (concat ?ss)"
      unfolding map_map by (intro map_idI) (simp add: bpe_encode_tokens [OF cov])
    finally show "bpe_encode D (concat ?ss) = ?ss" by simp
  next
    assume "bpe_encode D (concat ?ss) = ?ss"
    then show "bpe_ids D (concat ?ss) = ts" using inv by (simp add: bpe_ids_def)
  qed
  also have "\<dots> \<longleftrightarrow> adj (ok_pair D) ts"
    using bpe_phase_chain_iff [of D "length D" ?ss] alone
    by (simp add: bpe_encode_def adj_map ok_pair_def [abs_def])
  finally show ?thesis .
qed

subsection \<open>The merge tables\<close>

text \<open>
  \<open>cross D u v c\<close>: at phase \<open>c\<close> the token \<open>c\<close> is formed across the seam
  between \<open>u\<close> and \<open>v\<close>. Two texts encode independently when this happens at no phase.
\<close>

definition cross :: "'a list list \<Rightarrow> 'a list \<Rightarrow> 'a list \<Rightarrow> nat \<Rightarrow> bool" where
  "cross D u v c \<longleftrightarrow>
     bpe_phase D c (D ! c) = [last (bpe_phase D (Suc c) u), hd (bpe_phase D c v)]"

lemma bpe_phase_join_cross:
  assumes ne: "u \<noteq> []" "v \<noteq> []"
  shows "bpe_phase D k (u @ v) = bpe_phase D k u @ bpe_phase D k v \<longleftrightarrow> (\<forall>c < k. \<not> cross D u v c)"
    (is "?eq k \<longleftrightarrow> _")
proof
  assume eq: "?eq k"
  show "\<forall>c < k. \<not> cross D u v c"
  proof (intro allI impI notI)
    fix c assume "c < k" "cross D u v c"
    then have "last (bpe_phase D (Suc c) u) @ hd (bpe_phase D c v) = D ! c"
      by (metis cross_def concat_bpe_phase concat.simps append_Nil2)
    with \<open>c < k\<close> eq bpe_phase_join_iff [OF ne] show False by blast
  qed
next
  assume nc: "\<forall>c < k. \<not> cross D u v c"
  then show "?eq k"
  proof (induction k)
    case (Suc c)
    then have eq: "?eq c" by auto
    let ?a = "last (bpe_phase D (Suc c) u)" and ?b = "hd (bpe_phase D c v)"
    have "?a @ ?b \<noteq> D ! c"
    proof
      assume seam: "?a @ ?b = D ! c"
      have "?b \<noteq> []" using ne bpe_phase_nonempty [of D c v] by (metis bpe_phase_eq_Nil hd_in_set)
      then have "?a \<noteq> D ! c" using seam by auto
      then have a: "?a = last (bpe_phase D c u)"
        using last_merge_pass [of "bpe_phase D c u" "D ! c"] ne by auto
      have "bpe_phase D c (u @ v) =
          (butlast (bpe_phase D c u) @ [?a, ?b]) @ tl (bpe_phase D c v)"
        using eq ne by (simp add: a del: bpe_phase.simps)
      from bpe_phase_prefix [OF this]
      have "bpe_phase D c (concat (butlast (bpe_phase D c u)) @ ?a @ ?b) =
          butlast (bpe_phase D c u) @ [?a, ?b]"
        by (simp del: bpe_phase.simps)
      from bpe_phase_suffix [OF this]
      have "bpe_phase D c (D ! c) = [?a, ?b]" using seam by (simp del: bpe_phase.simps)
      with Suc.prems show False by (simp add: cross_def del: bpe_phase.simps)
    qed
    then show ?case
      using eq bpe_phase_join_iff [OF ne, of D c] bpe_phase_join_iff [OF ne, of D "Suc c"]
      by (auto simp: less_Suc_eq)
  qed simp
qed

text \<open>
  \<open>tables_ok D k sl sr P\<close>: below \<open>k\<close> the tables \<open>sl\<close>, \<open>sr\<close> hold the two parts of every
  token longer than one byte, every other token is its own part, and
  \<open>P\<close> maps exactly these pairs of parts to their tokens.
\<close>

definition tables_ok :: "'a list list \<Rightarrow> nat \<Rightarrow> nat list \<Rightarrow> nat list \<Rightarrow> (nat \<Rightarrow> nat \<Rightarrow> nat option) \<Rightarrow> bool" where
  "tables_ok D k sl sr P \<longleftrightarrow>
     k \<le> length D \<and> length sl = length D \<and> length sr = length D \<and>
     (\<forall>i < length D.
        if i < k \<and> length (D ! i) \<noteq> 1
        then sl ! i < i \<and> sr ! i < i \<and> bpe_phase D i (D ! i) = [D ! (sl ! i), D ! (sr ! i)]
        else sl ! i = i \<and> sr ! i = i) \<and>
     (\<forall>a b c. P a b = Some c \<longleftrightarrow> c < k \<and> length (D ! c) \<noteq> 1 \<and> sl ! c = a \<and> sr ! c = b)"

text \<open>Tokens that exist for the tables: single bytes, and tokens below \<open>k\<close>.\<close>

definition live :: "'a list list \<Rightarrow> nat \<Rightarrow> nat \<Rightarrow> bool" where
  "live D k t \<longleftrightarrow> t < length D \<and> (length (D ! t) = 1 \<or> t < k)"

lemma tables_unit:
  "tables_ok D k sl sr P \<Longrightarrow> i < length D \<Longrightarrow> length (D ! i) = 1 \<Longrightarrow> sl ! i = i \<and> sr ! i = i"
  unfolding tables_ok_def by (metis (no_types, lifting))

lemma tables_parts:
  "tables_ok D k sl sr P \<Longrightarrow> i < k \<Longrightarrow> length (D ! i) \<noteq> 1 \<Longrightarrow>
     sl ! i < i \<and> sr ! i < i \<and> bpe_phase D i (D ! i) = [D ! (sl ! i), D ! (sr ! i)]"
  unfolding tables_ok_def by (metis (no_types, lifting) order.strict_trans2)

lemma tables_lookup:
  "tables_ok D k sl sr P \<Longrightarrow>
     P a b = Some c \<longleftrightarrow> c < k \<and> length (D ! c) \<noteq> 1 \<and> sl ! c = a \<and> sr ! c = b"
  unfolding tables_ok_def by blast

lemma tables_bound: "tables_ok D k sl sr P \<Longrightarrow> k \<le> length D"
  by (simp add: tables_ok_def)

lemma tables_live:
  assumes "tables_ok D k sl sr P" and "live D k t"
  shows "live D k (sl ! t)" and "live D k (sr ! t)"
  using assms tables_unit [OF assms(1), of t] tables_parts [OF assms(1), of t] tables_bound [OF assms(1)]
  by (cases "length (D ! t) = 1"; auto simp: live_def)+

lemma tables_fix_iff:
  assumes "tables_ok D k sl sr P" and "live D k t"
  shows "sl ! t = t \<longleftrightarrow> length (D ! t) = 1" and "sr ! t = t \<longleftrightarrow> length (D ! t) = 1"
  using assms tables_unit [OF assms(1), of t] tables_parts [OF assms(1), of t]
  by (cases "length (D ! t) = 1"; auto simp: live_def)+

text \<open>The segmentation of a token before and after it is formed.\<close>

lemma token_phase_before:
  assumes "tables_ok D k sl sr P" and "i < k" and "length (D ! i) \<noteq> 1" and "j \<le> i"
  shows "bpe_phase D j (D ! i) = bpe_phase D j (D ! (sl ! i)) @ bpe_phase D j (D ! (sr ! i))"
  using bpe_phase_split [of D i "D ! i" "[D ! (sl ! i)]" "[D ! (sr ! i)]"]
    tables_parts [OF assms(1-3)] assms(4) by auto

lemma live_alone:
  assumes "wf_dict D" and "live D k t" and "length (D ! t) = 1 \<or> t < j"
  shows "bpe_phase D j (D ! t) = [D ! t]"
  using assms wf_dict_alone by (auto simp: live_def)

text \<open>At a phase where both tokens are whole, a crossing is an entry of the pair table.\<close>

lemma cross_whole:
  assumes "wf_dict D" and "tables_ok D k sl sr P" and "live D k t1" and "live D k t2" and "c < k"
    and "length (D ! t1) = 1 \<or> t1 < Suc c" and "length (D ! t2) = 1 \<or> t2 < c"
  shows "cross D (D ! t1) (D ! t2) c \<longleftrightarrow> P t1 t2 = Some c"
proof -
  have c: "c < length D" using assms(2,5) tables_bound by fastforce
  have "cross D (D ! t1) (D ! t2) c \<longleftrightarrow> bpe_phase D c (D ! c) = [D ! t1, D ! t2]"
    using live_alone [OF assms(1,3), of "Suc c"] live_alone [OF assms(1,4), of c] assms(6,7)
    by (simp add: cross_def del: bpe_phase.simps)
  also have "\<dots> \<longleftrightarrow> P t1 t2 = Some c"
  proof (cases "length (D ! c) = 1")
    case True
    then show ?thesis using unit_alone [of "D ! c" D c] tables_lookup [OF assms(2)] by auto
  next
    case False
    have inj: "D ! a = D ! b \<longleftrightarrow> a = b" if "a < length D" "b < length D" for a b
      using that wf_dict_distinct [OF assms(1)] by (simp add: nth_eq_iff_index_eq)
    have parts: "sl ! c < c" "sr ! c < c" "bpe_phase D c (D ! c) = [D ! (sl ! c), D ! (sr ! c)]"
      using tables_parts [OF assms(2,5) False] by auto
    have t: "t1 < length D" "t2 < length D" using assms(3,4) by (auto simp: live_def)
    show ?thesis
      using parts t c inj [of "sl ! c" t1] inj [of "sr ! c" t2]
        tables_lookup [OF assms(2), of t1 t2 c] assms(5) False by auto
  qed
  finally show ?thesis .
qed

text \<open>
  The steps of the walk. \<open>no_cross D k t1 t2 lim\<close>: no crossing below the limit. When
  the later formed of the two tokens is replaced by its part next to the
  seam, only the phases up to its formation remain.
\<close>

definition no_cross :: "'a list list \<Rightarrow> nat \<Rightarrow> nat \<Rightarrow> nat \<Rightarrow> nat \<Rightarrow> bool" where
  "no_cross D k t1 t2 lim \<longleftrightarrow> (\<forall>c < k. c < lim \<longrightarrow> \<not> cross D (D ! t1) (D ! t2) c)"

lemma no_cross_hit:
  assumes "wf_dict D" and "tables_ok D k sl sr P" and "live D k t1" and "live D k t2"
    and "P t1 t2 = Some c" and "c < lim"
  shows "\<not> no_cross D k t1 t2 lim"
proof -
  have c: "c < k" "length (D ! c) \<noteq> 1" "sl ! c = t1" "sr ! c = t2"
    using assms(5) tables_lookup [OF assms(2)] by auto
  then have "t1 < c" "t2 < c" using tables_parts [OF assms(2) c(1,2)] by auto
  then have "cross D (D ! t1) (D ! t2) c"
    using cross_whole [OF assms(1-4) c(1)] assms(5) by simp
  with c assms(6) show ?thesis by (auto simp: no_cross_def)
qed

lemma no_cross_left:
  assumes wf: "wf_dict D" and tb: "tables_ok D k sl sr P" and l1: "live D k t1" and l2: "live D k t2"
    and miss: "\<forall>c. P t1 t2 = Some c \<longrightarrow> lim \<le> c"
    and t1: "length (D ! t1) \<noteq> 1" "t1 \<le> lim" and t2: "length (D ! t2) = 1 \<or> t2 < t1"
  shows "no_cross D k t1 t2 lim \<longleftrightarrow> no_cross D k (sr ! t1) t2 t1"
proof -
  have t1k: "t1 < k" using l1 t1 by (auto simp: live_def)
  have late: "\<not> cross D (D ! t1) (D ! t2) c" if "c < k" "c < lim" "t1 \<le> c" for c
    using cross_whole [OF wf tb l1 l2 that(1)] t2 miss that by fastforce
  have early: "cross D (D ! t1) (D ! t2) c \<longleftrightarrow> cross D (D ! (sr ! t1)) (D ! t2) c" if "c < t1" for c
  proof -
    have "sr ! t1 < length D" using tables_live [OF tb l1] by (auto simp: live_def)
    then have "bpe_phase D (Suc c) (D ! (sr ! t1)) \<noteq> []"
      using wf_dict_nonempty [OF wf] by (simp del: bpe_phase.simps)
    then have "last (bpe_phase D (Suc c) (D ! t1)) = last (bpe_phase D (Suc c) (D ! (sr ! t1)))"
      using token_phase_before [OF tb t1k t1(1), of "Suc c"] that by (simp del: bpe_phase.simps)
    then show ?thesis by (simp add: cross_def del: bpe_phase.simps)
  qed
  show ?thesis
    using late early t1(2) t1k unfolding no_cross_def
    by (meson not_le order.strict_trans order.strict_trans2)
qed

lemma no_cross_right:
  assumes wf: "wf_dict D" and tb: "tables_ok D k sl sr P" and l1: "live D k t1" and l2: "live D k t2"
    and miss: "\<forall>c. P t1 t2 = Some c \<longrightarrow> lim \<le> c"
    and t2: "length (D ! t2) \<noteq> 1" "Suc t2 \<le> lim" and t1: "length (D ! t1) = 1 \<or> t1 \<le> t2"
  shows "no_cross D k t1 t2 lim \<longleftrightarrow> no_cross D k t1 (sl ! t2) (Suc t2)"
proof -
  have t2k: "t2 < k" using l2 t2 by (auto simp: live_def)
  have late: "\<not> cross D (D ! t1) (D ! t2) c" if "c < k" "c < lim" "Suc t2 \<le> c" for c
    using cross_whole [OF wf tb l1 l2 that(1)] t1 miss that by fastforce
  have early: "cross D (D ! t1) (D ! t2) c \<longleftrightarrow> cross D (D ! t1) (D ! (sl ! t2)) c" if "c \<le> t2" for c
  proof -
    have "sl ! t2 < length D" using tables_live [OF tb l2] by (auto simp: live_def)
    then have "bpe_phase D c (D ! (sl ! t2)) \<noteq> []"
      using wf_dict_nonempty [OF wf] by simp
    then have "hd (bpe_phase D c (D ! t2)) = hd (bpe_phase D c (D ! (sl ! t2)))"
      using token_phase_before [OF tb t2k t2(1), of c] that by simp
    then show ?thesis by (simp add: cross_def del: bpe_phase.simps)
  qed
  show ?thesis
    using late early t2(2) t2k unfolding no_cross_def
    by (meson less_Suc_eq_le not_le order.strict_trans order.strict_trans2)
qed

lemma no_cross_done:
  assumes "wf_dict D" and "tables_ok D k sl sr P" and "live D k t1" and "live D k t2"
    and "\<forall>c. P t1 t2 = Some c \<longrightarrow> lim \<le> c"
    and "length (D ! t1) = 1" and "length (D ! t2) = 1"
  shows "no_cross D k t1 t2 lim"
  unfolding no_cross_def using cross_whole [OF assms(1-4)] assms(5-7) by fastforce

lemma no_cross_seg_pair:
  assumes wf: "wf_dict D" and tb: "tables_ok D k sl sr P" and l1: "live D k t1" and l2: "live D k t2"
    and "k \<le> lim"
  shows "no_cross D k t1 t2 lim \<longleftrightarrow> seg_pair D k (D ! t1) (D ! t2)"
proof -
  have "live D k t \<Longrightarrow> bpe_phase D k (D ! t) = [D ! t] \<and> D ! t \<noteq> []" for t
    using live_alone [OF wf, of k t k] wf_dict_nonempty [OF wf] by (auto simp: live_def)
  then show ?thesis
    using bpe_phase_join_cross [of "D ! t1" "D ! t2" D k] l1 l2 assms(5)
    by (auto simp: no_cross_def seg_pair_def)
qed

end
