(* ===== verification/Hash_Tables.thy ===== *)
theory Hash_Tables
  imports Bpe_Prelude "HOL-Library.Multiset"
begin

unbundle bit_operations_syntax

text \<open>
  The hash maps of \<^verbatim>\<open>include/fnv_hash.h\<close>: the FNV-1a hash, \<^verbatim>\<open>BytesMap\<close> (token hash to
  token id, fixed capacity) and \<^verbatim>\<open>PairMap\<close> (pair of tokens to merged token, growing
  at half load). Both are open addressing tables with linear probing; a slot
  is empty when its value is \<open>UINT32_MAX\<close>. The uninitialised key fields of
  an empty \<^verbatim>\<open>PairMapSlot\<close> are modelled as 0; no code reads them.

  The locale \<open>lookup_table\<close> is the interface the encoder construction relies on; both
  maps are shown to provide it, so that a lookup returns what was put and
  no probe loop runs forever.
\<close>

subsection \<open>Hash functions\<close>

definition fnv1a_hash_bytes :: "bytes \<Rightarrow> u64" where
  "fnv1a_hash_bytes bs =
     foldl (\<lambda>h b. (h XOR ucast b) * 0x100000001b3) 0xcbf29ce484222325 bs"

definition bpe_hash_bytes :: "bytes \<Rightarrow> u64 \<Rightarrow> u32" where
  "bpe_hash_bytes bs factor = ucast (drop_bit 32 (fnv1a_hash_bytes bs * factor))"

definition pairmap_hash :: "nat \<Rightarrow> nat \<Rightarrow> u32" where
  "pairmap_hash t1 t2 =
     (let key = push_bit 32 (of_nat t1 :: u64) OR of_nat t2;
          key = key XOR drop_bit 30 key;
          key = key * 0xbf58476d1ce4e5b9;
          key = key XOR drop_bit 27 key;
          key = key * 0x94d049bb133111eb
      in ucast (drop_bit 32 key))"

subsection \<open>Capacity and probing\<close>

text \<open>\<^verbatim>\<open>while (cap < initial_cap * 2) cap <<= 1;\<close> in 32-bit arithmetic.\<close>

partial_function (option) round_cap :: "nat \<Rightarrow> nat \<Rightarrow> nat option" where
  "round_cap cap lim = (if cap < lim then round_cap ((cap * 2) mod 2 ^ 32) lim else Some cap)"

text \<open>The probe loops: walk from \<open>idx\<close> until a slot satisfies \<open>stop\<close>.\<close>

partial_function (option) probe :: "('s \<Rightarrow> bool) \<Rightarrow> 's list \<Rightarrow> nat \<Rightarrow> nat \<Rightarrow> nat option" where
  "probe stop slots msk idx = do {
     s \<leftarrow> rd slots idx;
     if stop s then Some idx else probe stop slots msk (Suc idx AND msk)
   }"

lemma round_cap_spec:
  assumes "lim \<le> 2 ^ 31" and "e \<le> 31"
  shows "\<exists>e'. round_cap (2 ^ e) lim = Some (2 ^ e') \<and> lim \<le> 2 ^ e' \<and> e \<le> e' \<and> e' \<le> 31"
  using assms(2)
proof (induction "31 - e" arbitrary: e)
  case 0
  then have "e = 31" by simp
  then show ?case using assms(1) by (intro exI [of _ 31]) (simp add: round_cap.simps)
next
  case (Suc d)
  show ?case
  proof (cases "2 ^ e < lim")
    case True
    have "(2::nat) ^ Suc e < 2 ^ 32"
      using Suc.hyps(2) by (intro power_strict_increasing) auto
    then have "round_cap (2 ^ e) lim = round_cap (2 ^ Suc e) lim"
      using True by (subst round_cap.simps) (simp add: mult.commute)
    moreover obtain e' where "round_cap (2 ^ Suc e) lim = Some (2 ^ e')" "lim \<le> 2 ^ e'"
      "Suc e \<le> e'" "e' \<le> 31"
    proof -
      have "d = 31 - Suc e" "Suc e \<le> 31" using Suc.hyps(2) by auto
      from Suc.hyps(1) [OF this] that show thesis by blast
    qed
    ultimately show ?thesis by (intro exI [of _ e']) simp
  next
    case False
    then show ?thesis using Suc.prems by (intro exI [of _ e]) (simp add: round_cap.simps)
  qed
qed

lemma and_mask: "(i::nat) AND (2 ^ e - Suc 0) = i mod 2 ^ e"
  by (metis One_nat_def mask_eq_exp_minus_1 take_bit_eq_mask take_bit_eq_mod)

text \<open>The slot reached after \<open>j\<close> steps of a probe from \<open>h\<close> in a table of \<open>n\<close> slots.\<close>

definition slot_at :: "nat \<Rightarrow> nat \<Rightarrow> nat \<Rightarrow> nat" where
  "slot_at n h j = (h + j) mod n"

lemma slot_at_less [simp]: "0 < n \<Longrightarrow> slot_at n h j < n"
  by (simp add: slot_at_def)

lemma slot_at_Suc: "slot_at n (Suc h mod n) j = slot_at n h (Suc j)"
  by (simp add: slot_at_def mod_simps)

lemma slot_at_onto:
  assumes "h < n" and "i < n"
  obtains j where "j < n" "slot_at n h j = i"
proof (cases "h \<le> i")
  case True
  then have "slot_at n h (i - h) = i" using assms by (simp add: slot_at_def)
  then show ?thesis using that [of "i - h"] assms by simp
next
  case False
  then have "slot_at n h (i + n - h) = i" using assms by (simp add: slot_at_def)
  then show ?thesis using that [of "i + n - h"] assms False by simp
qed

lemma slot_at_inj:
  assumes "slot_at n h i = slot_at n h j" and "i < n" and "j < n"
  shows "i = j"
proof -
  have aux: "a = b" if "slot_at n h a = slot_at n h b" "a < n" "b < n" "a \<le> b" for a b
  proof -
    have "n dvd (h + b) - (h + a)"
      using that mod_eq_dvd_iff_nat [of "h + a" "h + b" n] by (simp add: slot_at_def)
    then show ?thesis using that nat_dvd_not_less [of "b - a" n] by (cases "a = b") auto
  qed
  show ?thesis
    using aux [of i j] aux [of j i] assms by (metis nat_le_linear)
qed

text \<open>A probe stops at the first slot in probe order that satisfies the predicate.\<close>

lemma probe_first:
  assumes "length slots = 2 ^ e" and "h < 2 ^ e"
    and "stop (slots ! slot_at (2 ^ e) h j)"
    and "\<forall>i < j. \<not> stop (slots ! slot_at (2 ^ e) h i)"
  shows "probe stop slots (2 ^ e - 1) h = Some (slot_at (2 ^ e) h j)"
  using assms(2-)
proof (induction j arbitrary: h)
  case 0
  then have "slot_at (2 ^ e) h 0 = h" by (simp add: slot_at_def)
  with 0 assms(1) show ?case by (subst probe.simps) simp
next
  case (Suc j)
  have h0: "slot_at (2 ^ e) h 0 = h" using Suc.prems by (simp add: slot_at_def)
  have "\<not> stop (slots ! h)" using Suc.prems(3) h0 by (metis zero_less_Suc)
  moreover have "probe stop slots (2 ^ e - 1) (Suc h mod 2 ^ e) = Some (slot_at (2 ^ e) (Suc h mod 2 ^ e) j)"
    using Suc.prems by (intro Suc.IH) (simp_all add: slot_at_Suc)
  ultimately show ?case
    using assms(1) Suc.prems(1) by (subst probe.simps) (simp add: and_mask slot_at_Suc)
qed

lemma probe_exists:
  assumes "length slots = 2 ^ e" and "h < 2 ^ e" and "i < 2 ^ e" and "stop (slots ! i)"
  obtains j where "j < 2 ^ e" "probe stop slots (2 ^ e - 1) h = Some (slot_at (2 ^ e) h j)"
    "stop (slots ! slot_at (2 ^ e) h j)" "\<forall>i < j. \<not> stop (slots ! slot_at (2 ^ e) h i)"
proof -
  obtain j0 where j0: "j0 < 2 ^ e" "slot_at (2 ^ e) h j0 = i"
    using slot_at_onto assms(2,3) by blast
  define j where "j = (LEAST j. stop (slots ! slot_at (2 ^ e) h j))"
  have j: "stop (slots ! slot_at (2 ^ e) h j)" "j \<le> j0"
    unfolding j_def using assms(4) j0 by (auto intro: LeastI Least_le)
  have "\<forall>i < j. \<not> stop (slots ! slot_at (2 ^ e) h i)"
    unfolding j_def using not_less_Least by blast
  moreover have "j < 2 ^ e" using j(2) j0(1) by simp
  ultimately show ?thesis
    using that [of j] j(1) probe_first [where stop = stop, OF assms(1,2) j(1)] by blast
qed

subsection \<open>Tables with linear probing\<close>

text \<open>
  \<open>probing e emp home slots\<close>: a table of \<open>2 ^ e\<close> slots in which every used slot is
  reached from its home position over used slots only.
\<close>

definition reached :: "nat \<Rightarrow> ('s \<Rightarrow> bool) \<Rightarrow> 's list \<Rightarrow> nat \<Rightarrow> nat \<Rightarrow> bool" where
  "reached e emp slots h i \<longleftrightarrow>
     (\<exists>j < 2 ^ e. slot_at (2 ^ e) h j = i \<and> (\<forall>j' < j. \<not> emp (slots ! slot_at (2 ^ e) h j')))"

definition probing :: "nat \<Rightarrow> ('s \<Rightarrow> bool) \<Rightarrow> ('s \<Rightarrow> nat) \<Rightarrow> 's list \<Rightarrow> bool" where
  "probing e emp home slots \<longleftrightarrow> length slots = 2 ^ e \<and>
     (\<forall>i < 2 ^ e. \<not> emp (slots ! i) \<longrightarrow> reached e emp slots (home (slots ! i)) i)"

definition used :: "('s \<Rightarrow> bool) \<Rightarrow> 's list \<Rightarrow> 's list" where
  "used emp slots = filter (\<lambda>s. \<not> emp s) slots"

lemma probing_replicate: "emp s \<Longrightarrow> probing e emp home (replicate (2 ^ e) s)"
  by (simp add: probing_def)

lemma used_replicate [simp]: "emp s \<Longrightarrow> used emp (replicate n s) = []"
  by (simp add: used_def)

lemma used_full: "length (used emp slots) < length slots \<Longrightarrow> \<exists>i < length slots. emp (slots ! i)"
  unfolding used_def using filter_id_conv [of "\<lambda>s. \<not> emp s" slots]
  by (metis in_set_conv_nth less_irrefl)

lemma used_update:
  assumes "i < length slots" and "emp (slots ! i)" and "\<not> emp s"
  shows "mset (used emp (slots[i := s])) = add_mset s (mset (used emp slots))"
proof -
  have "slots = take i slots @ slots ! i # drop (Suc i) slots"
    using assms(1) by (rule id_take_nth_drop)
  moreover have "slots[i := s] = take i slots @ s # drop (Suc i) slots"
    using assms(1) by (rule upd_conv_take_nth_drop)
  ultimately show ?thesis using assms(2,3) unfolding used_def
    by (metis (no_types, lifting) filter.simps(2) filter_append mset.simps(2) mset_append union_mset_add_mset_right)
qed

text \<open>Looking up: the probe ends at the wanted slot if there is one, else at an empty slot.\<close>

lemma probe_find:
  assumes inv: "probing e emp home slots" and room: "length (used emp slots) < 2 ^ e"
    and h: "h < 2 ^ e" and home: "\<And>s. \<not> emp s \<Longrightarrow> m s \<Longrightarrow> home s = h"
  obtains i where "probe (\<lambda>s. emp s \<or> m s) slots (2 ^ e - 1) h = Some i" "i < 2 ^ e"
    "emp (slots ! i) \<Longrightarrow> \<forall>s \<in> set (used emp slots). \<not> m s"
    "\<not> emp (slots ! i) \<Longrightarrow> m (slots ! i) \<and> slots ! i \<in> set (used emp slots)"
proof -
  have len: "length slots = 2 ^ e" using inv by (simp add: probing_def)
  obtain k where "k < 2 ^ e" "emp (slots ! k)" using used_full room len by metis
  then obtain j where j: "j < 2 ^ e"
    "probe (\<lambda>s. emp s \<or> m s) slots (2 ^ e - 1) h = Some (slot_at (2 ^ e) h j)"
    "emp (slots ! slot_at (2 ^ e) h j) \<or> m (slots ! slot_at (2 ^ e) h j)"
    "\<forall>i < j. \<not> (emp (slots ! slot_at (2 ^ e) h i) \<or> m (slots ! slot_at (2 ^ e) h i))"
    using probe_exists [OF len h, of k "\<lambda>s. emp s \<or> m s"] by blast
  let ?i = "slot_at (2 ^ e) h j"
  have "\<not> m s" if e: "emp (slots ! ?i)" and s: "s \<in> set (used emp slots)" for s
  proof
    assume "m s"
    from s obtain i where i: "i < 2 ^ e" "slots ! i = s" "\<not> emp s"
      using len by (auto simp: used_def in_set_conv_nth)
    then obtain j' where j': "j' < 2 ^ e" "slot_at (2 ^ e) h j' = i"
      "\<forall>j'' < j'. \<not> emp (slots ! slot_at (2 ^ e) h j'')"
      using inv home [OF i(3) \<open>m s\<close>] by (auto simp: probing_def reached_def)
    then have "j' \<le> j" using e by (meson not_le)
    moreover have "j' \<noteq> j" using e j' i by auto
    ultimately show False using j(4) j'(2) i \<open>m s\<close> by auto
  qed
  then show thesis using that [of ?i] j(2,3) len by (auto simp: used_def)
qed

text \<open>Inserting at the first empty slot keeps the table well formed.\<close>

lemma probe_insert:
  assumes inv: "probing e emp home slots" and room: "length (used emp slots) < 2 ^ e"
    and h: "home s < 2 ^ e" and s: "\<not> emp s"
  obtains i where "probe emp slots (2 ^ e - 1) (home s) = Some i" "i < 2 ^ e"
    "probing e emp home (slots[i := s])"
    "mset (used emp (slots[i := s])) = add_mset s (mset (used emp slots))"
proof -
  have len: "length slots = 2 ^ e" using inv by (simp add: probing_def)
  obtain k where "k < 2 ^ e" "emp (slots ! k)" using used_full room len by metis
  then obtain j where j: "j < 2 ^ e"
    "probe emp slots (2 ^ e - 1) (home s) = Some (slot_at (2 ^ e) (home s) j)"
    "emp (slots ! slot_at (2 ^ e) (home s) j)"
    "\<forall>i < j. \<not> emp (slots ! slot_at (2 ^ e) (home s) i)"
    using probe_exists [OF len h, of k emp] by blast
  define i where "i = slot_at (2 ^ e) (home s) j"
  have i: "i < 2 ^ e" "emp (slots ! i)" using j(3) by (simp_all add: i_def)
  have keep: "\<not> emp (slots[i := s] ! x)" if "\<not> emp (slots ! x)" for x
    using that s i len by (cases "x = i") auto
  have "reached e emp (slots[i := s]) (home (slots[i := s] ! x)) x"
    if x: "x < 2 ^ e" "\<not> emp (slots[i := s] ! x)" for x
  proof (cases "x = i")
    case True
    then show ?thesis using j(1,4) keep i len by (auto simp: reached_def i_def)
  next
    case False
    then have "\<not> emp (slots ! x)" using x by simp
    then have "reached e emp slots (home (slots ! x)) x" using inv x by (simp add: probing_def)
    then show ?thesis using False keep by (auto simp: reached_def)
  qed
  then have "probing e emp home (slots[i := s])" using len by (simp add: probing_def)
  moreover have "mset (used emp (slots[i := s])) = add_mset s (mset (used emp slots))"
    using i len by (intro used_update s) simp_all
  ultimately show thesis using that j(2) i by (simp add: i_def)
qed

text \<open>The map a table stands for, by key and value of its used slots.\<close>

definition table_map :: "('s \<Rightarrow> 'k) \<Rightarrow> ('s \<Rightarrow> nat) \<Rightarrow> 's list \<Rightarrow> 'k \<Rightarrow> nat option" where
  "table_map key val us = map_of (map (\<lambda>s. (key s, val s)) us)"

lemma table_map_add:
  assumes "mset us' = add_mset s (mset us)" and "distinct (map key us)"
    and "table_map key val us (key s) = None"
  shows "distinct (map key us') \<and> table_map key val us' = (table_map key val us)(key s \<mapsto> val s)"
proof -
  have "mset (map key us') = mset (key s # map key us)"
    using assms(1) by simp
  moreover have "key s \<notin> key ` set us"
    using assms(3) by (force simp: table_map_def map_of_eq_None_iff)
  ultimately have d: "distinct (map key us')"
    using assms(2) by (metis distinct.simps(2) image_set mset_eq_imp_distinct_iff)
  have d': "distinct (map fst (map (\<lambda>s. (key s, val s)) us'))"
    "distinct (map fst (map (\<lambda>s. (key s, val s)) (s # us)))"
    using d \<open>key s \<notin> key ` set us\<close> assms(2) by (simp_all add: comp_def)
  have "set us' = set (s # us)"
    using assms(1) by (metis mset.simps(2) mset_eq_setD)
  then have "set (map (\<lambda>s. (key s, val s)) us') = set (map (\<lambda>s. (key s, val s)) (s # us))"
    by (metis image_set)
  then have "map_of (map (\<lambda>s. (key s, val s)) us') = map_of (map (\<lambda>s. (key s, val s)) (s # us))"
    using map_of_inject_set d' by blast
  with d show ?thesis by (simp add: table_map_def)
qed

lemma table_map_Some:
  assumes "distinct (map key us)" and "s \<in> set us"
  shows "table_map key val us (key s) = Some (val s)"
  unfolding table_map_def using assms by (intro map_of_is_SomeI) (auto simp: comp_def)

lemma table_map_None: "\<forall>s \<in> set us. key s \<noteq> k \<Longrightarrow> table_map key val us k = None"
  by (auto simp: table_map_def map_of_eq_None_iff)

subsection \<open>BytesMap\<close>

record bytes_map_slot =
  bslot_hash :: u32
  bslot_token :: nat

record bytes_map =
  bm_slots :: "bytes_map_slot list"
  bm_capacity :: nat
  bm_count :: nat

definition bytesmap_new :: "nat \<Rightarrow> bytes_map option" where
  "bytesmap_new initial_cap = do {
     cap \<leftarrow> round_cap 16 ((initial_cap * 2) mod 2 ^ 32);
     Some \<lparr>bm_slots = replicate cap \<lparr>bslot_hash = 0, bslot_token = UINT32_MAX\<rparr>,
           bm_capacity = cap, bm_count = 0\<rparr>
   }"

definition bslot_empty :: "bytes_map_slot \<Rightarrow> bool" where
  "bslot_empty s \<longleftrightarrow> bslot_token s = UINT32_MAX"

definition bytesmap_insert :: "bytes_map \<Rightarrow> u32 \<Rightarrow> nat \<Rightarrow> bytes_map option" where
  "bytesmap_insert m hash token_id = do {
     let msk = bm_capacity m - 1;
     idx \<leftarrow> probe bslot_empty (bm_slots m) msk (unat hash AND msk);
     slots \<leftarrow> wr (bm_slots m) idx \<lparr>bslot_hash = hash, bslot_token = token_id\<rparr>;
     Some (m\<lparr>bm_slots := slots, bm_count := bm_count m + 1\<rparr>)
   }"

definition bytesmap_get :: "bytes_map \<Rightarrow> u32 \<Rightarrow> nat option" where
  "bytesmap_get m hash = do {
     let msk = bm_capacity m - 1;
     idx \<leftarrow> probe (\<lambda>s. bslot_empty s \<or> bslot_hash s = hash) (bm_slots m) msk (unat hash AND msk);
     s \<leftarrow> rd (bm_slots m) idx;
     Some (if bslot_empty s then UINT32_MAX else bslot_token s)
   }"

subsection \<open>PairMap\<close>

record pair_map_slot =
  pslot_t1 :: nat
  pslot_t2 :: nat
  pslot_merged :: nat

record pair_map =
  pm_slots :: "pair_map_slot list"
  pm_capacity :: nat
  pm_count :: nat

definition pslot_none :: pair_map_slot where
  "pslot_none = \<lparr>pslot_t1 = 0, pslot_t2 = 0, pslot_merged = UINT32_MAX\<rparr>"

definition pslot_empty :: "pair_map_slot \<Rightarrow> bool" where
  "pslot_empty s \<longleftrightarrow> pslot_merged s = UINT32_MAX"

definition pairmap_new :: "nat \<Rightarrow> pair_map option" where
  "pairmap_new initial_cap = do {
     cap \<leftarrow> round_cap 16 ((initial_cap * 2) mod 2 ^ 32);
     Some \<lparr>pm_slots = replicate cap pslot_none, pm_capacity = cap, pm_count = 0\<rparr>
   }"

text \<open>Re-insertion of the old slots into the grown table, in slot order.\<close>

fun pairmap_rehash :: "nat \<Rightarrow> pair_map_slot list \<Rightarrow> pair_map_slot list \<Rightarrow> pair_map_slot list option" where
  "pairmap_rehash msk [] slots = Some slots"
| "pairmap_rehash msk (s # old) slots =
     (if pslot_empty s then pairmap_rehash msk old slots
      else do {
        let h = pairmap_hash (pslot_t1 s) (pslot_t2 s);
        idx \<leftarrow> probe pslot_empty slots msk (unat h AND msk);
        slots \<leftarrow> wr slots idx s;
        pairmap_rehash msk old slots
      })"

definition pairmap_grow :: "pair_map \<Rightarrow> pair_map option" where
  "pairmap_grow m = do {
     let cap = (pm_capacity m * 2) mod 2 ^ 32;
     slots \<leftarrow> pairmap_rehash (cap - 1) (pm_slots m) (replicate cap pslot_none);
     Some (m\<lparr>pm_slots := slots, pm_capacity := cap\<rparr>)
   }"

definition pairmap_insert :: "pair_map \<Rightarrow> nat \<Rightarrow> nat \<Rightarrow> nat \<Rightarrow> pair_map option" where
  "pairmap_insert m t1 t2 merged = do {
     m \<leftarrow> (if pm_capacity m \<le> (pm_count m * 2) mod 2 ^ 32 then pairmap_grow m else Some m);
     let msk = pm_capacity m - 1;
     idx \<leftarrow> probe pslot_empty (pm_slots m) msk (unat (pairmap_hash t1 t2) AND msk);
     slots \<leftarrow> wr (pm_slots m) idx \<lparr>pslot_t1 = t1, pslot_t2 = t2, pslot_merged = merged\<rparr>;
     Some (m\<lparr>pm_slots := slots, pm_count := pm_count m + 1\<rparr>)
   }"

definition pairmap_get :: "pair_map \<Rightarrow> nat \<Rightarrow> nat \<Rightarrow> nat option" where
  "pairmap_get m t1 t2 = do {
     let msk = pm_capacity m - 1;
     idx \<leftarrow> probe (\<lambda>s. pslot_empty s \<or> (pslot_t1 s = t1 \<and> pslot_t2 s = t2)) (pm_slots m) msk
              (unat (pairmap_hash t1 t2) AND msk);
     s \<leftarrow> rd (pm_slots m) idx;
     Some (if pslot_empty s then UINT32_MAX else pslot_merged s)
   }"

subsection \<open>The interface: lookup tables\<close>

text \<open>
  \<open>inv r t\<close>: the table is well formed and \<open>r\<close> more insertions fit. \<open>content\<close> is the map
  the table stands for; a key is inserted once.
\<close>

definition found :: "nat option \<Rightarrow> nat" where
  "found v = (case v of None \<Rightarrow> UINT32_MAX | Some c \<Rightarrow> c)"

lemma found_simps [simp]: "found None = UINT32_MAX" "found (Some c) = c"
  by (simp_all add: found_def)

locale lookup_table =
  fixes new :: "nat \<Rightarrow> 't option"
    and put :: "'t \<Rightarrow> 'k \<Rightarrow> nat \<Rightarrow> 't option"
    and get :: "'t \<Rightarrow> 'k \<Rightarrow> nat option"
    and content :: "'t \<Rightarrow> 'k \<Rightarrow> nat option"
    and inv :: "nat \<Rightarrow> 't \<Rightarrow> bool"
  assumes new_ok: "0 < n \<Longrightarrow> n \<le> 2 ^ 30 \<Longrightarrow> \<exists>t. new n = Some t \<and> inv n t \<and> content t = Map.empty"
    and put_ok: "inv (Suc r) t \<Longrightarrow> content t k = None \<Longrightarrow> v \<noteq> UINT32_MAX \<Longrightarrow>
      \<exists>t'. put t k v = Some t' \<and> inv r t' \<and> content t' = (content t)(k \<mapsto> v)"
    and get_ok: "inv r t \<Longrightarrow> get t k = Some (found (content t k))"
begin

text \<open>Putting a list of entries with distinct keys, as the constructors do.\<close>

fun put_all :: "('k \<times> nat) list \<Rightarrow> 't \<Rightarrow> 't option" where
  "put_all [] t = Some t"
| "put_all ((k, v) # es) t = Option.bind (put t k v) (put_all es)"

lemma put_all_ok:
  assumes "inv (length es + r) t" and "distinct (map fst es)"
    and "\<forall>k \<in> fst ` set es. content t k = None" and "\<forall>v \<in> snd ` set es. v \<noteq> UINT32_MAX"
  shows "\<exists>t'. put_all es t = Some t' \<and> inv r t' \<and> content t' = content t ++ map_of es"
  using assms
proof (induction es arbitrary: t)
  case Nil
  then show ?case by simp
next
  case (Cons e es)
  obtain k v where e: "e = (k, v)" by (cases e)
  obtain t1 where t1: "put t k v = Some t1" "inv (length es + r) t1"
    "content t1 = (content t)(k \<mapsto> v)"
    using put_ok [of "length es + r" t k v] Cons.prems e by auto
  have "\<exists>t'. put_all es t1 = Some t' \<and> inv r t' \<and> content t' = content t1 ++ map_of es"
    using Cons.prems e t1 by (intro Cons.IH) force+
  moreover have "(content t)(k \<mapsto> v) ++ map_of es = content t ++ map_of (e # es)"
    using Cons.prems(2) e map_add_upd_left [of k "map_of es" "content t" v]
    by (simp add: dom_map_of_conv_image_fst)
  ultimately show ?case using e t1(1,3) by (metis bind.bind_lunit put_all.simps(2))
qed

end

subsection \<open>BytesMap provides the interface\<close>

definition bm_content :: "bytes_map \<Rightarrow> u32 \<Rightarrow> nat option" where
  "bm_content m = table_map bslot_hash bslot_token (used bslot_empty (bm_slots m))"

definition bm_inv :: "nat \<Rightarrow> bytes_map \<Rightarrow> bool" where
  "bm_inv r m \<longleftrightarrow> (\<exists>e. bm_capacity m = 2 ^ e \<and>
     probing e bslot_empty (\<lambda>s. unat (bslot_hash s) mod 2 ^ e) (bm_slots m) \<and>
     distinct (map bslot_hash (used bslot_empty (bm_slots m))) \<and>
     length (used bslot_empty (bm_slots m)) + r < 2 ^ e)"

lemma round_cap_16:
  assumes "n \<le> 2 ^ 30"
  shows "\<exists>e. round_cap 16 ((n * 2) mod 2 ^ 32) = Some (2 ^ e) \<and> n * 2 \<le> 2 ^ e \<and> 4 \<le> e \<and> e \<le> 31"
proof -
  have "(n * 2) mod 2 ^ 32 = n * 2" using assms by simp
  then show ?thesis using round_cap_spec [of "n * 2" 4] assms by auto
qed

lemma bytesmap_new_ok:
  assumes "0 < n" and "n \<le> 2 ^ 30"
  shows "\<exists>t. bytesmap_new n = Some t \<and> bm_inv n t \<and> bm_content t = Map.empty"
proof -
  obtain e where e: "round_cap 16 ((n * 2) mod 2 ^ 32) = Some (2 ^ e)" "n * 2 \<le> 2 ^ e"
    using round_cap_16 assms(2) by blast
  have emp: "bslot_empty \<lparr>bslot_hash = 0, bslot_token = UINT32_MAX\<rparr>"
    by (simp add: bslot_empty_def)
  show ?thesis
    using e assms(1) probing_replicate [of bslot_empty, OF emp, of e] emp
    by (auto simp: bytesmap_new_def bm_inv_def bm_content_def table_map_def)
qed

lemma bytesmap_insert_ok:
  assumes inv: "bm_inv (Suc r) m" and new: "bm_content m h = None" and v: "v \<noteq> UINT32_MAX"
  shows "\<exists>m'. bytesmap_insert m h v = Some m' \<and> bm_inv r m' \<and> bm_content m' = (bm_content m)(h \<mapsto> v)"
proof -
  obtain e where e: "bm_capacity m = 2 ^ e"
    "probing e bslot_empty (\<lambda>s. unat (bslot_hash s) mod 2 ^ e) (bm_slots m)"
    "distinct (map bslot_hash (used bslot_empty (bm_slots m)))"
    "length (used bslot_empty (bm_slots m)) + Suc r < 2 ^ e"
    using inv by (auto simp: bm_inv_def)
  let ?s = "\<lparr>bslot_hash = h, bslot_token = v\<rparr>"
  obtain i where i: "probe bslot_empty (bm_slots m) (2 ^ e - 1) (unat h mod 2 ^ e) = Some i" "i < 2 ^ e"
    "probing e bslot_empty (\<lambda>s. unat (bslot_hash s) mod 2 ^ e) ((bm_slots m)[i := ?s])"
    "mset (used bslot_empty ((bm_slots m)[i := ?s])) = add_mset ?s (mset (used bslot_empty (bm_slots m)))"
    using probe_insert [OF e(2), of ?s] e(4) v by (auto simp: bslot_empty_def)
  have len: "length (bm_slots m) = 2 ^ e" using e(2) by (simp add: probing_def)
  have sz: "length (used bslot_empty ((bm_slots m)[i := ?s])) = Suc (length (used bslot_empty (bm_slots m)))"
    using i(4) by (metis size_add_mset size_mset)
  have tm: "distinct (map bslot_hash (used bslot_empty ((bm_slots m)[i := ?s]))) \<and>
      table_map bslot_hash bslot_token (used bslot_empty ((bm_slots m)[i := ?s])) = (bm_content m)(h \<mapsto> v)"
    using table_map_add [OF i(4) e(3), of bslot_token] new by (simp add: bm_content_def)
  have "bytesmap_insert m h v = Some (m\<lparr>bm_slots := (bm_slots m)[i := ?s], bm_count := bm_count m + 1\<rparr>)"
    using i(1,2) len e(1) by (simp add: bytesmap_insert_def and_mask)
  then show ?thesis
    using tm i(3) sz e(1,4) by (auto simp: bm_inv_def bm_content_def)
qed

lemma bytesmap_get_ok:
  assumes inv: "bm_inv r m"
  shows "bytesmap_get m h = Some (found (bm_content m h))"
proof -
  obtain e where e: "bm_capacity m = 2 ^ e"
    "probing e bslot_empty (\<lambda>s. unat (bslot_hash s) mod 2 ^ e) (bm_slots m)"
    "distinct (map bslot_hash (used bslot_empty (bm_slots m)))"
    "length (used bslot_empty (bm_slots m)) < 2 ^ e"
    using inv by (auto simp: bm_inv_def)
  obtain i where i: "probe (\<lambda>s. bslot_empty s \<or> bslot_hash s = h) (bm_slots m) (2 ^ e - 1) (unat h mod 2 ^ e) = Some i"
    "i < 2 ^ e"
    "bslot_empty (bm_slots m ! i) \<Longrightarrow> \<forall>s \<in> set (used bslot_empty (bm_slots m)). bslot_hash s \<noteq> h"
    "\<not> bslot_empty (bm_slots m ! i) \<Longrightarrow> bslot_hash (bm_slots m ! i) = h \<and>
       bm_slots m ! i \<in> set (used bslot_empty (bm_slots m))"
    using probe_find [OF e(2) e(4), of "unat h mod 2 ^ e" "\<lambda>s. bslot_hash s = h"] by auto
  have len: "length (bm_slots m) = 2 ^ e" using e(2) by (simp add: probing_def)
  have "bytesmap_get m h = Some (if bslot_empty (bm_slots m ! i) then UINT32_MAX else bslot_token (bm_slots m ! i))"
    using i(1,2) len e(1) by (simp add: bytesmap_get_def and_mask)
  moreover have "bm_content m h = (if bslot_empty (bm_slots m ! i) then None else Some (bslot_token (bm_slots m ! i)))"
    using i(3,4) table_map_Some [OF e(3)] table_map_None by (auto simp: bm_content_def)
  ultimately show ?thesis by auto
qed

interpretation bytes_table: lookup_table bytesmap_new bytesmap_insert bytesmap_get bm_content bm_inv
  using bytesmap_new_ok bytesmap_insert_ok bytesmap_get_ok by unfold_locales blast+

subsection \<open>PairMap provides the interface\<close>

definition pslot_home :: "nat \<Rightarrow> pair_map_slot \<Rightarrow> nat" where
  "pslot_home e s = unat (pairmap_hash (pslot_t1 s) (pslot_t2 s)) mod 2 ^ e"

definition pslot_key :: "pair_map_slot \<Rightarrow> nat \<times> nat" where
  "pslot_key s = (pslot_t1 s, pslot_t2 s)"

definition pm_content :: "pair_map \<Rightarrow> nat \<times> nat \<Rightarrow> nat option" where
  "pm_content m = table_map pslot_key pslot_merged (used pslot_empty (pm_slots m))"

definition pm_inv :: "nat \<Rightarrow> pair_map \<Rightarrow> bool" where
  "pm_inv r m \<longleftrightarrow> (\<exists>e \<le> 31. 4 \<le> e \<and> pm_capacity m = 2 ^ e \<and>
     probing e pslot_empty (pslot_home e) (pm_slots m) \<and>
     distinct (map pslot_key (used pslot_empty (pm_slots m))) \<and>
     pm_count m = length (used pslot_empty (pm_slots m)) \<and>
     2 * pm_count m \<le> 2 ^ e \<and> pm_count m + r \<le> 2 ^ 30)"

lemma pslot_empty_none [simp]: "pslot_empty pslot_none"
  by (simp add: pslot_empty_def pslot_none_def)

lemma pslot_home_less: "pslot_home e s < 2 ^ e"
  by (simp add: pslot_home_def)

lemma pairmap_rehash_ok:
  assumes "probing e pslot_empty (pslot_home e) slots"
    and "length (used pslot_empty slots) + length (used pslot_empty old) < 2 ^ e"
  shows "\<exists>slots'. pairmap_rehash (2 ^ e - 1) old slots = Some slots' \<and>
     probing e pslot_empty (pslot_home e) slots' \<and>
     mset (used pslot_empty slots') = mset (used pslot_empty slots) + mset (used pslot_empty old)"
  using assms
proof (induction old arbitrary: slots)
  case Nil
  then show ?case by (simp add: used_def)
next
  case (Cons s old)
  show ?case
  proof (cases "pslot_empty s")
    case True
    then have "used pslot_empty (s # old) = used pslot_empty old" by (simp add: used_def)
    with True Cons show ?thesis by simp
  next
    case False
    have us: "used pslot_empty (s # old) = s # used pslot_empty old"
      using False by (simp add: used_def)
    have room: "length (used pslot_empty slots) < 2 ^ e" using Cons.prems(2) by simp
    obtain i where i: "probe pslot_empty slots (2 ^ e - 1) (pslot_home e s) = Some i" "i < 2 ^ e"
      "probing e pslot_empty (pslot_home e) (slots[i := s])"
      "mset (used pslot_empty (slots[i := s])) = add_mset s (mset (used pslot_empty slots))"
      by (rule probe_insert [OF Cons.prems(1) room pslot_home_less False])
    have len: "length slots = 2 ^ e" using Cons.prems(1) by (simp add: probing_def)
    have sz: "length (used pslot_empty (slots[i := s])) = Suc (length (used pslot_empty slots))"
      using i(4) by (metis size_add_mset size_mset)
    obtain slots' where s': "pairmap_rehash (2 ^ e - 1) old (slots[i := s]) = Some slots'"
      "probing e pslot_empty (pslot_home e) slots'"
      "mset (used pslot_empty slots') = mset (used pslot_empty (slots[i := s])) + mset (used pslot_empty old)"
      using Cons.IH [OF i(3)] Cons.prems(2) sz us by auto
    have "pairmap_rehash (2 ^ e - 1) (s # old) slots = pairmap_rehash (2 ^ e - 1) old (slots[i := s])"
      using False i(1,2) len by (simp add: and_mask pslot_home_def)
    with s' i(4) us show ?thesis by simp
  qed
qed

lemma pairmap_grow_ok:
  assumes "pm_inv (Suc r) m" and "pm_capacity m \<le> pm_count m * 2"
  shows "\<exists>m'. pairmap_grow m = Some m' \<and> pm_inv (Suc r) m' \<and> pm_content m' = pm_content m \<and>
     2 * pm_count m' < pm_capacity m'"
proof -
  obtain e where e: "pm_capacity m = 2 ^ e" "4 \<le> e"
    "probing e pslot_empty (pslot_home e) (pm_slots m)"
    "distinct (map pslot_key (used pslot_empty (pm_slots m)))"
    "pm_count m = length (used pslot_empty (pm_slots m))"
    "2 * pm_count m \<le> 2 ^ e" "pm_count m + Suc r \<le> 2 ^ 30"
    using assms(1) by (auto simp: pm_inv_def)
  have eq: "2 * pm_count m = 2 ^ e" using e(1,6) assms(2) by simp
  have "(2::nat) ^ e < 2 ^ 31" using eq e(7) by simp
  then have e30: "e < 31" by (simp only: power_strict_increasing_iff)
  then have "(2::nat) ^ Suc e < 2 ^ 32" by (intro power_strict_increasing) auto
  then have cap: "(pm_capacity m * 2) mod 2 ^ 32 = 2 ^ Suc e" using e(1) by simp
  have pos: "0 < pm_count m"
    using eq by (metis gr0I mult_0_right power_not_zero zero_neq_numeral)
  obtain slots' where s': "pairmap_rehash (2 ^ Suc e - 1) (pm_slots m) (replicate (2 ^ Suc e) pslot_none) = Some slots'"
    "probing (Suc e) pslot_empty (pslot_home (Suc e)) slots'"
    "mset (used pslot_empty slots') = mset (used pslot_empty (pm_slots m))"
    using pairmap_rehash_ok [of "Suc e" "replicate (2 ^ Suc e) pslot_none" "pm_slots m"]
      probing_replicate [of pslot_empty pslot_none "Suc e" "pslot_home (Suc e)"] eq e(5) pos by auto
  let ?m = "m\<lparr>pm_slots := slots', pm_capacity := 2 ^ Suc e\<rparr>"
  have grow: "pairmap_grow m = Some ?m"
    unfolding pairmap_grow_def cap using s'(1) by simp
  have dist: "distinct (map pslot_key (used pslot_empty slots'))"
    using e(4) s'(3) by (metis mset_eq_imp_distinct_iff mset_map)
  have "table_map pslot_key pslot_merged (used pslot_empty slots') =
      table_map pslot_key pslot_merged (used pslot_empty (pm_slots m))"
    unfolding table_map_def using dist e(4) s'(3)
    by (intro map_of_inject_set [THEN iffD2]) (auto simp: comp_def dest: mset_eq_setD)
  then have "pm_content ?m = pm_content m" by (simp add: pm_content_def)
  moreover have "length (used pslot_empty slots') = pm_count m"
    using s'(3) e(5) by (metis size_mset)
  then have "pm_inv (Suc r) ?m"
    unfolding pm_inv_def using s'(2) dist e30 e(2,5,7) eq
    by (intro exI [of _ "Suc e"] conjI) simp_all
  ultimately show ?thesis using grow eq pos by simp
qed

lemma pairmap_insert_ok:
  assumes inv: "pm_inv (Suc r) m" and new: "pm_content m (t1, t2) = None" and v: "v \<noteq> UINT32_MAX"
  shows "\<exists>m'. pairmap_insert m t1 t2 v = Some m' \<and> pm_inv r m' \<and>
     pm_content m' = (pm_content m)((t1, t2) \<mapsto> v)"
proof -
  have small: "(pm_count m * 2) mod 2 ^ 32 = pm_count m * 2"
    using inv by (auto simp: pm_inv_def)
  obtain g where g: "(if pm_capacity m \<le> (pm_count m * 2) mod 2 ^ 32 then pairmap_grow m else Some m) = Some g"
    "pm_inv (Suc r) g" "pm_content g = pm_content m" "2 * pm_count g < pm_capacity g"
    using pairmap_grow_ok [OF inv] inv unfolding small
    by (cases "pm_capacity m \<le> pm_count m * 2") auto
  obtain e where e: "pm_capacity g = 2 ^ e" "4 \<le> e" "e \<le> 31"
    "probing e pslot_empty (pslot_home e) (pm_slots g)"
    "distinct (map pslot_key (used pslot_empty (pm_slots g)))"
    "pm_count g = length (used pslot_empty (pm_slots g))"
    "pm_count g + Suc r \<le> 2 ^ 30"
    using g(2) by (auto simp: pm_inv_def)
  let ?s = "\<lparr>pslot_t1 = t1, pslot_t2 = t2, pslot_merged = v\<rparr>"
  have room: "length (used pslot_empty (pm_slots g)) < 2 ^ e" using g(4) e(1,6) by linarith
  have full: "\<not> pslot_empty ?s" using v by (simp add: pslot_empty_def)
  obtain i where i: "probe pslot_empty (pm_slots g) (2 ^ e - 1) (pslot_home e ?s) = Some i" "i < 2 ^ e"
    "probing e pslot_empty (pslot_home e) ((pm_slots g)[i := ?s])"
    "mset (used pslot_empty ((pm_slots g)[i := ?s])) = add_mset ?s (mset (used pslot_empty (pm_slots g)))"
    by (rule probe_insert [OF e(4) room pslot_home_less full])
  have len: "length (pm_slots g) = 2 ^ e" using e(4) by (simp add: probing_def)
  have sz: "length (used pslot_empty ((pm_slots g)[i := ?s])) = Suc (length (used pslot_empty (pm_slots g)))"
    using i(4) by (metis size_add_mset size_mset)
  have new': "table_map pslot_key pslot_merged (used pslot_empty (pm_slots g)) (pslot_key ?s) = None"
    using new g(3) by (simp add: pm_content_def pslot_key_def)
  have tm: "distinct (map pslot_key (used pslot_empty ((pm_slots g)[i := ?s]))) \<and>
      table_map pslot_key pslot_merged (used pslot_empty ((pm_slots g)[i := ?s])) =
        (pm_content m)((t1, t2) \<mapsto> v)"
    using table_map_add [OF i(4) e(5) new'] g(3) by (simp add: pm_content_def pslot_key_def)
  have "pairmap_insert m t1 t2 v = Some (g\<lparr>pm_slots := (pm_slots g)[i := ?s], pm_count := pm_count g + 1\<rparr>)"
    unfolding pairmap_insert_def g(1) using i(1,2) len e(1) by (simp add: and_mask pslot_home_def)
  moreover have "2 * Suc (pm_count g) \<le> 2 ^ e"
  proof -
    obtain d where "e = Suc d" using e(2) by (cases e) auto
    then show ?thesis using g(4) e(1) by simp
  qed
  ultimately show ?thesis
    using tm i(3) sz e by (auto simp: pm_inv_def pm_content_def intro!: exI [of _ e])
qed

lemma pairmap_get_ok:
  assumes inv: "pm_inv r m"
  shows "pairmap_get m t1 t2 = Some (found (pm_content m (t1, t2)))"
proof -
  obtain e where e: "pm_capacity m = 2 ^ e" "4 \<le> e"
    "probing e pslot_empty (pslot_home e) (pm_slots m)"
    "distinct (map pslot_key (used pslot_empty (pm_slots m)))"
    "pm_count m = length (used pslot_empty (pm_slots m))" "2 * pm_count m \<le> 2 ^ e"
    using inv by (auto simp: pm_inv_def)
  have pos: "(0::nat) < 2 ^ e" by simp
  have room: "length (used pslot_empty (pm_slots m)) < 2 ^ e" using e(5,6) pos by linarith
  let ?h = "unat (pairmap_hash t1 t2) mod 2 ^ e" and ?m = "\<lambda>s. pslot_t1 s = t1 \<and> pslot_t2 s = t2"
  obtain i where i: "probe (\<lambda>s. pslot_empty s \<or> ?m s) (pm_slots m) (2 ^ e - 1) ?h = Some i" "i < 2 ^ e"
    "pslot_empty (pm_slots m ! i) \<Longrightarrow> \<forall>s \<in> set (used pslot_empty (pm_slots m)). \<not> ?m s"
    "\<not> pslot_empty (pm_slots m ! i) \<Longrightarrow> ?m (pm_slots m ! i) \<and>
       pm_slots m ! i \<in> set (used pslot_empty (pm_slots m))"
    using probe_find [OF e(3) room, of ?h ?m] by (auto simp: pslot_home_def)
  have len: "length (pm_slots m) = 2 ^ e" using e(3) by (simp add: probing_def)
  have "pairmap_get m t1 t2 =
      Some (if pslot_empty (pm_slots m ! i) then UINT32_MAX else pslot_merged (pm_slots m ! i))"
    using i(1,2) len e(1) by (simp add: pairmap_get_def and_mask)
  moreover have "pm_content m (t1, t2) =
      (if pslot_empty (pm_slots m ! i) then None else Some (pslot_merged (pm_slots m ! i)))"
  proof (cases "pslot_empty (pm_slots m ! i)")
    case True
    then show ?thesis
      using i(3) table_map_None [of "used pslot_empty (pm_slots m)" pslot_key "(t1, t2)" pslot_merged]
      by (auto simp: pm_content_def pslot_key_def)
  next
    case False
    then show ?thesis
      using i(4) table_map_Some [OF e(4), of "pm_slots m ! i" pslot_merged]
      by (auto simp: pm_content_def pslot_key_def)
  qed
  ultimately show ?thesis by auto
qed

text \<open>The map grows on demand, so the announced capacity \<open>n\<close> does not bound the number of insertions.\<close>

lemma pairmap_new_room:
  assumes "n \<le> 2 ^ 30"
  shows "\<exists>t. pairmap_new n = Some t \<and> pm_inv (2 ^ 30) t \<and> pm_content t = Map.empty"
proof -
  obtain e where e: "round_cap 16 ((n * 2) mod 2 ^ 32) = Some (2 ^ e)" "4 \<le> e" "e \<le> 31"
    using round_cap_16 assms by blast
  then show ?thesis
    using assms probing_replicate [of pslot_empty pslot_none e]
    by (auto simp: pairmap_new_def pm_inv_def pm_content_def table_map_def intro!: exI [of _ e])
qed

lemma pm_inv_less: "pm_inv r m \<Longrightarrow> r' \<le> r \<Longrightarrow> pm_inv r' m"
  by (auto simp: pm_inv_def)

lemma pairmap_new_ok:
  assumes "n \<le> 2 ^ 30"
  shows "\<exists>t. pairmap_new n = Some t \<and> pm_inv n t \<and> pm_content t = Map.empty"
  using pairmap_new_room [OF assms] pm_inv_less [OF _ assms] by blast

interpretation pair_table: lookup_table pairmap_new "\<lambda>m (t1, t2) v. pairmap_insert m t1 t2 v"
    "\<lambda>m (t1, t2). pairmap_get m t1 t2" pm_content pm_inv
  using pairmap_new_ok pairmap_insert_ok pairmap_get_ok by unfold_locales (auto split: prod.splits)

end
