(* ===== verification/Ac_Automaton.thy ===== *)
theory Ac_Automaton
  imports Bpe_Merges
begin

text \<open>
  The run time of the double-array Aho-Corasick automaton, \<^verbatim>\<open>include/ac_bpe.h\<close> and the
  second half of \<^verbatim>\<open>src/ac_bpe.c\<close>: one step, the leftmost-longest search and the
  incremental iterator over overlapping matches. The entry -1 of \<^verbatim>\<open>da_check\<close> (an
  empty slot) is \<open>None\<close>; the indices are natural numbers.

  \<open>ac_ok a D\<close> states what the construction of \<open>a\<close> from the token list \<open>D\<close> must achieve.
  Under it the state after a text is the longest suffix that starts a
  token, the iterator yields exactly the tokens that end at the position, longest
  first, and the search returns the longest of the leftmost matches.
\<close>

subsection \<open>Data\<close>

datatype ac_kind = AC_KIND_LEFTMOST_LONGEST | AC_KIND_OVERLAPPING_FWD | AC_KIND_OVERLAPPING_REV

record ac_cell =
  cell_fail :: nat
  cell_output :: nat
  cell_token :: nat
  cell_depth :: nat

record ac_output =
  out_token :: nat
  out_start_offset :: nat
  out_next :: nat

record ac_automaton =
  ac_cells :: "ac_cell list"
  ac_ncells :: nat
  ac_outputs :: "ac_output list"
  ac_noutputs :: nat
  ac_kind :: ac_kind
  da_base :: "nat list"
  da_check :: "nat option list"
  da_size :: nat

subsection \<open>One step\<close>

partial_function (option) ac_step :: "ac_automaton \<Rightarrow> nat \<Rightarrow> byte \<Rightarrow> nat option" where
  "ac_step a state b = do {
     base \<leftarrow> rd (da_base a) state;
     let t = base + unat b;
     chk \<leftarrow> rd (da_check a) t;
     if chk = Some state then Some t
     else if state = 0 then Some 0
     else do {
       cell \<leftarrow> rd (ac_cells a) state;
       ac_step a (cell_fail cell) b
     }
   }"

subsection \<open>Leftmost-longest search\<close>

text \<open>The loop variables \<^verbatim>\<open>leftmost_start\<close> (\<open>None\<close> for \<^verbatim>\<open>(size_t)-1\<close>), \<^verbatim>\<open>best_token\<close>, \<^verbatim>\<open>best_end\<close>.\<close>

type_synonym ll_best = "nat option \<times> nat \<times> nat"

definition ll_update :: "nat \<Rightarrow> ll_best \<Rightarrow> nat \<times> nat \<Rightarrow> ll_best" where
  "ll_update i best m =
     (case best of (leftmost_start, best_token, best_end) \<Rightarrow>
      case m of (tok, offset) \<Rightarrow>
        let mstart = usub (i + 1) offset; mend = i + 1 in
        if (case leftmost_start of None \<Rightarrow> True
            | Some ls \<Rightarrow> mstart < ls \<or> (mstart = ls \<and> best_end < mend))
        then (Some mstart, tok, mend) else best)"

partial_function (option) ll_outputs :: "ac_automaton \<Rightarrow> nat \<Rightarrow> nat \<Rightarrow> ll_best \<Rightarrow> ll_best option" where
  "ll_outputs a i out best =
     (if out = 0 then Some best
      else do {
        o1 \<leftarrow> rd (ac_outputs a) out;
        ll_outputs a i (out_next o1) (ll_update i best (out_token o1, out_start_offset o1))
      })"

fun ll_scan :: "ac_automaton \<Rightarrow> bytes \<Rightarrow> nat \<Rightarrow> nat \<Rightarrow> ll_best \<Rightarrow> ll_best option" where
  "ll_scan a [] i state best = Some best"
| "ll_scan a (b # bs) i state best = do {
     state \<leftarrow> ac_step a state b;
     cell \<leftarrow> rd (ac_cells a) state;
     best \<leftarrow> ll_outputs a i (cell_output cell) best;
     if fst (snd best) \<noteq> UINT32_MAX \<and> state = 0 then Some best
     else ll_scan a bs (i + 1) state best
   }"

definition ac_leftmost_longest :: "ac_automaton \<Rightarrow> bytes \<Rightarrow> (nat \<times> nat) option option" where
  "ac_leftmost_longest a text = do {
     best \<leftarrow> ll_scan a text 0 0 (None, UINT32_MAX, 0);
     Some (if fst (snd best) = UINT32_MAX then None else Some (snd best))
   }"

subsection \<open>Overlapping iterator\<close>

text \<open>The \<^verbatim>\<open>automaton\<close> field of the C iterator is an argument of its operations.\<close>

record ac_match_iter =
  it_state :: nat
  it_pos :: nat
  it_pending_out :: nat
  it_pending_end :: nat

definition ac_start_state :: nat where
  "ac_start_state = 0"

definition ac_iter_new :: ac_match_iter where
  "ac_iter_new = \<lparr>it_state = 0, it_pos = 0, it_pending_out = 0, it_pending_end = 0\<rparr>"

definition ac_iter_advance :: "ac_automaton \<Rightarrow> ac_match_iter \<Rightarrow> byte \<Rightarrow> nat \<Rightarrow> ac_match_iter option" where
  "ac_iter_advance a it b end_pos = do {
     state \<leftarrow> ac_step a (it_state it) b;
     cell \<leftarrow> rd (ac_cells a) state;
     Some \<lparr>it_state = state, it_pos = end_pos, it_pending_out = cell_output cell,
           it_pending_end = end_pos\<rparr>
   }"

text \<open>The match is \<open>Some (token, start)\<close>, or \<open>None\<close> when the position has no more.\<close>

definition ac_iter_next_match ::
    "ac_automaton \<Rightarrow> ac_match_iter \<Rightarrow> (ac_match_iter \<times> (nat \<times> nat) option) option" where
  "ac_iter_next_match a it =
     (if it_pending_out it = 0 then Some (it, None)
      else do {
        o1 \<leftarrow> rd (ac_outputs a) (it_pending_out it);
        Some (it\<lparr>it_pending_out := out_next o1\<rparr>,
              Some (out_token o1, usub (it_pending_end it) (out_start_offset o1)))
      })"

subsection \<open>Strings of the trie and longest suffixes\<close>

definition trie_str :: "bytes list \<Rightarrow> bytes \<Rightarrow> bool" where
  "trie_str D s \<longleftrightarrow> s = [] \<or> (\<exists>w \<in> set D. prefix s w)"

fun lsuf :: "('a list \<Rightarrow> bool) \<Rightarrow> 'a list \<Rightarrow> 'a list" where
  "lsuf P [] = []"
| "lsuf P (x # xs) = (if P (x # xs) then x # xs else lsuf P xs)"

lemma trie_str_Nil [simp]: "trie_str D []"
  by (simp add: trie_str_def)

lemma trie_str_token: "w \<in> set D \<Longrightarrow> trie_str D w"
  by (auto simp: trie_str_def)

lemma trie_str_prefix: "trie_str D (s @ t) \<Longrightarrow> trie_str D s"
  by (auto simp: trie_str_def dest: append_prefixD)

lemma suffix_lsuf: "suffix (lsuf P t) t"
  by (induction t) (auto intro: suffix_ConsI)

lemma lsuf_holds: "P [] \<Longrightarrow> P (lsuf P t)"
  by (induction t) auto

lemma lsuf_longest: "suffix s t \<Longrightarrow> P s \<Longrightarrow> suffix s (lsuf P t)"
proof (induction t)
  case (Cons x xs)
  then show ?case by (auto simp: suffix_Cons)
qed simp

lemma lsuf_self: "P t \<Longrightarrow> lsuf P t = t"
  by (cases t) auto

lemma lsuf_eqI:
  assumes "P []" and "suffix s t" and "P s" and "\<And>u. suffix u t \<Longrightarrow> P u \<Longrightarrow> suffix u s"
  shows "lsuf P t = s"
proof -
  have "suffix (lsuf P t) s" using assms(1,4) suffix_lsuf lsuf_holds by blast
  moreover have "suffix s (lsuf P t)" using assms(2,3) lsuf_longest by blast
  ultimately show ?thesis by (simp add: suffix_order.order_antisym)
qed

text \<open>For a prefix-closed \<open>P\<close> the longest suffix after one more symbol depends on
  the longest suffix before it only.\<close>

lemma lsuf_snoc:
  assumes "P []" and closed: "\<And>s c. P (s @ [c]) \<Longrightarrow> P s"
  shows "lsuf P (lsuf P t @ [c]) = lsuf P (t @ [c])"
proof (rule lsuf_eqI)
  show "P []" by (fact assms(1))
  obtain u where t: "t = u @ lsuf P t" using suffix_lsuf [of P t] by (auto simp: suffix_def)
  let ?r = "lsuf P (t @ [c])"
  have lift: "suffix v (lsuf P t @ [c])" if v: "suffix v (t @ [c])" "P v" for v
  proof (cases v rule: rev_cases)
    case (snoc v' d)
    then have "suffix v' t" "d = c" using v by auto
    moreover have "P v'" using v snoc closed by blast
    ultimately show ?thesis using lsuf_longest [of v' t P] snoc by auto
  qed simp
  show "suffix ?r (lsuf P t @ [c])"
    using lift suffix_lsuf lsuf_holds assms(1) by blast
  show "P ?r" using lsuf_holds assms(1) by blast
  fix w assume w: "suffix w (lsuf P t @ [c])" "P w"
  have "suffix (lsuf P t @ [c]) (t @ [c])" using suffix_lsuf by (auto simp: suffix_def)
  with w have "suffix w (t @ [c])" using suffix_order.order_trans by blast
  then show "suffix w ?r" using lsuf_longest w(2) by blast
qed

lemma lsuf_trie_snoc: "lsuf (trie_str D) (lsuf (trie_str D) t @ [c]) = lsuf (trie_str D) (t @ [c])"
  by (rule lsuf_snoc) (auto dest: trie_str_prefix)

text \<open>The tokens that are suffixes of a text, longest first, with their lengths.\<close>

fun smatch :: "bytes list \<Rightarrow> bytes \<Rightarrow> (nat \<times> nat) list" where
  "smatch D [] = []"
| "smatch D (x # xs) =
     (if x # xs \<in> set D then [(tok_id D (x # xs), length (x # xs))] else []) @ smatch D xs"

lemma smatch_skip: "\<not> trie_str D (x # xs) \<Longrightarrow> smatch D (x # xs) = smatch D xs"
  by (auto dest: trie_str_token)

lemma smatch_lsuf: "smatch D (lsuf (trie_str D) t) = smatch D t"
  by (induction t) (auto simp: smatch_skip simp del: smatch.simps(2))

lemma set_smatch:
  "(k, n) \<in> set (smatch D t) \<longleftrightarrow> (\<exists>w \<in> set D. w \<noteq> [] \<and> suffix w t \<and> k = tok_id D w \<and> n = length w)"
proof (induction t)
  case (Cons x xs)
  then show ?case by (auto simp: suffix_Cons)
qed simp

subsection \<open>What the construction must provide\<close>

text \<open>The state of a trie string: the walk over the double array from the root.\<close>

definition da_walk :: "ac_automaton \<Rightarrow> bytes \<Rightarrow> nat" where
  "da_walk a s = foldl (\<lambda>st c. da_base a ! st + unat c) 0 s"

text \<open>The chain of outputs that starts at index \<open>out\<close>.\<close>

fun out_chain :: "ac_output list \<Rightarrow> nat \<Rightarrow> (nat \<times> nat) list \<Rightarrow> bool" where
  "out_chain outs out [] \<longleftrightarrow> out = 0"
| "out_chain outs out ((tok, len) # ms) \<longleftrightarrow>
     0 < out \<and> out < length outs \<and> out_token (outs ! out) = tok \<and>
     out_start_offset (outs ! out) = len \<and> out_chain outs (out_next (outs ! out)) ms"

lemma out_chain_append: "out_chain outs out ms \<Longrightarrow> out_chain (outs @ os) out ms"
  by (induction ms arbitrary: out) (auto simp: nth_append)

definition ac_ok :: "ac_automaton \<Rightarrow> bytes list \<Rightarrow> bool" where
  "ac_ok a D \<longleftrightarrow>
     (\<forall>s. trie_str D s \<longrightarrow>
        da_walk a s < length (da_base a) \<and> da_walk a s < length (ac_cells a) \<and>
        (s \<noteq> [] \<longrightarrow> da_walk a s \<noteq> 0) \<and>
        (\<forall>c. da_base a ! da_walk a s + unat c < length (da_check a) \<and>
           (da_check a ! (da_base a ! da_walk a s + unat c) = Some (da_walk a s) \<longleftrightarrow> trie_str D (s @ [c]))) \<and>
        (s \<noteq> [] \<longrightarrow> cell_fail (ac_cells a ! da_walk a s) = da_walk a (lsuf (trie_str D) (tl s))) \<and>
        out_chain (ac_outputs a) (cell_output (ac_cells a ! da_walk a s)) (smatch D s))"

lemma da_walk_Nil [simp]: "da_walk a [] = 0"
  by (simp add: da_walk_def)

lemma da_walk_snoc: "da_walk a (s @ [c]) = da_base a ! da_walk a s + unat c"
  by (simp add: da_walk_def)

lemma ac_okD:
  assumes "ac_ok a D" and "trie_str D s"
  shows "da_walk a s < length (da_base a)" and "da_walk a s < length (ac_cells a)"
    and "s \<noteq> [] \<Longrightarrow> da_walk a s \<noteq> 0"
    and "da_base a ! da_walk a s + unat c < length (da_check a)"
    and "da_check a ! (da_base a ! da_walk a s + unat c) = Some (da_walk a s) \<longleftrightarrow> trie_str D (s @ [c])"
    and "s \<noteq> [] \<Longrightarrow> cell_fail (ac_cells a ! da_walk a s) = da_walk a (lsuf (trie_str D) (tl s))"
    and "out_chain (ac_outputs a) (cell_output (ac_cells a ! da_walk a s)) (smatch D s)"
  using assms unfolding ac_ok_def by blast+

text \<open>The state after reading a text.\<close>

definition ac_state :: "ac_automaton \<Rightarrow> bytes list \<Rightarrow> bytes \<Rightarrow> nat" where
  "ac_state a D t = da_walk a (lsuf (trie_str D) t)"

lemma ac_state_Nil [simp]: "ac_state a D [] = 0"
  by (simp add: ac_state_def)

lemma trie_str_lsuf [simp]: "trie_str D (lsuf (trie_str D) t)"
  by (rule lsuf_holds) simp

lemma ac_step_walk:
  assumes ok: "ac_ok a D" and "trie_str D s"
  shows "ac_step a (da_walk a s) b = Some (da_walk a (lsuf (trie_str D) (s @ [b])))"
  using assms(2)
proof (induction s rule: length_induct)
  case (1 s)
  note d = ac_okD [OF ok "1.prems"]
  show ?case
  proof (cases "trie_str D (s @ [b])")
    case True
    then show ?thesis
      using d by (subst ac_step.simps) (simp add: lsuf_self da_walk_snoc)
  next
    case no: False
    show ?thesis
    proof (cases s)
      case Nil
      then show ?thesis using d no by (subst ac_step.simps) simp
    next
      case (Cons x xs)
      let ?f = "lsuf (trie_str D) xs"
      have "length ?f \<le> length xs" using suffix_lsuf suffix_length_le by blast
      then have "ac_step a (da_walk a ?f) b = Some (da_walk a (lsuf (trie_str D) (?f @ [b])))"
        using "1.IH" Cons by simp
      moreover have "lsuf (trie_str D) (?f @ [b]) = lsuf (trie_str D) (s @ [b])"
        using no Cons by (simp add: lsuf_trie_snoc)
      moreover have "ac_step a (da_walk a s) b = ac_step a (da_walk a ?f) b"
        using d no Cons by (subst ac_step.simps) simp
      ultimately show ?thesis by simp
    qed
  qed
qed

lemma ac_step_state: "ac_ok a D \<Longrightarrow> ac_step a (ac_state a D t) b = Some (ac_state a D (t @ [b]))"
  using ac_step_walk [of a D "lsuf (trie_str D) t" b] by (simp add: ac_state_def lsuf_trie_snoc)

lemma ac_state_cell: "ac_ok a D \<Longrightarrow> ac_state a D t < length (ac_cells a)"
  using ac_okD(2) [of a D "lsuf (trie_str D) t"] by (simp add: ac_state_def)

lemma ac_state_chain: "ac_ok a D \<Longrightarrow> out_chain (ac_outputs a) (cell_output (ac_cells a ! ac_state a D t)) (smatch D t)"
  using ac_okD(7) [of a D "lsuf (trie_str D) t"] by (simp add: ac_state_def smatch_lsuf)

lemma ac_state_0: "ac_ok a D \<Longrightarrow> ac_state a D t = 0 \<longleftrightarrow> lsuf (trie_str D) t = []"
  using ac_okD(3) [of a D "lsuf (trie_str D) t"]
  by (cases "lsuf (trie_str D) t = []") (simp_all add: ac_state_def)

subsection \<open>The iterator\<close>

text \<open>\<open>pending a D it e ms\<close>: the iterator has the matches \<open>ms\<close> left to yield at end position \<open>e\<close>.\<close>

definition pending :: "ac_automaton \<Rightarrow> ac_match_iter \<Rightarrow> nat \<Rightarrow> (nat \<times> nat) list \<Rightarrow> bool" where
  "pending a it e ms \<longleftrightarrow> it_pending_end it = e \<and> out_chain (ac_outputs a) (it_pending_out it) ms"

lemma ac_iter_advance_ok:
  assumes "ac_ok a D" and "it_state it = ac_state a D t"
  shows "\<exists>it'. ac_iter_advance a it b e = Some it' \<and> it_state it' = ac_state a D (t @ [b]) \<and>
     pending a it' e (smatch D (t @ [b]))"
  using assms ac_state_chain [OF assms(1), of "t @ [b]"]
  by (simp add: ac_iter_advance_def ac_step_state ac_state_cell pending_def)

lemma ac_iter_next_match_Nil:
  "pending a it e [] \<Longrightarrow> ac_iter_next_match a it = Some (it, None)"
  by (simp add: pending_def ac_iter_next_match_def)

lemma ac_iter_next_match_Cons:
  assumes "pending a it e ((tok, len) # ms)" and "len \<le> e"
  shows "\<exists>it'. ac_iter_next_match a it = Some (it', Some (tok, e - len)) \<and> pending a it' e ms \<and>
     it_state it' = it_state it"
  using assms by (auto simp: pending_def ac_iter_next_match_def)

subsection \<open>The leftmost-longest search\<close>

text \<open>The occurrences of tokens in a text, and the best one among a set of them.\<close>

definition occs :: "bytes list \<Rightarrow> bytes \<Rightarrow> (nat \<times> nat) set" where
  "occs D t = {(s, e). s < e \<and> e \<le> length t \<and> slice t s e \<in> set D}"

definition best_of :: "bytes list \<Rightarrow> bytes \<Rightarrow> (nat \<times> nat) set \<Rightarrow> ll_best \<Rightarrow> bool" where
  "best_of D t S best \<longleftrightarrow>
     (case best of
        (None, tok, e) \<Rightarrow> S = {} \<and> tok = UINT32_MAX
      | (Some s, tok, e) \<Rightarrow> (s, e) \<in> S \<and> tok = tok_id D (slice t s e) \<and>
          (\<forall>s' e'. (s', e') \<in> S \<longrightarrow> s < s' \<or> s' = s \<and> e' \<le> e))"

lemma ll_outputs_chain:
  "out_chain (ac_outputs a) out ms \<Longrightarrow> ll_outputs a i out best = Some (foldl (ll_update i) best ms)"
proof (induction ms arbitrary: out best)
  case Nil
  then show ?case by (subst ll_outputs.simps) simp
next
  case (Cons m ms)
  then show ?case by (cases m; subst ll_outputs.simps) simp
qed

lemma best_of_update:
  assumes "best_of D t S best" and "s \<le> i" and "k = tok_id D (slice t s (Suc i))"
  shows "best_of D t (insert (s, Suc i) S) (ll_update i best (k, Suc i - s))"
proof -
  obtain ls tok e where b: "best = (ls, tok, e)" by (metis prod_cases3)
  have st: "usub (i + 1) (Suc i - s) = s" using assms(2) by simp
  show ?thesis
  proof (cases ls)
    case None
    then show ?thesis using assms st b by (simp add: best_of_def ll_update_def)
  next
    case (Some l)
    have opt: "(l, e) \<in> S" "tok = tok_id D (slice t l e)"
      "\<And>s' e'. (s', e') \<in> S \<Longrightarrow> l < s' \<or> s' = l \<and> e' \<le> e"
      using assms(1) b Some by (auto simp: best_of_def)
    show ?thesis
    proof (cases "s < l \<or> s = l \<and> e < Suc i")
      case True
      then have "ll_update i best (k, Suc i - s) = (Some s, k, Suc i)"
        using st b Some by (auto simp: ll_update_def Let_def)
      moreover have "s < s' \<or> s' = s \<and> e' \<le> Suc i" if "(s', e') \<in> S" for s' e'
        using opt(3) [OF that] True by auto
      ultimately show ?thesis using assms(3) by (auto simp: best_of_def)
    next
      case False
      then have "ll_update i best (k, Suc i - s) = best"
        using st b Some by (auto simp: ll_update_def Let_def)
      then show ?thesis using opt False b Some by (auto simp: best_of_def)
    qed
  qed
qed

lemma best_of_updates:
  assumes "best_of D t S best"
    and "\<forall>(k, n) \<in> set ms. 0 < n \<and> n \<le> Suc i \<and> k = tok_id D (slice t (Suc i - n) (Suc i))"
  shows "best_of D t ((\<lambda>(k, n). (Suc i - n, Suc i)) ` set ms \<union> S) (foldl (ll_update i) best ms)"
  using assms
proof (induction ms arbitrary: S best)
  case (Cons m ms)
  obtain k n where m: "m = (k, n)" by (cases m)
  have n: "0 < n" "n \<le> Suc i" "k = tok_id D (slice t (Suc i - n) (Suc i))"
    using Cons.prems(2) m by auto
  have "best_of D t (insert (Suc i - n, Suc i) S) (ll_update i best m)"
    using best_of_update [OF Cons.prems(1), of "Suc i - n" i k] n m by simp
  from Cons.IH [OF this] Cons.prems(2) show ?case by (simp add: m)
qed simp

lemma suffix_slice:
  assumes "w \<noteq> []"
  shows "suffix w t \<longleftrightarrow> length w \<le> length t \<and> slice t (length t - length w) (length t) = w"
proof
  assume "suffix w t"
  then show "length w \<le> length t \<and> slice t (length t - length w) (length t) = w"
    by (auto simp: suffix_def slice_def)
next
  assume "length w \<le> length t \<and> slice t (length t - length w) (length t) = w"
  then show "suffix w t" by (metis slice_to_end suffix_drop)
qed

lemma slice_take: "e \<le> n \<Longrightarrow> slice (take n t) s e = slice t s e"
  by (simp add: slice_def drop_take min_def)

lemma set_smatch_slice:
  assumes "(k, n) \<in> set (smatch D t)"
  shows "0 < n" and "n \<le> length t" and "slice t (length t - n) (length t) \<in> set D"
    and "k = tok_id D (slice t (length t - n) (length t))"
proof -
  obtain w where w: "w \<in> set D" "w \<noteq> []" "suffix w t" "k = tok_id D w" "n = length w"
    using assms by (auto simp: set_smatch)
  then have "n \<le> length t \<and> slice t (length t - n) (length t) = w"
    by (simp add: suffix_slice)
  with w show "0 < n" "n \<le> length t" "slice t (length t - n) (length t) \<in> set D"
    "k = tok_id D (slice t (length t - n) (length t))" by auto
qed

lemma occs_take_Suc:
  assumes "i < length t"
  shows "occs D (take (Suc i) t) =
     (\<lambda>(k, n). (Suc i - n, Suc i)) ` set (smatch D (take (Suc i) t)) \<union> occs D (take i t)"
    (is "?l = ?m \<union> ?r")
proof (intro equalityI subsetI)
  fix p assume p: "p \<in> ?l"
  obtain s e where se: "p = (s, e)" by (cases p)
  have o: "s < e" "e \<le> Suc i" "slice (take (Suc i) t) s e \<in> set D"
    using p se assms by (auto simp: occs_def)
  show "p \<in> ?m \<union> ?r"
  proof (cases "e = Suc i")
    case True
    let ?w = "slice (take (Suc i) t) s e"
    have l: "length ?w = Suc i - s" using assms True by simp
    then have "?w \<noteq> []" using o True by auto
    moreover have "suffix ?w (take (Suc i) t)"
      using suffix_slice [OF \<open>?w \<noteq> []\<close>, of "take (Suc i) t"] l assms True o(1) by simp
    ultimately have "(tok_id D ?w, Suc i - s) \<in> set (smatch D (take (Suc i) t))"
      using o(3) l set_smatch by metis
    then have "(\<lambda>(k, n). (Suc i - n, Suc i)) (tok_id D ?w, Suc i - s) \<in> ?m" by (rule imageI)
    then show ?thesis using o True se by simp
  next
    case False
    then have "(s, e) \<in> ?r" using o assms by (simp add: occs_def slice_take)
    then show ?thesis using se by simp
  qed
next
  fix p assume "p \<in> ?m \<union> ?r"
  then show "p \<in> ?l"
  proof
    assume "p \<in> ?m"
    then obtain k n where kn: "(k, n) \<in> set (smatch D (take (Suc i) t))" "p = (Suc i - n, Suc i)"
      by auto
    have "length (take (Suc i) t) = Suc i" using assms by simp
    then have "0 < n" "n \<le> Suc i" "slice (take (Suc i) t) (Suc i - n) (Suc i) \<in> set D"
      using set_smatch_slice [OF kn(1)] by (simp_all only:)
    then show ?thesis using kn(2) assms unfolding occs_def by simp
  next
    assume "p \<in> ?r"
    then show ?thesis using assms by (auto simp: occs_def slice_take)
  qed
qed

lemma best_of_step:
  assumes "i < length t" and "best_of D t (occs D (take i t)) best"
  shows "best_of D t (occs D (take (Suc i) t)) (foldl (ll_update i) best (smatch D (take (Suc i) t)))"
proof -
  have l: "length (take (Suc i) t) = Suc i" using assms(1) by simp
  have "\<forall>(k, n) \<in> set (smatch D (take (Suc i) t)).
      0 < n \<and> n \<le> Suc i \<and> k = tok_id D (slice t (Suc i - n) (Suc i))"
    using set_smatch_slice [where t = "take (Suc i) t" and D = D, unfolded l]
    by (auto simp: slice_take)
  from best_of_updates [OF assms(2) this] show ?thesis
    by (simp only: occs_take_Suc [OF assms(1)])
qed

text \<open>No token that starts inside the text read so far can end later when the state is the root.\<close>

lemma occs_after_root:
  assumes root: "lsuf (trie_str D) (take n t) = []" and o: "(s, e) \<in> occs D t" and "n < e"
  shows "n \<le> s"
proof (rule ccontr)
  assume "\<not> n \<le> s"
  then have s: "s < n" by simp
  have o: "s < e" "e \<le> length t" "slice t s e \<in> set D" using o by (auto simp: occs_def)
  let ?w = "slice t s n"
  have l: "length ?w = n - s" using o assms(3) by simp
  have "slice t s e = ?w @ slice t n e" using slice_append [of s n e t] s assms(3) by simp
  then have "prefix ?w (slice t s e)" by (metis prefixI)
  then have "trie_str D ?w" using o(3) unfolding trie_str_def by blast
  moreover have "take n t = take s t @ ?w" using take_slice [of s n t] s by simp
  then have "suffix ?w (take n t)" by (metis suffixI)
  ultimately have "suffix ?w []" using lsuf_longest [of ?w "take n t" "trie_str D"] root by simp
  then show False using l s by simp
qed

lemma best_of_final:
  assumes "best_of D t (occs D (take n t)) best" and "fst best \<noteq> None"
    and "lsuf (trie_str D) (take n t) = []"
  shows "best_of D t (occs D t) best"
proof -
  obtain l tok e where b: "best = (Some l, tok, e)" using assms(2) by (cases best) auto
  have opt: "(l, e) \<in> occs D (take n t)" "tok = tok_id D (slice t l e)"
    "\<And>s' e'. (s', e') \<in> occs D (take n t) \<Longrightarrow> l < s' \<or> s' = l \<and> e' \<le> e"
    using assms(1) b by (auto simp: best_of_def)
  have le: "l < e" "e \<le> n" "e \<le> length t" using opt(1) by (auto simp: occs_def)
  have "l < s' \<or> s' = l \<and> e' \<le> e" if o: "(s', e') \<in> occs D t" for s' e'
  proof (cases "e' \<le> n")
    case True
    then have "(s', e') \<in> occs D (take n t)" using o by (simp add: occs_def slice_take)
    then show ?thesis by (rule opt(3))
  next
    case False
    then have "n \<le> s'" using occs_after_root [OF assms(3) o] by simp
    then show ?thesis using le by simp
  qed
  moreover have "(l, e) \<in> occs D t" using opt(1) le by (simp add: occs_def slice_take)
  ultimately show ?thesis using opt(2) by (auto simp: best_of_def b)
qed

lemma best_of_token:
  assumes "best_of D t S best" and "S \<subseteq> occs D t" and "length D \<le> UINT32_MAX"
  shows "fst (snd best) = UINT32_MAX \<longleftrightarrow> fst best = None"
proof (cases "fst best")
  case None
  then show ?thesis using assms(1) by (cases best) (simp add: best_of_def)
next
  case (Some l)
  obtain tok e where b: "best = (Some l, tok, e)" using Some by (cases best) auto
  have "(l, e) \<in> S" "tok = tok_id D (slice t l e)" using assms(1) b by (auto simp: best_of_def)
  then have "tok < length D" using assms(2) by (auto simp: occs_def intro: tok_id_less)
  then show ?thesis using assms(3) b by simp
qed

lemma occs_take_subset: "occs D (take n t) \<subseteq> occs D t"
  by (auto simp: occs_def slice_take)

lemma ll_scan_ok:
  assumes ok: "ac_ok a D" and len: "length D \<le> UINT32_MAX"
    and "i \<le> length t" and "best_of D t (occs D (take i t)) best"
  shows "\<exists>best'. ll_scan a (drop i t) i (ac_state a D (take i t)) best = Some best' \<and>
     best_of D t (occs D t) best'"
  using assms(3,4)
proof (induction "length t - i" arbitrary: i best)
  case 0
  then show ?case by simp
next
  case (Suc n)
  then have i: "i < length t" by simp
  let ?u = "take (Suc i) t"
  let ?b = "foldl (ll_update i) best (smatch D ?u)"
  have d: "drop i t = t ! i # drop (Suc i) t" using i by (simp add: Cons_nth_drop_Suc)
  have u: "?u = take i t @ [t ! i]" using i by (simp add: take_Suc_conv_app_nth)
  have step: "ac_step a (ac_state a D (take i t)) (t ! i) = Some (ac_state a D ?u)"
    using ac_step_state [OF ok] u by simp
  have outs: "ll_outputs a i (cell_output (ac_cells a ! ac_state a D ?u)) best = Some ?b"
    using ll_outputs_chain [OF ac_state_chain [OF ok]] .
  have b: "best_of D t (occs D ?u) ?b" using best_of_step [OF i Suc.prems(2)] .
  have IH: "\<exists>best'. ll_scan a (drop (Suc i) t) (Suc i) (ac_state a D ?u) ?b = Some best' \<and>
     best_of D t (occs D t) best'"
    using Suc.hyps(1) [of "Suc i" ?b] Suc.hyps(2) i b by simp
  have eq: "ll_scan a (drop i t) i (ac_state a D (take i t)) best =
      (if fst (snd ?b) \<noteq> UINT32_MAX \<and> ac_state a D ?u = 0 then Some ?b
       else ll_scan a (drop (Suc i) t) (Suc i) (ac_state a D ?u) ?b)"
    using d step outs ac_state_cell [OF ok, of ?u] by simp
  show ?case
  proof (cases "fst (snd ?b) \<noteq> UINT32_MAX \<and> ac_state a D ?u = 0")
    case True
    then have "lsuf (trie_str D) ?u = []" and "fst ?b \<noteq> None"
      using ac_state_0 [OF ok] best_of_token [OF b occs_take_subset len] by auto
    then have "best_of D t (occs D t) ?b" using best_of_final [OF b] by simp
    then show ?thesis using True eq by (intro exI [of _ ?b]) (simp only: if_P simp_thms)
  next
    case False
    then show ?thesis using IH eq by (simp only: if_False)
  qed
qed

theorem ac_leftmost_longest_ok:
  assumes "ac_ok a D" and "length D \<le> UINT32_MAX"
  shows "ac_leftmost_longest a t = Some None \<and> occs D t = {} \<or>
    (\<exists>s e. ac_leftmost_longest a t = Some (Some (tok_id D (slice t s e), e)) \<and> (s, e) \<in> occs D t \<and>
       (\<forall>s' e'. (s', e') \<in> occs D t \<longrightarrow> s < s' \<or> s' = s \<and> e' \<le> e))"
proof -
  have "best_of D t (occs D (take 0 t)) (None, UINT32_MAX, 0)"
    by (simp add: best_of_def occs_def)
  from ll_scan_ok [OF assms le0 this] obtain best where
    b: "ll_scan a t 0 0 (None, UINT32_MAX, 0) = Some best" "best_of D t (occs D t) best"
    by (simp only: drop_0 take_0 ac_state_Nil) blast
  note tk = best_of_token [OF b(2) subset_refl assms(2)]
  obtain ls tok e where best: "best = (ls, tok, e)" by (cases best) auto
  show ?thesis
  proof (cases ls)
    case None
    then show ?thesis using b tk best by (simp add: ac_leftmost_longest_def best_of_def)
  next
    case (Some l)
    then have "ac_leftmost_longest a t = Some (Some (tok, e))"
      using b(1) tk best by (simp add: ac_leftmost_longest_def)
    then show ?thesis using b(2) best Some by (auto simp: best_of_def)
  qed
qed

end
