(* ===== verification/Bpe_Model.thy ===== *)
theory Bpe_Model
  imports Bpe_Merges Hash_Tables Ac_Automaton
begin

text \<open>
  The encoder object \<^verbatim>\<open>BytePairEncoding\<close> of \<^verbatim>\<open>include/bpe.h\<close> and the queries of
  \<^verbatim>\<open>src/bpe_core.c\<close> that every algorithm uses: token length and bytes, lookup of
  a token by its bytes, the longest token at the start of a text, the next
  shorter prefix, and the test whether two tokens may stand next to each other.

  \<open>bpe_ok bpe D\<close> says what the construction establishes for the dictionary \<open>D\<close>
  (the token with id \<open>i\<close> is \<open>D ! i\<close>); under it each query is shown to compute its
  meaning over \<open>D\<close>, without leaving its arrays and without looping forever.
\<close>

subsection \<open>The object\<close>

record bpe =
  all_tokens :: bytes
  token_starts :: "nat list"
  num_tokens :: nat
  hash_to_token :: bytes_map
  hash_factor :: u64
  split_left :: "nat list"
  split_right :: "nat list"
  pair_lookup :: pair_map
  longest_searcher :: ac_automaton
  overlapping_searcher :: ac_automaton
  overlapping_searcher_rev :: ac_automaton
  next_prefix_match :: "nat list"

text \<open>\<^verbatim>\<open>uint32_t\<close> addition and subtraction.\<close>

definition add32 :: "nat \<Rightarrow> nat \<Rightarrow> nat" where
  "add32 a b = (a + b) mod 2 ^ 32"

definition sub32 :: "nat \<Rightarrow> nat \<Rightarrow> nat" where
  "sub32 a b = (a + (2 ^ 32 - b)) mod 2 ^ 32"

lemma add32_less [simp]: "a + b < 2 ^ 32 \<Longrightarrow> add32 a b = a + b"
  by (simp add: add32_def)

lemma sub32_le [simp]: "b \<le> a \<Longrightarrow> a < 2 ^ 32 \<Longrightarrow> sub32 a b = a - b"
proof -
  assume "b \<le> a" "a < 2 ^ 32"
  then have "a + (2 ^ 32 - b) = 2 ^ 32 + (a - b)" by simp
  then show ?thesis using \<open>a < 2 ^ 32\<close> unfolding sub32_def by (metis less_imp_diff_less mod_add_self1 mod_less)
qed

text \<open>Reading \<open>n\<close> consecutive elements, as \<^verbatim>\<open>memcpy\<close> and \<^verbatim>\<open>memcmp\<close> do.\<close>

definition rd_slice :: "'a list \<Rightarrow> nat \<Rightarrow> nat \<Rightarrow> 'a list option" where
  "rd_slice xs s n = (if s + n \<le> length xs then Some (slice xs s (s + n)) else None)"

lemma rd_slice_in [simp]: "s + n \<le> length xs \<Longrightarrow> rd_slice xs s n = Some (slice xs s (s + n))"
  by (simp add: rd_slice_def)

subsection \<open>Queries\<close>

definition token_len :: "bpe \<Rightarrow> nat \<Rightarrow> nat option" where
  "token_len bpe tok = do {
     e \<leftarrow> rd (token_starts bpe) (add32 tok 1);
     s \<leftarrow> rd (token_starts bpe) tok;
     Some (sub32 e s)
   }"

text \<open>\<^verbatim>\<open>tok_bytes\<close> returns a pointer into \<^verbatim>\<open>all_tokens\<close>; here it is the offset.\<close>

definition tok_bytes :: "bpe \<Rightarrow> nat \<Rightarrow> nat option" where
  "tok_bytes bpe tok = rd (token_starts bpe) tok"

definition bpe_token_bytes :: "bpe \<Rightarrow> nat \<Rightarrow> bytes option" where
  "bpe_token_bytes bpe tok = do {
     s \<leftarrow> rd (token_starts bpe) tok;
     e \<leftarrow> rd (token_starts bpe) (add32 tok 1);
     rd_slice (all_tokens bpe) s (sub32 e s)
   }"

definition bpe_find_token_by_bytes :: "bpe \<Rightarrow> bytes \<Rightarrow> nat option" where
  "bpe_find_token_by_bytes bpe bs = do {
     let h = bpe_hash_bytes bs (hash_factor bpe);
     tok \<leftarrow> bytesmap_get (hash_to_token bpe) h;
     if tok = UINT32_MAX then Some UINT32_MAX
     else do {
       tlen \<leftarrow> token_len bpe tok;
       if tlen \<noteq> length bs then Some UINT32_MAX
       else do {
         s \<leftarrow> tok_bytes bpe tok;
         w \<leftarrow> rd_slice (all_tokens bpe) s (length bs);
         if w \<noteq> bs then Some UINT32_MAX else Some tok
       }
     }
   }"

definition bpe_next_match :: "bpe \<Rightarrow> bytes \<Rightarrow> nat option" where
  "bpe_next_match bpe text = do {
     r \<leftarrow> ac_leftmost_longest (longest_searcher bpe) text;
     Some (case r of None \<Rightarrow> UINT32_MAX | Some (tok, e) \<Rightarrow> tok)
   }"

definition bpe_next_prefix :: "bpe \<Rightarrow> nat \<Rightarrow> nat option" where
  "bpe_next_prefix bpe token_id = rd (next_prefix_match bpe) token_id"

partial_function (option) valid_pair_loop :: "bpe \<Rightarrow> nat \<Rightarrow> nat \<Rightarrow> nat \<Rightarrow> bool option" where
  "valid_pair_loop bpe limit token1 token2 = do {
     combined \<leftarrow> pairmap_get (pair_lookup bpe) token1 token2;
     if combined \<noteq> UINT32_MAX \<and> combined < limit then Some False
     else if token2 < token1 then do {
       right \<leftarrow> rd (split_right bpe) token1;
       if right = token1 then do {
         left \<leftarrow> rd (split_left bpe) token2;
         if add32 left 1 = add32 token2 1 then Some True
         else valid_pair_loop bpe (add32 token2 1) right left
       } else valid_pair_loop bpe token1 right token2
     } else do {
       left \<leftarrow> rd (split_left bpe) token2;
       if add32 left 1 = add32 token2 1 then do {
         right \<leftarrow> rd (split_right bpe) token1;
         if right = token1 then Some True
         else valid_pair_loop bpe token1 right left
       } else valid_pair_loop bpe (add32 token2 1) token1 left
     }
   }"

definition bpe_is_valid_token_pair :: "bpe \<Rightarrow> nat \<Rightarrow> nat \<Rightarrow> bool option" where
  "bpe_is_valid_token_pair bpe token1 token2 = valid_pair_loop bpe UINT32_MAX token1 token2"

subsection \<open>The dictionary in the object\<close>

definition starts :: "'a list list \<Rightarrow> nat list" where
  "starts D = map (\<lambda>i. length (concat (take i D))) [0..<Suc (length D)]"

definition dict_ok :: "bpe \<Rightarrow> bytes list \<Rightarrow> bool" where
  "dict_ok bpe D \<longleftrightarrow> all_tokens bpe = concat D \<and> token_starts bpe = starts D \<and>
     num_tokens bpe = length D \<and> length (concat D) < 2 ^ 32 \<and> length D \<le> 2 ^ 29"

lemma length_starts [simp]: "length (starts D) = Suc (length D)"
  by (simp add: starts_def)

lemma starts_nth: "i \<le> length D \<Longrightarrow> starts D ! i = length (concat (take i D))"
  by (simp add: starts_def del: upt_Suc)

lemma concat_take_Suc: "i < length D \<Longrightarrow> concat (take (Suc i) D) = concat (take i D) @ D ! i"
  by (simp add: take_Suc_conv_app_nth)

lemma length_concat_take: "length (concat (take i D)) \<le> length (concat D)"
  by (metis append_take_drop_id concat_append le_add1 length_append)

lemma slice_concat:
  assumes "i < length D"
  shows "slice (concat D) (length (concat (take i D))) (length (concat (take i D)) + length (D ! i)) = D ! i"
proof -
  have "concat D = concat (take i D) @ D ! i @ concat (drop (Suc i) D)"
    by (metis append_take_drop_id assms concat.simps(2) concat_append id_take_nth_drop)
  then show ?thesis by (simp add: slice_def)
qed

lemma length_concat_nth:
  assumes "i < length D"
  shows "length (concat (take i D)) + length (D ! i) \<le> length (concat D)"
  using length_concat_take [of "Suc i" D] concat_take_Suc [OF assms] by simp

lemma dict_small: "dict_ok bpe D \<Longrightarrow> i < length D \<Longrightarrow> i < 2 ^ 29"
  by (simp add: dict_ok_def)

lemma dict_UINT32_MAX: "dict_ok bpe D \<Longrightarrow> length D < UINT32_MAX"
  by (simp add: dict_ok_def UINT32_MAX_def)

lemma token_len_ok:
  assumes "dict_ok bpe D" and "i < length D"
  shows "token_len bpe i = Some (length (D ! i))"
proof -
  have i: "add32 i 1 = Suc i" using dict_small [OF assms] by simp
  have "starts D ! Suc i = starts D ! i + length (D ! i)"
    using assms(2) by (simp add: starts_nth concat_take_Suc del: take_Suc)
  moreover have "starts D ! i + length (D ! i) < 2 ^ 32"
    using assms length_concat_nth [of i D] by (simp add: dict_ok_def starts_nth)
  ultimately have "sub32 (starts D ! Suc i) (starts D ! i) = length (D ! i)" by simp
  then show ?thesis using assms i by (simp add: token_len_def dict_ok_def)
qed

lemma tok_bytes_ok:
  assumes "dict_ok bpe D" and "i < length D"
  shows "tok_bytes bpe i = Some (length (concat (take i D)))"
  using assms by (simp add: tok_bytes_def dict_ok_def starts_nth)

lemma bpe_token_bytes_ok:
  assumes "dict_ok bpe D" and "i < length D"
  shows "bpe_token_bytes bpe i = Some (D ! i)"
proof -
  have i: "add32 i 1 = Suc i" using dict_small [OF assms] by simp
  have "starts D ! Suc i = starts D ! i + length (D ! i)"
    using assms(2) by (simp add: starts_nth concat_take_Suc del: take_Suc)
  moreover have "starts D ! i + length (D ! i) < 2 ^ 32"
    using assms length_concat_nth [of i D] by (simp add: dict_ok_def starts_nth)
  ultimately have "sub32 (starts D ! Suc i) (starts D ! i) = length (D ! i)" by simp
  then show ?thesis
    using assms i slice_concat [of i D] length_concat_nth [of i D]
    by (simp add: bpe_token_bytes_def dict_ok_def starts_nth)
qed

subsection \<open>Lookup by bytes\<close>

definition find_ok :: "bpe \<Rightarrow> bytes list \<Rightarrow> bool" where
  "find_ok bpe D \<longleftrightarrow> (\<exists>r. bm_inv r (hash_to_token bpe)) \<and>
     (\<forall>h i. bm_content (hash_to_token bpe) h = Some i \<longleftrightarrow>
        i < length D \<and> bpe_hash_bytes (D ! i) (hash_factor bpe) = h)"

lemma bpe_find_token_ok:
  assumes "dict_ok bpe D" and "distinct D" and "find_ok bpe D"
  shows "bpe_find_token_by_bytes bpe bs = Some (if bs \<in> set D then tok_id D bs else UINT32_MAX)"
proof -
  let ?h = "bpe_hash_bytes bs (hash_factor bpe)"
  have get: "bytesmap_get (hash_to_token bpe) ?h = Some (found (bm_content (hash_to_token bpe) ?h))"
    using assms(3) bytes_table.get_ok unfolding find_ok_def by blast
  have cont: "bm_content (hash_to_token bpe) h = Some i \<longleftrightarrow>
      i < length D \<and> bpe_hash_bytes (D ! i) (hash_factor bpe) = h" for h i
    using assms(3) unfolding find_ok_def by blast
  show ?thesis
  proof (cases "bm_content (hash_to_token bpe) ?h")
    case None
    then have "bs \<notin> set D" using cont by (metis in_set_conv_nth option.distinct(1))
    then show ?thesis using get None by (simp add: bpe_find_token_by_bytes_def Let_def)
  next
    case (Some i)
    then have i: "i < length D" using cont by blast
    then have ne: "i \<noteq> UINT32_MAX" using dict_UINT32_MAX [OF assms(1)] by simp
    have all: "all_tokens bpe = concat D" using assms(1) by (simp add: dict_ok_def)
    note len = token_len_ok [OF assms(1) i] and tb = tok_bytes_ok [OF assms(1) i]
    show ?thesis
    proof (cases "D ! i = bs")
      case True
      then have "tok_id D bs = i" using tok_id_nth [OF assms(2) i] by simp
      moreover have "bs \<in> set D" using True i by auto
      ultimately show ?thesis
        using get Some ne len tb all True i slice_concat [OF i] length_concat_nth [OF i]
        by (simp add: bpe_find_token_by_bytes_def Let_def)
    next
      case False
      have "bs \<notin> set D"
      proof
        assume "bs \<in> set D"
        then obtain j where j: "j < length D" "D ! j = bs" by (auto simp: in_set_conv_nth)
        then have "bm_content (hash_to_token bpe) ?h = Some j" using cont by blast
        then show False using Some j False by simp
      qed
      then show ?thesis
        using get Some ne len tb all False slice_concat [OF i] length_concat_nth [OF i]
        by (simp add: bpe_find_token_by_bytes_def Let_def) (metis False)
    qed
  qed
qed

subsection \<open>The longest token at the start of a text\<close>

definition is_longest :: "bytes list \<Rightarrow> bytes \<Rightarrow> nat \<Rightarrow> bool" where
  "is_longest D t r \<longleftrightarrow>
     (if r = UINT32_MAX then \<forall>s \<in> set D. \<not> prefix s t
      else r < length D \<and> prefix (D ! r) t \<and> (\<forall>s \<in> set D. prefix s t \<longrightarrow> length s \<le> length (D ! r)))"

definition search_ok :: "bpe \<Rightarrow> bytes list \<Rightarrow> bool" where
  "search_ok bpe D \<longleftrightarrow> ac_ok (longest_searcher bpe) D \<and> ac_ok (overlapping_searcher bpe) D \<and>
     ac_ok (overlapping_searcher_rev bpe) (map rev D)"

definition prefix_ok :: "bpe \<Rightarrow> bytes list \<Rightarrow> bool" where
  "prefix_ok bpe D \<longleftrightarrow> length (next_prefix_match bpe) = length D \<and>
     (\<forall>i < length D. is_longest D (butlast (D ! i)) (next_prefix_match bpe ! i))"

lemma prefix_occs:
  assumes "s \<in> set D" and "s \<noteq> []" and "prefix s t"
  shows "(0, length s) \<in> occs D t"
  using assms by (auto simp: occs_def prefix_def)

lemma occs_prefix:
  assumes "(0, e) \<in> occs D t"
  shows "prefix (slice t 0 e) t" and "slice t 0 e \<in> set D" and "length (slice t 0 e) = e"
  using assms by (auto simp: occs_def take_is_prefix)

lemma bpe_next_match_ok:
  assumes wf: "wf_dict D" and ac: "ac_ok (longest_searcher bpe) D" and len: "length D < UINT32_MAX"
    and first: "t \<noteq> [] \<Longrightarrow> [hd t] \<in> set D"
  shows "\<exists>r. bpe_next_match bpe t = Some r \<and> is_longest D t r"
proof -
  have ne: "[] \<notin> set D" using wf by (simp add: wf_dict_def)
  from ac_leftmost_longest_ok [OF ac less_imp_le [OF len], of t] show ?thesis
  proof
    assume none: "ac_leftmost_longest (longest_searcher bpe) t = Some None \<and> occs D t = {}"
    have "\<not> prefix s t" if "s \<in> set D" for s
      using prefix_occs [OF that] none that ne by (metis empty_iff)
    then show ?thesis using none by (simp add: bpe_next_match_def is_longest_def)
  next
    assume "\<exists>s e. ac_leftmost_longest (longest_searcher bpe) t = Some (Some (tok_id D (slice t s e), e)) \<and>
       (s, e) \<in> occs D t \<and> (\<forall>s' e'. (s', e') \<in> occs D t \<longrightarrow> s < s' \<or> s' = s \<and> e' \<le> e)"
    then obtain s e where hit: "ac_leftmost_longest (longest_searcher bpe) t = Some (Some (tok_id D (slice t s e), e))"
      and o: "(s, e) \<in> occs D t"
      and best: "\<And>s' e'. (s', e') \<in> occs D t \<Longrightarrow> s < s' \<or> s' = s \<and> e' \<le> e"
      by blast
    have "t \<noteq> []" using o by (auto simp: occs_def)
    then have "(0, 1) \<in> occs D t"
      using first prefix_occs [of "[hd t]" D t] by (cases t) auto
    then have s: "s = 0" using best by fastforce
    note w = occs_prefix [OF o [unfolded s]]
    have r: "tok_id D (slice t 0 e) < length D" "D ! tok_id D (slice t 0 e) = slice t 0 e"
      using w(2) tok_id_less by simp_all
    have "length u \<le> e" if "u \<in> set D" "prefix u t" for u
      using best [OF prefix_occs [OF that(1) _ that(2)]] that ne s by auto
    then have "is_longest D t (tok_id D (slice t 0 e))"
      using r w len by (simp add: is_longest_def)
    then show ?thesis using hit s by (simp add: bpe_next_match_def)
  qed
qed

lemma is_longest_less: "is_longest D t r \<Longrightarrow> r \<noteq> UINT32_MAX \<Longrightarrow> r < length D"
  by (simp add: is_longest_def)

lemma is_longest_prefix: "is_longest D t r \<Longrightarrow> r \<noteq> UINT32_MAX \<Longrightarrow> prefix (D ! r) t"
  by (simp add: is_longest_def)

lemma is_longest_max:
  "is_longest D t r \<Longrightarrow> s \<in> set D \<Longrightarrow> prefix s t \<Longrightarrow> r \<noteq> UINT32_MAX \<and> length s \<le> length (D ! r)"
  by (cases "r = UINT32_MAX") (auto simp: is_longest_def)

text \<open>The chain of shorter prefixes: nothing lies between a token and its successor in the chain.\<close>

lemma is_longest_butlast:
  assumes "is_longest D (butlast w) r" and "s \<in> set D" and "prefix s w" and "length s < length w"
  shows "r \<noteq> UINT32_MAX \<and> length s \<le> length (D ! r)"
proof (rule is_longest_max [OF assms(1,2)])
  obtain v where v: "w = s @ v" using assms(3) by (auto simp: prefix_def)
  then have "v \<noteq> []" using assms(4) by auto
  then show "prefix s (butlast w)" by (simp add: v butlast_append)
qed

subsection \<open>Valid pairs\<close>

definition pair_map_ok :: "bpe \<Rightarrow> bytes list \<Rightarrow> nat \<Rightarrow> bool" where
  "pair_map_ok bpe D k \<longleftrightarrow> (\<exists>r. pm_inv r (pair_lookup bpe)) \<and>
     tables_ok D k (split_left bpe) (split_right bpe) (\<lambda>a b. pm_content (pair_lookup bpe) (a, b))"

lemma pair_map_get:
  assumes "pair_map_ok bpe D k"
  shows "pairmap_get (pair_lookup bpe) a b = Some (found (pm_content (pair_lookup bpe) (a, b)))"
  using assms pairmap_get_ok unfolding pair_map_ok_def by blast

lemma valid_pair_loop_ok:
  assumes wf: "wf_dict D" and pm: "pair_map_ok bpe D k" and len: "length D \<le> 2 ^ 29"
    and "live D k t1" and "live D k t2"
    and "length (D ! t1) \<noteq> 1 \<longrightarrow> t1 \<le> limit" and "length (D ! t2) \<noteq> 1 \<longrightarrow> Suc t2 \<le> limit"
  shows "valid_pair_loop bpe limit t1 t2 = Some (no_cross D k t1 t2 limit)"
  using assms(4-)
proof (induction "t1 + t2" arbitrary: t1 t2 limit rule: less_induct)
  case less
  let ?P = "\<lambda>a b. pm_content (pair_lookup bpe) (a, b)"
  have tb: "tables_ok D k (split_left bpe) (split_right bpe) ?P"
    using pm by (simp add: pair_map_ok_def)
  note get = pair_map_get [OF pm, of t1 t2]
  note l1 = less.prems(1) and l2 = less.prems(2)
  have b1: "t1 < length D" and b2: "t2 < length D" using l1 l2 by (auto simp: live_def)
  have rd1: "rd (split_right bpe) t1 = Some (split_right bpe ! t1)"
    and rd2: "rd (split_left bpe) t2 = Some (split_left bpe ! t2)"
    using tb b1 b2 by (auto simp: tables_ok_def)
  note fix1 = tables_fix_iff(2) [OF tb l1] and fix2 = tables_fix_iff(1) [OF tb l2]
  have lv1: "live D k (split_right bpe ! t1)" and lv2: "live D k (split_left bpe ! t2)"
    using tables_live [OF tb] l1 l2 by auto
  have a2: "add32 t2 1 = Suc t2" and al: "add32 (split_left bpe ! t2) 1 = Suc (split_left bpe ! t2)"
    using b2 lv2 len by (auto simp: live_def)
  show ?case
  proof (cases "\<exists>c. ?P t1 t2 = Some c \<and> c < limit")
    case True
    then obtain c where c: "?P t1 t2 = Some c" "c < limit" by blast
    then have "c < length D" using tables_lookup [OF tb, of t1 t2 c] tables_bound [OF tb] by simp
    then have "c \<noteq> UINT32_MAX" using len by (simp add: UINT32_MAX_def)
    then have "valid_pair_loop bpe limit t1 t2 = Some False"
      using get c by (subst valid_pair_loop.simps) simp
    then show ?thesis using no_cross_hit [OF wf tb l1 l2 c] by simp
  next
    case False
    then have miss: "\<forall>c. ?P t1 t2 = Some c \<longrightarrow> limit \<le> c" by (meson not_le)
    have skip: "\<not> (found (?P t1 t2) \<noteq> UINT32_MAX \<and> found (?P t1 t2) < limit)"
      using miss by (cases "?P t1 t2") auto
    have left: "valid_pair_loop bpe t1 (split_right bpe ! t1) t2 = Some (no_cross D k t1 t2 limit)"
      if n1: "length (D ! t1) \<noteq> 1" and o: "length (D ! t2) = 1 \<or> t2 < t1"
    proof -
      have "t1 < k" using l1 n1 by (simp add: live_def)
      then have "split_right bpe ! t1 < t1" using tables_parts [OF tb _ n1] by simp
      then have "valid_pair_loop bpe t1 (split_right bpe ! t1) t2 =
          Some (no_cross D k (split_right bpe ! t1) t2 t1)"
        using lv1 l2 o by (intro less.hyps) auto
      then show ?thesis using no_cross_left [OF wf tb l1 l2 miss n1 _ o] less.prems(3) n1 by simp
    qed
    have right: "valid_pair_loop bpe (Suc t2) t1 (split_left bpe ! t2) = Some (no_cross D k t1 t2 limit)"
      if n2: "length (D ! t2) \<noteq> 1" and o: "length (D ! t1) = 1 \<or> t1 \<le> t2"
    proof -
      have "t2 < k" using l2 n2 by (simp add: live_def)
      then have "split_left bpe ! t2 < t2" using tables_parts [OF tb _ n2] by simp
      then have "valid_pair_loop bpe (Suc t2) t1 (split_left bpe ! t2) =
          Some (no_cross D k t1 (split_left bpe ! t2) (Suc t2))"
        using l1 lv2 o by (intro less.hyps) auto
      then show ?thesis using no_cross_right [OF wf tb l1 l2 miss n2 _ o] less.prems(4) n2 by simp
    qed
    note done1 = no_cross_done [OF wf tb l1 l2 miss]
    show ?thesis
      using skip get rd1 rd2 fix1 fix2 left right done1 a2 al
      by (subst valid_pair_loop.simps) auto
  qed
qed

theorem bpe_is_valid_token_pair_partial:
  assumes wf: "wf_dict D" and pm: "pair_map_ok bpe D k" and len: "length D \<le> 2 ^ 29"
    and l1: "live D k t1" and l2: "live D k t2"
  shows "bpe_is_valid_token_pair bpe t1 t2 = Some (seg_pair D k (D ! t1) (D ! t2))"
proof -
  have tb: "tables_ok D k (split_left bpe) (split_right bpe) (\<lambda>a b. pm_content (pair_lookup bpe) (a, b))"
    using pm by (simp add: pair_map_ok_def)
  then have "k \<le> UINT32_MAX" using tables_bound len by (fastforce simp: UINT32_MAX_def)
  moreover have "t1 \<le> UINT32_MAX" "Suc t2 \<le> UINT32_MAX"
    using l1 l2 len by (auto simp: live_def UINT32_MAX_def)
  ultimately show ?thesis
    using valid_pair_loop_ok [OF wf pm len l1 l2, of UINT32_MAX] no_cross_seg_pair [OF wf tb l1 l2, of UINT32_MAX]
    by (simp add: bpe_is_valid_token_pair_def)
qed

subsection \<open>What the construction provides\<close>

definition bpe_ok :: "bpe \<Rightarrow> bytes list \<Rightarrow> bool" where
  "bpe_ok bpe D \<longleftrightarrow> wf_dict D \<and> dict_ok bpe D \<and> find_ok bpe D \<and> search_ok bpe D \<and>
     prefix_ok bpe D \<and> pair_map_ok bpe D (length D)"

lemma bpe_okD:
  assumes "bpe_ok bpe D"
  shows "wf_dict D" and "dict_ok bpe D" and "find_ok bpe D" and "search_ok bpe D"
    and "prefix_ok bpe D" and "pair_map_ok bpe D (length D)" and "distinct D" and "length D \<le> 2 ^ 29"
    and "length D < UINT32_MAX"
  using assms wf_dict_distinct dict_UINT32_MAX unfolding bpe_ok_def by (auto simp: dict_ok_def)

lemma bpe_valid_pair:
  assumes "bpe_ok bpe D" and "i < length D" and "j < length D"
  shows "bpe_is_valid_token_pair bpe i j = Some (ok_pair D i j)"
  using bpe_is_valid_token_pair_partial [OF bpe_okD(1,6,8) [OF assms(1)], of i j] assms(2,3)
  by (simp add: live_def ok_pair_def)

lemma bpe_find_token:
  "bpe_ok bpe D \<Longrightarrow>
     bpe_find_token_by_bytes bpe bs = Some (if bs \<in> set D then tok_id D bs else UINT32_MAX)"
  using bpe_find_token_ok bpe_okD by blast

lemma bpe_token_len: "bpe_ok bpe D \<Longrightarrow> i < length D \<Longrightarrow> token_len bpe i = Some (length (D ! i))"
  using token_len_ok bpe_okD by blast

lemma bpe_next_match_longest:
  assumes "bpe_ok bpe D" and "covers D t"
  shows "\<exists>r. bpe_next_match bpe t = Some r \<and> is_longest D t r"
  using assms(2) bpe_okD [OF assms(1)]
  by (intro bpe_next_match_ok) (auto simp: search_ok_def covers_def)

lemma bpe_next_prefix_longest:
  assumes "bpe_ok bpe D" and "i < length D"
  shows "\<exists>r. bpe_next_prefix bpe i = Some r \<and> is_longest D (butlast (D ! i)) r"
  using assms(2) bpe_okD(5) [OF assms(1)] by (auto simp: prefix_ok_def bpe_next_prefix_def)

lemma bpe_pos_len: "bpe_ok bpe D \<Longrightarrow> i < length D \<Longrightarrow> 0 < length (D ! i)"
  using wf_dict_nonempty bpe_okD(1) by blast

end
