(* ===== verification/Ac_Builder.thy ===== *)
theory Ac_Builder
  imports Ac_Automaton
begin

text \<open>
  The construction of the automaton, first half of \<^verbatim>\<open>src/ac_bpe.c\<close>: the trie
  builder, the breadth-first search that computes failure links and output
  chains, and the packing of the trie into the double array. The growth of the node
  and output arrays is visible in the lists that model them only as its limit: the
  capacities are \<^verbatim>\<open>int32_t\<close>, and the doubling that would exceed them has no result. The
  double array is kept at its real size, since its size is part of the result.

  The result satisfies \<open>ac_ok\<close>, the condition under which the run time of the automaton is
  correct.
\<close>

subsection \<open>Trie builder\<close>

record trie_node =
  tn_edges :: "(byte \<times> nat) list"
  tn_token :: nat

record ac_builder =
  tb_nodes :: "trie_node list"
  tb_kind :: ac_kind

definition trie_node_new :: trie_node where
  "trie_node_new = \<lparr>tn_edges = [], tn_token = UINT32_MAX\<rparr>"

definition ac_builder_new :: "ac_kind \<Rightarrow> ac_builder" where
  "ac_builder_new kind = \<lparr>tb_nodes = [trie_node_new], tb_kind = kind\<rparr>"

text \<open>
  Binary search over the sorted edges, shared by \<^verbatim>\<open>tb_child\<close> and \<^verbatim>\<open>trie_find_child\<close>:
  \<open>Inl\<close> the child, or \<open>Inr\<close> the position where the edge belongs.
\<close>

partial_function (option) edge_search ::
    "(byte \<times> nat) list \<Rightarrow> byte \<Rightarrow> nat \<Rightarrow> nat \<Rightarrow> (nat + nat) option" where
  "edge_search edges b lo hi =
     (if lo < hi then do {
        let mid = (lo + hi) div 2;
        e \<leftarrow> rd edges mid;
        if fst e = b then Some (Inl (snd e))
        else if fst e < b then edge_search edges b (mid + 1) hi
        else edge_search edges b lo mid
      } else Some (Inr lo))"

text \<open>
  \<^verbatim>\<open>tb_new_node\<close>. The capacity starts at \<^verbatim>\<open>4096\<close> and doubles when all nodes are in use, so it is
  always \<open>2 ^ k\<close> for some \<open>k \<ge> 12\<close>; the doubling that overflows \<^verbatim>\<open>int32_t\<close> is the one at
  \<open>2 ^ 30\<close> nodes.
\<close>

definition tb_new_node :: "trie_node list \<Rightarrow> (trie_node list \<times> nat) option" where
  "tb_new_node nodes =
     (if length nodes < 2 ^ 30 then Some (nodes @ [trie_node_new], length nodes) else None)"

definition tb_child :: "trie_node list \<Rightarrow> nat \<Rightarrow> byte \<Rightarrow> (trie_node list \<times> nat) option" where
  "tb_child nodes node b = do {
     n \<leftarrow> rd nodes node;
     r \<leftarrow> edge_search (tn_edges n) b 0 (length (tn_edges n));
     case r of
       Inl child \<Rightarrow> Some (nodes, child)
     | Inr lo \<Rightarrow> do {
         (nodes, child) \<leftarrow> tb_new_node nodes;
         let edges = take lo (tn_edges n) @ (b, child) # drop lo (tn_edges n);
         nodes \<leftarrow> wr nodes node (n\<lparr>tn_edges := edges\<rparr>);
         Some (nodes, child)
       }
   }"

fun tb_path :: "trie_node list \<Rightarrow> nat \<Rightarrow> bytes \<Rightarrow> (trie_node list \<times> nat) option" where
  "tb_path nodes node [] = Some (nodes, node)"
| "tb_path nodes node (b # bs) = do {
     (nodes, node) \<leftarrow> tb_child nodes node b;
     tb_path nodes node bs
   }"

definition tb_insert :: "trie_node list \<Rightarrow> bytes \<Rightarrow> nat \<Rightarrow> trie_node list option" where
  "tb_insert nodes bs token_id = do {
     (nodes, node) \<leftarrow> tb_path nodes 0 bs;
     n \<leftarrow> rd nodes node;
     if tn_token n = UINT32_MAX then wr nodes node (n\<lparr>tn_token := token_id\<rparr>) else Some nodes
   }"

definition ac_builder_add :: "ac_builder \<Rightarrow> bytes \<Rightarrow> nat \<Rightarrow> ac_builder option" where
  "ac_builder_add b bs token_id = do {
     nodes \<leftarrow> tb_insert (tb_nodes b)
       (if tb_kind b = AC_KIND_OVERLAPPING_REV then rev bs else bs) token_id;
     Some (b\<lparr>tb_nodes := nodes\<rparr>)
   }"

definition trie_find_child :: "trie_node list \<Rightarrow> nat \<Rightarrow> byte \<Rightarrow> nat option option" where
  "trie_find_child nodes node b = do {
     n \<leftarrow> rd nodes node;
     r \<leftarrow> edge_search (tn_edges n) b 0 (length (tn_edges n));
     Some (case r of Inl child \<Rightarrow> Some child | Inr lo \<Rightarrow> None)
   }"

subsection \<open>What the trie represents\<close>

definition edges_sorted :: "(byte \<times> nat) list \<Rightarrow> bool" where
  "edges_sorted es \<longleftrightarrow> (\<forall>i j. i < j \<and> j < length es \<longrightarrow> fst (es ! i) < fst (es ! j))"

lemma edge_search_ok:
  assumes sorted: "edges_sorted es"
    and "lo \<le> hi" "hi \<le> length es" "\<forall>i < lo. fst (es ! i) < b" "\<forall>i. hi \<le> i \<and> i < length es \<longrightarrow> b < fst (es ! i)"
  shows "(\<exists>m. edge_search es b lo hi = Some (Inl m) \<and> (b, m) \<in> set es) \<or>
    (\<exists>l. edge_search es b lo hi = Some (Inr l) \<and> l \<le> length es \<and> (\<forall>i < l. fst (es ! i) < b) \<and>
       (\<forall>i. l \<le> i \<and> i < length es \<longrightarrow> b < fst (es ! i)))"
  using assms(2-)
proof (induction "hi - lo" arbitrary: lo hi rule: less_induct)
  case less
  let ?mid = "(lo + hi) div 2"
  show ?case
  proof (cases "lo < hi")
    case False
    then show ?thesis using less.prems by (subst (2) edge_search.simps) auto
  next
    case True
    then have mid: "lo \<le> ?mid" "?mid < hi" "?mid < length es" using less.prems by auto
    have step: "edge_search es b lo hi =
        (if fst (es ! ?mid) = b then Some (Inl (snd (es ! ?mid)))
         else if fst (es ! ?mid) < b then edge_search es b (?mid + 1) hi else edge_search es b lo ?mid)"
      using True mid by (subst edge_search.simps) (simp add: Let_def)
    consider "fst (es ! ?mid) = b" | "fst (es ! ?mid) < b" | "b < fst (es ! ?mid)"
      by (metis linorder_neqE)
    then show ?thesis
    proof cases
      case 1
      then have "(b, snd (es ! ?mid)) \<in> set es" using mid by (metis nth_mem prod.collapse)
      then show ?thesis using 1 step by simp
    next
      case 2
      have "fst (es ! i) < b" if "i < ?mid + 1" for i
      proof (cases "i = ?mid")
        case False
        then have "fst (es ! i) < fst (es ! ?mid)" using that mid sorted by (simp add: edges_sorted_def)
        then show ?thesis using 2 by simp
      qed (use 2 in simp)
      then have "(\<exists>m. edge_search es b (?mid + 1) hi = Some (Inl m) \<and> (b, m) \<in> set es) \<or>
        (\<exists>l. edge_search es b (?mid + 1) hi = Some (Inr l) \<and> l \<le> length es \<and> (\<forall>i < l. fst (es ! i) < b) \<and>
          (\<forall>i. l \<le> i \<and> i < length es \<longrightarrow> b < fst (es ! i)))"
        using less.prems mid by (intro less.hyps) auto
      then show ?thesis using 2 step by auto
    next
      case 3
      have "b < fst (es ! i)" if "?mid \<le> i" "i < length es" for i
      proof (cases "i = ?mid")
        case False
        then have "fst (es ! ?mid) < fst (es ! i)" using that mid sorted by (simp add: edges_sorted_def)
        then show ?thesis using 3 by simp
      qed (use 3 in simp)
      then have "(\<exists>m. edge_search es b lo ?mid = Some (Inl m) \<and> (b, m) \<in> set es) \<or>
        (\<exists>l. edge_search es b lo ?mid = Some (Inr l) \<and> l \<le> length es \<and> (\<forall>i < l. fst (es ! i) < b) \<and>
          (\<forall>i. l \<le> i \<and> i < length es \<longrightarrow> b < fst (es ! i)))"
        using less.prems mid by (intro less.hyps) auto
      then show ?thesis using 3 step by auto
    qed
  qed
qed

lemma edges_sorted_inj:
  assumes "edges_sorted es" and "(b, m) \<in> set es" and "(b, m') \<in> set es"
  shows "m = m'"
proof -
  obtain i j where ij: "i < length es" "es ! i = (b, m)" "j < length es" "es ! j = (b, m')"
    using assms(2,3) by (metis in_set_conv_nth)
  have "i = j"
  proof (rule ccontr)
    assume "i \<noteq> j"
    then have "fst (es ! i) < fst (es ! j) \<or> fst (es ! j) < fst (es ! i)"
      using assms(1) ij unfolding edges_sorted_def by (metis linorder_neqE_nat)
    then show False using ij by simp
  qed
  then show ?thesis using ij by simp
qed

lemma edge_search_full:
  assumes "edges_sorted es"
  shows "(\<exists>m. edge_search es b 0 (length es) = Some (Inl m) \<and> (b, m) \<in> set es) \<or>
    (\<exists>l. edge_search es b 0 (length es) = Some (Inr l) \<and> b \<notin> fst ` set es \<and>
       edges_sorted (take l es @ (b, x) # drop l es))"
proof -
  have "\<exists>l. edge_search es b 0 (length es) = Some (Inr l) \<and> b \<notin> fst ` set es \<and>
       edges_sorted (take l es @ (b, x) # drop l es)"
    if h: "\<exists>l. edge_search es b 0 (length es) = Some (Inr l) \<and> l \<le> length es \<and> (\<forall>i < l. fst (es ! i) < b) \<and>
       (\<forall>i. l \<le> i \<and> i < length es \<longrightarrow> b < fst (es ! i))"
  proof -
    obtain l where l: "edge_search es b 0 (length es) = Some (Inr l)" "l \<le> length es"
      "\<And>i. i < l \<Longrightarrow> fst (es ! i) < b" "\<And>i. l \<le> i \<Longrightarrow> i < length es \<Longrightarrow> b < fst (es ! i)"
      using h by blast
    have "fst (es ! i) \<noteq> b" if "i < length es" for i
      using l(3) [of i] l(4) [of i] that by (cases "i < l") auto
    then have no: "b \<notin> fst ` set es" by (metis imageE in_set_conv_nth)
    let ?es = "take l es @ (b, x) # drop l es"
    have nth: "?es ! i = (if i < l then es ! i else if i = l then (b, x) else es ! (i - 1))" for i
      using l(2) by (auto simp: nth_append nth_Cons')
    have "fst (?es ! i) < fst (?es ! j)" if ij: "i < j" "j < length ?es" for i j
    proof -
      have s: "fst (es ! i') < fst (es ! j')" if "i' < j'" "j' < length es" for i' j'
        using assms that unfolding edges_sorted_def by blast
      have jl: "j \<le> length es" using ij l(2) by simp
      show ?thesis
      proof (cases "j = l")
        case True
        then show ?thesis using nth l(3) ij(1) by simp
      next
        case False
        then show ?thesis
          using nth [of i] nth [of j] ij(1) jl l(4) [of "j - 1"] s [of i j] s [of i "j - 1"]
            s [of "i - 1" "j - 1"] l(2)
          by (auto split: if_splits)
      qed
    qed
    then have "edges_sorted ?es" unfolding edges_sorted_def by blast
    then show ?thesis using l(1) no by blast
  qed
  moreover have "(\<exists>m. edge_search es b 0 (length es) = Some (Inl m) \<and> (b, m) \<in> set es) \<or>
    (\<exists>l. edge_search es b 0 (length es) = Some (Inr l) \<and> l \<le> length es \<and> (\<forall>i < l. fst (es ! i) < b) \<and>
       (\<forall>i. l \<le> i \<and> i < length es \<longrightarrow> b < fst (es ! i)))"
    by (rule edge_search_ok [OF assms]) auto
  ultimately show ?thesis by blast
qed

text \<open>
  \<open>trie_rep nodes S tk lab\<close>: the nodes stand for the strings \<open>S\<close>, node \<open>n\<close> for
  \<open>lab n\<close>, and the token of a string is \<open>tk\<close>.
\<close>

definition trie_rep :: "trie_node list \<Rightarrow> bytes set \<Rightarrow> (bytes \<Rightarrow> nat) \<Rightarrow> (nat \<Rightarrow> bytes) \<Rightarrow> bool" where
  "trie_rep nodes S tk lab \<longleftrightarrow>
     0 < length nodes \<and> lab 0 = [] \<and> inj_on lab {..<length nodes} \<and> lab ` {..<length nodes} = S \<and>
     (\<forall>s c. s @ [c] \<in> S \<longrightarrow> s \<in> S) \<and> (\<forall>s. s \<notin> S \<longrightarrow> tk s = UINT32_MAX) \<and>
     (\<forall>n < length nodes. edges_sorted (tn_edges (nodes ! n)) \<and>
        (\<forall>c m. (c, m) \<in> set (tn_edges (nodes ! n)) \<longleftrightarrow> m < length nodes \<and> lab m = lab n @ [c]) \<and>
        tn_token (nodes ! n) = tk (lab n))"

lemma trie_repD:
  assumes "trie_rep nodes S tk lab"
  shows "0 < length nodes" and "lab 0 = []" and "inj_on lab {..<length nodes}"
    and "lab ` {..<length nodes} = S" and "s @ [c] \<in> S \<Longrightarrow> s \<in> S" and "s \<notin> S \<Longrightarrow> tk s = UINT32_MAX"
    and "n < length nodes \<Longrightarrow> edges_sorted (tn_edges (nodes ! n))"
    and "n < length nodes \<Longrightarrow>
      (c, m) \<in> set (tn_edges (nodes ! n)) \<longleftrightarrow> m < length nodes \<and> lab m = lab n @ [c]"
    and "n < length nodes \<Longrightarrow> tn_token (nodes ! n) = tk (lab n)"
  using assms unfolding trie_rep_def by blast+

lemma trie_rep_inj:
  "trie_rep nodes S tk lab \<Longrightarrow> m < length nodes \<Longrightarrow> n < length nodes \<Longrightarrow> lab m = lab n \<longleftrightarrow> m = n"
  using trie_repD(3) by (metis inj_on_eq_iff lessThan_iff)

lemma trie_rep_new: "trie_rep [trie_node_new] {[]} (\<lambda>s. UINT32_MAX) (\<lambda>n. [])"
  by (auto simp: trie_rep_def trie_node_new_def edges_sorted_def lessThan_Suc)

lemma tb_child_ok:
  assumes rep: "trie_rep nodes S tk lab" and n: "n < length nodes"
  shows "(\<exists>nodes' m lab'. tb_child nodes n b = Some (nodes', m) \<and>
      trie_rep nodes' (insert (lab n @ [b]) S) tk lab' \<and> m < length nodes' \<and> lab' m = lab n @ [b] \<and>
      length nodes' \<le> Suc (length nodes)) \<or>
    (tb_child nodes n b = None \<and> 2 ^ 30 \<le> length nodes)"
proof -
  note r = trie_repD [OF rep]
  let ?es = "tn_edges (nodes ! n)" and ?N = "length nodes"
  consider (hit) m where "edge_search ?es b 0 (length ?es) = Some (Inl m)" "(b, m) \<in> set ?es"
    | (full) l where "edge_search ?es b 0 (length ?es) = Some (Inr l)" "2 ^ 30 \<le> ?N"
    | (miss) l where "edge_search ?es b 0 (length ?es) = Some (Inr l)" "b \<notin> fst ` set ?es"
      "edges_sorted (take l ?es @ (b, ?N) # drop l ?es)" "?N < 2 ^ 30"
    using edge_search_full [OF r(7) [OF n], of b ?N] not_less by blast
  then show ?thesis
  proof cases
    case hit
    then have m: "m < ?N" "lab m = lab n @ [b]" using r(8) [OF n] by auto
    then have "lab n @ [b] \<in> S" using r(4) by (metis imageI lessThan_iff)
    then have "insert (lab n @ [b]) S = S" by blast
    moreover have "tb_child nodes n b = Some (nodes, m)" using hit(1) n by (simp add: tb_child_def)
    ultimately show ?thesis using rep m by auto
  next
    case full
    then show ?thesis using n by (simp add: tb_child_def tb_new_node_def)
  next
    case miss
    let ?es' = "take l ?es @ (b, ?N) # drop l ?es"
    let ?nodes = "(nodes @ [trie_node_new])[n := (nodes ! n)\<lparr>tn_edges := ?es'\<rparr>]"
    let ?lab = "lab(?N := lab n @ [b])"
    have step: "tb_child nodes n b = Some (?nodes, ?N)"
      using miss(1,4) n by (simp add: tb_child_def tb_new_node_def Let_def)
    have new: "lab n @ [b] \<notin> S"
    proof
      assume "lab n @ [b] \<in> S"
      then obtain m where "m < ?N" "lab m = lab n @ [b]" using r(4) by auto
      then have "(b, m) \<in> set ?es" using r(8) [OF n] by blast
      then show False using miss(2) by force
    qed
    have lab_in: "lab m \<in> S" if "m < ?N" for m using that r(4) by blast
    have len: "length ?nodes = Suc ?N" by simp
    have nth: "?nodes ! m = (if m = n then (nodes ! n)\<lparr>tn_edges := ?es'\<rparr>
        else if m < ?N then nodes ! m else trie_node_new)" if "m < Suc ?N" for m
      using that n by (auto simp: nth_append nth_list_update)
    have set_es': "set ?es' = insert (b, ?N) (set ?es)"
      by (simp only: set_append list.set(2)) (metis Un_insert_right append_take_drop_id set_append)
    have edges: "(c, m') \<in> set (tn_edges (?nodes ! m)) \<longleftrightarrow> m' < Suc ?N \<and> ?lab m' = ?lab m @ [c]"
      if m: "m < Suc ?N" for m c m'
    proof (cases "m = ?N")
      case True
      have "?lab m' \<noteq> lab n @ [b] @ [c]" if "m' < Suc ?N" for m'
      proof (cases "m' = ?N")
        case False
        then have "lab m' \<in> S" using that lab_in by simp
        then show ?thesis using new r(5) [of "lab n @ [b]" c] False by auto
      qed simp
      then show ?thesis using True n nth [OF m] by (auto simp: trie_node_new_def)
    next
      case False
      then have m: "m < ?N" using m by simp
      have old: "(c, m') \<in> set (tn_edges (nodes ! m)) \<longleftrightarrow> m' < ?N \<and> lab m' = lab m @ [c]"
        using r(8) [OF m] .
      have at_new: "?lab ?N = ?lab m @ [c] \<longleftrightarrow> m = n \<and> c = b"
        using m n trie_rep_inj [OF rep m n] by auto
      show ?thesis
      proof (cases "m = n")
        case True
        then have "(c, m') \<in> set (tn_edges (?nodes ! m)) \<longleftrightarrow> (c, m') = (b, ?N) \<or> (c, m') \<in> set ?es"
          using nth [of m] m set_es' by simp
        then show ?thesis using old at_new True m by (auto simp: less_Suc_eq)
      next
        case False
        then show ?thesis using old at_new m nth [of m] by (auto simp: less_Suc_eq)
      qed
    qed
    have "lab x \<noteq> lab n @ [b]" if "x < ?N" for x using lab_in [OF that] new by metis
    then have "lab n @ [b] \<notin> lab ` {..<?N}" by (metis imageE lessThan_iff)
    then have "inj_on ?lab {..<Suc ?N}"
      unfolding lessThan_Suc using r(3) by (intro inj_on_fun_updI [THEN inj_on_insert [THEN iffD2, OF conjI]]) simp_all
    moreover have "?lab ` {..<Suc ?N} = insert (lab n @ [b]) S"
      using r(4) by (auto simp: lessThan_Suc image_iff)
    moreover have "s \<in> insert (lab n @ [b]) S" if "s @ [c] \<in> insert (lab n @ [b]) S" for s c
      using that r(5) [of s c] lab_in [OF n] by auto
    moreover have "edges_sorted (tn_edges (?nodes ! m))" if "m < Suc ?N" for m
      using nth [OF that] miss(3) r(7) by (auto simp: trie_node_new_def edges_sorted_def)
    moreover have "tn_token (?nodes ! m) = tk (?lab m)" if "m < Suc ?N" for m
      using nth [OF that] that r(9) n new r(6) by (auto simp: trie_node_new_def less_Suc_eq)
    ultimately have "trie_rep ?nodes (insert (lab n @ [b]) S) tk ?lab"
      unfolding trie_rep_def len using r(1,2,6) edges by (auto simp del: nth_list_update)
    then show ?thesis using step len
      by (intro disjI1 exI [of _ ?nodes] exI [of _ ?N] exI [of _ ?lab]) simp
  qed
qed

text \<open>Walking down from a node adds the strings on the way.\<close>

lemma tb_path_ok:
  assumes "trie_rep nodes S tk lab" and "n < length nodes"
  shows "(\<exists>nodes' m lab'. tb_path nodes n bs = Some (nodes', m) \<and>
      trie_rep nodes' (S \<union> {lab n @ u | u. prefix u bs}) tk lab' \<and> m < length nodes' \<and> lab' m = lab n @ bs \<and>
      length nodes' \<le> length nodes + length bs) \<or>
    (tb_path nodes n bs = None \<and> 2 ^ 30 < length nodes + length bs)"
  using assms
proof (induction bs arbitrary: nodes n S lab)
  case Nil
  have "lab n \<in> S" using trie_repD(4) [OF Nil.prems(1)] Nil.prems(2) by blast
  then have "S \<union> {lab n @ u | u. prefix u []} = S" by auto
  then show ?case using Nil.prems by auto
next
  case (Cons b bs)
  show ?case
  proof (cases "tb_child nodes n b")
    case None
    then show ?thesis using tb_child_ok [OF Cons.prems, of b] by simp
  next
    case (Some r1)
    obtain nodes1 m1 lab1 where c: "tb_child nodes n b = Some (nodes1, m1)"
      "trie_rep nodes1 (insert (lab n @ [b]) S) tk lab1" "m1 < length nodes1" "lab1 m1 = lab n @ [b]"
      "length nodes1 \<le> Suc (length nodes)"
      using tb_child_ok [OF Cons.prems, of b] Some by auto
    show ?thesis
    proof (cases "tb_path nodes1 m1 bs")
      case None
      then show ?thesis using Cons.IH [OF c(2,3)] c(1,5) by simp
    next
      case (Some r2)
      obtain nodes' m lab' where p: "tb_path nodes1 m1 bs = Some (nodes', m)"
        "trie_rep nodes' (insert (lab n @ [b]) S \<union> {lab1 m1 @ u | u. prefix u bs}) tk lab'"
        "m < length nodes'" "lab' m = lab1 m1 @ bs" "length nodes' \<le> length nodes1 + length bs"
        using Cons.IH [OF c(2,3)] Some by auto
      have "lab n \<in> S" using trie_repD(4) [OF Cons.prems(1)] Cons.prems(2) by blast
      then have "insert (lab n @ [b]) S \<union> {lab1 m1 @ u | u. prefix u bs} = S \<union> {lab n @ u | u. prefix u (b # bs)}"
        using c(4) by (auto simp: prefix_Cons)
      then show ?thesis using c p by auto
    qed
  qed
qed

lemma tb_insert_ok:
  assumes rep: "trie_rep nodes S tk lab"
  shows "(\<exists>nodes' lab'. tb_insert nodes w k = Some nodes' \<and>
      trie_rep nodes' (S \<union> {u. prefix u w}) (if tk w = UINT32_MAX then tk(w := k) else tk) lab' \<and>
      length nodes' \<le> length nodes + length w) \<or>
    (tb_insert nodes w k = None \<and> 2 ^ 30 < length nodes + length w)"
proof (cases "tb_path nodes 0 w")
  case None
  then show ?thesis
    using tb_path_ok [OF rep, of 0 w] trie_repD(1) [OF rep] by (simp add: tb_insert_def)
next
  case (Some r)
  have l0: "lab 0 = []" "0 < length nodes" using trie_repD(1,2) [OF rep] by auto
  obtain nodes' m lab' where p: "tb_path nodes 0 w = Some (nodes', m)"
    "trie_rep nodes' (S \<union> {u. prefix u w}) tk lab'" "m < length nodes'" "lab' m = w"
    "length nodes' \<le> length nodes + length w"
    using tb_path_ok [OF rep l0(2), of w] l0(1) Some by auto
  note r = trie_repD [OF p(2)]
  have tok: "tn_token (nodes' ! m) = tk w" using r(9) [OF p(3)] p(4) by simp
  show ?thesis
  proof (cases "tk w = UINT32_MAX")
    case False
    then show ?thesis using p tok by (auto simp: tb_insert_def)
  next
    case True
    let ?nodes = "nodes'[m := (nodes' ! m)\<lparr>tn_token := k\<rparr>]"
    have "lab' x = w \<longleftrightarrow> x = m" if "x < length nodes'" for x
      using trie_rep_inj [OF p(2) that p(3)] p(4) by simp
    then have "trie_rep ?nodes (S \<union> {u. prefix u w}) (tk(w := k)) lab'"
      using p(2-4) unfolding trie_rep_def by (auto simp: nth_list_update)
    moreover have "tb_insert nodes w k = Some ?nodes"
      using p tok True by (simp add: tb_insert_def)
    ultimately show ?thesis using True p(5) by auto
  qed
qed

text \<open>The trie of a list of tokens.\<close>

definition trie_tok :: "bytes list \<Rightarrow> bytes \<Rightarrow> nat" where
  "trie_tok D s = (if s \<in> set D then tok_id D s else UINT32_MAX)"

definition trie_of :: "trie_node list \<Rightarrow> bytes list \<Rightarrow> bool" where
  "trie_of nodes D \<longleftrightarrow> (\<exists>lab. trie_rep nodes {s. trie_str D s} (trie_tok D) lab)"

lemma tok_id_snoc: "s \<in> set D \<Longrightarrow> tok_id (D @ E) s = tok_id D s"
  by (induction D) auto

lemma tok_id_new: "s \<notin> set D \<Longrightarrow> tok_id (D @ [s]) s = length D"
  by (induction D) auto

lemma trie_of_Nil: "trie_of (tb_nodes (ac_builder_new kind)) []"
proof -
  have "{s. trie_str [] s} = {[]}" by (auto simp: trie_str_def)
  moreover have "trie_tok [] = (\<lambda>s. UINT32_MAX)" by (auto simp: trie_tok_def)
  ultimately show ?thesis using trie_rep_new unfolding trie_of_def ac_builder_new_def by auto
qed

lemma trie_of_insert:
  assumes t: "trie_of nodes D" and len: "length D < UINT32_MAX"
  shows "(\<exists>nodes'. tb_insert nodes w (length D) = Some nodes' \<and> trie_of nodes' (D @ [w]) \<and>
      length nodes' \<le> length nodes + length w) \<or>
    (tb_insert nodes w (length D) = None \<and> 2 ^ 30 < length nodes + length w)"
proof (cases "tb_insert nodes w (length D)")
  case None
  obtain lab where "trie_rep nodes {s. trie_str D s} (trie_tok D) lab"
    using t by (auto simp: trie_of_def)
  from tb_insert_ok [OF this, of w "length D"] None show ?thesis by simp
next
  case (Some r)
  obtain lab where "trie_rep nodes {s. trie_str D s} (trie_tok D) lab"
    using t by (auto simp: trie_of_def)
  from tb_insert_ok [OF this, of w "length D"] obtain nodes' lab' where
    n: "tb_insert nodes w (length D) = Some nodes'"
    "trie_rep nodes' ({s. trie_str D s} \<union> {u. prefix u w})
       (if trie_tok D w = UINT32_MAX then (trie_tok D)(w := length D) else trie_tok D) lab'"
    "length nodes' \<le> length nodes + length w" using Some by auto
  have "{s. trie_str D s} \<union> {u. prefix u w} = {s. trie_str (D @ [w]) s}"
    by (auto simp: trie_str_def)
  moreover have "(if trie_tok D w = UINT32_MAX then (trie_tok D)(w := length D) else trie_tok D) = trie_tok (D @ [w])"
  proof (cases "w \<in> set D")
    case True
    then have "tok_id D w \<noteq> UINT32_MAX" using tok_id_less [OF True] len by simp
    then show ?thesis using True by (auto simp: trie_tok_def tok_id_snoc fun_eq_iff)
  next
    case False
    then show ?thesis by (auto simp: trie_tok_def tok_id_snoc tok_id_new fun_eq_iff)
  qed
  ultimately show ?thesis using n unfolding trie_of_def by auto
qed

text \<open>The node of a string, and looking up a child.\<close>

definition node_of :: "trie_node list \<Rightarrow> (nat \<Rightarrow> bytes) \<Rightarrow> bytes \<Rightarrow> nat" where
  "node_of nodes lab s = inv_into {..<length nodes} lab s"

lemma node_of_ok:
  assumes "trie_rep nodes S tk lab" and "s \<in> S"
  shows "node_of nodes lab s < length nodes" and "lab (node_of nodes lab s) = s"
  using trie_repD(4) [OF assms(1)] assms(2) inv_into_into [of s lab "{..<length nodes}"]
    f_inv_into_f [of s lab "{..<length nodes}"]
  by (auto simp: node_of_def)

lemma node_of_lab:
  "trie_rep nodes S tk lab \<Longrightarrow> n < length nodes \<Longrightarrow> node_of nodes lab (lab n) = n"
  unfolding node_of_def using trie_repD(3) by (metis inv_into_f_f lessThan_iff)

lemma node_of_Nil: "trie_rep nodes S tk lab \<Longrightarrow> node_of nodes lab [] = 0"
  using node_of_lab [of nodes S tk lab 0] trie_repD(1,2) [of nodes S tk lab] by simp

lemma lab_in: "trie_rep nodes S tk lab \<Longrightarrow> n < length nodes \<Longrightarrow> lab n \<in> S"
  using trie_repD(4) by blast

lemma trie_find_child_ok:
  assumes rep: "trie_rep nodes S tk lab" and n: "n < length nodes"
  shows "trie_find_child nodes n c =
    Some (if lab n @ [c] \<in> S then Some (node_of nodes lab (lab n @ [c])) else None)"
proof -
  let ?es = "tn_edges (nodes ! n)"
  note r = trie_repD [OF rep]
  consider (hit) m where "edge_search ?es c 0 (length ?es) = Some (Inl m)" "(c, m) \<in> set ?es"
    | (miss) l where "edge_search ?es c 0 (length ?es) = Some (Inr l)" "c \<notin> fst ` set ?es"
    using edge_search_full [OF r(7) [OF n], of c] by blast
  then show ?thesis
  proof cases
    case hit
    then have m: "m < length nodes" "lab m = lab n @ [c]" using r(8) [OF n] by auto
    then have "lab n @ [c] \<in> S" "node_of nodes lab (lab n @ [c]) = m"
      using lab_in [OF rep m(1)] node_of_lab [OF rep m(1)] by auto
    then show ?thesis using hit n by (simp add: trie_find_child_def)
  next
    case miss
    have "lab n @ [c] \<notin> S"
    proof
      assume "lab n @ [c] \<in> S"
      then have "(c, node_of nodes lab (lab n @ [c])) \<in> set ?es"
        using r(8) [OF n] node_of_ok [OF rep] by blast
      then show False using miss(2) by force
    qed
    then show ?thesis using miss n by (simp add: trie_find_child_def)
  qed
qed

end
