(* ===== verification/Ac_Bfs.thy ===== *)
theory Ac_Bfs
  imports Ac_Builder
begin

text \<open>
  Phase 1 of \<^verbatim>\<open>build_automaton_from_trie\<close> in \<^verbatim>\<open>src/ac_bpe.c\<close>: the breadth-first search over
  the trie that computes the failure link, the output chain and the depth of
  every node. The queue is the array of the nodes pushed so far (at most
  \<^verbatim>\<open>nnodes\<close>, a push beyond that is an error), with the head index beside it.
\<close>

subsection \<open>Code\<close>

record bfs_state =
  bs_fail :: "nat list"
  bs_output :: "nat list"
  bs_depth :: "nat list"
  bs_outputs :: "ac_output list"
  bs_queue :: "nat list"

definition bfs_init :: "nat \<Rightarrow> bfs_state" where
  "bfs_init nnodes =
     \<lparr>bs_fail = replicate nnodes 0, bs_output = replicate nnodes 0, bs_depth = replicate nnodes 0,
      bs_outputs = [\<lparr>out_token = 0, out_start_offset = 0, out_next = 0\<rparr>], bs_queue = []\<rparr>"

text \<open>Setting failure link and depth of a node and pushing it.\<close>

definition bfs_enqueue :: "nat \<Rightarrow> nat \<Rightarrow> nat \<Rightarrow> bfs_state \<Rightarrow> bfs_state option" where
  "bfs_enqueue ci fs depth st = do {
     fail \<leftarrow> wr (bs_fail st) ci fs;
     depths \<leftarrow> wr (bs_depth st) ci depth;
     if length (bs_queue st) < length (bs_fail st)
     then Some (st\<lparr>bs_fail := fail, bs_depth := depths, bs_queue := bs_queue st @ [ci]\<rparr>)
     else None
   }"

fun bfs_seed :: "(byte \<times> nat) list \<Rightarrow> bfs_state \<Rightarrow> bfs_state option" where
  "bfs_seed [] st = Some st"
| "bfs_seed ((c, ci) # es) st = do {
     st \<leftarrow> bfs_enqueue ci 0 1 st;
     bfs_seed es st
   }"

text \<open>
  The output chain entry of a node. \<^verbatim>\<open>out_cap\<close> starts at \<^verbatim>\<open>1024\<close> and doubles when the entries
  reach it; the doubling at \<open>2 ^ 30\<close> entries overflows \<^verbatim>\<open>int32_t\<close>.
\<close>

definition bfs_output :: "trie_node list \<Rightarrow> nat \<Rightarrow> bfs_state \<Rightarrow> bfs_state option" where
  "bfs_output nodes nd st = do {
     n \<leftarrow> rd nodes nd;
     depth \<leftarrow> rd (bs_depth st) nd;
     f \<leftarrow> rd (bs_fail st) nd;
     next \<leftarrow> rd (bs_output st) f;
     if tn_token n \<noteq> UINT32_MAX then do {
       let oidx = length (bs_outputs st);
       output \<leftarrow> wr (bs_output st) nd oidx;
       if 2 ^ 30 \<le> oidx then None
       else Some (st\<lparr>bs_outputs := bs_outputs st @ [\<lparr>out_token = tn_token n, out_start_offset = depth, out_next = next\<rparr>],
                bs_output := output\<rparr>)
     } else do {
       output \<leftarrow> wr (bs_output st) nd next;
       Some (st\<lparr>bs_output := output\<rparr>)
     }
   }"

partial_function (option) fail_walk ::
    "trie_node list \<Rightarrow> nat list \<Rightarrow> nat \<Rightarrow> byte \<Rightarrow> nat \<Rightarrow> nat option" where
  "fail_walk nodes fail fs c ci = do {
     child \<leftarrow> trie_find_child nodes fs c;
     case child of
       Some ch \<Rightarrow> if ch \<noteq> ci then Some ch
                  else if fs = 0 then Some fs
                  else do { fs \<leftarrow> rd fail fs; fail_walk nodes fail fs c ci }
     | None \<Rightarrow> if fs = 0 then Some fs
               else do { fs \<leftarrow> rd fail fs; fail_walk nodes fail fs c ci }
   }"

fun bfs_children ::
    "trie_node list \<Rightarrow> nat \<Rightarrow> nat \<Rightarrow> (byte \<times> nat) list \<Rightarrow> bfs_state \<Rightarrow> bfs_state option" where
  "bfs_children nodes nd depth [] st = Some st"
| "bfs_children nodes nd depth ((c, ci) # es) st = do {
     fs \<leftarrow> rd (bs_fail st) nd;
     fs \<leftarrow> fail_walk nodes (bs_fail st) fs c ci;
     st \<leftarrow> bfs_enqueue ci fs (depth + 1) st;
     bfs_children nodes nd depth es st
   }"

partial_function (option) bfs_loop :: "trie_node list \<Rightarrow> nat \<Rightarrow> bfs_state \<Rightarrow> bfs_state option" where
  "bfs_loop nodes qh st =
     (if qh < length (bs_queue st) then do {
        nd \<leftarrow> rd (bs_queue st) qh;
        depth \<leftarrow> rd (bs_depth st) nd;
        st \<leftarrow> bfs_output nodes nd st;
        n \<leftarrow> rd nodes nd;
        st \<leftarrow> bfs_children nodes nd depth (tn_edges n) st;
        bfs_loop nodes (qh + 1) st
      } else Some st)"

definition bfs_phase :: "trie_node list \<Rightarrow> bfs_state option" where
  "bfs_phase nodes = do {
     root \<leftarrow> rd nodes 0;
     st \<leftarrow> bfs_seed (tn_edges root) (bfs_init (length nodes));
     bfs_loop nodes 0 st
   }"

subsection \<open>Failure links\<close>

text \<open>The longest proper suffix of a node's string that is in the trie.\<close>

definition fail_str :: "bytes list \<Rightarrow> bytes \<Rightarrow> bytes" where
  "fail_str D s = lsuf (trie_str D) (tl s)"

abbreviation is_trie :: "trie_node list \<Rightarrow> bytes list \<Rightarrow> (nat \<Rightarrow> bytes) \<Rightarrow> bool" where
  "is_trie nodes D lab \<equiv> trie_rep nodes {s. trie_str D s} (trie_tok D) lab"

definition fails_upto :: "trie_node list \<Rightarrow> bytes list \<Rightarrow> (nat \<Rightarrow> bytes) \<Rightarrow> nat \<Rightarrow> nat list \<Rightarrow> bool" where
  "fails_upto nodes D lab k fail \<longleftrightarrow> length fail = length nodes \<and>
     (\<forall>m < length nodes. 0 < length (lab m) \<longrightarrow> length (lab m) \<le> k \<longrightarrow>
        fail ! m = node_of nodes lab (fail_str D (lab m)))"

lemma trie_str_fail [simp]: "trie_str D (fail_str D s)"
  by (simp add: fail_str_def)

lemma length_fail_str: "s \<noteq> [] \<Longrightarrow> length (fail_str D s) < length s"
  using suffix_length_le [OF suffix_lsuf, of "trie_str D" "tl s"] by (cases s) (auto simp: fail_str_def)

lemma fail_walk_ok:
  assumes t: "is_trie nodes D lab" and fl: "fails_upto nodes D lab k fail"
  shows "trie_str D s \<Longrightarrow> length s \<le> k \<Longrightarrow> Suc (length s) < length (lab ci) \<Longrightarrow>
    fail_walk nodes fail (node_of nodes lab s) c ci =
      Some (node_of nodes lab (lsuf (trie_str D) (s @ [c])))"
proof (induction s rule: length_induct)
  case (1 s)
  note sn = node_of_ok [OF t, of s, simplified, OF "1.prems"(1)]
  let ?n = "node_of nodes lab s"
  note child = trie_find_child_ok [OF t sn(1), of c, unfolded sn(2), simplified]
  have root: "?n = 0 \<longleftrightarrow> s = []" using sn trie_repD(2) [OF t] node_of_Nil [OF t] by metis
  show ?case
  proof (cases "trie_str D (s @ [c])")
    case True
    have "lab (node_of nodes lab (s @ [c])) = s @ [c]"
      using node_of_ok(2) [OF t, of "s @ [c]"] True by simp
    then have "node_of nodes lab (s @ [c]) \<noteq> ci" using "1.prems"(3) by auto
    then show ?thesis using child True by (subst fail_walk.simps) (simp add: lsuf_self)
  next
    case no: False
    show ?thesis
    proof (cases s)
      case Nil
      then show ?thesis using child no root node_of_Nil [OF t] by (subst fail_walk.simps) simp
    next
      case (Cons x xs)
      let ?f = "fail_str D s"
      have "s \<noteq> []" using Cons by simp
      then have l: "length ?f < length s" by (rule length_fail_str)
      have f: "rd fail ?n = Some (node_of nodes lab ?f)"
        using fl sn "1.prems"(2) Cons by (simp add: fails_upto_def)
      have "fail_walk nodes fail (node_of nodes lab ?f) c ci =
          Some (node_of nodes lab (lsuf (trie_str D) (?f @ [c])))"
        using "1.IH" l "1.prems" by simp
      moreover have "lsuf (trie_str D) (?f @ [c]) = lsuf (trie_str D) (s @ [c])"
        using no Cons by (simp add: fail_str_def lsuf_trie_snoc)
      ultimately show ?thesis using child no f root Cons by (subst fail_walk.simps) simp
    qed
  qed
qed

subsection \<open>Children of one node\<close>

text \<open>
  \<open>bfs_pushed st st' ms\<close>: the nodes \<open>ms\<close> have been pushed, with correct links and depths.
\<close>

definition bfs_pushed ::
    "trie_node list \<Rightarrow> bytes list \<Rightarrow> (nat \<Rightarrow> bytes) \<Rightarrow> bfs_state \<Rightarrow> bfs_state \<Rightarrow> nat list \<Rightarrow> bool" where
  "bfs_pushed nodes D lab st st' ms \<longleftrightarrow>
     bs_queue st' = bs_queue st @ ms \<and> bs_output st' = bs_output st \<and> bs_outputs st' = bs_outputs st \<and>
     length (bs_fail st') = length (bs_fail st) \<and> length (bs_depth st') = length (bs_depth st) \<and>
     (\<forall>m. m \<notin> set ms \<longrightarrow> bs_fail st' ! m = bs_fail st ! m \<and> bs_depth st' ! m = bs_depth st ! m) \<and>
     (\<forall>m \<in> set ms. bs_fail st' ! m = node_of nodes lab (fail_str D (lab m)) \<and>
        bs_depth st' ! m = length (lab m))"

lemma bfs_pushed_Nil: "bfs_pushed nodes D lab st st []"
  by (simp add: bfs_pushed_def)

lemma bfs_pushed_Cons:
  assumes "length (bs_fail st) = n" and "length (bs_depth st) = n" and "m < n"
    and "length (bs_queue st) < n" and "m \<notin> set ms"
    and "d = length (lab m)" and "f = node_of nodes lab (fail_str D (lab m))"
  shows "\<exists>st1. bfs_enqueue m f d st = Some st1 \<and> bfs_pushed nodes D lab st st1 [m] \<and>
    (\<forall>st'. bfs_pushed nodes D lab st1 st' ms \<longrightarrow> bfs_pushed nodes D lab st st' (m # ms))"
  using assms by (auto simp: bfs_enqueue_def bfs_pushed_def)

lemma bfs_seed_ok:
  assumes "length (bs_fail st) = length nodes" and "length (bs_depth st) = length nodes"
    and "\<forall>(c, m) \<in> set es. m < length nodes \<and> lab m = [c]"
    and "distinct (map snd es)" and "length (bs_queue st) + length es \<le> length nodes"
    and t: "is_trie nodes D lab"
  shows "\<exists>st'. bfs_seed es st = Some st' \<and> bfs_pushed nodes D lab st st' (map snd es)"
  using assms(1-5)
proof (induction es arbitrary: st)
  case Nil
  then show ?case by (simp add: bfs_pushed_Nil)
next
  case (Cons e es)
  obtain c m where e: "e = (c, m)" by (cases e)
  have m: "m < length nodes" "lab m = [c]" "m \<notin> set (map snd es)" using Cons.prems e by auto
  have "0 = node_of nodes lab (fail_str D (lab m))" "1 = length (lab m)"
    using m node_of_Nil [OF t] by (auto simp: fail_str_def)
  then obtain st1 where st1: "bfs_enqueue m 0 1 st = Some st1" "bfs_pushed nodes D lab st st1 [m]"
    "\<And>st'. bfs_pushed nodes D lab st1 st' (map snd es) \<Longrightarrow> bfs_pushed nodes D lab st st' (m # map snd es)"
    using bfs_pushed_Cons [of st "length nodes" m "map snd es" 1 lab 0 nodes D] Cons.prems m by auto
  have "\<exists>st'. bfs_seed es st1 = Some st' \<and> bfs_pushed nodes D lab st1 st' (map snd es)"
    using Cons.prems st1(2) e by (intro Cons.IH) (auto simp: bfs_pushed_def)
  then show ?case using st1 e by auto
qed

lemma bfs_children_ok:
  assumes "length (bs_fail st) = length nodes" and "length (bs_depth st) = length nodes"
    and "\<forall>(c, m) \<in> set es. m < length nodes \<and> lab m = lab nd @ [c]"
    and "distinct (map snd es)" and "length (bs_queue st) + length es \<le> length nodes"
    and "fails_upto nodes D lab (length (lab nd)) (bs_fail st)"
    and t: "is_trie nodes D lab" and nd: "nd < length nodes" "lab nd \<noteq> []"
  shows "\<exists>st'. bfs_children nodes nd (length (lab nd)) es st = Some st' \<and>
    bfs_pushed nodes D lab st st' (map snd es)"
  using assms(1-6)
proof (induction es arbitrary: st)
  case Nil
  then show ?case by (simp add: bfs_pushed_Nil)
next
  case (Cons e es)
  obtain c m where e: "e = (c, m)" by (cases e)
  have m: "m < length nodes" "lab m = lab nd @ [c]" "m \<notin> set (map snd es)" using Cons.prems e by auto
  let ?s = "fail_str D (lab nd)"
  have f: "rd (bs_fail st) nd = Some (node_of nodes lab ?s)"
    using Cons.prems(6) nd by (simp add: fails_upto_def)
  have "fail_str D (lab m) = lsuf (trie_str D) (?s @ [c])"
    using m nd lsuf_trie_snoc [of D "tl (lab nd)" c] by (simp add: fail_str_def)
  then have walk: "fail_walk nodes (bs_fail st) (node_of nodes lab ?s) c m =
      Some (node_of nodes lab (fail_str D (lab m)))"
    using fail_walk_ok [OF t Cons.prems(6), of ?s m c] length_fail_str [OF nd(2), of D] m by simp
  obtain st1 where st1: "bfs_enqueue m (node_of nodes lab (fail_str D (lab m))) (length (lab nd) + 1) st = Some st1"
    "bfs_pushed nodes D lab st st1 [m]"
    "\<And>st'. bfs_pushed nodes D lab st1 st' (map snd es) \<Longrightarrow> bfs_pushed nodes D lab st st' (m # map snd es)"
    using bfs_pushed_Cons [of st "length nodes" m "map snd es" "length (lab nd) + 1" lab
        "node_of nodes lab (fail_str D (lab m))" nodes D] Cons.prems m by auto
  have "fails_upto nodes D lab (length (lab nd)) (bs_fail st1)"
    using Cons.prems(6) st1(2) m unfolding fails_upto_def bfs_pushed_def
    by (metis length_append_singleton list.set_intros(1) not_less_eq_eq set_ConsD empty_iff empty_set)
  then have "\<exists>st'. bfs_children nodes nd (length (lab nd)) es st1 = Some st' \<and>
      bfs_pushed nodes D lab st1 st' (map snd es)"
    using Cons.prems st1(2) e by (intro Cons.IH) (auto simp: bfs_pushed_def)
  then show ?case using st1 e f walk by auto
qed

subsection \<open>The invariant of the search\<close>

text \<open>
  The queue holds every node whose parent has been processed, in order of depth;
  pushed nodes have their link and depth, processed nodes also their output chain.
\<close>

definition bfs_inv :: "trie_node list \<Rightarrow> bytes list \<Rightarrow> (nat \<Rightarrow> bytes) \<Rightarrow> nat \<Rightarrow> bfs_state \<Rightarrow> bool" where
  "bfs_inv nodes D lab qh st \<longleftrightarrow>
     length (bs_fail st) = length nodes \<and> length (bs_output st) = length nodes \<and>
     length (bs_depth st) = length nodes \<and> bs_outputs st \<noteq> [] \<and>
     length nodes \<le> 2 ^ 30 \<and> length (bs_outputs st) \<le> Suc qh \<and>
     qh \<le> length (bs_queue st) \<and> distinct (bs_queue st) \<and>
     (\<forall>m. m \<in> set (bs_queue st) \<longleftrightarrow> m < length nodes \<and> lab m \<noteq> [] \<and>
        node_of nodes lab (butlast (lab m)) \<in> insert 0 (set (take qh (bs_queue st)))) \<and>
     (\<forall>i j. i < j \<and> j < length (bs_queue st) \<longrightarrow>
        length (lab (bs_queue st ! i)) \<le> length (lab (bs_queue st ! j))) \<and>
     (qh < length (bs_queue st) \<longrightarrow>
        (\<forall>x \<in> set (bs_queue st). length (lab x) \<le> Suc (length (lab (bs_queue st ! qh))))) \<and>
     (\<forall>m \<in> set (bs_queue st). bs_fail st ! m = node_of nodes lab (fail_str D (lab m)) \<and>
        bs_depth st ! m = length (lab m)) \<and>
     bs_fail st ! 0 = 0 \<and> bs_depth st ! 0 = 0 \<and> bs_output st ! 0 = 0 \<and>
     (\<forall>m \<in> set (take qh (bs_queue st)). out_chain (bs_outputs st) (bs_output st ! m) (smatch D (lab m)))"

lemma bfs_invD:
  assumes "bfs_inv nodes D lab qh st"
  shows "length (bs_fail st) = length nodes" and "length (bs_output st) = length nodes"
    and "length (bs_depth st) = length nodes" and "bs_outputs st \<noteq> []"
    and "qh \<le> length (bs_queue st)" and "distinct (bs_queue st)"
    and "m \<in> set (bs_queue st) \<longleftrightarrow> m < length nodes \<and> lab m \<noteq> [] \<and>
        node_of nodes lab (butlast (lab m)) \<in> insert 0 (set (take qh (bs_queue st)))"
    and "i < j \<Longrightarrow> j < length (bs_queue st) \<Longrightarrow>
        length (lab (bs_queue st ! i)) \<le> length (lab (bs_queue st ! j))"
    and "qh < length (bs_queue st) \<Longrightarrow> x \<in> set (bs_queue st) \<Longrightarrow>
        length (lab x) \<le> Suc (length (lab (bs_queue st ! qh)))"
    and "m \<in> set (bs_queue st) \<Longrightarrow> bs_fail st ! m = node_of nodes lab (fail_str D (lab m))"
    and "m \<in> set (bs_queue st) \<Longrightarrow> bs_depth st ! m = length (lab m)"
    and "bs_fail st ! 0 = 0" and "bs_depth st ! 0 = 0" and "bs_output st ! 0 = 0"
    and "m \<in> set (take qh (bs_queue st)) \<Longrightarrow>
        out_chain (bs_outputs st) (bs_output st ! m) (smatch D (lab m))"
    and "length nodes \<le> 2 ^ 30" and "length (bs_outputs st) \<le> Suc qh"
  using assms unfolding bfs_inv_def by blast+

lemma trie_butlast: "trie_str D s \<Longrightarrow> trie_str D (butlast s)"
  by (metis append_butlast_last_id butlast.simps(1) trie_str_prefix)

text \<open>Shallower nodes than the head of the queue are processed, nodes of its depth are pushed.\<close>

lemma bfs_inv_shallow:
  assumes inv: "bfs_inv nodes D lab qh st" and t: "is_trie nodes D lab" and qh: "qh < length (bs_queue st)"
  shows "x < length nodes \<Longrightarrow> lab x \<noteq> [] \<Longrightarrow> length (lab x) \<le> length (lab (bs_queue st ! qh)) \<Longrightarrow>
    x \<in> set (bs_queue st) \<and>
    (length (lab x) < length (lab (bs_queue st ! qh)) \<longrightarrow> x \<in> set (take qh (bs_queue st)))"
proof (induction "length (lab x)" arbitrary: x rule: less_induct)
  case less
  note I = bfs_invD [OF inv]
  let ?y = "node_of nodes lab (butlast (lab x))"
  have "trie_str D (butlast (lab x))" using lab_in [OF t less.prems(1)] trie_butlast by simp
  then have y: "?y < length nodes" "lab ?y = butlast (lab x)" using node_of_ok [OF t] by auto
  have "?y \<in> insert 0 (set (take qh (bs_queue st)))"
  proof (cases "butlast (lab x) = []")
    case True
    then show ?thesis using node_of_Nil [OF t] by simp
  next
    case False
    have "length (lab ?y) < length (lab x)" using y less.prems(2) by simp
    then show ?thesis using less.hyps [of ?y] y False less.prems(3) by auto
  qed
  then have q: "x \<in> set (bs_queue st)" using I(7) [of x] less.prems by blast
  have "x \<in> set (take qh (bs_queue st))" if l: "length (lab x) < length (lab (bs_queue st ! qh))"
  proof -
    obtain i where i: "i < length (bs_queue st)" "bs_queue st ! i = x" using q by (auto simp: in_set_conv_nth)
    have "\<not> qh \<le> i"
    proof
      assume "qh \<le> i"
      then have "length (lab (bs_queue st ! qh)) \<le> length (lab (bs_queue st ! i))"
        using I(8) [of qh i] i by (cases "qh = i") auto
      then show False using l i by simp
    qed
    then show ?thesis using i I(5) by (auto simp: in_set_conv_nth intro!: exI [of _ i])
  qed
  then show ?case using q by blast
qed

text \<open>The output chain of the head of the queue.\<close>

lemma smatch_fail:
  assumes "s \<noteq> []"
  shows "smatch D s = (if s \<in> set D then [(tok_id D s, length s)] else []) @ smatch D (fail_str D s)"
  using assms by (cases s) (simp_all add: fail_str_def smatch_lsuf)

lemma queue_room:
  assumes "distinct (xs @ ys)" and "\<forall>m \<in> set (xs @ ys). m < n"
  shows "length xs + length ys \<le> n"
proof -
  have "set (xs @ ys) \<subseteq> {..<n}" using assms(2) by auto
  then have "card (set (xs @ ys)) \<le> n" using card_mono [of "{..<n}"] by fastforce
  then show ?thesis using distinct_card [OF assms(1)] by simp
qed

lemma bfs_output_ok:
  assumes inv: "bfs_inv nodes D lab qh st" and t: "is_trie nodes D lab" and len: "length D \<le> UINT32_MAX"
    and qh: "qh < length (bs_queue st)"
  defines "nd \<equiv> bs_queue st ! qh"
  shows "\<exists>output outputs. bfs_output nodes nd st = Some (st\<lparr>bs_output := output, bs_outputs := outputs\<rparr>) \<and>
    length output = length nodes \<and> (\<exists>os. outputs = bs_outputs st @ os \<and> length os \<le> 1) \<and>
    (\<forall>m. m \<noteq> nd \<longrightarrow> output ! m = bs_output st ! m) \<and> out_chain outputs (output ! nd) (smatch D (lab nd))"
proof -
  note I = bfs_invD [OF inv]
  have q: "nd \<in> set (bs_queue st)" using qh by (simp add: nd_def)
  then have nd: "nd < length nodes" "lab nd \<noteq> []" using I(7) by blast+
  let ?f = "node_of nodes lab (fail_str D (lab nd))"
  have f: "?f < length nodes" "lab ?f = fail_str D (lab nd)"
    using node_of_ok [OF t, of "fail_str D (lab nd)"] by simp_all
  have ch: "out_chain (bs_outputs st) (bs_output st ! ?f) (smatch D (fail_str D (lab nd)))"
  proof (cases "fail_str D (lab nd) = []")
    case True
    then show ?thesis using I(14) node_of_Nil [OF t] by simp
  next
    case False
    then have "?f \<in> set (take qh (bs_queue st))"
      using bfs_inv_shallow [OF inv t qh f(1)] f(2) length_fail_str [OF nd(2), of D] by (simp add: nd_def)
    then show ?thesis using I(15) f(2) by metis
  qed
  have tok: "tn_token (nodes ! nd) = trie_tok D (lab nd)" using trie_repD(9) [OF t nd(1)] .
  have rds: "rd nodes nd = Some (nodes ! nd)" "rd (bs_depth st) nd = Some (length (lab nd))"
    "rd (bs_fail st) nd = Some ?f" "rd (bs_output st) ?f = Some (bs_output st ! ?f)"
    using nd f I(1-3) I(10,11) [OF q] by simp_all
  show ?thesis
  proof (cases "lab nd \<in> set D")
    case True
    let ?o = "\<lparr>out_token = tok_id D (lab nd), out_start_offset = length (lab nd), out_next = bs_output st ! ?f\<rparr>"
    let ?os = "bs_outputs st @ [?o]" and ?out = "(bs_output st)[nd := length (bs_outputs st)]"
    have "distinct (bs_queue st @ [0])" "\<forall>m \<in> set (bs_queue st @ [0]). m < length nodes"
      using I(6) I(7) trie_repD(1,2) [OF t] by auto
    then have "length (bs_queue st) < length nodes" using queue_room by fastforce
    then have cap: "length (bs_outputs st) < 2 ^ 30" using I(16,17) qh by linarith
    have "tok_id D (lab nd) \<noteq> UINT32_MAX" using tok_id_less [OF True] len by simp
    then have "bfs_output nodes nd st = Some (st\<lparr>bs_output := ?out, bs_outputs := ?os\<rparr>)"
      using rds tok True nd I(2) cap by (simp add: bfs_output_def Let_def trie_tok_def)
    moreover have "out_chain ?os (?out ! nd) (smatch D (lab nd))"
      using smatch_fail [OF nd(2), of D] True nd I(2,4) out_chain_append [OF ch, of "[?o]"] by simp
    ultimately show ?thesis using I(2) by (intro exI [of _ ?out] exI [of _ ?os]) simp
  next
    case False
    let ?out = "(bs_output st)[nd := bs_output st ! ?f]"
    have "bfs_output nodes nd st = Some (st\<lparr>bs_output := ?out, bs_outputs := bs_outputs st\<rparr>)"
      using rds tok False nd I(2) by (simp add: bfs_output_def trie_tok_def)
    moreover have "out_chain (bs_outputs st) (?out ! nd) (smatch D (lab nd))"
      using smatch_fail [OF nd(2), of D] False nd I(2) ch by simp
    ultimately show ?thesis using I(2) by (intro exI [of _ ?out] exI [of _ "bs_outputs st"]) simp
  qed
qed

lemma edges_distinct: "edges_sorted es \<Longrightarrow> distinct (map fst es)"
  unfolding edges_sorted_def distinct_conv_nth by (metis length_map less_irrefl linorder_neqE_nat nth_map)

text \<open>The children of a node, as a list.\<close>

lemma trie_children:
  assumes t: "is_trie nodes D lab" and nd: "nd < length nodes"
  defines "es \<equiv> tn_edges (nodes ! nd)"
  shows "distinct (map snd es)"
    and "\<forall>(c, m) \<in> set es. m < length nodes \<and> lab m = lab nd @ [c]"
    and "m \<in> set (map snd es) \<longleftrightarrow> m < length nodes \<and> lab m \<noteq> [] \<and> node_of nodes lab (butlast (lab m)) = nd"
proof -
  note r = trie_repD [OF t]
  have mem: "(c, m) \<in> set es \<longleftrightarrow> m < length nodes \<and> lab m = lab nd @ [c]" for c m
    using r(8) [OF nd] by (simp add: es_def)
  then show "\<forall>(c, m) \<in> set es. m < length nodes \<and> lab m = lab nd @ [c]" by blast
  have "inj_on snd (set es)" using mem by (auto simp: inj_on_def)
  then show "distinct (map snd es)"
    using edges_distinct [OF r(7) [OF nd]] by (simp add: distinct_map es_def)
  show "m \<in> set (map snd es) \<longleftrightarrow> m < length nodes \<and> lab m \<noteq> [] \<and> node_of nodes lab (butlast (lab m)) = nd"
  proof
    assume "m \<in> set (map snd es)"
    then obtain c where "(c, m) \<in> set es" by auto
    then show "m < length nodes \<and> lab m \<noteq> [] \<and> node_of nodes lab (butlast (lab m)) = nd"
      using mem node_of_lab [OF t nd] by simp
  next
    assume m: "m < length nodes \<and> lab m \<noteq> [] \<and> node_of nodes lab (butlast (lab m)) = nd"
    then have "trie_str D (butlast (lab m))" using lab_in [OF t] trie_butlast by blast
    then have "lab nd = butlast (lab m)" using node_of_ok(2) [OF t] m by auto
    then have "(last (lab m), m) \<in> set es" using mem m by simp
    then show "m \<in> set (map snd es)" by force
  qed
qed

subsection \<open>One round and the whole search\<close>

lemma bfs_round_ok:
  assumes inv: "bfs_inv nodes D lab qh st" and t: "is_trie nodes D lab" and len: "length D \<le> UINT32_MAX"
    and qh: "qh < length (bs_queue st)"
  shows "\<exists>st2. bfs_loop nodes qh st = bfs_loop nodes (qh + 1) st2 \<and> bfs_inv nodes D lab (qh + 1) st2"
proof -
  note I = bfs_invD [OF inv]
  define q nd where "q = bs_queue st" and "nd = bs_queue st ! qh"
  have ndq: "nd \<in> set q" using qh by (simp add: nd_def q_def)
  then have nd: "nd < length nodes" "lab nd \<noteq> []" using I(7) by (auto simp: q_def)
  have nd0: "nd \<noteq> 0" using nd(2) trie_repD(2) [OF t] by metis
  have lab0: "lab 0 = []" by (rule trie_repD(2) [OF t])
  obtain out outs os where o: "bfs_output nodes nd st = Some (st\<lparr>bs_output := out, bs_outputs := outs\<rparr>)"
    "length out = length nodes" "outs = bs_outputs st @ os" "length os \<le> 1" "\<And>m. m \<noteq> nd \<Longrightarrow> out ! m = bs_output st ! m"
    "out_chain outs (out ! nd) (smatch D (lab nd))"
    using bfs_output_ok [OF inv t len qh] unfolding nd_def by blast
  define st1 where "st1 = st\<lparr>bs_output := out, bs_outputs := outs\<rparr>"
  define es where "es = tn_edges (nodes ! nd)"
  define ms where "ms = map snd es"
  note ch = trie_children [OF t nd(1), folded es_def, folded ms_def]
  have ms: "m < length nodes" "lab m \<noteq> []" "node_of nodes lab (butlast (lab m)) = nd" "length (lab m) = Suc (length (lab nd))"
    if m: "m \<in> set ms" for m
  proof -
    obtain c where "(c, m) \<in> set es" using m by (auto simp: ms_def)
    then have "lab m = lab nd @ [c]" using ch(2) by blast
    then show "m < length nodes" "lab m \<noteq> []" "node_of nodes lab (butlast (lab m)) = nd"
      "length (lab m) = Suc (length (lab nd))" using m ch(3) by simp_all
  qed
  have tk: "set (take qh q) \<subseteq> set q" "nd \<notin> set (take qh q)"
    using I(6) qh set_take_subset [of qh q] distinct_take [of q "Suc qh"]
    by (simp_all add: q_def nd_def take_Suc_conv_app_nth)
  have disj: "set q \<inter> set ms = {}"
    using ms(3) I(7) tk(2) nd0 by (fastforce simp: q_def)
  have dist: "distinct (q @ ms)" using I(6) ch(1) disj by (simp add: q_def ms_def)
  have room: "length (bs_queue st1) + length es \<le> length nodes"
    using queue_room [OF dist, of "length nodes"] ms(1) I(7) by (auto simp: st1_def q_def ms_def)
  have "fails_upto nodes D lab (length (lab nd)) (bs_fail st1)"
    using bfs_inv_shallow [OF inv t qh] I(1,10) by (auto simp: fails_upto_def st1_def nd_def)
  then obtain st2 where st2: "bfs_children nodes nd (length (lab nd)) es st1 = Some st2"
    "bfs_pushed nodes D lab st1 st2 ms"
    using bfs_children_ok [of st1 nodes es lab nd D] I(1,3) ch(1,2) room t nd
    by (auto simp: st1_def ms_def)
  have P: "bs_queue st2 = q @ ms" "bs_output st2 = out" "bs_outputs st2 = outs"
    "length (bs_fail st2) = length nodes" "length (bs_depth st2) = length nodes"
    "\<And>m. m \<notin> set ms \<Longrightarrow> bs_fail st2 ! m = bs_fail st ! m \<and> bs_depth st2 ! m = bs_depth st ! m"
    "\<And>m. m \<in> set ms \<Longrightarrow> bs_fail st2 ! m = node_of nodes lab (fail_str D (lab m)) \<and> bs_depth st2 ! m = length (lab m)"
    using st2(2) I(1,3) by (auto simp: bfs_pushed_def st1_def q_def)
  have tk1: "take (Suc qh) (q @ ms) = take qh q @ [nd]"
    using qh by (simp add: take_Suc_conv_app_nth q_def nd_def)
  have mem: "m \<in> set (q @ ms) \<longleftrightarrow> m < length nodes \<and> lab m \<noteq> [] \<and>
      node_of nodes lab (butlast (lab m)) \<in> insert 0 (set (take (Suc qh) (q @ ms)))" for m
    using I(7) [of m] ch(3) [of m] tk1 by (auto simp: q_def)
  have le: "length (lab x) \<le> Suc (length (lab nd))" if "x \<in> set (q @ ms)" for x
    using that I(9) [OF qh, of x] ms(4) [of x] by (auto simp: q_def nd_def)
  have srt: "length (lab ((q @ ms) ! i)) \<le> length (lab ((q @ ms) ! j))" if ij: "i < j" "j < length (q @ ms)" for i j
  proof (cases "j < length q")
    case True
    then show ?thesis using I(8) [of i j] ij by (simp add: q_def nth_append)
  next
    case False
    then have "(q @ ms) ! j \<in> set ms" using ij(2) by (simp add: nth_append)
    then have "length (lab ((q @ ms) ! j)) = Suc (length (lab nd))" by (rule ms(4))
    moreover have "(q @ ms) ! i \<in> set (q @ ms)" using ij by (intro nth_mem) simp
    ultimately show ?thesis using le by metis
  qed
  have head: "length (lab x) \<le> Suc (length (lab ((q @ ms) ! Suc qh)))"
    if "Suc qh < length (q @ ms)" "x \<in> set (q @ ms)" for x
  proof -
    have "length (lab ((q @ ms) ! qh)) \<le> length (lab ((q @ ms) ! Suc qh))" using srt that(1) by simp
    moreover have "(q @ ms) ! qh = nd" using qh by (simp add: nth_append q_def nd_def)
    ultimately show ?thesis using le [OF that(2)] by simp
  qed
  have fd: "bs_fail st2 ! m = node_of nodes lab (fail_str D (lab m)) \<and> bs_depth st2 ! m = length (lab m)"
    if "m \<in> set (q @ ms)" for m
    using that P(6,7) [of m] I(10,11) [of m] by (cases "m \<in> set ms") (auto simp: q_def)
  have chain: "out_chain outs (out ! m) (smatch D (lab m))" if "m \<in> set (take qh q @ [nd])" for m
  proof (cases "m = nd")
    case True
    then show ?thesis using o(6) by simp
  next
    case False
    then show ?thesis using that o(3,5) I(15) [of m] out_chain_append by (simp add: q_def)
  qed
  have z: "0 \<notin> set ms" using ms(2) [of 0] lab0 by auto
  have "bfs_inv nodes D lab (Suc qh) st2"
    unfolding bfs_inv_def P(1-3) tk1
    using P(4,5) o(2-4) I(4,16,17) qh dist mem [unfolded tk1] srt head fd z P(6) [OF z] I(12-14) o(5) nd0 chain
    by (intro conjI allI ballI impI) (simp_all add: q_def)
  moreover have "bfs_loop nodes qh st = bfs_loop nodes (qh + 1) st2"
    using qh nd o(1) st2(1) I(3) I(11) [of nd] ndq
    by (subst bfs_loop.simps) (simp add: nd_def [symmetric] q_def st1_def es_def)
  ultimately show ?thesis by auto
qed

text \<open>What the search leaves: correct links, depths and chains for all nodes.\<close>

definition bfs_done :: "trie_node list \<Rightarrow> bytes list \<Rightarrow> (nat \<Rightarrow> bytes) \<Rightarrow> bfs_state \<Rightarrow> bool" where
  "bfs_done nodes D lab st \<longleftrightarrow>
     length (bs_fail st) = length nodes \<and> length (bs_output st) = length nodes \<and>
     length (bs_depth st) = length nodes \<and>
     (\<forall>m < length nodes. bs_depth st ! m = length (lab m) \<and>
        bs_fail st ! m = node_of nodes lab (fail_str D (lab m)) \<and>
        out_chain (bs_outputs st) (bs_output st ! m) (smatch D (lab m)))"

lemma bfs_inv_done:
  assumes inv: "bfs_inv nodes D lab qh st" and t: "is_trie nodes D lab" and qh: "qh = length (bs_queue st)"
  shows "bfs_done nodes D lab st"
proof -
  note I = bfs_invD [OF inv]
  have all: "x < length nodes \<Longrightarrow> lab x \<noteq> [] \<Longrightarrow> x \<in> set (bs_queue st)" for x
  proof (induction "length (lab x)" arbitrary: x rule: less_induct)
    case less
    let ?y = "node_of nodes lab (butlast (lab x))"
    have "trie_str D (butlast (lab x))" using lab_in [OF t less.prems(1)] trie_butlast by simp
    then have y: "?y < length nodes" "lab ?y = butlast (lab x)" using node_of_ok [OF t] by auto
    have "?y \<in> insert 0 (set (bs_queue st))"
    proof (cases "butlast (lab x) = []")
      case True
      then show ?thesis using node_of_Nil [OF t] by simp
    next
      case False
      then show ?thesis using less.hyps [of ?y] y less.prems(2) by simp
    qed
    then show ?case using I(7) [of x] less.prems qh by simp
  qed
  have root: "lab m = [] \<longleftrightarrow> m = 0" if "m < length nodes" for m
    using trie_rep_inj [OF t that trie_repD(1) [OF t]] trie_repD(2) [OF t] by simp
  have "bs_depth st ! m = length (lab m) \<and> bs_fail st ! m = node_of nodes lab (fail_str D (lab m)) \<and>
        out_chain (bs_outputs st) (bs_output st ! m) (smatch D (lab m))" if m: "m < length nodes" for m
  proof (cases "m = 0")
    case True
    then show ?thesis using I(12-14) trie_repD(2) [OF t] node_of_Nil [OF t] by (simp add: fail_str_def)
  next
    case False
    then have "m \<in> set (bs_queue st)" using all root m by blast
    then show ?thesis using I(10,11,15) qh by simp
  qed
  then show ?thesis using I(1-3) by (simp add: bfs_done_def)
qed

lemma bfs_loop_ok:
  assumes t: "is_trie nodes D lab" and len: "length D \<le> UINT32_MAX"
  shows "bfs_inv nodes D lab qh st \<Longrightarrow> \<exists>st'. bfs_loop nodes qh st = Some st' \<and> bfs_done nodes D lab st'"
proof (induction "length nodes - qh" arbitrary: qh st rule: less_induct)
  case less
  note I = bfs_invD [OF less.prems]
  show ?case
  proof (cases "qh < length (bs_queue st)")
    case False
    then have "qh = length (bs_queue st)" using I(5) by simp
    then show ?thesis using bfs_inv_done [OF less.prems t] False by (subst bfs_loop.simps) simp
  next
    case True
    obtain st2 where st2: "bfs_loop nodes qh st = bfs_loop nodes (qh + 1) st2" "bfs_inv nodes D lab (qh + 1) st2"
      using bfs_round_ok [OF less.prems t len True] by blast
    have "length (bs_queue st) \<le> length nodes"
      using queue_room [of "bs_queue st" "[]" "length nodes"] I(6,7) by auto
    then have "length nodes - (qh + 1) < length nodes - qh" using True by arith
    then show ?thesis using less.hyps [OF _ st2(2)] st2(1) by simp
  qed
qed

theorem bfs_phase_ok:
  assumes t: "is_trie nodes D lab" and len: "length D \<le> UINT32_MAX" and N: "length nodes \<le> 2 ^ 30"
  shows "\<exists>st. bfs_phase nodes = Some st \<and> bfs_done nodes D lab st"
proof -
  let ?es = "tn_edges (nodes ! 0)" and ?st = "bfs_init (length nodes)"
  have n0: "0 < length nodes" and l0: "lab 0 = []" using trie_repD(1,2) [OF t] by auto
  note ch = trie_children [OF t n0]
  have room: "length (map snd ?es) \<le> length nodes"
    using queue_room [of "map snd ?es" "[]" "length nodes"] ch(1,3) by auto
  obtain st where st: "bfs_seed ?es ?st = Some st" "bfs_pushed nodes D lab ?st st (map snd ?es)"
    using bfs_seed_ok [of ?st nodes ?es lab D] ch(1,2) room t l0 by (auto simp: bfs_init_def)
  have P: "bs_queue st = map snd ?es" "length (bs_fail st) = length nodes" "length (bs_depth st) = length nodes"
    "bs_output st = replicate (length nodes) 0" "bs_outputs st \<noteq> []" "length (bs_outputs st) \<le> 1"
    "\<And>m. m \<notin> set (map snd ?es) \<Longrightarrow> bs_fail st ! m = replicate (length nodes) 0 ! m \<and>
       bs_depth st ! m = replicate (length nodes) 0 ! m"
    "\<And>m. m \<in> set (map snd ?es) \<Longrightarrow> bs_fail st ! m = node_of nodes lab (fail_str D (lab m)) \<and>
       bs_depth st ! m = length (lab m)"
    using st(2) by (auto simp: bfs_pushed_def bfs_init_def)
  have one: "length (lab m) = 1" if "m \<in> set (map snd ?es)" for m
    using that ch(2) l0 by auto
  have nth1: "length (lab (map snd ?es ! i)) = 1" if "i < length ?es" for i
    using one nth_mem [of i "map snd ?es"] that by simp
  have z: "0 \<notin> set (map snd ?es)" using one [of 0] l0 by auto
  have "bfs_inv nodes D lab 0 st"
    unfolding bfs_inv_def P(1)
    using P(2-6,8) P(7) [OF z] ch(1,3) n0 one nth1 N by (intro conjI allI ballI impI) simp_all
  from bfs_loop_ok [OF t len this] show ?thesis using st(1) n0 by (simp add: bfs_phase_def)
qed

end
