(* ===== verification/Ac_Pack.thy ===== *)
theory Ac_Pack
  imports Ac_Bfs
begin

text \<open>
  Phases 2 and 3 of \<^verbatim>\<open>build_automaton_from_trie\<close> in \<^verbatim>\<open>src/ac_bpe.c\<close>: the placement of the
  trie nodes in the double array, and the cells. \<^verbatim>\<open>trie_to_da\<close> and \<^verbatim>\<open>da_check\<close> use -1
  for "none", here \<open>None\<close>. Slots and capacities are \<^verbatim>\<open>int32_t\<close>: an index or a capacity
  beyond \<open>INT32_MAX\<close> has no result. The search for a base terminates because the slots
  beyond the current capacity are empty. The theorem is that the result satisfies
  \<open>ac_ok\<close> for every list of nonempty tokens, or that there is none and the trie has more than
  4,100,000 nodes.
\<close>

subsection \<open>Code\<close>

record da_state =
  ds_base :: "nat list"
  ds_check :: "nat option list"
  ds_cap :: nat
  ds_map :: "nat option list"
  ds_next_base :: nat
  ds_queue :: "nat list"

text \<open>Doubling on \<^verbatim>\<open>size_t\<close>, shared with the tokenizer, and on \<^verbatim>\<open>int32_t\<close>.\<close>

partial_function (option) grow_cap :: "nat \<Rightarrow> nat \<Rightarrow> nat option" where
  "grow_cap new_cap needed = (if new_cap < needed then grow_cap (new_cap * 2) needed else Some new_cap)"

partial_function (option) grow_cap32 :: "nat \<Rightarrow> nat \<Rightarrow> nat option" where
  "grow_cap32 new_cap needed =
     (if new_cap < needed
      then if new_cap * 2 \<le> INT32_MAX then grow_cap32 (new_cap * 2) needed else None
      else Some new_cap)"

definition da_grow :: "nat \<Rightarrow> da_state \<Rightarrow> da_state option" where
  "da_grow needed st =
     (if needed \<le> ds_cap st then Some st
      else do {
        new_cap \<leftarrow> grow_cap32 (ds_cap st) needed;
        Some (st\<lparr>ds_base := ds_base st @ replicate (new_cap - ds_cap st) 0,
                 ds_check := ds_check st @ replicate (new_cap - ds_cap st) None,
                 ds_cap := new_cap\<rparr>)
      })"

fun da_fits :: "nat option list \<Rightarrow> nat \<Rightarrow> (byte \<times> nat) list \<Rightarrow> bool option" where
  "da_fits check b [] = Some True"
| "da_fits check b ((c, ci) # es) = do {
     x \<leftarrow> rd check (b + unat c);
     if x \<noteq> None then Some False else da_fits check b es
   }"

partial_function (option) da_find_base ::
    "(byte \<times> nat) list \<Rightarrow> nat \<Rightarrow> da_state \<Rightarrow> (da_state \<times> nat) option" where
  "da_find_base es b st =
     (if b + 256 \<le> INT32_MAX then do {
        st \<leftarrow> da_grow (b + 256) st;
        fits \<leftarrow> da_fits (ds_check st) b es;
        if fits then Some (st, b) else da_find_base es (b + 1) st
      } else None)"

fun da_place :: "nat \<Rightarrow> nat \<Rightarrow> (byte \<times> nat) list \<Rightarrow> da_state \<Rightarrow> da_state option" where
  "da_place parent_da b [] st = Some st"
| "da_place parent_da b ((c, ci) # es) st = do {
     let slot = b + unat c;
     check \<leftarrow> wr (ds_check st) slot (Some parent_da);
     to_da \<leftarrow> wr (ds_map st) ci (Some slot);
     if length (ds_queue st) < length (ds_map st)
     then da_place parent_da b es
            (st\<lparr>ds_check := check, ds_map := to_da, ds_queue := ds_queue st @ [ci]\<rparr>)
     else None
   }"

partial_function (option) da_advance :: "nat option list \<Rightarrow> nat \<Rightarrow> nat \<Rightarrow> nat option" where
  "da_advance check cap next_base =
     (if next_base < cap then do {
        x \<leftarrow> rd check next_base;
        if x \<noteq> None then da_advance check cap (next_base + 1) else Some next_base
      } else Some next_base)"

definition da_round :: "(byte \<times> nat) list \<Rightarrow> nat \<Rightarrow> da_state \<Rightarrow> da_state option" where
  "da_round es tnd st = do {
     slot \<leftarrow> rd (ds_map st) tnd;
     parent_da \<leftarrow> slot;
     (st, b) \<leftarrow> da_find_base es (ds_next_base st) st;
     base \<leftarrow> wr (ds_base st) parent_da b;
     st \<leftarrow> da_place parent_da b es (st\<lparr>ds_base := base\<rparr>);
     next_base \<leftarrow> da_advance (ds_check st) (ds_cap st) (ds_next_base st);
     Some (st\<lparr>ds_next_base := next_base\<rparr>)
   }"

partial_function (option) da_loop :: "trie_node list \<Rightarrow> nat \<Rightarrow> da_state \<Rightarrow> da_state option" where
  "da_loop nodes qh st =
     (if qh < length (ds_queue st) then do {
        tnd \<leftarrow> rd (ds_queue st) qh;
        n \<leftarrow> rd nodes tnd;
        st \<leftarrow> (if tn_edges n = [] then Some st else da_round (tn_edges n) tnd st);
        da_loop nodes (qh + 1) st
      } else Some st)"

definition da_init :: "nat \<Rightarrow> da_state option" where
  "da_init nnodes =
     (let cap = (if nnodes * 2 < 512 then 512 else nnodes * 2) in
      if INT32_MAX < nnodes * 2 then None
      else Some
      \<lparr>ds_base = replicate cap 0, ds_check = (replicate cap None)[0 := Some 0], ds_cap = cap,
       ds_map = (replicate nnodes None)[0 := Some 0], ds_next_base = 1, ds_queue = [0]\<rparr>)"

fun fill_cells ::
    "trie_node list \<Rightarrow> bfs_state \<Rightarrow> nat option list \<Rightarrow> nat list \<Rightarrow> ac_cell list \<Rightarrow> ac_cell list option" where
  "fill_cells nodes bs to_da [] cells = Some cells"
| "fill_cells nodes bs to_da (i # is) cells = do {
     slot \<leftarrow> rd to_da i;
     da \<leftarrow> slot;
     f \<leftarrow> rd (bs_fail bs) i;
     fslot \<leftarrow> rd to_da f;
     fail \<leftarrow> fslot;
     output \<leftarrow> rd (bs_output bs) i;
     n \<leftarrow> rd nodes i;
     depth \<leftarrow> rd (bs_depth bs) i;
     cells \<leftarrow> wr cells da \<lparr>cell_fail = fail, cell_output = output, cell_token = tn_token n, cell_depth = depth\<rparr>;
     fill_cells nodes bs to_da is cells
   }"

definition build_automaton_from_trie :: "trie_node list \<Rightarrow> ac_kind \<Rightarrow> ac_automaton option" where
  "build_automaton_from_trie nodes kind = do {
     bs \<leftarrow> bfs_phase nodes;
     da \<leftarrow> da_init (length nodes);
     da \<leftarrow> da_loop nodes 0 da;
     cells \<leftarrow> fill_cells nodes bs (ds_map da) [0..<length nodes]
       (replicate (ds_cap da) \<lparr>cell_fail = 0, cell_output = 0, cell_token = UINT32_MAX, cell_depth = 0\<rparr>);
     Some \<lparr>ac_cells = cells, ac_ncells = ds_cap da, ac_outputs = bs_outputs bs,
           ac_noutputs = length (bs_outputs bs), ac_kind = kind, da_base = ds_base da,
           da_check = ds_check da, da_size = ds_cap da\<rparr>
   }"

definition ac_builder_build :: "ac_builder \<Rightarrow> ac_automaton option" where
  "ac_builder_build b = build_automaton_from_trie (tb_nodes b) (tb_kind b)"

definition ac_builder_build_two ::
    "ac_builder \<Rightarrow> ac_kind \<Rightarrow> ac_kind \<Rightarrow> (ac_automaton \<times> ac_automaton) option" where
  "ac_builder_build_two b kind1 kind2 = do {
     a1 \<leftarrow> build_automaton_from_trie (tb_nodes b) kind1;
     a2 \<leftarrow> build_automaton_from_trie (tb_nodes b) kind2;
     Some (a1, a2)
   }"

subsection \<open>Finding a base\<close>

lemma grow_cap_ok: "0 < cap \<Longrightarrow> \<exists>c. grow_cap cap needed = Some c \<and> cap \<le> c \<and> needed \<le> c"
proof (induction "needed - cap" arbitrary: cap rule: less_induct)
  case less
  show ?case
  proof (cases "cap < needed")
    case True
    then have "needed - cap * 2 < needed - cap" using less.prems by arith
    from less.hyps [OF this] less.prems True show ?thesis by (subst grow_cap.simps) auto
  qed (subst grow_cap.simps, simp)
qed

lemma grow_cap32_ok:
  "0 < cap \<Longrightarrow> (\<exists>c. grow_cap32 cap needed = Some c \<and> cap \<le> c \<and> needed \<le> c) \<or>
     (grow_cap32 cap needed = None \<and> 2 ^ 30 < needed)"
proof (induction "needed - cap" arbitrary: cap rule: less_induct)
  case less
  show ?case
  proof (cases "cap < needed \<and> cap * 2 \<le> INT32_MAX")
    case True
    then have "needed - cap * 2 < needed - cap" using less.prems by arith
    from less.hyps [OF this] less.prems True show ?thesis by (subst (1 2) grow_cap32.simps) auto
  next
    case False
    then show ?thesis by (subst (1 2) grow_cap32.simps) (auto simp: INT32_MAX_def)
  qed
qed

text \<open>\<open>da_grown st st'\<close>: the arrays have got more empty slots at the end.\<close>

definition da_grown :: "da_state \<Rightarrow> da_state \<Rightarrow> bool" where
  "da_grown st st' \<longleftrightarrow>
     (\<exists>n. st' = st\<lparr>ds_base := ds_base st @ replicate n 0, ds_check := ds_check st @ replicate n None,
                   ds_cap := ds_cap st + n\<rparr>)"

lemma da_grown_refl: "da_grown st st"
  by (auto simp: da_grown_def intro: exI [of _ 0])

lemma da_grown_trans: "da_grown st st1 \<Longrightarrow> da_grown st1 st2 \<Longrightarrow> da_grown st st2"
  unfolding da_grown_def
  by (elim exE, rule_tac x = "n + na" in exI) (simp add: replicate_add add.assoc)

lemma da_grow_ok:
  assumes "0 < ds_cap st"
  shows "(\<exists>st'. da_grow needed st = Some st' \<and> da_grown st st' \<and> needed \<le> ds_cap st') \<or>
    (da_grow needed st = None \<and> 2 ^ 30 < needed)"
proof (cases "needed \<le> ds_cap st")
  case True
  then show ?thesis by (simp add: da_grow_def da_grown_refl)
next
  case False
  show ?thesis
  proof (cases "grow_cap32 (ds_cap st) needed")
    case None
    then show ?thesis using grow_cap32_ok [OF assms, of needed] False by (simp add: da_grow_def)
  next
    case (Some c)
    then have "ds_cap st \<le> c" "needed \<le> c" using grow_cap32_ok [OF assms, of needed] by auto
    then show ?thesis using False Some
      by (auto simp: da_grow_def da_grown_def intro!: exI [of _ "c - ds_cap st"])
  qed
qed

lemma da_fits_ok:
  "\<forall>(c, m) \<in> set es. b + unat c < length check \<Longrightarrow>
     da_fits check b es = Some (\<forall>(c, m) \<in> set es. check ! (b + unat c) = None)"
  by (induction es) auto

lemma byte_less [simp]: "unat (c :: byte) < 256"
  using unsigned_less [of c] by simp

lemma da_find_base_full:
  assumes "0 < ds_cap st" and no: "b + 256 \<le> INT32_MAX \<longrightarrow> da_grow (b + 256) st = None"
  shows "da_find_base es b st = None" and "2 ^ 30 < b + 256"
proof -
  show "da_find_base es b st = None" using no by (subst da_find_base.simps) auto
  show "2 ^ 30 < b + 256"
    using da_grow_ok [OF assms(1), of "b + 256"] no by (cases "b + 256 \<le> INT32_MAX") (auto simp: INT32_MAX_def)
qed

lemma da_find_base_ok:
  assumes "ds_cap st = length (ds_check st)" and "0 < ds_cap st"
    and "\<forall>t. L \<le> t \<and> t < length (ds_check st) \<longrightarrow> ds_check st ! t = None"
  shows "(\<exists>st' b'. da_find_base es b st = Some (st', b') \<and> da_grown st st' \<and> b \<le> b' \<and> b' \<le> max b L \<and>
      b' + 256 \<le> ds_cap st' \<and> (\<forall>(c, m) \<in> set es. ds_check st' ! (b' + unat c) = None)) \<or>
    (da_find_base es b st = None \<and> 2 ^ 30 < max b L + 256)"
  using assms
proof (induction "L - b" arbitrary: st b rule: less_induct)
  case less
  show ?case
  proof (cases "b + 256 \<le> INT32_MAX \<longrightarrow> da_grow (b + 256) st = None")
    case True
    then show ?thesis using da_find_base_full [OF less.prems(2) True] by auto
  next
    case False
    then have le: "b + 256 \<le> INT32_MAX" by blast
    obtain st1 where st1: "da_grow (b + 256) st = Some st1" "da_grown st st1" "b + 256 \<le> ds_cap st1"
      using da_grow_ok [OF less.prems(2), of "b + 256"] False by auto
    have c1: "ds_cap st1 = length (ds_check st1)" "0 < ds_cap st1"
      using st1(2) less.prems(1,2) by (auto simp: da_grown_def)
    have e1: "\<forall>t. L \<le> t \<and> t < length (ds_check st1) \<longrightarrow> ds_check st1 ! t = None"
      using st1(2) less.prems(3) by (auto simp: da_grown_def nth_append)
    have in1: "b + unat c < length (ds_check st1)" for c :: byte
      using st1(3) c1(1) byte_less [of c] by linarith
    have fits: "da_fits (ds_check st1) b es = Some (\<forall>(c, m) \<in> set es. ds_check st1 ! (b + unat c) = None)"
      using in1 by (intro da_fits_ok) auto
    have step: "da_find_base es b st = (if \<forall>(c, m) \<in> set es. ds_check st1 ! (b + unat c) = None
        then Some (st1, b) else da_find_base es (b + 1) st1)"
      using st1(1) fits le by (subst da_find_base.simps) simp
    show ?thesis
    proof (cases "\<forall>(c, m) \<in> set es. ds_check st1 ! (b + unat c) = None")
      case True
      then show ?thesis using st1 step by simp
    next
      case False
      then have step: "da_find_base es b st = da_find_base es (b + 1) st1" using step by auto
      obtain c m where "(c, m) \<in> set es" "ds_check st1 ! (b + unat c) \<noteq> None" using False by auto
      then have bL: "b < L" using e1 in1 by (metis le_add1 le_trans not_le)
      then have mx: "L - (b + 1) < L - b" "max (b + 1) L = L" "max b L = L" by simp_all
      from less.hyps [OF mx(1) c1 e1] show ?thesis
      proof (elim disjE exE conjE)
        fix st' b' assume h: "da_find_base es (b + 1) st1 = Some (st', b')" "da_grown st1 st'" "b + 1 \<le> b'"
          "b' \<le> max (b + 1) L" "b' + 256 \<le> ds_cap st'" "\<forall>(c, m) \<in> set es. ds_check st' ! (b' + unat c) = None"
        then show ?thesis using step mx da_grown_trans [OF st1(2) h(2)]
          by (intro disjI1 exI [of _ st'] exI [of _ b']) simp
      next
        assume "da_find_base es (b + 1) st1 = None" "2 ^ 30 < max (b + 1) L + 256"
        then show ?thesis using step mx by simp
      qed
    qed
  qed
qed

lemma da_advance_ok:
  "cap \<le> length check \<Longrightarrow> \<exists>b. da_advance check cap nb = Some b \<and> nb \<le> b \<and>
     (\<forall>L. (\<forall>t. L \<le> t \<and> t < cap \<longrightarrow> check ! t = None) \<longrightarrow> b \<le> max nb L)"
proof (induction "cap - nb" arbitrary: nb rule: less_induct)
  case less
  show ?case
  proof (cases "nb < cap \<and> check ! nb \<noteq> None")
    case True
    then have "cap - (nb + 1) < cap - nb" by arith
    from less.hyps [OF this less.prems] obtain b where
      b: "da_advance check cap (nb + 1) = Some b" "nb + 1 \<le> b"
      "\<And>L. \<forall>t. L \<le> t \<and> t < cap \<longrightarrow> check ! t = None \<Longrightarrow> b \<le> max (nb + 1) L" by blast
    have "b \<le> max nb L" if L: "\<forall>t. L \<le> t \<and> t < cap \<longrightarrow> check ! t = None" for L
    proof -
      have "nb < L" using spec [OF L, of nb] True by auto
      then show ?thesis using b(3) [OF L] by simp
    qed
    moreover have "da_advance check cap nb = Some b"
      using True less.prems b(1) by (subst da_advance.simps) auto
    ultimately show ?thesis using b(2) by auto
  next
    case False
    then have "da_advance check cap nb = Some nb" using less.prems by (subst da_advance.simps) auto
    then show ?thesis by auto
  qed
qed

subsection \<open>Placing children\<close>

definition da_placed :: "nat \<Rightarrow> nat \<Rightarrow> (byte \<times> nat) list \<Rightarrow> da_state \<Rightarrow> da_state \<Rightarrow> bool" where
  "da_placed p b es st st' \<longleftrightarrow>
     ds_base st' = ds_base st \<and> ds_cap st' = ds_cap st \<and> ds_next_base st' = ds_next_base st \<and>
     ds_queue st' = ds_queue st @ map snd es \<and>
     length (ds_check st') = length (ds_check st) \<and> length (ds_map st') = length (ds_map st) \<and>
     (\<forall>m. m \<notin> snd ` set es \<longrightarrow> ds_map st' ! m = ds_map st ! m) \<and>
     (\<forall>(c, m) \<in> set es. ds_map st' ! m = Some (b + unat c)) \<and>
     (\<forall>t. t \<notin> (\<lambda>(c, m). b + unat c) ` set es \<longrightarrow> ds_check st' ! t = ds_check st ! t) \<and>
     (\<forall>(c, m) \<in> set es. ds_check st' ! (b + unat c) = Some p)"

lemma da_place_ok:
  assumes "\<forall>(c, m) \<in> set es. b + unat c < length (ds_check st) \<and> m < length (ds_map st)"
    and "distinct (map fst es)" and "distinct (map snd es)"
    and "length (ds_queue st) + length es \<le> length (ds_map st)"
  shows "\<exists>st'. da_place p b es st = Some st' \<and> da_placed p b es st st'"
  using assms
proof (induction es arbitrary: st)
  case Nil
  then show ?case by (simp add: da_placed_def)
next
  case (Cons e es)
  obtain c m where e: "e = (c, m)" by (cases e)
  let ?st = "st\<lparr>ds_check := (ds_check st)[b + unat c := Some p],
    ds_map := (ds_map st)[m := Some (b + unat c)], ds_queue := ds_queue st @ [m]\<rparr>"
  have "c \<noteq> c'" if "(c', m') \<in> set es" for c' m' using Cons.prems(2) that e by force
  then have new: "m \<notin> snd ` set es" "b + unat c \<notin> (\<lambda>(c, m). b + unat c) ` set es"
    using Cons.prems(3) e by (auto simp: word_unat_eq_iff)
  have "\<exists>st'. da_place p b es ?st = Some st' \<and> da_placed p b es ?st st'"
    using Cons.prems e by (intro Cons.IH) auto
  then obtain st' where st': "da_place p b es ?st = Some st'" "da_placed p b es ?st st'" by blast
  have "da_place p b (e # es) st = Some st'" using st'(1) Cons.prems e by (simp add: Let_def)
  moreover have "da_placed p b (e # es) st st'"
    using st'(2) new Cons.prems(1) e unfolding da_placed_def by auto
  ultimately show ?case by blast
qed

subsection \<open>The invariant of the packing\<close>

definition slot_of :: "da_state \<Rightarrow> nat \<Rightarrow> nat" where
  "slot_of st m = (case ds_map st ! m of Some t \<Rightarrow> t | None \<Rightarrow> 0)"

abbreviation parent_of :: "trie_node list \<Rightarrow> (nat \<Rightarrow> bytes) \<Rightarrow> nat \<Rightarrow> nat" where
  "parent_of nodes lab m \<equiv> node_of nodes lab (butlast (lab m))"

definition based :: "trie_node list \<Rightarrow> da_state \<Rightarrow> nat \<Rightarrow> bool" where
  "based nodes st n \<longleftrightarrow>
     1 \<le> ds_base st ! slot_of st n \<and> ds_base st ! slot_of st n + 256 \<le> ds_cap st \<and>
     (\<forall>(c, m) \<in> set (tn_edges (nodes ! n)). slot_of st m = ds_base st ! slot_of st n + unat c)"

text \<open>
  The queue holds the root and the children of processed nodes, at different slots.
  A used slot other than the root's names the slot of the parent of its node, and
  the base of a processed node puts its children where they are. After \<open>qh\<close> rounds nothing
  lies beyond slot \<open>256 * qh\<close>, which bounds the capacity the search for a base asks for.
\<close>

definition pack_bound :: "nat \<Rightarrow> da_state \<Rightarrow> bool" where
  "pack_bound qh st \<longleftrightarrow>
     ds_next_base st \<le> 1 + 256 * qh \<and> (\<forall>t < ds_cap st. 256 * qh < t \<longrightarrow> ds_check st ! t = None)"

definition pack_inv :: "trie_node list \<Rightarrow> (nat \<Rightarrow> bytes) \<Rightarrow> nat \<Rightarrow> da_state \<Rightarrow> bool" where
  "pack_inv nodes lab qh st \<longleftrightarrow>
     length (ds_base st) = ds_cap st \<and> length (ds_check st) = ds_cap st \<and> 512 \<le> ds_cap st \<and>
     length (ds_map st) = length nodes \<and> qh \<le> length (ds_queue st) \<and> distinct (ds_queue st) \<and>
     1 \<le> ds_next_base st \<and>
     (\<forall>m. m \<in> set (ds_queue st) \<longleftrightarrow> m < length nodes \<and>
        (m = 0 \<or> parent_of nodes lab m \<in> set (take qh (ds_queue st)))) \<and>
     (\<forall>m \<in> set (ds_queue st). ds_map st ! m = Some (slot_of st m) \<and> slot_of st m < ds_cap st) \<and>
     inj_on (slot_of st) (set (ds_queue st)) \<and> slot_of st 0 = 0 \<and> ds_check st ! 0 = Some 0 \<and>
     (\<forall>m \<in> set (ds_queue st). m \<noteq> 0 \<longrightarrow>
        0 < slot_of st m \<and> ds_check st ! slot_of st m = Some (slot_of st (parent_of nodes lab m))) \<and>
     (\<forall>t < ds_cap st. t \<noteq> 0 \<longrightarrow> ds_check st ! t \<noteq> None \<longrightarrow>
        (\<exists>m \<in> set (ds_queue st). m \<noteq> 0 \<and> slot_of st m = t)) \<and>
     (\<forall>n \<in> set (take qh (ds_queue st)). tn_edges (nodes ! n) \<noteq> [] \<longrightarrow>
        based nodes st n) \<and>
     (\<forall>n \<in> set (ds_queue st). n \<notin> set (take qh (ds_queue st)) \<or> tn_edges (nodes ! n) = [] \<longrightarrow>
        ds_base st ! slot_of st n = 0) \<and>
     (\<forall>t < ds_cap st. t \<notin> slot_of st ` set (ds_queue st) \<longrightarrow> ds_base st ! t = 0) \<and>
     pack_bound qh st"

lemma pack_invD:
  assumes "pack_inv nodes lab qh st"
  shows "length (ds_base st) = ds_cap st" and "length (ds_check st) = ds_cap st" and "512 \<le> ds_cap st"
    and "length (ds_map st) = length nodes" and "qh \<le> length (ds_queue st)" and "distinct (ds_queue st)"
    and "1 \<le> ds_next_base st"
    and "m \<in> set (ds_queue st) \<longleftrightarrow> m < length nodes \<and>
        (m = 0 \<or> parent_of nodes lab m \<in> set (take qh (ds_queue st)))"
    and "m \<in> set (ds_queue st) \<Longrightarrow> ds_map st ! m = Some (slot_of st m) \<and> slot_of st m < ds_cap st"
    and "inj_on (slot_of st) (set (ds_queue st))" and "slot_of st 0 = 0" and "ds_check st ! 0 = Some 0"
    and "m \<in> set (ds_queue st) \<Longrightarrow> m \<noteq> 0 \<Longrightarrow>
        0 < slot_of st m \<and> ds_check st ! slot_of st m = Some (slot_of st (parent_of nodes lab m))"
    and "t < ds_cap st \<Longrightarrow> t \<noteq> 0 \<Longrightarrow> ds_check st ! t \<noteq> None \<Longrightarrow>
        \<exists>m \<in> set (ds_queue st). m \<noteq> 0 \<and> slot_of st m = t"
    and "n \<in> set (take qh (ds_queue st)) \<Longrightarrow> tn_edges (nodes ! n) \<noteq> [] \<Longrightarrow>
        based nodes st n"
    and "n \<in> set (ds_queue st) \<Longrightarrow> n \<notin> set (take qh (ds_queue st)) \<or> tn_edges (nodes ! n) = [] \<Longrightarrow>
        ds_base st ! slot_of st n = 0"
    and "t < ds_cap st \<Longrightarrow> t \<notin> slot_of st ` set (ds_queue st) \<Longrightarrow> ds_base st ! t = 0"
    and "pack_bound qh st"
  using assms unfolding pack_inv_def by blast+

lemma pack_bound_free:
  "pack_bound qh st \<Longrightarrow> length (ds_check st) = ds_cap st \<Longrightarrow>
     \<forall>t. 1 + 256 * qh \<le> t \<and> t < length (ds_check st) \<longrightarrow> ds_check st ! t = None"
  by (simp add: pack_bound_def)

text \<open>Growing the arrays changes nothing the invariant speaks of.\<close>

lemma pack_inv_grown:
  assumes inv: "pack_inv nodes lab qh st" and g: "da_grown st st'"
  shows "pack_inv nodes lab qh st'"
proof -
  note I = pack_invD [OF inv]
  obtain n where st': "st' = st\<lparr>ds_base := ds_base st @ replicate n 0,
      ds_check := ds_check st @ replicate n None, ds_cap := ds_cap st + n\<rparr>"
    using g by (auto simp: da_grown_def)
  have s: "slot_of st' = slot_of st" by (simp add: fun_eq_iff slot_of_def st')
  have b: "ds_base st' ! t = ds_base st ! t" "ds_check st' ! t = ds_check st ! t" if "t < ds_cap st" for t
    using that I(1,2) by (simp_all add: st' nth_append)
  have b': "ds_base st' ! t = 0" "ds_check st' ! t = None" if "ds_cap st \<le> t" "t < ds_cap st'" for t
    using that I(1,2) by (simp_all add: st' nth_append)
  have sl: "slot_of st m < ds_cap st" if "m \<in> set (ds_queue st)" for m using I(9) [OF that] by simp
  have tq: "set (take qh (ds_queue st)) \<subseteq> set (ds_queue st)" by (rule set_take_subset)
  have f: "ds_map st' = ds_map st" "ds_queue st' = ds_queue st" "ds_next_base st' = ds_next_base st"
    by (simp_all add: st')
  have len: "length (ds_base st') = ds_cap st'" "length (ds_check st') = ds_cap st'" "512 \<le> ds_cap st'"
    "ds_check st' ! 0 = Some 0"
    using I(1-3,12) b(2) [of 0] by (simp_all add: st')
  have "\<forall>t < ds_cap st'. t \<noteq> 0 \<longrightarrow> ds_check st' ! t \<noteq> None \<longrightarrow>
      (\<exists>m \<in> set (ds_queue st). m \<noteq> 0 \<and> slot_of st m = t)"
  proof (intro allI impI)
    fix t assume "t < ds_cap st'" "t \<noteq> 0" "ds_check st' ! t \<noteq> None"
    then show "\<exists>m \<in> set (ds_queue st). m \<noteq> 0 \<and> slot_of st m = t"
      using I(14) [of t] b b' by (cases "t < ds_cap st") auto
  qed
  moreover have "\<forall>t < ds_cap st'. t \<notin> slot_of st ` set (ds_queue st) \<longrightarrow> ds_base st' ! t = 0"
  proof (intro allI impI)
    fix t assume "t < ds_cap st'" "t \<notin> slot_of st ` set (ds_queue st)"
    then show "ds_base st' ! t = 0" using I(17) [of t] b b' by (cases "t < ds_cap st") auto
  qed
  moreover have "\<forall>n \<in> set (take qh (ds_queue st)). tn_edges (nodes ! n) \<noteq> [] \<longrightarrow> based nodes st' n"
  proof (intro ballI impI)
    fix n assume n: "n \<in> set (take qh (ds_queue st))" "tn_edges (nodes ! n) \<noteq> []"
    then have "slot_of st n < ds_cap st" using tq sl by blast
    then show "based nodes st' n" using I(15) [OF n] b(1) unfolding based_def s by (auto simp: st')
  qed
  moreover have "\<forall>m \<in> set (ds_queue st). m \<noteq> 0 \<longrightarrow>
      0 < slot_of st m \<and> ds_check st' ! slot_of st m = Some (slot_of st (parent_of nodes lab m))"
    using I(13) b(2) sl by simp
  moreover have "\<forall>m \<in> set (ds_queue st). ds_map st ! m = Some (slot_of st m) \<and> slot_of st m < ds_cap st'"
    using I(9) sl by (auto simp: st' trans_less_add1)
  moreover have "ds_check st' ! t = None" if "t < ds_cap st'" "256 * qh < t" for t
    using that I(18) b b' unfolding pack_bound_def by (cases "t < ds_cap st") auto
  then have "pack_bound qh st'" using I(18) f(3) by (simp add: pack_bound_def)
  moreover have "\<forall>n \<in> set (ds_queue st). n \<notin> set (take qh (ds_queue st)) \<or> tn_edges (nodes ! n) = [] \<longrightarrow>
      ds_base st' ! slot_of st n = 0"
    using I(16) b(1) sl by simp
  ultimately show ?thesis
    using inv len unfolding pack_inv_def s f by (elim conjE, intro conjI) assumption+
qed

lemma da_grown_fields:
  "da_grown st st' \<Longrightarrow> ds_map st' = ds_map st \<and> ds_next_base st' = ds_next_base st \<and> ds_queue st' = ds_queue st"
  by (auto simp: da_grown_def)

text \<open>One round for a node with children.\<close>

lemma da_round_ok:
  assumes inv: "pack_inv nodes lab qh st" and t: "is_trie nodes D lab"
    and qh: "qh < length (ds_queue st)" and tnd: "tnd = ds_queue st ! qh"
    and es: "es = tn_edges (nodes ! tnd)" "es \<noteq> []"
    and some: "da_find_base es (ds_next_base st) st \<noteq> None"
  shows "\<exists>st'. da_round es tnd st = Some st' \<and> pack_inv nodes lab (qh + 1) st'"
proof -
  note I = pack_invD [OF inv]
  have tq: "tnd \<in> set (ds_queue st)" using qh tnd by simp
  then have tn: "tnd < length nodes" using I(8) by blast
  obtain st1 b where f: "da_find_base es (ds_next_base st) st = Some (st1, b)" "da_grown st st1"
    "ds_next_base st \<le> b" "b + 256 \<le> ds_cap st1" "\<forall>(c, m) \<in> set es. ds_check st1 ! (b + unat c) = None"
    "b \<le> max (ds_next_base st) (1 + 256 * qh)"
    using da_find_base_ok [of st "1 + 256 * qh" es "ds_next_base st"] pack_bound_free [OF I(18,2)] I(2,3) some
    by auto
  then have bq: "b \<le> 1 + 256 * qh" using I(18) by (simp add: pack_bound_def)
  have inv1: "pack_inv nodes lab qh st1" using pack_inv_grown [OF inv f(2)] .
  note J = pack_invD [OF inv1]
  note g = da_grown_fields [OF f(2)]
  define q where "q = ds_queue st1"
  define ms where "ms = map snd es"
  define p where "p = slot_of st1 tnd"
  have b1: "1 \<le> b" using f(3) I(7) by simp
  have q: "qh < length q" "tnd = q ! qh" "tnd \<in> set q" using g qh tnd tq by (simp_all add: q_def)
  have slot: "rd (ds_map st) tnd = Some (Some p)" "p < ds_cap st1"
    using J(9) [of tnd] J(4) g tn q(3) by (simp_all add: p_def q_def)
  note ch = trie_children [OF t tn, folded es(1), folded ms_def]
  have lab0: "lab 0 = []" by (rule trie_repD(2) [OF t])
  have ms: "m < length nodes" "m \<noteq> 0" "parent_of nodes lab m = tnd" if "m \<in> set ms" for m
    using that ch(3) [of m] lab0 by (metis ms_def)+
  have tk: "tnd \<notin> set (take qh q)"
    using J(6) q distinct_take [of q "Suc qh"] by (simp add: take_Suc_conv_app_nth q_def)
  have disj: "set q \<inter> set ms = {}" using ms J(8) tk by (fastforce simp: q_def)
  have dist: "distinct (q @ ms)" using J(6) ch(1) disj by (simp add: q_def ms_def)
  have room: "length (ds_queue st1) + length es \<le> length nodes"
    using queue_room [OF dist, of "length nodes"] ms(1) J(8) by (auto simp: q_def ms_def)
  let ?st = "st1\<lparr>ds_base := (ds_base st1)[p := b]\<rparr>"
  have inb: "b + unat c < ds_cap st1" for c :: byte using f(4) byte_less [of c] by linarith
  have "\<forall>(c, m) \<in> set es. b + unat c < length (ds_check ?st) \<and> m < length (ds_map ?st)"
    using inb J(2,4) ch(2) by (auto simp del: byte_less)
  then obtain st2 where st2: "da_place p b es ?st = Some st2" "da_placed p b es ?st st2"
    using da_place_ok [of es b ?st p] edges_distinct trie_repD(7) [OF t tn] ch(1) room J(4) es(1)
    by (auto simp: ms_def)
  obtain nb where nb: "da_advance (ds_check st2) (ds_cap st2) (ds_next_base st2) = Some nb" "ds_next_base st2 \<le> nb"
    "\<And>L. \<forall>t. L \<le> t \<and> t < ds_cap st2 \<longrightarrow> ds_check st2 ! t = None \<Longrightarrow> nb \<le> max (ds_next_base st2) L"
    using da_advance_ok [of "ds_cap st2" "ds_check st2" "ds_next_base st2"] st2(2) J(2) by (auto simp: da_placed_def)
  have P: "ds_base st2 = (ds_base st1)[p := b]" "ds_cap st2 = ds_cap st1" "ds_queue st2 = q @ ms"
    "length (ds_check st2) = ds_cap st1" "length (ds_map st2) = length nodes"
    "\<And>m. m \<notin> set ms \<Longrightarrow> ds_map st2 ! m = ds_map st1 ! m"
    "\<And>c m. (c, m) \<in> set es \<Longrightarrow> ds_map st2 ! m = Some (b + unat c)"
    "\<And>t. t \<notin> (\<lambda>(c, m). b + unat c) ` set es \<Longrightarrow> ds_check st2 ! t = ds_check st1 ! t"
    "\<And>c m. (c, m) \<in> set es \<Longrightarrow> ds_check st2 ! (b + unat c) = Some p"
    "1 \<le> ds_next_base st2" "ds_next_base st2 = ds_next_base st1"
    using st2(2) J(2,4,7) by (auto simp: da_placed_def q_def ms_def)
  let ?st' = "st2\<lparr>ds_next_base := nb\<rparr>"
  have step: "da_round es tnd st = Some ?st'"
    using slot f(1) J(1) st2(1) nb(1) by (simp add: da_round_def)
  have old: "slot_of st2 m = slot_of st1 m" if "m \<in> set q" for m
  proof -
    have "m \<notin> set ms" using that disj by blast
    then show ?thesis using P(6) by (simp add: slot_of_def)
  qed
  have new: "slot_of st2 m = b + unat c" if "(c, m) \<in> set es" for c m
    using P(7) [OF that] by (simp add: slot_of_def)
  have free: "b + unat c \<noteq> slot_of st1 m" if c: "(c, m') \<in> set es" and m: "m \<in> set q" for c m m'
  proof
    assume eq: "b + unat c = slot_of st1 m"
    have "slot_of st1 m \<noteq> 0" using eq b1 by simp
    then have "m \<noteq> 0" using J(11) by metis
    then have "ds_check st1 ! (b + unat c) \<noteq> None" using J(13) [of m] m eq by (simp add: q_def)
    then show False using f(5) c by auto
  qed
  have q0: "0 \<in> set q" using J(8) [of 0] trie_repD(1) [OF t] by (simp add: q_def)
  have edge: "\<exists>c. (c, m) \<in> set es" if "m \<in> set ms" for m using that by (auto simp: ms_def)
  have tk1: "take (Suc qh) (q @ ms) = take qh q @ [tnd]"
    using q by (simp add: take_Suc_conv_app_nth)
  have c1: "m \<in> set (q @ ms) \<longleftrightarrow> m < length nodes \<and>
      (m = 0 \<or> parent_of nodes lab m \<in> set (take qh q @ [tnd]))" for m
  proof -
    have "m \<in> set ms \<longleftrightarrow> m < length nodes \<and> m \<noteq> 0 \<and> parent_of nodes lab m = tnd"
      using ch(3) [of m] trie_rep_inj [OF t _ trie_repD(1) [OF t], of m] lab0 by (auto simp: ms_def)
    then show ?thesis using J(8) [of m] q0 by (auto simp: q_def)
  qed
  have c2: "ds_map st2 ! m = Some (slot_of st2 m) \<and> slot_of st2 m < ds_cap st1" if "m \<in> set (q @ ms)" for m
  proof (cases "m \<in> set ms")
    case True
    then obtain c where "(c, m) \<in> set es" using edge by blast
    then show ?thesis using P(7) new inb by auto
  next
    case False
    then show ?thesis using that old J(9) [of m] P(6) by (simp add: q_def)
  qed
  have c3: "inj_on (slot_of st2) (set (q @ ms))"
  proof (rule inj_onI)
    fix x y assume xy: "x \<in> set (q @ ms)" "y \<in> set (q @ ms)" "slot_of st2 x = slot_of st2 y"
    consider "x \<in> set q" "y \<in> set q" | "x \<in> set ms" "y \<in> set ms" | "x \<in> set q" "y \<in> set ms" | "x \<in> set ms" "y \<in> set q"
      using xy by auto
    then show "x = y"
    proof cases
      case 1
      then show ?thesis using old xy(3) J(10) by (auto simp: q_def inj_on_def)
    next
      case 2
      then obtain c d where cd: "(c, x) \<in> set es" "(d, y) \<in> set es" using edge by blast
      then have "c = d" using new xy(3) by (simp add: word_unat_eq_iff)
      then show ?thesis using cd edges_sorted_inj trie_repD(7) [OF t tn] es(1) by blast
    next
      case 3
      then show ?thesis using edge [of y] new old free xy(3) by metis
    next
      case 4
      then show ?thesis using edge [of x] new old free xy(3) by metis
    qed
  qed
  have nofree: "slot_of st1 m \<notin> (\<lambda>(c, m). b + unat c) ` set es" if "m \<in> set q" for m
    using free that by fastforce
  have z: "slot_of st2 0 = 0" using old [OF q0] J(11) by simp
  have c4: "ds_check st2 ! 0 = Some 0" using P(8) [of 0] nofree [OF q0] J(11,12) by simp
  have par: "parent_of nodes lab m \<in> set q" if "m \<in> set q" "m \<noteq> 0" for m
    using that J(8) [of m] set_take_subset [of qh q] by (auto simp: q_def)
  have c5: "0 < slot_of st2 m \<and> ds_check st2 ! slot_of st2 m = Some (slot_of st2 (parent_of nodes lab m))"
    if m: "m \<in> set (q @ ms)" "m \<noteq> 0" for m
  proof (cases "m \<in> set ms")
    case True
    then obtain c where c: "(c, m) \<in> set es" using edge by blast
    then show ?thesis using new [OF c] P(9) [OF c] b1 ms(3) [OF True] old [OF q(3)] by (simp add: p_def)
  next
    case False
    then have "m \<in> set q" using m by simp
    then show ?thesis using m(2) old old [OF par] J(13) [of m] P(8) nofree by (simp add: q_def)
  qed
  have c6: "\<exists>m \<in> set (q @ ms). m \<noteq> 0 \<and> slot_of st2 m = t"
    if tt: "t < ds_cap st1" "t \<noteq> 0" "ds_check st2 ! t \<noteq> None" for t
  proof (cases "t \<in> (\<lambda>(c, m). b + unat c) ` set es")
    case True
    then obtain c m where cm: "(c, m) \<in> set es" "t = b + unat c" by auto
    then have "m \<in> set ms" by (force simp: ms_def)
    then show ?thesis using cm new ms(2) by auto
  next
    case False
    then obtain m where "m \<in> set q" "m \<noteq> 0" "slot_of st1 m = t"
      using J(14) [of t] tt P(8) by (auto simp: q_def)
    then show ?thesis using old by auto
  qed
  have pn: "slot_of st1 n \<noteq> p" if "n \<in> set q" "n \<noteq> tnd" for n
    using that q(3) J(10) by (auto simp: p_def q_def inj_on_def)
  have c7: "based nodes st2 n"
    if n: "n \<in> set (take qh q @ [tnd])" "tn_edges (nodes ! n) \<noteq> []" for n
  proof (cases "n = tnd")
    case True
    then show ?thesis
      using P(1,2) slot(2) J(1) old [OF q(3)] b1 f(4) new es(1) by (auto simp: p_def based_def)
  next
    case False
    then have nt: "n \<in> set (take qh q)" using n by simp
    then have nq: "n \<in> set q" by (rule in_set_takeD)
    have base: "ds_base st2 ! slot_of st2 n = ds_base st1 ! slot_of st1 n"
      using P(1) old [OF nq] pn [OF nq False] by simp
    have kids: "m \<in> set q" if "(c, m) \<in> set (tn_edges (nodes ! n))" for c m
    proof -
      have "n < length nodes" using nq J(8) by (simp add: q_def)
      from trie_children(3) [OF t this, of m] that have "m < length nodes" "parent_of nodes lab m = n" by force+
      then show ?thesis using J(8) [of m] nt by (simp add: q_def)
    qed
    show ?thesis
      using J(15) [of n] nt n(2) base old kids P(2) by (fastforce simp: q_def based_def)
  qed
  have c8: "ds_base st2 ! slot_of st2 n = 0"
    if n: "n \<in> set (q @ ms)" "n \<notin> set (take qh q @ [tnd]) \<or> tn_edges (nodes ! n) = []" for n
  proof (cases "n \<in> set ms")
    case True
    then obtain c where c: "(c, n) \<in> set es" using edge by blast
    have "slot_of st2 n \<notin> slot_of st1 ` set q" using new [OF c] free [OF c] by fastforce
    moreover have "slot_of st2 n \<noteq> p" using new [OF c] free [OF c q(3)] by (simp add: p_def)
    ultimately show ?thesis using J(17) [of "slot_of st2 n"] new [OF c] inb P(1) by (simp add: q_def)
  next
    case False
    then have nq: "n \<in> set q" using n by simp
    have "n \<noteq> tnd" using n(2) es by auto
    then show ?thesis using J(16) [of n] n(2) nq P(1) old [OF nq] pn [OF nq] by (auto simp: q_def)
  qed
  have c9: "ds_base st2 ! u = 0" if u: "u < ds_cap st1" "u \<notin> slot_of st2 ` set (q @ ms)" for u
  proof -
    have "u \<notin> slot_of st1 ` set q" using u(2) old by (force simp: image_iff)
    moreover have "p \<in> slot_of st2 ` set (q @ ms)" using old [OF q(3)] q(3) by (force simp: p_def)
    then have "u \<noteq> p" using u(2) by blast
    ultimately show ?thesis using J(17) [of u] u(1) P(1) by (simp add: q_def)
  qed
  have c10: "ds_check st2 ! u = None" if u: "u < ds_cap st1" "256 * Suc qh < u" for u
  proof -
    have "256 * qh + 256 < u" using u(2) by simp
    then have "b + unat c < u" for c :: byte using byte_less [of c] bq by linarith
    then have "u \<notin> (\<lambda>(c, m). b + unat c) ` set es" by (metis (no_types, lifting) case_prod_beta imageE less_irrefl)
    then show ?thesis using P(8) J(18) u unfolding pack_bound_def by simp
  qed
  have "nb \<le> max (ds_next_base st2) (1 + 256 * Suc qh)" using nb(3) c10 P(2) by simp
  then have "nb \<le> 1 + 256 * Suc qh" using J(18) P(11) unfolding pack_bound_def by simp
  then have c11: "pack_bound (Suc qh) (st2\<lparr>ds_next_base := nb\<rparr>)"
    using c10 P(2) by (simp add: pack_bound_def)
  have s': "slot_of ?st' = slot_of st2" "based nodes ?st' = based nodes st2"
    by (simp_all add: fun_eq_iff slot_of_def based_def)
  have F: "ds_queue ?st' = q @ ms" "ds_base ?st' = ds_base st2" "ds_check ?st' = ds_check st2"
    "ds_map ?st' = ds_map st2" "ds_cap ?st' = ds_cap st1" "ds_next_base ?st' = nb"
    using P(2,3) by simp_all
  have len: "length (ds_base st2) = ds_cap st1" "Suc qh \<le> length (q @ ms)" "1 \<le> nb"
    using P(1,10) J(1) q(1) nb(2) by simp_all
  have "pack_inv nodes lab (Suc qh) ?st'"
    unfolding pack_inv_def s' F tk1
    using P(4,5) J(3) len dist c1 c2 c3 z c4 c5 c6 c7 c8 c9 c11
    by (intro conjI allI ballI impI) simp_all
  then show ?thesis using step by simp
qed

subsection \<open>The whole packing\<close>

definition pack_done :: "trie_node list \<Rightarrow> (nat \<Rightarrow> bytes) \<Rightarrow> da_state \<Rightarrow> bool" where
  "pack_done nodes lab st \<longleftrightarrow> pack_inv nodes lab (length (ds_queue st)) st \<and>
     (\<forall>m < length nodes. m \<in> set (ds_queue st))"

lemma pack_inv_done:
  assumes inv: "pack_inv nodes lab (length (ds_queue st)) st" and t: "is_trie nodes D lab"
  shows "pack_done nodes lab st"
proof -
  note I = pack_invD [OF inv]
  have "m < length nodes \<Longrightarrow> m \<in> set (ds_queue st)" for m
  proof (induction "length (lab m)" arbitrary: m rule: less_induct)
    case less
    show ?case
    proof (cases "m = 0")
      case True
      then show ?thesis using I(8) less.prems by blast
    next
      case False
      then have ne: "lab m \<noteq> []"
        using trie_rep_inj [OF t less.prems trie_repD(1) [OF t]] trie_repD(2) [OF t] by metis
      have "trie_str D (butlast (lab m))" using lab_in [OF t less.prems] trie_butlast by simp
      then have "parent_of nodes lab m < length nodes" "length (lab (parent_of nodes lab m)) < length (lab m)"
        using node_of_ok [OF t] ne by auto
      then have "parent_of nodes lab m \<in> set (ds_queue st)" using less.hyps by blast
      then show ?thesis using I(8) [of m] less.prems by simp
    qed
  qed
  then show ?thesis using inv by (simp add: pack_done_def)
qed

lemma da_loop_skip:
  assumes inv: "pack_inv nodes lab qh st" and t: "is_trie nodes D lab" and qh: "qh < length (ds_queue st)"
    and leaf: "tn_edges (nodes ! (ds_queue st ! qh)) = []"
  shows "pack_inv nodes lab (qh + 1) st"
proof -
  note I = pack_invD [OF inv]
  let ?n = "ds_queue st ! qh"
  have tk: "set (take (qh + 1) (ds_queue st)) = insert ?n (set (take qh (ds_queue st)))"
    using qh by (simp add: take_Suc_conv_app_nth)
  have n: "?n < length nodes" using I(8) nth_mem [OF qh] by blast
  have "parent_of nodes lab m = ?n \<longrightarrow> m = 0" if "m < length nodes" for m
    using trie_children(3) [OF t n, of m] leaf that trie_rep_inj [OF t that trie_repD(1) [OF t]] trie_repD(2) [OF t]
    by auto
  then have "\<forall>m. m \<in> set (ds_queue st) \<longleftrightarrow> m < length nodes \<and>
      (m = 0 \<or> parent_of nodes lab m \<in> insert ?n (set (take qh (ds_queue st))))"
    using I(8) by blast
  moreover have "\<forall>n \<in> insert ?n (set (take qh (ds_queue st))). tn_edges (nodes ! n) \<noteq> [] \<longrightarrow> based nodes st n"
    using I(15) leaf by blast
  moreover have "\<forall>n \<in> set (ds_queue st). n \<notin> insert ?n (set (take qh (ds_queue st))) \<or> tn_edges (nodes ! n) = [] \<longrightarrow>
      ds_base st ! slot_of st n = 0"
    using I(16) by blast
  moreover have "qh + 1 \<le> length (ds_queue st)" using qh by simp
  moreover have bound: "pack_bound (qh + 1) st" using I(18) by (auto simp: pack_bound_def)
  ultimately show ?thesis
    using inv bound unfolding pack_inv_def tk by (elim conjE, intro conjI) assumption+
qed

lemma da_loop_ok:
  assumes t: "is_trie nodes D lab"
  shows "pack_inv nodes lab qh st \<Longrightarrow>
    (\<exists>st'. da_loop nodes qh st = Some st' \<and> pack_done nodes lab st') \<or>
    (da_loop nodes qh st = None \<and> 2 ^ 30 < 1 + 256 * length nodes + 256)"
proof (induction "length nodes - qh" arbitrary: qh st rule: less_induct)
  case less
  note I = pack_invD [OF less.prems]
  show ?case
  proof (cases "qh < length (ds_queue st)")
    case False
    then have "qh = length (ds_queue st)" using I(5) by simp
    then show ?thesis using pack_inv_done [OF _ t] less.prems False by (subst da_loop.simps) simp
  next
    case True
    let ?n = "ds_queue st ! qh"
    have n: "?n < length nodes" using I(8) nth_mem [OF True] by blast
    have "length (ds_queue st) \<le> length nodes"
      using queue_room [of "ds_queue st" "[]" "length nodes"] I(6,8) by auto
    then have m: "length nodes - (qh + 1) < length nodes - qh" using True by arith
    show ?thesis
    proof (cases "tn_edges (nodes ! ?n) \<noteq> [] \<and> da_find_base (tn_edges (nodes ! ?n)) (ds_next_base st) st = None")
      case full: True
      have "2 ^ 30 < max (ds_next_base st) (1 + 256 * qh) + 256"
        using da_find_base_ok [of st "1 + 256 * qh" "tn_edges (nodes ! ?n)" "ds_next_base st"] full I(2,3)
          pack_bound_free [OF I(18,2)] by auto
      then have "2 ^ 30 < 1 + 256 * length nodes + 256" using I(18) m by (simp add: pack_bound_def)
      moreover have "da_round (tn_edges (nodes ! ?n)) ?n st = None"
        using full I(9) [of ?n] I(4) n nth_mem [OF True] by (simp add: da_round_def)
      then have "da_loop nodes qh st = None"
        using full True n by (subst da_loop.simps) simp
      ultimately show ?thesis by simp
    next
      case fits: False
      obtain st2 where st2: "(if tn_edges (nodes ! ?n) = [] then Some st
          else da_round (tn_edges (nodes ! ?n)) ?n st) = Some st2" "pack_inv nodes lab (qh + 1) st2"
      proof (cases "tn_edges (nodes ! ?n) = []")
        case True
        then show ?thesis using that da_loop_skip [OF less.prems t \<open>qh < length (ds_queue st)\<close> True] by simp
      next
        case False
        then show ?thesis
          using that da_round_ok [OF less.prems t \<open>qh < length (ds_queue st)\<close> refl refl False] fits by auto
      qed
      have "da_loop nodes qh st = da_loop nodes (qh + 1) st2"
        using st2(1) True n by (subst da_loop.simps) (simp split: if_splits)
      then show ?thesis using less.hyps [OF m st2(2)] by simp
    qed
  qed
qed

lemma pack_inv_init:
  assumes t: "is_trie nodes D lab"
    and st: "da_init (length nodes) = Some st"
  shows "pack_inv nodes lab 0 st"
proof -
  let ?cap = "if length nodes * 2 < 512 then 512 else length nodes * 2"
  have n0: "0 < length nodes" by (rule trie_repD(1) [OF t])
  have c: "512 \<le> ?cap" by simp
  have F: "ds_base st = replicate ?cap 0" "ds_cap st = ?cap"
    "ds_check st = (replicate ?cap None)[0 := Some 0]"
    "ds_map st = (replicate (length nodes) None)[0 := Some 0]"
    "ds_next_base st = 1" "ds_queue st = [0]"
    using st by (auto simp: da_init_def Let_def split: if_splits)
  have s0: "slot_of st 0 = 0" using n0 F(4) by (simp add: slot_of_def)
  show ?thesis
    unfolding pack_inv_def pack_bound_def F using s0 n0 c by (auto simp: nth_list_update split: if_splits)
qed

subsection \<open>The automaton\<close>

lemma fill_cells_ok:
  assumes bd: "bfs_done nodes D lab bs" and t: "is_trie nodes D lab"
    and mp: "\<And>m. m < length nodes \<Longrightarrow> to_da ! m = Some (d m)" "length to_da = length nodes"
    and inj: "inj_on d {..<length nodes}"
  shows "distinct is \<Longrightarrow> set is \<subseteq> {..<length nodes} \<Longrightarrow> (\<And>m. m < length nodes \<Longrightarrow> d m < length cells) \<Longrightarrow>
    \<exists>cells'. fill_cells nodes bs to_da is cells = Some cells' \<and> length cells' = length cells \<and>
      (\<forall>x. x \<notin> d ` set is \<longrightarrow> cells' ! x = cells ! x) \<and>
      (\<forall>i \<in> set is. cell_fail (cells' ! d i) = d (bs_fail bs ! i) \<and>
         cell_output (cells' ! d i) = bs_output bs ! i \<and> cell_depth (cells' ! d i) = length (lab i) \<and>
         cell_token (cells' ! d i) = tn_token (nodes ! i))"
proof (induction "is" arbitrary: cells)
  case Nil
  then show ?case by simp
next
  case (Cons i "is")
  let ?f = "bs_fail bs ! i"
  let ?cell = "\<lparr>cell_fail = d ?f, cell_output = bs_output bs ! i, cell_token = tn_token (nodes ! i),
    cell_depth = length (lab i)\<rparr>"
  let ?cells = "cells[d i := ?cell]"
  have i: "i < length nodes" using Cons.prems(2) by simp
  have f: "?f < length nodes"
    using bd i node_of_ok(1) [OF t, of "fail_str D (lab i)"] by (simp add: bfs_done_def)
  obtain cells' where c: "fill_cells nodes bs to_da is ?cells = Some cells'" "length cells' = length cells"
    "\<And>x. x \<notin> d ` set is \<Longrightarrow> cells' ! x = ?cells ! x"
    "\<And>j. j \<in> set is \<Longrightarrow> cell_fail (cells' ! d j) = d (bs_fail bs ! j) \<and>
         cell_output (cells' ! d j) = bs_output bs ! j \<and> cell_depth (cells' ! d j) = length (lab j) \<and>
         cell_token (cells' ! d j) = tn_token (nodes ! j)"
    using Cons.IH [of ?cells] Cons.prems by auto
  have "d i \<notin> d ` set is"
    using inj Cons.prems(1,2) by (auto simp: inj_on_def)
  then have "cells' ! d i = ?cell" using c(3) Cons.prems(3) i by simp
  moreover have "fill_cells nodes bs to_da (i # is) cells = Some cells'"
    using c(1) i f mp bd Cons.prems(3) [OF i] by (simp add: bfs_done_def)
  ultimately show ?case using c(2-4) by auto
qed

lemma build_automaton_packed:
  assumes tr: "trie_of nodes D" and len: "length D \<le> UINT32_MAX" and ne: "\<exists>w \<in> set D. w \<noteq> []"
    and da0: "da_init (length nodes) = Some da0" "da_loop nodes 0 da0 = Some da"
  shows "\<exists>a. build_automaton_from_trie nodes kind = Some a \<and> ac_ok a D \<and> ac_kind a = kind"
proof -
  obtain lab where t: "is_trie nodes D lab" using tr by (auto simp: trie_of_def)
  have N: "length nodes \<le> 2 ^ 30"
    using da0(1) by (simp add: da_init_def Let_def INT32_MAX_def split: if_splits)
  obtain bs where bs: "bfs_phase nodes = Some bs" "bfs_done nodes D lab bs"
    using bfs_phase_ok [OF t len N] by blast
  have da: "da_loop nodes 0 da0 = Some da" "pack_done nodes lab da"
    using da_loop_ok [OF t pack_inv_init [OF t da0(1)]] da0(2) by auto
  have inv: "pack_inv nodes lab (length (ds_queue da)) da" and all: "\<And>m. m < length nodes \<Longrightarrow> m \<in> set (ds_queue da)"
    using da(2) by (auto simp: pack_done_def)
  note I = pack_invD [OF inv, simplified]
  let ?d = "slot_of da"
  have inj: "inj_on ?d {..<length nodes}"
    using I(10) all by (auto simp: inj_on_def)
  let ?cells0 = "replicate (ds_cap da) \<lparr>cell_fail = 0, cell_output = 0, cell_token = UINT32_MAX, cell_depth = 0\<rparr>"
  obtain cells where c: "fill_cells nodes bs (ds_map da) [0..<length nodes] ?cells0 = Some cells"
    "length cells = ds_cap da"
    "\<And>i. i < length nodes \<Longrightarrow> cell_fail (cells ! ?d i) = ?d (bs_fail bs ! i) \<and> cell_output (cells ! ?d i) = bs_output bs ! i"
    using fill_cells_ok [OF bs(2) t, of "ds_map da" ?d "[0..<length nodes]" ?cells0] I(4,9) all inj
    by (auto simp: atLeast0LessThan)
  let ?a = "\<lparr>ac_cells = cells, ac_ncells = ds_cap da, ac_outputs = bs_outputs bs,
    ac_noutputs = length (bs_outputs bs), ac_kind = kind, da_base = ds_base da,
    da_check = ds_check da, da_size = ds_cap da\<rparr>"
  have build: "build_automaton_from_trie nodes kind = Some ?a"
    using bs(1) da0(1) da(1) c(1) by (simp add: build_automaton_from_trie_def)
  let ?n = "node_of nodes lab"
  have node: "?n s < length nodes" "lab (?n s) = s" "?n s \<in> set (ds_queue da)" if "trie_str D s" for s
    using node_of_ok [OF t, of s] that all by simp_all
  have edge: "(c, ?n (s @ [c])) \<in> set (tn_edges (nodes ! ?n s))" if "trie_str D s" "trie_str D (s @ [c])" for s c
    using trie_repD(8) [OF t node(1) [OF that(1)]] node [OF that(1)] node [OF that(2)] by simp
  have child: "?d (?n (s @ [c])) = ds_base da ! ?d (?n s) + unat c" "1 \<le> ds_base da ! ?d (?n s)"
    if st: "trie_str D s" "trie_str D (s @ [c])" for s c
  proof -
    have "tn_edges (nodes ! ?n s) \<noteq> []" using edge [OF st] by auto
    then have "based nodes da (?n s)" using I(15) node(3) [OF st(1)] by blast
    then show "?d (?n (s @ [c])) = ds_base da ! ?d (?n s) + unat c" "1 \<le> ds_base da ! ?d (?n s)"
      using edge [OF st] by (auto simp: based_def)
  qed
  have walk: "trie_str D s \<Longrightarrow> da_walk ?a s = ?d (?n s)" for s
  proof (induction s rule: rev_induct)
    case Nil
    then show ?case using I(11) node_of_Nil [OF t] by simp
  next
    case (snoc c s)
    then have "trie_str D s" using trie_str_prefix by blast
    then show ?case using snoc child [of s c] by (simp add: da_walk_snoc)
  qed
  have room: "ds_base da ! ?d (?n s) + unat c < ds_cap da" if "trie_str D s" for s and c :: byte
  proof (cases "tn_edges (nodes ! ?n s) = []")
    case True
    then have "ds_base da ! ?d (?n s) = 0" using I(16) node(3) [OF that] by blast
    then show ?thesis using I(3) byte_less [of c] by linarith
  next
    case False
    then have "based nodes da (?n s)" using I(15) node(3) [OF that] by blast
    then show ?thesis using byte_less [of c] unfolding based_def by linarith
  qed
  obtain w where w: "w \<in> set D" "w \<noteq> []" using ne by blast
  have "prefix ([] @ [hd w]) w" using w(2) by (cases w) simp_all
  with w(1) have "trie_str D ([] @ [hd w])" unfolding trie_str_def by blast
  then have root: "1 \<le> ds_base da ! ?d (?n [])" using child(2) [of "[]" "hd w"] by simp
  have check: "ds_check da ! (ds_base da ! ?d (?n s) + unat c) = Some (?d (?n s)) \<longleftrightarrow> trie_str D (s @ [c])"
    if s: "trie_str D s" for s c
  proof
    assume sc: "trie_str D (s @ [c])"
    have "?n (s @ [c]) \<noteq> 0" using node(2) [OF sc] trie_repD(2) [OF t] by (metis snoc_eq_iff_butlast)
    then show "ds_check da ! (ds_base da ! ?d (?n s) + unat c) = Some (?d (?n s))"
      using I(13) [OF node(3) [OF sc]] node(2) [OF sc] child(1) [OF s sc] by simp
  next
    let ?t = "ds_base da ! ?d (?n s) + unat c"
    assume hit: "ds_check da ! ?t = Some (?d (?n s))"
    have "?t \<noteq> 0"
    proof
      assume z: "?t = 0"
      then have "?d (?n s) = ?d 0" using hit I(11,12) by simp
      then have "?n s = 0" using I(10) node(3) [OF s] all trie_repD(1) [OF t] by (auto simp: inj_on_def)
      then have "s = []" using node(2) [OF s] trie_repD(2) [OF t] by simp
      then show False using root z by simp
    qed
    then obtain m where m: "m \<in> set (ds_queue da)" "m \<noteq> 0" "?d m = ?t"
      using I(14) [OF room [OF s]] hit by auto
    have ml: "m < length nodes" using I(8) m(1) by blast
    have "lab m \<noteq> []" using trie_rep_inj [OF t ml trie_repD(1) [OF t]] trie_repD(2) [OF t] m(2) by metis
    then obtain u e where u: "lab m = u @ [e]" by (metis rev_exhaust)
    have ue: "trie_str D (u @ [e])" using lab_in [OF t ml] u by simp
    then have ut: "trie_str D u" by (rule trie_str_prefix)
    have mn: "m = ?n (u @ [e])" using node_of_lab [OF t ml] u by simp
    have "?d (?n u) = ?d (?n s)" using I(13) [OF m(1)] m(2,3) hit u by simp
    then have "?n u = ?n s" using I(10) node(3) [OF ut] node(3) [OF s] by (auto simp: inj_on_def)
    then have us: "u = s" using node(2) ut s by metis
    have "unat e = unat c" using child(1) [OF ut ue] m(3) mn us by simp
    then have "e = c" by (simp add: word_unat_eq_iff)
    then show "trie_str D (s @ [c])" using ue us by simp
  qed
  have "ac_ok ?a D"
    unfolding ac_ok_def
  proof (intro allI impI conjI)
    fix s and c :: byte assume s: "trie_str D s"
    have ds: "?d (?n s) < ds_cap da" using I(9) [OF node(3) [OF s]] by simp
    then show "da_walk ?a s < length (da_base ?a)" "da_walk ?a s < length (ac_cells ?a)"
      using I(1) c(2) walk [OF s] by simp_all
    show "da_base ?a ! da_walk ?a s + unat c < length (da_check ?a)"
      using room [OF s] I(2) walk [OF s] by simp
    show "(da_check ?a ! (da_base ?a ! da_walk ?a s + unat c) = Some (da_walk ?a s)) = trie_str D (s @ [c])"
      using check [OF s] walk [OF s] by simp
    have bd: "bs_fail bs ! ?n s = ?n (fail_str D s)"
      "out_chain (bs_outputs bs) (bs_output bs ! ?n s) (smatch D s)"
      using bs(2) node(1,2) [OF s] unfolding bfs_done_def by metis+
    show "out_chain (ac_outputs ?a) (cell_output (ac_cells ?a ! da_walk ?a s)) (smatch D s)"
      using c(3) [OF node(1) [OF s]] bd(2) walk [OF s] by simp
    show "cell_fail (ac_cells ?a ! da_walk ?a s) = da_walk ?a (lsuf (trie_str D) (tl s))"
      using c(3) [OF node(1) [OF s]] bd(1) walk [OF s] walk [of "fail_str D s"] by (simp add: fail_str_def)
    assume "s \<noteq> []"
    then have "?n s \<noteq> 0" using node(2) [OF s] trie_repD(2) [OF t] by metis
    then show "da_walk ?a s \<noteq> 0" using I(13) [OF node(3) [OF s]] walk [OF s] by simp
  qed
  then show ?thesis using build by simp
qed

text \<open>
  The construction is correct whenever it has a result; it has none only when a capacity
  overflows \<^verbatim>\<open>int32_t\<close>, which takes more than 4,100,000 nodes.
\<close>

theorem build_automaton_ok:
  assumes tr: "trie_of nodes D" and len: "length D \<le> UINT32_MAX" and ne: "\<exists>w \<in> set D. w \<noteq> []"
  shows "(\<exists>a. build_automaton_from_trie nodes kind = Some a \<and> ac_ok a D \<and> ac_kind a = kind) \<or>
    (build_automaton_from_trie nodes kind = None \<and> 4100000 < length nodes)"
proof (cases "da_init (length nodes)")
  case None
  then show ?thesis
    by (cases "bfs_phase nodes") (auto simp: build_automaton_from_trie_def da_init_def Let_def INT32_MAX_def split: if_splits)
next
  case (Some da0)
  obtain lab where t: "is_trie nodes D lab" using tr by (auto simp: trie_of_def)
  show ?thesis
  proof (cases "da_loop nodes 0 da0")
    case None
    then have "2 ^ 30 < 1 + 256 * length nodes + 256" using da_loop_ok [OF t pack_inv_init [OF t Some]] by simp
    then show ?thesis using Some None by (cases "bfs_phase nodes") (simp_all add: build_automaton_from_trie_def)
  next
    case (Some da)
    then show ?thesis using build_automaton_packed [OF assms \<open>da_init (length nodes) = Some da0\<close> Some] by blast
  qed
qed

lemma build_automaton_some:
  assumes "trie_of nodes D" and "length D \<le> UINT32_MAX" and "\<exists>w \<in> set D. w \<noteq> []"
    and "build_automaton_from_trie nodes kind = Some a"
  shows "ac_ok a D" and "ac_kind a = kind"
  using build_automaton_ok [OF assms(1-3), of kind] assms(4) by auto

lemma build_automaton_small:
  assumes "trie_of nodes D" and "length D \<le> UINT32_MAX" and "\<exists>w \<in> set D. w \<noteq> []"
    and "length nodes \<le> 4100000"
  shows "\<exists>a. build_automaton_from_trie nodes kind = Some a \<and> ac_ok a D \<and> ac_kind a = kind"
  using build_automaton_ok [OF assms(1-3), of kind] assms(4) by auto

end
