(* ===== verification/Bpe_Build.thy ===== *)
theory Bpe_Build
  imports Bpe_Model Ac_Pack
begin

text \<open>
  \<^verbatim>\<open>bpe_from_dictionary\<close> of \<^verbatim>\<open>src/bpe_core.c\<close>: the hash map of the tokens, the three
  automata, the table of next shorter prefixes, and the reconstruction of the
  merges. The theorem: from a well-formed dictionary whose token hashes are distinct the
  construction returns an object that satisfies \<open>bpe_ok\<close>.
\<close>

subsection \<open>Code\<close>

text \<open>The object as \<^verbatim>\<open>calloc\<close> leaves it: null pointers and zero sizes.\<close>

definition ac_null :: ac_automaton where
  "ac_null = \<lparr>ac_cells = [], ac_ncells = 0, ac_outputs = [], ac_noutputs = 0,
     ac_kind = AC_KIND_LEFTMOST_LONGEST, da_base = [], da_check = [], da_size = 0\<rparr>"

definition bpe_alloc :: "bytes \<Rightarrow> nat list \<Rightarrow> nat \<Rightarrow> u64 \<Rightarrow> bpe" where
  "bpe_alloc toks sts n hf =
     \<lparr>all_tokens = toks, token_starts = sts, num_tokens = n,
      hash_to_token = \<lparr>bm_slots = [], bm_capacity = 0, bm_count = 0\<rparr>, hash_factor = hf,
      split_left = [], split_right = [], pair_lookup = \<lparr>pm_slots = [], pm_capacity = 0, pm_count = 0\<rparr>,
      longest_searcher = ac_null, overlapping_searcher = ac_null, overlapping_searcher_rev = ac_null,
      next_prefix_match = []\<rparr>"

text \<open>The four loops over the token ids.\<close>

fun hash_tokens :: "bpe \<Rightarrow> nat list \<Rightarrow> bytes_map \<Rightarrow> bytes_map option" where
  "hash_tokens bpe [] m = Some m"
| "hash_tokens bpe (i # is) m = do {
     b \<leftarrow> bpe_token_bytes bpe i;
     m \<leftarrow> bytesmap_insert m (bpe_hash_bytes b (hash_factor bpe)) i;
     hash_tokens bpe is m
   }"

fun add_tokens :: "bpe \<Rightarrow> nat list \<Rightarrow> ac_builder \<times> ac_builder \<Rightarrow> (ac_builder \<times> ac_builder) option" where
  "add_tokens bpe [] bb = Some bb"
| "add_tokens bpe (i # is) (bf, br) = do {
     b \<leftarrow> bpe_token_bytes bpe i;
     bf \<leftarrow> ac_builder_add bf b i;
     br \<leftarrow> ac_builder_add br b i;
     add_tokens bpe is (bf, br)
   }"

fun next_prefixes :: "bpe \<Rightarrow> nat list \<Rightarrow> nat list \<Rightarrow> nat list option" where
  "next_prefixes bpe [] npm = Some npm"
| "next_prefixes bpe (i # is) npm = do {
     len \<leftarrow> token_len bpe i;
     b \<leftarrow> bpe_token_bytes bpe i;
     next \<leftarrow> (if 0 < len then bpe_next_match bpe (take (if 1 < len then len - 1 else 0) b)
             else Some UINT32_MAX);
     next_prefixes bpe is (npm @ [next])
   }"

partial_function (option) find_split :: "bpe \<Rightarrow> nat \<Rightarrow> nat \<Rightarrow> nat \<Rightarrow> bpe option" where
  "find_split bpe tid tlen token1 =
     (if token1 = UINT32_MAX then Some bpe
      else do {
        len1 \<leftarrow> token_len bpe token1;
        s \<leftarrow> tok_bytes bpe tid;
        rest \<leftarrow> rd_slice (all_tokens bpe) (s + len1) (sub32 tlen len1);
        token2 \<leftarrow> bpe_find_token_by_bytes bpe rest;
        valid \<leftarrow> (if token2 \<noteq> UINT32_MAX \<and> token1 < tid \<and> token2 < tid
                then bpe_is_valid_token_pair bpe token1 token2 else Some False);
        if valid then do {
          pm \<leftarrow> pairmap_insert (pair_lookup bpe) token1 token2 tid;
          left \<leftarrow> wr (split_left bpe) tid token1;
          right \<leftarrow> wr (split_right bpe) tid token2;
          Some (bpe\<lparr>pair_lookup := pm, split_left := left, split_right := right\<rparr>)
        } else do {
          next \<leftarrow> rd (next_prefix_match bpe) token1;
          find_split bpe tid tlen next
        }
      })"

fun find_splits :: "nat list \<Rightarrow> bpe \<Rightarrow> bpe option" where
  "find_splits [] bpe = Some bpe"
| "find_splits (i # is) bpe = do {
     tlen \<leftarrow> token_len bpe i;
     token1 \<leftarrow> rd (next_prefix_match bpe) i;
     bpe \<leftarrow> find_split bpe i tlen token1;
     find_splits is bpe
   }"

text \<open>The forward and the backward builder, and the automata built from them.\<close>

definition searchers :: "bpe \<Rightarrow> nat \<Rightarrow> (ac_automaton \<times> ac_automaton \<times> ac_automaton) option" where
  "searchers bpe n = do {
     (bf, br) \<leftarrow> add_tokens bpe [0..<n]
       (ac_builder_new AC_KIND_OVERLAPPING_FWD, ac_builder_new AC_KIND_OVERLAPPING_REV);
     (a1, a2) \<leftarrow> ac_builder_build_two bf AC_KIND_LEFTMOST_LONGEST AC_KIND_OVERLAPPING_FWD;
     a3 \<leftarrow> ac_builder_build br;
     Some (a1, a2, a3)
   }"

definition bpe_from_dictionary :: "bytes \<Rightarrow> nat list \<Rightarrow> nat \<Rightarrow> u64 \<Rightarrow> bpe option" where
  "bpe_from_dictionary all_tok tok_starts num_tok hf = do {
     let hf = (if hf = 0 then 1 else hf);
     total_bytes \<leftarrow> rd tok_starts num_tok;
     toks \<leftarrow> rd_slice all_tok 0 total_bytes;
     sts \<leftarrow> rd_slice tok_starts 0 (num_tok + 1);
     let bpe = bpe_alloc toks sts num_tok hf;
     m \<leftarrow> bytesmap_new ((num_tok * 2) mod 2 ^ 32);
     m \<leftarrow> hash_tokens bpe [0..<num_tok] m;
     let bpe = bpe\<lparr>hash_to_token := m\<rparr>;
     (a1, a2, a3) \<leftarrow> searchers bpe num_tok;
     let bpe = bpe\<lparr>longest_searcher := a1, overlapping_searcher := a2, overlapping_searcher_rev := a3\<rparr>;
     npm \<leftarrow> next_prefixes bpe [0..<num_tok] [];
     pm \<leftarrow> pairmap_new ((num_tok * 2) mod 2 ^ 32);
     find_splits [0..<num_tok]
       (bpe\<lparr>next_prefix_match := npm, pair_lookup := pm,
            split_left := [0..<num_tok], split_right := [0..<num_tok]\<rparr>)
   }"

subsection \<open>The hash map of the tokens\<close>

definition hash_free :: "bytes list \<Rightarrow> u64 \<Rightarrow> bool" where
  "hash_free D hf \<longleftrightarrow> distinct (map (\<lambda>w. bpe_hash_bytes w hf) D)"

lemma hash_tokens_put_all:
  assumes "dict_ok bpe D"
  shows "set is \<subseteq> {..<length D} \<Longrightarrow>
    hash_tokens bpe is m = bytes_table.put_all (map (\<lambda>i. (bpe_hash_bytes (D ! i) (hash_factor bpe), i)) is) m"
proof (induction "is" arbitrary: m)
  case (Cons i "is")
  have "hash_tokens bpe is = bytes_table.put_all (map (\<lambda>i. (bpe_hash_bytes (D ! i) (hash_factor bpe), i)) is)"
    using Cons by (intro ext) simp
  then show ?case using Cons.prems by (simp add: bpe_token_bytes_ok [OF assms])
qed simp

lemma map_of_upt:
  assumes "distinct (map f [0..<n])"
  shows "map_of (map (\<lambda>i. (f i, i)) [0..<n]) h = Some i \<longleftrightarrow> i < n \<and> f i = h"
  using assms by (subst map_of_eq_Some_iff) (auto simp: comp_def)

lemma hash_tokens_ok:
  assumes d: "dict_ok bpe D" and hf: "hash_free D (hash_factor bpe)" and ne: "D \<noteq> []"
  shows "\<exists>m m'. bytesmap_new ((length D * 2) mod 2 ^ 32) = Some m \<and>
    hash_tokens bpe [0..<length D] m = Some m' \<and> find_ok (bpe\<lparr>hash_to_token := m'\<rparr>) D"
proof -
  let ?n = "length D" and ?f = "\<lambda>i. bpe_hash_bytes (D ! i) (hash_factor bpe)"
  let ?es = "map (\<lambda>i. (?f i, i)) [0..<?n]"
  have n: "?n \<le> 2 ^ 29" using d by (simp add: dict_ok_def)
  obtain m where m: "bytesmap_new (?n * 2) = Some m" "bm_inv (?n * 2) m" "bm_content m = Map.empty"
    using bytes_table.new_ok [of "?n * 2"] n ne by auto
  have "map ?f [0..<?n] = map (\<lambda>w. bpe_hash_bytes w (hash_factor bpe)) D"
    by (intro nth_equalityI) simp_all
  then have dist: "distinct (map ?f [0..<?n])" using hf by (simp add: hash_free_def)
  have "distinct (map fst ?es)" using dist by (simp add: comp_def)
  moreover have "\<forall>v \<in> snd ` set ?es. v \<noteq> UINT32_MAX" using dict_UINT32_MAX [OF d] by auto
  moreover have "bm_inv (length ?es + ?n) m" using m(2) by (simp add: mult_2_right)
  ultimately obtain m' where m': "bytes_table.put_all ?es m = Some m'" "bm_inv ?n m'"
    "bm_content m' = bm_content m ++ map_of ?es"
    using bytes_table.put_all_ok [of ?es ?n m] m(3) by auto
  have "find_ok (bpe\<lparr>hash_to_token := m'\<rparr>) D"
    using m'(2,3) m(3) map_of_upt [OF dist] by (auto simp: find_ok_def)
  moreover have "hash_tokens bpe [0..<?n] m = Some m'"
    using hash_tokens_put_all [OF d, of "[0..<?n]" m] m'(1) by (simp add: atLeast0LessThan)
  moreover have "(?n * 2) mod 2 ^ 32 = ?n * 2" using n by simp
  ultimately show ?thesis using m(1) by auto
qed

subsection \<open>The automata\<close>

lemma add_tokens_ok:
  assumes d: "dict_ok bpe D"
  shows "k \<le> length D \<Longrightarrow> trie_of (tb_nodes bf) (take k D) \<Longrightarrow> trie_of (tb_nodes br) (map rev (take k D)) \<Longrightarrow>
    tb_kind bf = AC_KIND_OVERLAPPING_FWD \<Longrightarrow> tb_kind br = AC_KIND_OVERLAPPING_REV \<Longrightarrow>
    length (tb_nodes bf) \<le> 1 + length (concat (take k D)) \<Longrightarrow>
    length (tb_nodes br) \<le> 1 + length (concat (take k D)) \<Longrightarrow>
    (\<exists>bf' br'. add_tokens bpe [k..<length D] (bf, br) = Some (bf', br') \<and>
      trie_of (tb_nodes bf') D \<and> trie_of (tb_nodes br') (map rev D) \<and>
      length (tb_nodes bf') \<le> 1 + length (concat D) \<and> length (tb_nodes br') \<le> 1 + length (concat D) \<and>
      tb_kind br' = AC_KIND_OVERLAPPING_REV) \<or>
    (add_tokens bpe [k..<length D] (bf, br) = None \<and> 2 ^ 30 \<le> length (concat D))"
proof (induction "length D - k" arbitrary: k bf br)
  case 0
  then show ?case by simp
next
  case (Suc n)
  then have k: "k < length D" by simp
  have len: "length D < UINT32_MAX" by (rule dict_UINT32_MAX [OF d])
  have tk: "take (Suc k) D = take k D @ [D ! k]" using k by (simp add: take_Suc_conv_app_nth)
  have up: "[k..<length D] = k # [Suc k..<length D]" using k by (rule upt_conv_Cons)
  have "length (concat D) = length (concat (take (Suc k) D)) + length (concat (drop (Suc k) D))"
    by (metis append_take_drop_id concat_append length_append)
  then have le: "length (concat (take k D)) + length (D ! k) \<le> length (concat D)" using tk by simp
  let ?f = "tb_insert (tb_nodes bf) (D ! k) k" and ?r = "tb_insert (tb_nodes br) (rev (D ! k)) k"
  have F: "(\<exists>f. ?f = Some f \<and> trie_of f (take (Suc k) D) \<and> length f \<le> length (tb_nodes bf) + length (D ! k)) \<or>
      (?f = None \<and> 2 ^ 30 < length (tb_nodes bf) + length (D ! k))"
    using trie_of_insert [OF Suc.prems(2), of "D ! k"] k len tk by simp
  have R: "(\<exists>r. ?r = Some r \<and> trie_of r (map rev (take (Suc k) D)) \<and>
        length r \<le> length (tb_nodes br) + length (D ! k)) \<or>
      (?r = None \<and> 2 ^ 30 < length (tb_nodes br) + length (D ! k))"
    using trie_of_insert [OF Suc.prems(3), of "rev (D ! k)"] k len tk by simp
  show ?case
  proof (cases "?f = None \<or> ?r = None")
    case True
    then have "add_tokens bpe [k..<length D] (bf, br) = None"
      using up Suc.prems(4,5) bpe_token_bytes_ok [OF d k]
      by (cases ?f) (auto simp: ac_builder_add_def)
    then show ?thesis using True F R Suc.prems(6,7) le by auto
  next
    case False
    then obtain f r where f: "?f = Some f" "trie_of f (take (Suc k) D)" "length f \<le> length (tb_nodes bf) + length (D ! k)"
      and r: "?r = Some r" "trie_of r (map rev (take (Suc k) D))" "length r \<le> length (tb_nodes br) + length (D ! k)"
      using F R by auto
    have "add_tokens bpe [k..<length D] (bf, br) =
        add_tokens bpe [Suc k..<length D] (bf\<lparr>tb_nodes := f\<rparr>, br\<lparr>tb_nodes := r\<rparr>)"
      using up f(1) r(1) Suc.prems(4,5) bpe_token_bytes_ok [OF d k] by (simp add: ac_builder_add_def)
    moreover have "length f \<le> 1 + length (concat (take (Suc k) D))" "length r \<le> 1 + length (concat (take (Suc k) D))"
      using f(3) r(3) Suc.prems(6,7) tk by simp_all
    ultimately show ?thesis
      using Suc.hyps(1) [of "Suc k" "bf\<lparr>tb_nodes := f\<rparr>" "br\<lparr>tb_nodes := r\<rparr>"] Suc.hyps(2) Suc.prems(4,5) f(2) r(2) k
      by simp
  qed
qed

text \<open>
  The three automata are correct where they exist, and missing only for tokens of more than
  four million bytes, where a node index or a capacity may overflow \<^verbatim>\<open>int32_t\<close>.
\<close>

lemma searchers_ok:
  assumes d: "dict_ok bpe D" and wf: "wf_dict D" and ne: "D \<noteq> []"
  shows "(\<exists>a1 a2 a3. searchers bpe (length D) = Some (a1, a2, a3) \<and> ac_ok a1 D \<and> ac_ok a2 D \<and> ac_ok a3 (map rev D)) \<or>
    (searchers bpe (length D) = None \<and> 4000000 < length (concat D))"
proof -
  have len: "length D \<le> UINT32_MAX" using dict_UINT32_MAX [OF d] by simp
  have w: "\<exists>w \<in> set D. w \<noteq> []" "\<exists>w \<in> set (map rev D). w \<noteq> []"
    using wf ne by (cases D; auto simp: wf_dict_def)+
  let ?bf = "ac_builder_new AC_KIND_OVERLAPPING_FWD" and ?br = "ac_builder_new AC_KIND_OVERLAPPING_REV"
  have kinds: "tb_kind ?bf = AC_KIND_OVERLAPPING_FWD" "tb_kind ?br = AC_KIND_OVERLAPPING_REV"
    "length (tb_nodes ?bf) = 1" "length (tb_nodes ?br) = 1"
    by (simp_all add: ac_builder_new_def)
  note A = add_tokens_ok [OF d le0, of ?bf ?br, simplified take_0 list.map trie_of_Nil kinds, simplified]
  show ?thesis
  proof (cases "add_tokens bpe [0..<length D] (?bf, ?br)")
    case None
    then show ?thesis using A by (simp add: searchers_def)
  next
    case (Some p)
    then obtain bf br where b: "add_tokens bpe [0..<length D] (?bf, ?br) = Some (bf, br)"
      "trie_of (tb_nodes bf) D" "trie_of (tb_nodes br) (map rev D)"
      "length (tb_nodes bf) \<le> 1 + length (concat D)" "length (tb_nodes br) \<le> 1 + length (concat D)"
      using A by auto
    let ?b1 = "build_automaton_from_trie (tb_nodes bf) AC_KIND_LEFTMOST_LONGEST"
    let ?b2 = "build_automaton_from_trie (tb_nodes bf) AC_KIND_OVERLAPPING_FWD"
    let ?b3 = "build_automaton_from_trie (tb_nodes br) (tb_kind br)"
    have S: "searchers bpe (length D) = do { a1 \<leftarrow> ?b1; a2 \<leftarrow> ?b2; a3 \<leftarrow> ?b3; Some (a1, a2, a3) }"
      using b(1) by (cases ?b1; cases ?b2) (simp_all add: searchers_def ac_builder_build_two_def ac_builder_build_def)
    have B: "(\<exists>a. ?b1 = Some a \<and> ac_ok a D) \<or> (?b1 = None \<and> 4000000 < length (concat D))"
      "(\<exists>a. ?b2 = Some a \<and> ac_ok a D) \<or> (?b2 = None \<and> 4000000 < length (concat D))"
      "(\<exists>a. ?b3 = Some a \<and> ac_ok a (map rev D)) \<or> (?b3 = None \<and> 4000000 < length (concat D))"
      using build_automaton_ok [OF b(2) len w(1), of AC_KIND_LEFTMOST_LONGEST]
        build_automaton_ok [OF b(2) len w(1), of AC_KIND_OVERLAPPING_FWD]
        build_automaton_ok [OF b(3) _ w(2), of "tb_kind br"] len b(4,5) by auto
    show ?thesis unfolding S using B by (cases ?b1; cases ?b2; cases ?b3) auto
  qed
qed

subsection \<open>Next shorter prefixes\<close>

lemma next_prefixes_ok:
  assumes d: "dict_ok bpe D" and wf: "wf_dict D" and ac: "ac_ok (longest_searcher bpe) D"
  shows "k \<le> length D \<Longrightarrow> length npm = k \<Longrightarrow> \<forall>i < k. is_longest D (butlast (D ! i)) (npm ! i) \<Longrightarrow>
    \<exists>npm'. next_prefixes bpe [k..<length D] npm = Some npm' \<and> length npm' = length D \<and>
      (\<forall>i < length D. is_longest D (butlast (D ! i)) (npm' ! i))"
proof (induction "length D - k" arbitrary: k npm)
  case 0
  then show ?case by simp
next
  case (Suc n)
  then have k: "k < length D" by simp
  have cov: "covers D (D ! k)" by (rule wf_dict_covers [OF wf k])
  have ne: "D ! k \<noteq> []" by (rule wf_dict_nonempty [OF wf k])
  have b: "take (if 1 < length (D ! k) then length (D ! k) - 1 else 0) (D ! k) = butlast (D ! k)"
    using ne by (cases "D ! k") (auto simp: butlast_conv_take)
  have "[hd (butlast (D ! k))] \<in> set D" if "butlast (D ! k) \<noteq> []"
    using cov that hd_in_set in_set_butlastD unfolding covers_def by metis
  then obtain r where r: "bpe_next_match bpe (butlast (D ! k)) = Some r" "is_longest D (butlast (D ! k)) r"
    using bpe_next_match_ok [OF wf ac dict_UINT32_MAX [OF d], of "butlast (D ! k)"] by blast
  have "\<exists>npm'. next_prefixes bpe [Suc k..<length D] (npm @ [r]) = Some npm' \<and> length npm' = length D \<and>
      (\<forall>i < length D. is_longest D (butlast (D ! i)) (npm' ! i))"
    using Suc r(2) k by (intro Suc.hyps(1)) (auto simp: nth_append less_Suc_eq)
  moreover have "[k..<length D] = k # [Suc k..<length D]" using k by (rule upt_conv_Cons)
  ultimately show ?case
    using ne r(1) b token_len_ok [OF d k] bpe_token_bytes_ok [OF d k] by simp
qed

subsection \<open>The merge tables\<close>

text \<open>The state of the last loop before token \<open>k\<close>; \<open>r\<close> more pairs fit into the pair map.\<close>

definition splits_upto :: "bytes list \<Rightarrow> nat \<Rightarrow> bpe \<Rightarrow> bool" where
  "splits_upto D k bpe \<longleftrightarrow> wf_dict D \<and> dict_ok bpe D \<and> find_ok bpe D \<and> search_ok bpe D \<and> prefix_ok bpe D \<and>
     pair_map_ok bpe D k \<and> (\<exists>r \<ge> length D - k. pm_inv r (pair_lookup bpe))"

lemma splits_add:
  assumes s: "splits_upto D k bpe" and k: "k < length D" and n1: "length (D ! k) \<noteq> 1"
    and ij: "i < k" "j < k" "bpe_phase D k (D ! k) = [D ! i, D ! j]"
  shows "\<exists>pm. pairmap_insert (pair_lookup bpe) i j k = Some pm \<and>
    splits_upto D (Suc k) (bpe\<lparr>pair_lookup := pm, split_left := (split_left bpe)[k := i],
      split_right := (split_right bpe)[k := j]\<rparr>)"
proof -
  let ?P = "\<lambda>a b. pm_content (pair_lookup bpe) (a, b)"
  have wf: "wf_dict D" and d: "dict_ok bpe D" using s by (auto simp: splits_upto_def)
  have tb: "tables_ok D k (split_left bpe) (split_right bpe) ?P"
    using s by (simp add: splits_upto_def pair_map_ok_def)
  obtain r where r: "length D - k \<le> r" "pm_inv r (pair_lookup bpe)" using s by (auto simp: splits_upto_def)
  obtain r' where r': "r = Suc r'" using r(1) k by (cases r) auto
  have cat: "D ! k = D ! i @ D ! j" using ij(3) by (metis concat_bpe_phase concat.simps append_Nil2)
  have new: "?P i j = None"
  proof (cases "?P i j")
    case (Some c)
    then have c: "c < k" "length (D ! c) \<noteq> 1" "split_left bpe ! c = i" "split_right bpe ! c = j"
      using tables_lookup [OF tb] by auto
    then have "D ! c = D ! i @ D ! j"
      using tables_parts [OF tb c(1,2)] by (metis concat_bpe_phase concat.simps append_Nil2)
    then have "D ! c = D ! k" using cat by simp
    then have "c = k"
      using c(1) k nth_eq_iff_index_eq [OF wf_dict_distinct [OF wf], of c k] by simp
    then show ?thesis using c(1) by simp
  qed simp
  have "k \<noteq> UINT32_MAX" using k dict_UINT32_MAX [OF d] by simp
  then obtain pm where pm: "pairmap_insert (pair_lookup bpe) i j k = Some pm" "pm_inv r' pm"
    "pm_content pm = (pm_content (pair_lookup bpe))((i, j) \<mapsto> k)"
    using pairmap_insert_ok [of r' "pair_lookup bpe" i j k] r(2) r' new by blast
  let ?sl = "(split_left bpe)[k := i]" and ?sr = "(split_right bpe)[k := j]"
  have len: "length (split_left bpe) = length D" "length (split_right bpe) = length D"
    using tb by (auto simp: tables_ok_def)
  have T: "if m < Suc k \<and> length (D ! m) \<noteq> 1
        then ?sl ! m < m \<and> ?sr ! m < m \<and> bpe_phase D m (D ! m) = [D ! (?sl ! m), D ! (?sr ! m)]
        else ?sl ! m = m \<and> ?sr ! m = m" if m: "m < length D" for m
  proof (cases "m = k")
    case True
    then show ?thesis using ij n1 len m by simp
  next
    case False
    then have "?sl ! m = split_left bpe ! m" "?sr ! m = split_right bpe ! m" by simp_all
    moreover have "m < Suc k \<longleftrightarrow> m < k" using False by auto
    moreover have "if m < k \<and> length (D ! m) \<noteq> 1 then split_left bpe ! m < m \<and> split_right bpe ! m < m \<and>
        bpe_phase D m (D ! m) = [D ! (split_left bpe ! m), D ! (split_right bpe ! m)]
      else split_left bpe ! m = m \<and> split_right bpe ! m = m"
      using tb m unfolding tables_ok_def by blast
    ultimately show ?thesis by presburger
  qed
  have Q: "pm_content pm (a, b) = Some c \<longleftrightarrow>
      c < Suc k \<and> length (D ! c) \<noteq> 1 \<and> ?sl ! c = a \<and> ?sr ! c = b" for a b c
  proof (cases "(a, b) = (i, j)")
    case True
    have "split_left bpe ! c \<noteq> i \<or> split_right bpe ! c \<noteq> j" if "c < k" "length (D ! c) \<noteq> 1"
      using new tables_lookup [OF tb, of i j c] that by auto
    then show ?thesis using True pm(3) n1 len k by (cases "c = k") auto
  next
    case False
    then show ?thesis
      using pm(3) tables_lookup [OF tb, of a b c] len k by (cases "c = k") (auto simp: less_Suc_eq)
  qed
  have "tables_ok D (Suc k) ?sl ?sr (\<lambda>a b. pm_content pm (a, b))"
    unfolding tables_ok_def using T Q len k by auto
  moreover have "length D - Suc k \<le> r'" using r(1) r' by simp
  ultimately show ?thesis
    using s pm(1,2) unfolding splits_upto_def
    by (auto simp: pair_map_ok_def dict_ok_def find_ok_def search_ok_def prefix_ok_def)
qed

lemma splits_unit:
  assumes "splits_upto D k bpe" and "k < length D" and "length (D ! k) = 1"
  shows "splits_upto D (Suc k) bpe"
proof -
  have tb: "tables_ok D k (split_left bpe) (split_right bpe) (\<lambda>a b. pm_content (pair_lookup bpe) (a, b))"
    using assms(1) by (simp add: splits_upto_def pair_map_ok_def)
  have "tables_ok D (Suc k) (split_left bpe) (split_right bpe) (\<lambda>a b. pm_content (pair_lookup bpe) (a, b))"
    using tb assms(2,3) unfolding tables_ok_def by (auto simp: less_Suc_eq)
  moreover obtain r where "length D - k \<le> r" "pm_inv r (pair_lookup bpe)"
    using assms(1) by (auto simp: splits_upto_def)
  then have "length D - Suc k \<le> r" "pm_inv r (pair_lookup bpe)" by simp_all
  ultimately show ?thesis using assms(1) unfolding splits_upto_def pair_map_ok_def by blast
qed

lemma find_split_ok:
  assumes s: "splits_upto D k bpe" and k: "k < length D" and n1: "length (D ! k) \<noteq> 1"
    and ij: "i < k" "j < k" "bpe_phase D k (D ! k) = [D ! i, D ! j]"
  shows "t1 < length D \<Longrightarrow> prefix (D ! t1) (D ! k) \<Longrightarrow> length (D ! i) \<le> length (D ! t1) \<Longrightarrow>
    \<exists>bpe'. find_split bpe k (length (D ! k)) t1 = Some bpe' \<and> splits_upto D (Suc k) bpe'"
proof (induction "length (D ! t1)" arbitrary: t1 rule: less_induct)
  case less
  have wf: "wf_dict D" and d: "dict_ok bpe D" and fo: "find_ok bpe D" and po: "prefix_ok bpe D"
    and pm: "pair_map_ok bpe D k" using s by (auto simp: splits_upto_def)
  have len: "length D \<le> 2 ^ 29" using d by (simp add: dict_ok_def)
  note dist = wf_dict_distinct [OF wf]
  have cat: "D ! k = D ! i @ D ! j" using ij(3) by (metis concat_bpe_phase concat.simps append_Nil2)
  obtain v where v: "D ! k = D ! t1 @ v" using less.prems(2) by (auto simp: prefix_def)
  have il: "i < length D" "j < length D" using ij k by simp_all
  have tm: "t1 \<noteq> UINT32_MAX" using less.prems(1) dict_UINT32_MAX [OF d] by simp
  let ?s = "length (concat (take k D))"
  have kb: "slice (concat D) ?s (?s + length (D ! k)) = D ! k" "?s + length (D ! k) \<le> length (concat D)"
    using slice_concat [OF k] length_concat_nth [OF k] by auto
  have lt: "length (D ! t1) \<le> length (D ! k)" "length (D ! k) < 2 ^ 32"
    using v kb(2) d by (auto simp: dict_ok_def)
  have "slice (concat D) (?s + length (D ! t1)) (?s + length (D ! k)) = v"
  proof -
    have "slice (concat D) ?s (?s + length (D ! t1)) @ slice (concat D) (?s + length (D ! t1)) (?s + length (D ! k))
        = D ! t1 @ v"
      using slice_append [of ?s "?s + length (D ! t1)" "?s + length (D ! k)" "concat D"] lt kb v by simp
    moreover have "length (slice (concat D) ?s (?s + length (D ! t1))) = length (D ! t1)"
      using kb(2) lt(1) by simp
    ultimately show ?thesis by (simp add: append_eq_append_conv)
  qed
  then have rest: "rd_slice (all_tokens bpe) (?s + length (D ! t1)) (sub32 (length (D ! k)) (length (D ! t1))) = Some v"
    using lt kb(2) d by (simp add: rd_slice_def dict_ok_def)
  let ?t2 = "if v \<in> set D then tok_id D v else UINT32_MAX"
  note find = bpe_find_token_ok [OF d dist fo, of v]
  let ?g = "?t2 \<noteq> UINT32_MAX \<and> t1 < k \<and> ?t2 < k"
  have valid: "(if ?g then bpe_is_valid_token_pair bpe t1 ?t2 else Some False) = Some (t1 = i)"
  proof (cases "?g")
    case True
    then have v2: "v \<in> set D" by presburger
    then have t2: "?t2 < length D" "D ! ?t2 = v" using tok_id_less by simp_all
    have "bpe_is_valid_token_pair bpe t1 ?t2 = Some (seg_pair D k (D ! t1) v)"
      using bpe_is_valid_token_pair_partial [OF wf pm len, of t1 ?t2] True t2 k by (simp add: live_def)
    moreover have "seg_pair D k (D ! t1) v \<longleftrightarrow> t1 = i"
    proof
      assume "seg_pair D k (D ! t1) v"
      then have "[D ! i, D ! j] = [D ! t1, v]" using ij(3) v by (simp add: seg_pair_def)
      then show "t1 = i" using il less.prems(1) dist by (simp add: nth_eq_iff_index_eq)
    next
      assume "t1 = i"
      then show "seg_pair D k (D ! t1) v" using cat v ij(3) by (simp add: seg_pair_def)
    qed
    ultimately show ?thesis using True by simp
  next
    case False
    have "t1 \<noteq> i"
    proof
      assume "t1 = i"
      then have "v = D ! j" using cat v by simp
      then have "?t2 = j" using il(2) tok_id_nth [OF dist] by simp
      then show False using False \<open>t1 = i\<close> ij dict_UINT32_MAX [OF d] k by simp
    qed
    then show ?thesis using False by (simp only: if_False if_not_P)
  qed
  obtain t2 where t2d: "t2 = ?t2" by blast
  have step: "find_split bpe k (length (D ! k)) t1 =
      (if t1 = i then do {
         pm \<leftarrow> pairmap_insert (pair_lookup bpe) t1 t2 k;
         left \<leftarrow> wr (split_left bpe) k t1;
         right \<leftarrow> wr (split_right bpe) k t2;
         Some (bpe\<lparr>pair_lookup := pm, split_left := left, split_right := right\<rparr>)
       } else do {
         next \<leftarrow> rd (next_prefix_match bpe) t1;
         find_split bpe k (length (D ! k)) next
       })"
    using token_len_ok [OF d less.prems(1)] tok_bytes_ok [OF d k] rest tm
      find [folded t2d] valid [folded t2d]
    by (subst find_split.simps) simp
  show ?case
  proof (cases "t1 = i")
    case True
    then have "v = D ! j" using cat v by simp
    then have t2: "t2 = j" using il(2) tok_id_nth [OF dist] t2d by simp
    obtain pm' where pm': "pairmap_insert (pair_lookup bpe) i j k = Some pm'"
      "splits_upto D (Suc k) (bpe\<lparr>pair_lookup := pm', split_left := (split_left bpe)[k := i],
        split_right := (split_right bpe)[k := j]\<rparr>)"
      using splits_add [OF s k n1 ij] by blast
    have "length (split_left bpe) = length D" "length (split_right bpe) = length D"
      using pm by (auto simp: pair_map_ok_def tables_ok_def)
    then show ?thesis using step True t2 pm' k by simp
  next
    case False
    let ?r = "next_prefix_match bpe ! t1"
    have r: "is_longest D (butlast (D ! t1)) ?r" "rd (next_prefix_match bpe) t1 = Some ?r"
      using po less.prems(1) by (simp_all add: prefix_ok_def)
    have pi: "prefix (D ! i) (D ! t1)"
      using prefix_length_prefix [OF _ less.prems(2,3)] cat by simp
    have "length (D ! i) \<noteq> length (D ! t1)"
    proof
      assume "length (D ! i) = length (D ! t1)"
      then have "D ! i = D ! t1" using pi by (metis prefix_order.antisym prefix_length_prefix prefix_order.order_refl order_refl)
      then show False using False il(1) less.prems(1) dist by (simp add: nth_eq_iff_index_eq)
    qed
    then have li: "length (D ! i) < length (D ! t1)" using less.prems(3) by simp
    have rm: "?r \<noteq> UINT32_MAX" "length (D ! i) \<le> length (D ! ?r)"
      using is_longest_butlast [OF r(1) _ pi li] il(1) by auto
    note rl = is_longest_less [OF r(1) rm(1)] and rp = is_longest_prefix [OF r(1) rm(1)]
    have "length (D ! ?r) \<le> length (D ! t1) - 1" using prefix_length_le [OF rp] by simp
    then have l: "length (D ! ?r) < length (D ! t1)" using li by arith
    have "prefix (D ! ?r) (D ! k)"
      using rp less.prems(2) prefix_order.order_trans prefixeq_butlast by blast
    from less.hyps [OF l rl this rm(2)] show ?thesis
      using step False r(2) by simp
  qed
qed

lemma find_splits_ok:
  shows "k \<le> length D \<Longrightarrow> splits_upto D k bpe \<Longrightarrow>
    \<exists>bpe'. find_splits [k..<length D] bpe = Some bpe' \<and> splits_upto D (length D) bpe'"
proof (induction "length D - k" arbitrary: k bpe)
  case 0
  then show ?case by simp
next
  case (Suc n)
  then have k: "k < length D" by simp
  have wf: "wf_dict D" and d: "dict_ok bpe D" and po: "prefix_ok bpe D"
    using Suc.prems(2) by (auto simp: splits_upto_def)
  let ?r = "next_prefix_match bpe ! k"
  have r: "is_longest D (butlast (D ! k)) ?r" "rd (next_prefix_match bpe) k = Some ?r"
    using po k by (simp_all add: prefix_ok_def)
  have "\<exists>bpe1. find_split bpe k (length (D ! k)) ?r = Some bpe1 \<and> splits_upto D (Suc k) bpe1"
  proof (cases "length (D ! k) = 1")
    case True
    then have "butlast (D ! k) = []" by (cases "D ! k") auto
    then have "?r = UINT32_MAX"
      using is_longest_prefix [OF r(1)] is_longest_less [OF r(1)] wf_dict_nonempty [OF wf] by fastforce
    then show ?thesis using splits_unit [OF Suc.prems(2) k True] by (subst find_split.simps) simp
  next
    case False
    obtain i j where ij: "i < k" "j < k" "bpe_phase D k (D ! k) = [D ! i, D ! j]"
      using formed_cases [OF wf_dict_formed [OF wf k False] k] by blast
    have cat: "D ! k = D ! i @ D ! j" using ij(3) by (metis concat_bpe_phase concat.simps append_Nil2)
    have "0 < length (D ! j)" using wf_dict_nonempty [OF wf] ij k by simp
    then have "prefix (D ! i) (D ! k)" "length (D ! i) < length (D ! k)" using cat by simp_all
    then have rm: "?r \<noteq> UINT32_MAX" "length (D ! i) \<le> length (D ! ?r)"
      using is_longest_butlast [OF r(1), of "D ! i"] ij(1) k by simp_all
    have "prefix (D ! ?r) (D ! k)"
      using is_longest_prefix [OF r(1) rm(1)] prefix_order.order_trans prefixeq_butlast by blast
    then show ?thesis
      using find_split_ok [OF Suc.prems(2) k False ij is_longest_less [OF r(1) rm(1)]] rm(2) by blast
  qed
  then obtain bpe1 where b1: "find_split bpe k (length (D ! k)) ?r = Some bpe1" "splits_upto D (Suc k) bpe1"
    by blast
  have "\<exists>bpe'. find_splits [Suc k..<length D] bpe1 = Some bpe' \<and> splits_upto D (length D) bpe'"
    using Suc.hyps(2) b1(2) k by (intro Suc.hyps(1)) auto
  moreover have "[k..<length D] = k # [Suc k..<length D]" using k by (rule upt_conv_Cons)
  ultimately show ?case using b1(1) r(2) token_len_ok [OF d k] by simp
qed

subsection \<open>The whole construction\<close>

text \<open>
  A well-formed dictionary with the sizes the 32-bit offsets can hold, and one whose tokens
  have at most four million bytes in all, for which the construction never overflows
  \<^verbatim>\<open>int32_t\<close> (the public vocabularies of 100,000 and 200,000 tokens have less than half of that).
\<close>

definition dict_wf :: "bytes list \<Rightarrow> u64 \<Rightarrow> bool" where
  "dict_wf D hf \<longleftrightarrow> wf_dict D \<and> D \<noteq> [] \<and> length D \<le> 2 ^ 29 \<and> length (concat D) < 2 ^ 32 \<and>
     hash_free D (if hf = 0 then 1 else hf)"

definition dict_input :: "bytes list \<Rightarrow> u64 \<Rightarrow> bool" where
  "dict_input D hf \<longleftrightarrow> dict_wf D hf \<and> length (concat D) \<le> 4000000"

lemma from_dictionary_ok:
  assumes "dict_wf D hf"
  shows "(\<exists>bpe. bpe_from_dictionary (concat D) (starts D) (length D) hf = Some bpe \<and> bpe_ok bpe D) \<or>
    (bpe_from_dictionary (concat D) (starts D) (length D) hf = None \<and> 4000000 < length (concat D))"
proof -
  let ?n = "length D" and ?hf = "if hf = 0 then 1 else hf"
  have wf: "wf_dict D" and ne: "D \<noteq> []" and n: "?n \<le> 2 ^ 29" and sz: "length (concat D) < 2 ^ 32"
    and free: "hash_free D ?hf" using assms by (auto simp: dict_wf_def)
  define b0 where "b0 = bpe_alloc (concat D) (starts D) ?n ?hf"
  have d0: "dict_ok b0 D" using n sz by (simp add: b0_def bpe_alloc_def dict_ok_def)
  have "hash_free D (hash_factor b0)" using free by (simp add: b0_def bpe_alloc_def)
  from hash_tokens_ok [OF d0 this ne] obtain m m' where
    m: "bytesmap_new ((?n * 2) mod 2 ^ 32) = Some m" "hash_tokens b0 [0..<?n] m = Some m'"
    "find_ok (b0\<lparr>hash_to_token := m'\<rparr>) D" by blast
  define b1 where "b1 = b0\<lparr>hash_to_token := m'\<rparr>"
  have d1: "dict_ok b1 D" using d0 by (simp add: b1_def dict_ok_def)
  have "rd (starts D) ?n = Some (length (concat D))" by (simp add: starts_nth)
  moreover have "rd_slice (concat D) 0 (length (concat D)) = Some (concat D)" by simp
  moreover have "rd_slice (starts D) 0 (?n + 1) = Some (starts D)" by simp
  ultimately have step: "bpe_from_dictionary (concat D) (starts D) ?n hf = do {
     (a1, a2, a3) \<leftarrow> searchers b1 ?n;
     let bpe = b1\<lparr>longest_searcher := a1, overlapping_searcher := a2, overlapping_searcher_rev := a3\<rparr>;
     npm \<leftarrow> next_prefixes bpe [0..<?n] [];
     pm \<leftarrow> pairmap_new ((?n * 2) mod 2 ^ 32);
     find_splits [0..<?n]
       (bpe\<lparr>next_prefix_match := npm, pair_lookup := pm, split_left := [0..<?n], split_right := [0..<?n]\<rparr>)
   }"
    unfolding bpe_from_dictionary_def Let_def
    using m(1,2) by (simp add: b0_def [symmetric] b1_def [symmetric])
  show ?thesis
  proof (cases "searchers b1 ?n")
    case None
    then show ?thesis using searchers_ok [OF d1 wf ne] step by simp
  next
    case (Some p)
    obtain a1 a2 a3 where a: "searchers b1 ?n = Some (a1, a2, a3)" "ac_ok a1 D" "ac_ok a2 D" "ac_ok a3 (map rev D)"
      using searchers_ok [OF d1 wf ne] Some by auto
    define b2 where
      "b2 = b1\<lparr>longest_searcher := a1, overlapping_searcher := a2, overlapping_searcher_rev := a3\<rparr>"
    have d2: "dict_ok b2 D" using d1 by (simp add: b2_def dict_ok_def)
    have "ac_ok (longest_searcher b2) D" using a(2) by (simp add: b2_def)
    from next_prefixes_ok [OF d2 wf this, of 0 "[]"] obtain npm where
      npm: "next_prefixes b2 [0..<?n] [] = Some npm" "length npm = ?n"
      "\<forall>i < ?n. is_longest D (butlast (D ! i)) (npm ! i)" by auto
    have n2: "(?n * 2) mod 2 ^ 32 = ?n * 2" "?n * 2 \<le> 2 ^ 30" using n by simp_all
    obtain pm where pm: "pairmap_new ((?n * 2) mod 2 ^ 32) = Some pm" "pm_inv (?n * 2) pm"
      "pm_content pm = Map.empty"
      using pairmap_new_ok [OF n2(2)] n2(1) by auto
    define b3 where "b3 = b2\<lparr>next_prefix_match := npm, pair_lookup := pm,
      split_left := [0..<?n], split_right := [0..<?n]\<rparr>"
    have "splits_upto D 0 b3"
      unfolding splits_upto_def
    proof (intro conjI)
      show "wf_dict D" by (fact wf)
      show "dict_ok b3 D" using d2 by (simp add: b3_def dict_ok_def)
      show "find_ok b3 D" using m(3) by (simp add: b3_def b2_def b1_def find_ok_def)
      show "search_ok b3 D" using a(2-4) by (simp add: b3_def b2_def search_ok_def)
      show "prefix_ok b3 D" using npm(2,3) by (simp add: b3_def prefix_ok_def)
      show "pair_map_ok b3 D 0" using pm(2,3) by (auto simp: b3_def pair_map_ok_def tables_ok_def)
      show "\<exists>r \<ge> ?n - 0. pm_inv r (pair_lookup b3)"
        using pm(2) by (intro exI [of _ "?n * 2"]) (simp add: b3_def)
    qed
    from find_splits_ok [OF le0 this] obtain bpe where
      b: "find_splits [0..<?n] b3 = Some bpe" "splits_upto D ?n bpe" by blast
    have "bpe_from_dictionary (concat D) (starts D) ?n hf = Some bpe"
      unfolding step Let_def
      using a(1) npm(1) pm(1) b(1) by (simp add: b2_def [symmetric] b3_def [symmetric])
    then show ?thesis using b(2) by (auto simp: bpe_ok_def splits_upto_def)
  qed
qed

text \<open>An object as the construction returns it.\<close>

definition built :: "bpe \<Rightarrow> bytes list \<Rightarrow> u64 \<Rightarrow> bool" where
  "built bpe D hf \<longleftrightarrow>
     dict_wf D hf \<and> bpe_from_dictionary (concat D) (starts D) (length D) hf = Some bpe"

lemma built_ok: "built bpe D hf \<Longrightarrow> bpe_ok bpe D"
  using from_dictionary_ok [of D hf] by (auto simp: built_def)

lemma built_exists: "dict_input D hf \<Longrightarrow> \<exists>bpe. built bpe D hf"
  using from_dictionary_ok [of D hf] by (auto simp: built_def dict_input_def)

end
