(* ===== verification/Bpe_Encode.thy ===== *)
theory Bpe_Encode
  imports Bpe_Model
begin

text \<open>
  Decoding and the two encoders of \<^verbatim>\<open>src/bpe_core.c\<close> that read a text left to
  right: \<^verbatim>\<open>bpe_encode_all_prefixes\<close>, which finds the last token of every prefix, with
  \<^verbatim>\<open>bpe_encode_via_table\<close> on top of it, and the greedy encoder. An array from
  \<^verbatim>\<open>malloc\<close> is a list of options whose unwritten entries are \<open>None\<close>; reading
  one makes the model return \<open>None\<close>.
\<close>

subsection \<open>Last tokens of all prefixes\<close>

text \<open>The inner \<^verbatim>\<open>while\<close> loop over the matches that end at \<open>pos + 1\<close>.\<close>

partial_function (option) prefix_matches ::
    "bpe \<Rightarrow> ac_match_iter \<Rightarrow> nat \<Rightarrow> nat option list \<Rightarrow> (ac_match_iter \<times> nat option list) option" where
  "prefix_matches bpe it pos last_token = do {
     (it, m) \<leftarrow> ac_iter_next_match (overlapping_searcher bpe) it;
     case m of
       None \<Rightarrow> Some (it, last_token)
     | Some (out_tok, out_start) \<Rightarrow>
         if out_start = 0 then do {
           last_token \<leftarrow> wr last_token pos (Some out_tok);
           Some (it, last_token)
         } else do {
           written \<leftarrow> rd last_token (out_start - 1);
           prev \<leftarrow> written;
           valid \<leftarrow> bpe_is_valid_token_pair bpe prev out_tok;
           if valid then do {
             last_token \<leftarrow> wr last_token pos (Some out_tok);
             Some (it, last_token)
           } else prefix_matches bpe it pos last_token
         }
   }"

fun all_prefixes_loop ::
    "bpe \<Rightarrow> bytes \<Rightarrow> nat \<Rightarrow> ac_match_iter \<Rightarrow> nat option list \<Rightarrow> nat option list option" where
  "all_prefixes_loop bpe [] pos it last_token = Some last_token"
| "all_prefixes_loop bpe (b # bs) pos it last_token = do {
     it \<leftarrow> ac_iter_advance (overlapping_searcher bpe) it b (pos + 1);
     (it, last_token) \<leftarrow> prefix_matches bpe it pos last_token;
     all_prefixes_loop bpe bs (pos + 1) it last_token
   }"

definition bpe_encode_all_prefixes :: "bpe \<Rightarrow> bytes \<Rightarrow> nat option list option" where
  "bpe_encode_all_prefixes bpe text =
     all_prefixes_loop bpe text 0 ac_iter_new (replicate (length text) None)"

text \<open>A token that ends the text is accepted exactly when it is the last token of the encoding.\<close>

lemma bpe_ids_whole:
  assumes "wf_dict D" and "i < length D"
  shows "bpe_ids D (D ! i) = [i]"
  using bpe_ids_iff [OF assms(1), of "[i]"] assms(2) by simp

lemma bpe_ids_snoc:
  assumes wf: "wf_dict D" and i: "i < length D" and u: "u \<noteq> []" and cov: "covers D u"
  shows "ok_pair D (last (bpe_ids D u)) i \<longleftrightarrow> bpe_ids D (u @ D ! i) = bpe_ids D u @ [i]"
proof -
  have b: "\<forall>j \<in> set (bpe_ids D u @ [i]). j < length D" using bpe_ids_less [OF cov] i by auto
  have self: "adj (ok_pair D) (bpe_ids D u)"
    using bpe_ids_iff [OF wf, of "bpe_ids D u"] bpe_ids_decode [OF cov] bpe_ids_less [OF cov] by auto
  have "bpe_ids D u \<noteq> []" using u bpe_ids_decode [OF cov] by auto
  then show ?thesis
    using bpe_ids_iff [OF wf b] bpe_ids_decode [OF cov] self by (auto simp: adj_snoc)
qed

lemma bpe_ids_last:
  assumes wf: "wf_dict D" and cov: "covers D t" and t: "t \<noteq> []"
  defines "k \<equiv> last (bpe_ids D t)"
  shows "k < length D" and "suffix (D ! k) t"
    and "bpe_ids D t = bpe_ids D (take (length t - length (D ! k)) t) @ [k]"
proof -
  have ne: "bpe_ids D t \<noteq> []" using t bpe_ids_decode [OF cov] by auto
  then have ids: "bpe_ids D t = butlast (bpe_ids D t) @ [k]" by (simp add: k_def)
  have dec: "concat (map (\<lambda>i. D ! i) (butlast (bpe_ids D t))) @ D ! k = t" (is "?u @ _ = t")
    using bpe_ids_decode [OF cov] ids
    by (metis (no_types, lifting) append_Nil2 concat.simps concat_append list.simps(8,9) map_append)
  have b: "\<forall>i \<in> set (bpe_ids D t). i < length D" using bpe_ids_less [OF cov] by auto
  then show k: "k < length D" using ne by (simp add: k_def)
  show "suffix (D ! k) t" using dec by (metis suffixI)
  have "adj (ok_pair D) (butlast (bpe_ids D t) @ [k])"
    using bpe_ids_iff [OF wf b] bpe_ids_decode [OF cov] ids by metis
  then have "bpe_ids D ?u = butlast (bpe_ids D t)"
    using bpe_ids_iff [OF wf, of "butlast (bpe_ids D t)"] b by (simp add: adj_snoc in_set_butlastD)
  moreover have "take (length t - length (D ! k)) t = ?u" using dec by (metis add_diff_cancel_right' append_eq_conv_conj length_append)
  ultimately show "bpe_ids D t = bpe_ids D (take (length t - length (D ! k)) t) @ [k]"
    using ids by simp
qed

lemma covers_take: "covers D t \<Longrightarrow> covers D (take n t)"
  by (auto simp: covers_def dest: in_set_takeD)

lemma covers_drop: "covers D t \<Longrightarrow> covers D (drop n t)"
  by (auto simp: covers_def dest: in_set_dropD)

lemma accept_iff:
  assumes wf: "wf_dict D" and cov: "covers D u" and i: "i < length D" and suf: "suffix (D ! i) u"
    and s: "s = length u - length (D ! i)"
  shows "s = 0 \<Longrightarrow> last (bpe_ids D u) = i"
    and "0 < s \<Longrightarrow> ok_pair D (last (bpe_ids D (take s u))) i \<longleftrightarrow> last (bpe_ids D u) = i"
proof -
  obtain v where v: "u = v @ D ! i" using suf by (auto simp: suffix_def)
  have sv: "s = length v" using s v by simp
  show "last (bpe_ids D u) = i" if "s = 0" using that v sv bpe_ids_whole [OF wf i] by simp
  show "ok_pair D (last (bpe_ids D (take s u))) i \<longleftrightarrow> last (bpe_ids D u) = i" if s0: "0 < s"
  proof -
    have vn: "v \<noteq> []" and cv: "covers D v" using s0 sv cov v by (auto simp: covers_def)
    have tv: "take s u = v" using sv v by simp
    have "bpe_ids D u = bpe_ids D v @ [i] \<longleftrightarrow> last (bpe_ids D u) = i"
      using bpe_ids_last(3) [OF wf cov] vn v tv s by auto
    then show ?thesis using bpe_ids_snoc [OF wf i vn cv] v tv by simp
  qed
qed

definition prefix_lasts :: "bytes list \<Rightarrow> bytes \<Rightarrow> nat \<Rightarrow> nat option list \<Rightarrow> bool" where
  "prefix_lasts D t pos lt \<longleftrightarrow> length lt = length t \<and>
     (\<forall>j < pos. lt ! j = Some (last (bpe_ids D (take (Suc j) t))))"

lemma prefix_matches_ok:
  assumes ok: "bpe_ok bpe D" and cov: "covers D t" and pos: "pos < length t"
    and lt: "prefix_lasts D t pos lt"
    and "pending (overlapping_searcher bpe) it (Suc pos) ms"
    and "set ms \<subseteq> set (smatch D (take (Suc pos) t))"
    and "last (bpe_ids D (take (Suc pos) t)) \<in> fst ` set ms"
  shows "\<exists>it'. prefix_matches bpe it pos lt =
      Some (it', lt[pos := Some (last (bpe_ids D (take (Suc pos) t)))]) \<and> it_state it' = it_state it"
  using assms(5-)
proof (induction ms arbitrary: it)
  case Nil
  then show ?case by simp
next
  case (Cons m ms)
  let ?u = "take (Suc pos) t"
  let ?k = "last (bpe_ids D ?u)"
  note wf = bpe_okD(1) [OF ok]
  obtain i n where m: "m = (i, n)" by (cases m)
  obtain w where w: "w \<in> set D" "suffix w ?u" "i = tok_id D w" "n = length w"
    using Cons.prems(2) m by (auto simp: set_smatch)
  have i: "i < length D" "D ! i = w" using w tok_id_less by auto
  have lu: "length ?u = Suc pos" using pos by simp
  then have n: "n \<le> Suc pos" using w suffix_length_le by fastforce
  obtain it' where it': "ac_iter_next_match (overlapping_searcher bpe) it = Some (it', Some (i, Suc pos - n))"
    "pending (overlapping_searcher bpe) it' (Suc pos) ms" "it_state it' = it_state it"
    using ac_iter_next_match_Cons [of _ it "Suc pos" i n ms] Cons.prems(1) m n by blast
  have cu: "covers D ?u" using cov by (rule covers_take)
  have suf: "suffix (D ! i) ?u" using w i by simp
  have s: "Suc pos - n = length ?u - length (D ! i)" using lu w i by simp
  note acc = accept_iff [OF wf cu i(1) suf s]
  have len: "pos < length lt" using lt pos by (simp add: prefix_lasts_def)
  show ?case
  proof (cases "Suc pos - n = 0")
    case True
    then show ?thesis using it' acc(1) len by (subst prefix_matches.simps) simp
  next
    case False
    let ?s = "Suc pos - n"
    have "0 < n" using wf_dict_nonempty [OF wf i(1)] w i by auto
    then have sp: "?s - 1 < pos" "Suc (?s - 1) = ?s" "?s \<le> Suc pos" using False by auto
    have prev: "lt ! (?s - 1) = Some (last (bpe_ids D (take ?s ?u)))"
    proof -
      have "lt ! (?s - 1) = Some (last (bpe_ids D (take (Suc (?s - 1)) t)))"
        using lt sp(1) unfolding prefix_lasts_def by blast
      also have "take (Suc (?s - 1)) t = take ?s ?u" using sp by (simp add: take_take min_def)
      finally show ?thesis .
    qed
    have cs: "covers D (take ?s ?u)" by (rule covers_take [OF cu])
    have sn: "take ?s ?u \<noteq> []" using False pos by auto
    have "last (bpe_ids D (take ?s ?u)) < length D" by (rule bpe_ids_last(1) [OF wf cs sn])
    then have valid: "bpe_is_valid_token_pair bpe (last (bpe_ids D (take ?s ?u))) i = Some (?k = i)"
      using bpe_valid_pair [OF ok _ i(1)] acc(2) False by simp
    have rd: "rd lt (?s - 1) = Some (Some (last (bpe_ids D (take ?s ?u))))"
      using prev len sp(1) by simp
    show ?thesis
    proof (cases "?k = i")
      case True
      then show ?thesis using it' False valid rd len by (subst prefix_matches.simps) simp
    next
      case no: False
      then have "?k \<in> fst ` set ms" using Cons.prems(3) m by auto
      then obtain it2 where "prefix_matches bpe it' pos lt = Some (it2, lt[pos := Some ?k])"
        "it_state it2 = it_state it'"
        using Cons.IH [OF it'(2)] Cons.prems(2) by auto
      then show ?thesis using it' False valid rd no by (subst prefix_matches.simps) simp
    qed
  qed
qed

lemma last_in_smatch:
  assumes "wf_dict D" and "covers D u" and "u \<noteq> []"
  shows "last (bpe_ids D u) \<in> fst ` set (smatch D u)"
proof -
  let ?k = "last (bpe_ids D u)"
  note k = bpe_ids_last [OF assms]
  have "tok_id D (D ! ?k) = ?k" using k(1) wf_dict_distinct [OF assms(1)] by (simp add: tok_id_nth)
  then have "(?k, length (D ! ?k)) \<in> set (smatch D u)"
    unfolding set_smatch using k(1,2) wf_dict_nonempty [OF assms(1) k(1)] nth_mem by metis
  then show ?thesis by force
qed

lemma all_prefixes_loop_ok:
  assumes ok: "bpe_ok bpe D" and cov: "covers D t"
    and "pos \<le> length t" and "prefix_lasts D t pos lt"
    and "it_state it = ac_state (overlapping_searcher bpe) D (take pos t)"
  shows "\<exists>lt'. all_prefixes_loop bpe (drop pos t) pos it lt = Some lt' \<and> prefix_lasts D t (length t) lt'"
  using assms(3-)
proof (induction "length t - pos" arbitrary: pos lt it)
  case 0
  then show ?case by simp
next
  case (Suc n)
  then have pos: "pos < length t" by simp
  let ?u = "take (Suc pos) t" and ?a = "overlapping_searcher bpe"
  note wf = bpe_okD(1) [OF ok]
  have ac: "ac_ok ?a D" using bpe_okD(4) [OF ok] by (simp add: search_ok_def)
  have u: "?u = take pos t @ [t ! pos]" using pos by (simp add: take_Suc_conv_app_nth)
  obtain it1 where it1: "ac_iter_advance ?a it (t ! pos) (Suc pos) = Some it1"
    "it_state it1 = ac_state ?a D ?u" "pending ?a it1 (Suc pos) (smatch D ?u)"
    using ac_iter_advance_ok [OF ac Suc.prems(3), of "t ! pos" "Suc pos"] u by auto
  have "covers D ?u" "?u \<noteq> []" using cov covers_take pos by auto
  then have "last (bpe_ids D ?u) \<in> fst ` set (smatch D ?u)" by (rule last_in_smatch [OF wf])
  then obtain it2 where it2: "prefix_matches bpe it1 pos lt = Some (it2, lt[pos := Some (last (bpe_ids D ?u))])"
    "it_state it2 = it_state it1"
    using prefix_matches_ok [OF ok cov pos Suc.prems(2) it1(3)] by auto
  have "prefix_lasts D t (Suc pos) (lt[pos := Some (last (bpe_ids D ?u))])"
    using Suc.prems(2) pos by (auto simp: prefix_lasts_def less_Suc_eq)
  then have "\<exists>lt'. all_prefixes_loop bpe (drop (Suc pos) t) (Suc pos) it2
      (lt[pos := Some (last (bpe_ids D ?u))]) = Some lt' \<and> prefix_lasts D t (length t) lt'"
    using Suc.hyps(2) pos it1(2) it2(2) by (intro Suc.hyps(1)) auto
  moreover have "drop pos t = t ! pos # drop (Suc pos) t" using pos by (simp add: Cons_nth_drop_Suc)
  ultimately show ?case using it1(1) it2(1) by simp
qed

lemma encode_all_prefixes_ok:
  assumes "bpe_ok bpe D" and "covers D t"
  shows "bpe_encode_all_prefixes bpe t =
    Some (map (\<lambda>j. Some (last (bpe_ids D (take (Suc j) t)))) [0..<length t])"
proof -
  have "prefix_lasts D t 0 (replicate (length t) None)" by (simp add: prefix_lasts_def)
  then obtain lt where lt: "all_prefixes_loop bpe t 0 ac_iter_new (replicate (length t) None) = Some lt"
    "prefix_lasts D t (length t) lt"
    using all_prefixes_loop_ok [OF assms, of 0 _ ac_iter_new] by (auto simp: ac_iter_new_def)
  then have "lt = map (\<lambda>j. Some (last (bpe_ids D (take (Suc j) t)))) [0..<length t]"
    by (intro nth_equalityI) (auto simp: prefix_lasts_def)
  then show ?thesis using lt(1) by (simp add: bpe_encode_all_prefixes_def)
qed

subsection \<open>Encoding by the prefix table\<close>

text \<open>\<open>cnt\<close> is \<^verbatim>\<open>count\<close>, \<open>result\<close> the array of \<^verbatim>\<open>text_len + 1\<close> entries; a write beyond it is an error.\<close>

partial_function (option) table_walk ::
    "bpe \<Rightarrow> nat option list \<Rightarrow> nat \<Rightarrow> nat \<Rightarrow> nat option list \<Rightarrow> (nat option list \<times> nat) option" where
  "table_walk bpe lasto pos cnt result =
     (if pos = 0 then Some (result, cnt)
      else do {
        written \<leftarrow> rd lasto (pos - 1);
        tok \<leftarrow> written;
        result \<leftarrow> wr result cnt (Some tok);
        len \<leftarrow> token_len bpe tok;
        table_walk bpe lasto (usub pos len) (cnt + 1) result
      })"

text \<open>
  The in-place reversal of the first \<^verbatim>\<open>count\<close> entries. An unwritten entry may be moved like any
  other; an index outside the array is an error.
\<close>

partial_function (option) reverse_loop :: "nat \<Rightarrow> nat \<Rightarrow> nat option list \<Rightarrow> nat option list option" where
  "reverse_loop i j result =
     (if i < j then do {
        tmp \<leftarrow> rd result i;
        y \<leftarrow> rd result j;
        result \<leftarrow> wr result i y;
        result \<leftarrow> wr result j tmp;
        reverse_loop (i + 1) (usub j 1) result
      } else Some result)"

definition bpe_encode_via_table :: "bpe \<Rightarrow> bytes \<Rightarrow> nat list option" where
  "bpe_encode_via_table bpe text = do {
     lasto \<leftarrow> bpe_encode_all_prefixes bpe text;
     (result, cnt) \<leftarrow> table_walk bpe lasto (length text) 0 (replicate (length text + 1) None);
     result \<leftarrow> reverse_loop 0 (usub cnt 1) result;
     filled result cnt
   }"

lemma reverse_loop_ok:
  "j = length A + length M - 1 \<Longrightarrow> reverse_loop (length A) j (A @ M @ B) = Some (A @ rev M @ B)"
proof (induction "length M" arbitrary: A M B j rule: less_induct)
  case less
  show ?case
  proof (cases "length A < j")
    case False
    then have "length M \<le> 1" using less.prems by auto
    then have "rev M = M" by (cases M) auto
    then show ?thesis using False by (subst reverse_loop.simps) simp
  next
    case True
    then obtain x M1 where M1: "M = x # M1" "M1 \<noteq> []" using less.prems by (cases M) auto
    then obtain M2 y where M: "M = x # M2 @ [y]" by (metis rev_exhaust)
    have j: "j = length A + length M2 + 1" using less.prems M by simp
    have "(A @ M @ B) ! j = y" and jl: "j < length (A @ M @ B)"
      using M j by (simp_all add: nth_append)
    moreover have "(A @ M @ B)[length A := y, j := x] = (A @ [y]) @ M2 @ (x # B)"
      using M j by (simp add: list_update_append)
    moreover have "reverse_loop (length (A @ [y])) (j - 1) ((A @ [y]) @ M2 @ (x # B)) =
        Some ((A @ [y]) @ rev M2 @ (x # B))"
      using M j by (intro less.hyps) simp_all
    ultimately show ?thesis
      using True M by (subst reverse_loop.simps) (simp add: nth_append)
  qed
qed

lemma length_bpe_ids: "length (bpe_ids D t) \<le> length t"
proof -
  have le: "[] \<notin> set ts \<Longrightarrow> length ts \<le> length (concat ts)" for ts :: "'a list list"
  proof (induction ts)
    case (Cons s ts)
    then have "1 \<le> length s" by (cases s) auto
    then have "1 + length ts \<le> length s + length (concat ts)"
      using Cons by (intro add_mono) simp_all
    then show ?case by simp
  qed simp
  from le [of "bpe_encode D t"] show ?thesis
    using bpe_phase_nonempty [of D "length D" t] by (simp add: bpe_ids_def bpe_encode_def)
qed

lemma table_walk_ok:
  assumes ok: "bpe_ok bpe D" and cov: "covers D t" and lt: "prefix_lasts D t (length t) lt"
    and "pos \<le> length t" and "length res + length (bpe_ids D (take pos t)) < cap"
  defines "R \<equiv> res @ rev (bpe_ids D (take pos t))"
  shows "table_walk bpe lt pos (length res) (part_array cap res) = Some (part_array cap R, length R)"
  using assms(4,5) unfolding R_def
proof (induction pos arbitrary: res rule: less_induct)
  case (less pos)
  note wf = bpe_okD(1) [OF ok]
  show ?case
  proof (cases pos)
    case 0
    then show ?thesis by (subst table_walk.simps) simp
  next
    case (Suc p)
    let ?u = "take pos t"
    let ?k = "last (bpe_ids D ?u)"
    let ?q = "pos - length (D ! ?k)"
    have cu: "covers D ?u" and un: "?u \<noteq> []" using cov covers_take Suc less.prems(1) by auto
    have lu: "length ?u = pos" using less.prems by simp
    note k = bpe_ids_last [OF wf cu un, unfolded lu]
    have "lt ! p = Some ?k" "p < length lt"
      using lt Suc less.prems(1) unfolding prefix_lasts_def by simp_all
    then have rd: "rd lt (pos - 1) = Some (Some ?k)" using Suc by simp
    have "0 < length (D ! ?k)" "length (D ! ?k) \<le> pos"
      using bpe_pos_len [OF ok k(1)] suffix_length_le [OF k(2)] lu by simp_all
    then have q: "?q < pos" "usub pos (length (D ! ?k)) = ?q" using Suc by simp_all
    have tq: "take ?q ?u = take ?q t" by simp
    have ids: "bpe_ids D ?u = bpe_ids D (take ?q t) @ [?k]" using k(3) tq by simp
    have "length res + length (bpe_ids D ?u) < cap" by (rule less.prems(2))
    then have cap: "length res < cap" "length (res @ [?k]) + length (bpe_ids D (take ?q t)) < cap"
      by (subst (asm) ids, simp)+
    define R' where "R' = (res @ [?k]) @ rev (bpe_ids D (take ?q t))"
    have "table_walk bpe lt ?q (length (res @ [?k])) (part_array cap (res @ [?k])) = Some (part_array cap R', length R')"
      unfolding R'_def by (rule less.IH [OF q(1) _ cap(2)]) (use q(1) less.prems(1) in simp)
    moreover have "table_walk bpe lt pos (length res) (part_array cap res) =
        table_walk bpe lt ?q (length (res @ [?k])) (part_array cap (res @ [?k]))"
      using rd Suc wr_part_array [OF cap(1)] bpe_token_len [OF ok k(1)] q(2)
      by (subst table_walk.simps) simp
    moreover have "R' = res @ rev (bpe_ids D ?u)" unfolding R'_def by (subst ids) simp
    ultimately show ?thesis by simp
  qed
qed

lemma encode_via_table_ok:
  assumes ok: "bpe_ok bpe D" and cov: "covers D t" and t: "t \<noteq> []"
  shows "bpe_encode_via_table bpe t = Some (bpe_ids D t)"
proof -
  let ?lt = "map (\<lambda>j. Some (last (bpe_ids D (take (Suc j) t)))) [0..<length t]"
  let ?ids = "bpe_ids D t"
  have "prefix_lasts D t (length t) ?lt" by (simp add: prefix_lasts_def)
  then have walk: "table_walk bpe ?lt (length t) 0 (replicate (length t + 1) None) =
      Some (part_array (length t + 1) (rev ?ids), length ?ids)"
    using table_walk_ok [OF ok cov, of ?lt "length t" "[]" "length t + 1"] length_bpe_ids [of D t]
    by (simp add: less_Suc_eq_le part_array_new del: replicate_Suc)
  have "?ids \<noteq> []" using t bpe_ids_decode [OF cov] by auto
  then have c: "usub (length ?ids) 1 = length ?ids - 1" by (cases ?ids) simp_all
  have "reverse_loop 0 (length ?ids - 1) (part_array (length t + 1) (rev ?ids)) = Some (part_array (length t + 1) ?ids)"
    using reverse_loop_ok [of "length ?ids - 1" "[]" "map Some (rev ?ids)" "replicate (length t + 1 - length ?ids) None"]
    by (simp add: part_array_def rev_map [symmetric] del: replicate_Suc)
  then show ?thesis
    using walk c encode_all_prefixes_ok [OF ok cov] filled_part_array by (simp add: bpe_encode_via_table_def)
qed

text \<open>
  On the empty text the index \<^verbatim>\<open>count - 1\<close> wraps to \<open>SIZE_MAX\<close>: the array has one entry, no token was
  written, and the reversal asks for entry \<open>SIZE_MAX\<close>.
\<close>

lemma encode_via_table_empty:
  "table_walk bpe [] 0 0 [None] = Some ([None], 0)"
  "usub 0 1 = SIZE_MAX"
  "rd [None] 0 = Some None \<and> rd [None :: nat option] SIZE_MAX = None"
  "bpe_encode_via_table bpe [] = None"
proof -
  show w: "table_walk bpe [] 0 0 [None] = Some ([None], 0)" by (subst table_walk.simps) simp
  show j: "usub 0 1 = SIZE_MAX" by (simp add: usub_def SIZE_MAX_def)
  show r: "rd [None] 0 = Some None \<and> rd [None :: nat option] SIZE_MAX = None" by (simp add: rd_def SIZE_MAX_def)
  have "reverse_loop 0 SIZE_MAX [None] = None"
    using r by (subst reverse_loop.simps) (simp add: SIZE_MAX_def)
  then show "bpe_encode_via_table bpe [] = None"
    using w j by (simp add: bpe_encode_via_table_def bpe_encode_all_prefixes_def)
qed

subsection \<open>Decoding\<close>

fun decode_total :: "bpe \<Rightarrow> nat list \<Rightarrow> nat option" where
  "decode_total bpe [] = Some 0"
| "decode_total bpe (tok # toks) = do {
     len \<leftarrow> token_len bpe tok;
     total \<leftarrow> decode_total bpe toks;
     Some (len + total)
   }"

text \<open>The copies go to consecutive offsets of the buffer of \<^verbatim>\<open>total + 1\<close> bytes.\<close>

fun decode_copy :: "bpe \<Rightarrow> nat list \<Rightarrow> nat \<Rightarrow> byte option list \<Rightarrow> byte option list option" where
  "decode_copy bpe [] off buf = Some buf"
| "decode_copy bpe (tok # toks) off buf = do {
     len \<leftarrow> token_len bpe tok;
     s \<leftarrow> tok_bytes bpe tok;
     w \<leftarrow> rd_slice (all_tokens bpe) s len;
     buf \<leftarrow> wr_slice buf off (map Some w);
     decode_copy bpe toks (off + len) buf
   }"

text \<open>
  The buffer, closed by a zero byte, and the length stored in \<^verbatim>\<open>*out_len\<close>; \<open>Some None\<close> is the
  \<^verbatim>\<open>NULL\<close> result for an unknown token id, whose length is 0.
\<close>

definition bpe_decode_tokens :: "bpe \<Rightarrow> nat list \<Rightarrow> (byte option list \<times> nat) option option" where
  "bpe_decode_tokens bpe tokens =
     (if \<exists>tok \<in> set tokens. num_tokens bpe \<le> tok then Some None
      else do {
        total \<leftarrow> decode_total bpe tokens;
        buf \<leftarrow> decode_copy bpe tokens 0 (replicate (total + 1) None);
        buf \<leftarrow> wr buf total (Some 0);
        Some (Some (buf, total))
      })"

lemma decode_total_ok:
  assumes "dict_ok bpe D"
  shows "\<forall>i \<in> set ts. i < length D \<Longrightarrow>
    decode_total bpe ts = Some (length (concat (map (\<lambda>i. D ! i) ts)))"
  by (induction ts) (simp_all add: token_len_ok [OF assms])

lemma decode_copy_ok:
  assumes "dict_ok bpe D"
  shows "\<forall>i \<in> set ts. i < length D \<Longrightarrow>
    length bs + length (concat (map (\<lambda>i. D ! i) ts)) \<le> cap \<Longrightarrow>
    decode_copy bpe ts (length bs) (part_array cap bs) = Some (part_array cap (bs @ concat (map (\<lambda>i. D ! i) ts)))"
proof (induction ts arbitrary: bs)
  case (Cons i ts)
  have "wr_slice (part_array cap bs) (length bs) (map Some (D ! i)) = Some (part_array cap (bs @ D ! i))"
    using Cons.prems(2) by (intro wr_slice_part_array) simp
  then show ?case
    using Cons.IH [of "bs @ D ! i"] Cons.prems assms length_concat_nth [of i D]
    by (simp add: token_len_ok [OF assms] tok_bytes_ok [OF assms] slice_concat dict_ok_def)
qed simp

lemma decode_tokens_ok:
  fixes ts :: "nat list"
  assumes "dict_ok bpe D"
  defines "bs \<equiv> concat (map (\<lambda>i. D ! i) ts)"
  shows "bpe_decode_tokens bpe ts =
    Some (if \<forall>i \<in> set ts. i < length D then Some (map Some bs @ [Some 0], length bs) else None)"
proof (cases "\<forall>i \<in> set ts. i < length D")
  case True
  then have "\<not> (\<exists>tok \<in> set ts. num_tokens bpe \<le> tok)" using assms by (auto simp: dict_ok_def)
  moreover have "decode_copy bpe ts 0 (replicate (length bs + 1) None) = Some (part_array (length bs + 1) bs)"
    using decode_copy_ok [OF assms(1) True, of "[]" "length bs + 1"]
    by (simp add: bs_def part_array_new del: replicate_Suc)
  moreover have "wr (part_array (length bs + 1) bs) (length bs) (Some 0) = Some (map Some bs @ [Some 0])"
    using wr_part_array [of bs "length bs + 1" 0] part_array_full [of "bs @ [0]"] by simp
  ultimately show ?thesis
    using True by (simp add: bpe_decode_tokens_def decode_total_ok [OF assms(1)] bs_def del: replicate_Suc)
next
  case False
  then have "\<exists>tok \<in> set ts. num_tokens bpe \<le> tok" using assms by (auto simp: dict_ok_def not_less)
  then show ?thesis using False by (simp add: bpe_decode_tokens_def)
qed

lemma decode_bpe_ids:
  assumes "dict_ok bpe D" and "covers D t"
  shows "bpe_decode_tokens bpe (bpe_ids D t) = Some (Some (map Some t @ [Some 0], length t))"
  using bpe_ids_less [OF assms(2)] bpe_ids_decode [OF assms(2)] by (simp add: decode_tokens_ok [OF assms(1)])

subsection \<open>Greedy encoding\<close>

text \<open>
  The result array has \<open>cap\<close> entries, of which the first \<open>cnt\<close> are written; it doubles when
  it is full.
\<close>

partial_function (option) greedy_loop ::
    "bpe \<Rightarrow> bytes \<Rightarrow> nat \<Rightarrow> nat \<Rightarrow> nat \<Rightarrow> nat option list \<Rightarrow> (nat option list \<times> nat) option" where
  "greedy_loop bpe text pos cap cnt result =
     (if pos < length text then do {
        tok \<leftarrow> bpe_next_match bpe (drop pos text);
        if tok = UINT32_MAX then Some (result, cnt)
        else do {
          let (cap, result) =
            (if cnt = cap then (cap * 2, result @ replicate (cap * 2 - length result) None) else (cap, result));
          result \<leftarrow> wr result cnt (Some tok);
          len \<leftarrow> token_len bpe tok;
          greedy_loop bpe text (pos + len) cap (cnt + 1) result
        }
      } else Some (result, cnt))"

definition bpe_encode_greedy :: "bpe \<Rightarrow> bytes \<Rightarrow> nat list option" where
  "bpe_encode_greedy bpe text = do {
     let cap = length text div 2 + 16;
     (result, cnt) \<leftarrow> greedy_loop bpe text 0 cap 0 (replicate cap None);
     filled result cnt
   }"

text \<open>The greedy segmentation: at every position the longest token.\<close>

fun greedy_of :: "bytes list \<Rightarrow> bytes \<Rightarrow> nat list \<Rightarrow> bool" where
  "greedy_of D t [] \<longleftrightarrow> t = []"
| "greedy_of D t (i # is) \<longleftrightarrow>
     i \<noteq> UINT32_MAX \<and> is_longest D t i \<and> greedy_of D (drop (length (D ! i)) t) is"

lemma greedy_of_concat: "greedy_of D t is \<Longrightarrow> concat (map (\<lambda>i. D ! i) is) = t"
proof (induction D t "is" rule: greedy_of.induct)
  case (2 D t i "is")
  then have "prefix (D ! i) t" by (simp add: is_longest_prefix)
  with 2 show ?case by (auto simp: prefix_def)
qed simp

lemma greedy_loop_ok:
  assumes ok: "bpe_ok bpe D" and cov: "covers D t"
    and "pos \<le> length t" and "length res \<le> cap" and "0 < cap"
  shows "\<exists>is cap'. greedy_loop bpe t pos cap (length res) (part_array cap res) =
      Some (part_array cap' (res @ is), length (res @ is)) \<and> greedy_of D (drop pos t) is"
  using assms(3-)
proof (induction "length t - pos" arbitrary: pos res cap rule: less_induct)
  case less
  show ?case
  proof (cases "pos < length t")
    case False
    then show ?thesis by (intro exI [of _ "[]"], subst greedy_loop.simps) auto
  next
    case True
    let ?u = "drop pos t"
    obtain r where r: "bpe_next_match bpe ?u = Some r" "is_longest D ?u r"
      using bpe_next_match_longest [OF ok covers_drop [OF cov]] by blast
    have "[t ! pos] \<in> set D" using cov True by (simp add: covers_def)
    moreover have "prefix [t ! pos] ?u" using True by (simp add: Cons_nth_drop_Suc [symmetric])
    ultimately have rn: "r \<noteq> UINT32_MAX" using is_longest_max [OF r(2)] by blast
    note i = is_longest_less [OF r(2) rn]
    have l: "0 < length (D ! r)" "pos + length (D ! r) \<le> length t"
      using bpe_pos_len [OF ok i] prefix_length_le [OF is_longest_prefix [OF r(2) rn]] True by auto
    then have m: "length t - (pos + length (D ! r)) < length t - pos" using True by arith
    define cap1 where "cap1 = (if length res = cap then cap * 2 else cap)"
    have c: "length res < cap1" "length (res @ [r]) \<le> cap1" "0 < cap1"
      using less.prems(2,3) by (auto simp: cap1_def)
    have grow: "(if length res = cap then (cap * 2, part_array cap res @ replicate (cap * 2 - length (part_array cap res)) None)
        else (cap, part_array cap res)) = (cap1, part_array cap1 res)"
      using less.prems(2) part_array_grow [of res cap cap] by (simp add: cap1_def mult_2_right)
    have step: "greedy_loop bpe t pos cap (length res) (part_array cap res) =
        greedy_loop bpe t (pos + length (D ! r)) cap1 (length (res @ [r])) (part_array cap1 (res @ [r]))"
      using True r rn bpe_token_len [OF ok i] wr_part_array [OF c(1), of r]
      by (subst greedy_loop.simps) (simp add: grow)
    from less.hyps [OF m l(2) c(2,3)] obtain "is" cap' where
      "greedy_loop bpe t (pos + length (D ! r)) cap1 (length (res @ [r])) (part_array cap1 (res @ [r])) =
         Some (part_array cap' ((res @ [r]) @ is), length ((res @ [r]) @ is))"
      "greedy_of D (drop (pos + length (D ! r)) t) is" by blast
    then show ?thesis
      using step r rn by (intro exI [of _ "r # is"] exI [of _ cap']) (simp add: add.commute)
  qed
qed

lemma encode_greedy_ok:
  assumes "bpe_ok bpe D" and "covers D t"
  shows "\<exists>is. bpe_encode_greedy bpe t = Some is \<and> greedy_of D t is"
proof -
  let ?cap = "length t div 2 + 16"
  obtain "is" cap' where "greedy_loop bpe t 0 ?cap 0 (replicate ?cap None) = Some (part_array cap' is, length is)"
    "greedy_of D t is"
    using greedy_loop_ok [OF assms, of 0 "[]" ?cap] by (auto simp: part_array_new)
  then show ?thesis using filled_part_array [of cap' "is"] by (simp add: bpe_encode_greedy_def Let_def)
qed

end
