(* ===== verification/Bitfield.thy ===== *)
theory Bitfield
  imports Bpe_Prelude
begin

unbundle bit_operations_syntax

text \<open>
  The bit array of \<^verbatim>\<open>include/bitfield.h\<close>: 64-bit words, all bits 1 at the start, with
  successor and predecessor queries. The compiler builtins \<^verbatim>\<open>__builtin_ctzll\<close> and
  \<^verbatim>\<open>__builtin_clzll\<close> (and their MSVC replacements) are the number of zero bits below
  the lowest and above the highest set bit. A query that finds no set bit runs
  off the array in C and is \<open>None\<close> here.

  \<open>bits bf i\<close> reads the array as a set of positions; the queries are proved to
  return the nearest member of that set. The locale \<open>bit_array\<close> is the part
  of the interface that the backtracking encoders use.
\<close>

text \<open>\<^verbatim>\<open>nwords\<close> is the number of words the array has room for, the length of \<open>bf_words\<close>.\<close>

record bitfield =
  bf_words :: "u64 list"

definition bf_nwords :: "bitfield \<Rightarrow> nat" where
  "bf_nwords bf = length (bf_words bf)"

definition ctz64 :: "u64 \<Rightarrow> nat" where
  "ctz64 v = length (takeWhile (\<lambda>i. \<not> bit v i) [0..<64])"

definition clz64 :: "u64 \<Rightarrow> nat" where
  "clz64 v = length (takeWhile (\<lambda>i. \<not> bit v (63 - i)) [0..<64])"

definition bitfield_new :: "nat \<Rightarrow> bitfield" where
  "bitfield_new n =
     (let nwords = (n + 63) div 64 in \<lparr>bf_words = replicate nwords (- 1)\<rparr>)"

definition bitfield_is_set :: "bitfield \<Rightarrow> nat \<Rightarrow> bool option" where
  "bitfield_is_set bf i = do {
     w \<leftarrow> rd (bf_words bf) (i div 64);
     Some (drop_bit (i mod 64) w AND 1 \<noteq> 0)
   }"

definition bitfield_clear :: "bitfield \<Rightarrow> nat \<Rightarrow> bitfield option" where
  "bitfield_clear bf i = do {
     w \<leftarrow> rd (bf_words bf) (i div 64);
     ws \<leftarrow> wr (bf_words bf) (i div 64) (w AND NOT (push_bit (i mod 64) 1));
     Some (bf\<lparr>bf_words := ws\<rparr>)
   }"

partial_function (option) successor_scan :: "u64 list \<Rightarrow> nat \<Rightarrow> nat option" where
  "successor_scan ws k = do {
     w \<leftarrow> rd ws k;
     if w \<noteq> 0 then Some (k * 64 + ctz64 w) else successor_scan ws (Suc k)
   }"

definition bitfield_successor :: "bitfield \<Rightarrow> nat \<Rightarrow> nat option" where
  "bitfield_successor bf i = do {
     w \<leftarrow> rd (bf_words bf) (i div 64);
     let w = drop_bit (i mod 64) w;
     if w \<noteq> 0 then Some (i + ctz64 w) else successor_scan (bf_words bf) (Suc (i div 64))
   }"

text \<open>\<^verbatim>\<open>word_idx--\<close> at 0 wraps to \<^verbatim>\<open>SIZE_MAX\<close>, which is outside the array.\<close>

fun predecessor_scan :: "u64 list \<Rightarrow> nat \<Rightarrow> nat option" where
  "predecessor_scan ws 0 = None"
| "predecessor_scan ws (Suc k) = do {
     w \<leftarrow> rd ws k;
     if w \<noteq> 0 then Some (k * 64 + 63 - clz64 w) else predecessor_scan ws k
   }"

definition bitfield_predecessor :: "bitfield \<Rightarrow> nat \<Rightarrow> nat option" where
  "bitfield_predecessor bf i = do {
     w \<leftarrow> rd (bf_words bf) (i div 64);
     let w = push_bit (63 - i mod 64) w;
     if w \<noteq> 0 then Some (i - clz64 w) else predecessor_scan (bf_words bf) (i div 64)
   }"

text \<open>
  \<^verbatim>\<open>bitfield_reset\<close>: the array is grown only when it is too small (the words \<^verbatim>\<open>realloc\<close> adds
  have no particular value, here 0), and the needed words are set; words past them survive from the
  previous use. A \<^verbatim>\<open>memset\<close> beyond the array has no result.
\<close>

definition bitfield_reset :: "bitfield \<Rightarrow> nat \<Rightarrow> bitfield option" where
  "bitfield_reset bf n = do {
     let need = (n + 63) div 64;
     let ws = (if bf_nwords bf < need then bf_words bf @ replicate (need - bf_nwords bf) 0 else bf_words bf);
     ws \<leftarrow> wr_slice ws 0 (replicate need (- 1));
     Some (bf\<lparr>bf_words := ws\<rparr>)
   }"

subsection \<open>The array as a set of positions\<close>

definition bits :: "bitfield \<Rightarrow> nat \<Rightarrow> bool" where
  "bits bf i \<longleftrightarrow> i < 64 * length (bf_words bf) \<and> bit (bf_words bf ! (i div 64)) (i mod 64)"

definition bf_room :: "nat \<Rightarrow> bitfield \<Rightarrow> bool" where
  "bf_room n bf \<longleftrightarrow> n \<le> 64 * length (bf_words bf)"

lemma div64_less: "(i::nat) < 64 * n \<Longrightarrow> i div 64 < n"
  by (simp add: div_less_iff_less_mult mult.commute)

lemma is_set_room: "bf_room n bf \<Longrightarrow> i < n \<Longrightarrow> bitfield_is_set bf i = Some (bits bf i)"
  using div64_less [of i "length (bf_words bf)"]
  by (auto simp: bf_room_def bitfield_is_set_def bits_def bit_iff_odd_drop_bit even_iff_mod_2_eq_zero
      simp flip: and_one_eq)

lemma clear_room:
  assumes "bf_room n bf" and "i < n"
  shows "\<exists>bf'. bitfield_clear bf i = Some bf' \<and> bf_room n bf' \<and>
     (\<forall>j. bits bf' j \<longleftrightarrow> bits bf j \<and> j \<noteq> i)"
proof -
  have k: "i div 64 < length (bf_words bf)"
    using div64_less assms by (auto simp: bf_room_def)
  let ?w = "bf_words bf ! (i div 64) AND NOT (push_bit (i mod 64) 1)"
  have "bit ?w m \<longleftrightarrow> bit (bf_words bf ! (i div 64)) m \<and> m \<noteq> i mod 64" if "m < 64" for m
    using that by (auto simp: bit_simps)
  then have "bits (bf\<lparr>bf_words := (bf_words bf)[i div 64 := ?w]\<rparr>) j \<longleftrightarrow> bits bf j \<and> j \<noteq> i" for j
  proof -
    have "j = i \<longleftrightarrow> j div 64 = i div 64 \<and> j mod 64 = i mod 64"
      by (metis div_mult_mod_eq)
    then show ?thesis using k \<open>\<And>m. m < 64 \<Longrightarrow> _\<close> [of "j mod 64"]
      by (cases "j div 64 = i div 64") (auto simp: bits_def)
  qed
  then show ?thesis using k assms(1) by (simp add: bitfield_clear_def bf_room_def)
qed

lemma bits_new: "bits (bitfield_new n) i \<longleftrightarrow> i < 64 * ((n + 63) div 64)"
  by (auto simp: bits_def bitfield_new_def Let_def nth_replicate [OF div64_less])

lemma room_new: "bf_room n (bitfield_new n)"
proof -
  have "n + 63 < 64 * ((n + 63) div 64) + 64" by linarith
  then show ?thesis by (simp add: bf_room_def bitfield_new_def Let_def)
qed

lemma reset_words:
  "bitfield_reset bf n = Some \<lparr>bf_words = replicate ((n + 63) div 64) (- 1) @ drop ((n + 63) div 64) (bf_words bf)\<rparr>"
  by (cases bf) (simp add: bitfield_reset_def wr_slice_def bf_nwords_def Let_def)

lemma bits_reset:
  assumes "bitfield_reset bf n = Some bf'" and i: "i < n"
  shows "bits bf' i"
proof -
  have "n + 63 < 64 * ((n + 63) div 64) + 64" by linarith
  with i have "i div 64 < (n + 63) div 64" by (intro div64_less) linarith
  moreover from this i have "i < 64 * (max ((n + 63) div 64) (length (bf_words bf)))"
    using \<open>n + 63 < _\<close> by linarith
  ultimately show "bits bf' i"
    using assms(1) by (auto simp: bits_def reset_words nth_append)
qed

lemma room_reset: "bitfield_reset bf n = Some bf' \<Longrightarrow> bf_room n bf'"
proof -
  assume "bitfield_reset bf n = Some bf'"
  moreover have "n + 63 < 64 * ((n + 63) div 64) + 64" by linarith
  ultimately show ?thesis by (auto simp: bf_room_def reset_words)
qed

subsection \<open>Successor and predecessor\<close>

lemma word64_nonzero_bit: "(v :: u64) \<noteq> 0 \<Longrightarrow> \<exists>i < 64. bit v i"
proof (rule ccontr)
  assume "v \<noteq> 0" and "\<not> (\<exists>i < 64. bit v i)"
  then have "v = 0" by (intro bit_word_eqI) auto
  with \<open>v \<noteq> 0\<close> show False by simp
qed

lemma ctz64_spec:
  assumes "v \<noteq> 0"
  shows "ctz64 v < 64 \<and> bit v (ctz64 v) \<and> (\<forall>i < ctz64 v. \<not> bit v i)"
proof -
  let ?P = "\<lambda>i. \<not> bit v i"
  have lt: "ctz64 v < 64"
  proof (rule ccontr)
    assume "\<not> ctz64 v < 64"
    then have "takeWhile ?P [0..<64] = [0..<64]"
      unfolding ctz64_def using length_takeWhile_le [of ?P "[0..<64]"]
      by (metis takeWhile_eq_take length_upt diff_zero not_less take_all)
    then have "\<forall>i < 64. ?P i" by (simp add: takeWhile_eq_all_conv)
    with word64_nonzero_bit [OF assms] show False by blast
  qed
  have "bit v (ctz64 v)"
    using nth_length_takeWhile [of ?P "[0..<64]"] lt by (simp add: ctz64_def)
  moreover have "\<not> bit v i" if "i < ctz64 v" for i
  proof -
    have "takeWhile ?P [0..<64] ! i = i"
      using that lt by (simp add: ctz64_def takeWhile_nth)
    then show ?thesis using that nth_mem [of i "takeWhile ?P [0..<64]"]
      by (auto simp: ctz64_def dest: set_takeWhileD)
  qed
  ultimately show ?thesis using lt by blast
qed

lemma clz64_spec:
  assumes "v \<noteq> 0"
  shows "clz64 v < 64 \<and> bit v (63 - clz64 v) \<and> (\<forall>i. 63 - clz64 v < i \<and> i < 64 \<longrightarrow> \<not> bit v i)"
proof -
  let ?P = "\<lambda>i. \<not> bit v (63 - i)"
  have lt: "clz64 v < 64"
  proof (rule ccontr)
    assume "\<not> clz64 v < 64"
    then have "takeWhile ?P [0..<64] = [0..<64]"
      unfolding clz64_def using length_takeWhile_le [of ?P "[0..<64]"]
      by (metis takeWhile_eq_take length_upt diff_zero not_less take_all)
    then have all: "\<forall>i < 64. ?P i" by (simp add: takeWhile_eq_all_conv)
    obtain i where i: "i < 64" "bit v i" using word64_nonzero_bit [OF assms] by blast
    have "63 - i < 64" "63 - (63 - i) = i" using i by linarith+
    then show False using all i(2) by metis
  qed
  have "bit v (63 - clz64 v)"
    using nth_length_takeWhile [of ?P "[0..<64]"] lt by (simp add: clz64_def)
  moreover have "\<not> bit v i" if i: "63 - clz64 v < i" "i < 64" for i
  proof -
    have c: "63 - i < clz64 v" using i by linarith
    then have "takeWhile ?P [0..<64] ! (63 - i) = 63 - i"
      using lt by (simp add: clz64_def takeWhile_nth)
    then have "63 - i \<in> set (takeWhile ?P [0..<64])"
      using c nth_mem [of "63 - i" "takeWhile ?P [0..<64]"] by (simp add: clz64_def)
    then show ?thesis using i by (auto dest: set_takeWhileD)
  qed
  ultimately show ?thesis using lt by blast
qed

lemma bits_word: "m < 64 \<Longrightarrow> k < length (bf_words bf) \<Longrightarrow> bits bf (k * 64 + m) \<longleftrightarrow> bit (bf_words bf ! k) m"
  by (auto simp: bits_def)

lemma successor_scan_ok:
  assumes "bits bf j" and "k * 64 \<le> j"
  shows "\<exists>s. successor_scan (bf_words bf) k = Some s \<and> bits bf s \<and> k * 64 \<le> s \<and>
     (\<forall>i. k * 64 \<le> i \<and> i < s \<longrightarrow> \<not> bits bf i)"
  using assms(2)
proof (induction "length (bf_words bf) - k" arbitrary: k)
  case 0
  then show ?case using assms(1) by (auto simp: bits_def)
next
  case (Suc d)
  then have k: "k < length (bf_words bf)" by simp
  let ?w = "bf_words bf ! k"
  have none: "\<not> bits bf i" if "k * 64 \<le> i" "i < Suc k * 64" "\<not> bit ?w (i - k * 64)" for i
    using bits_word [of "i - k * 64" k bf] that k by auto
  show ?case
  proof (cases "?w = 0")
    case True
    then have n: "\<not> bits bf i" if "k * 64 \<le> i" "i < Suc k * 64" for i
      using none [OF that] by simp
    then have "Suc k * 64 \<le> j" using Suc.prems assms(1) not_less by blast
    moreover have "d = length (bf_words bf) - Suc k" using Suc.hyps(2) by simp
    ultimately obtain s where s: "successor_scan (bf_words bf) (Suc k) = Some s" "bits bf s"
      "Suc k * 64 \<le> s" "\<forall>i. Suc k * 64 \<le> i \<and> i < s \<longrightarrow> \<not> bits bf i"
      using Suc.hyps(1) by blast
    have "successor_scan (bf_words bf) k = Some s"
      using s(1) True k by (subst successor_scan.simps) simp
    moreover have "\<not> bits bf i" if "k * 64 \<le> i" "i < s" for i
      using n [of i] s(4) that by (meson not_less)
    ultimately show ?thesis using s(2,3) by auto
  next
    case False
    note c = ctz64_spec [OF False]
    have "successor_scan (bf_words bf) k = Some (k * 64 + ctz64 ?w)"
      using False k by (subst successor_scan.simps) simp
    moreover have "\<not> bits bf i" if "k * 64 \<le> i" "i < k * 64 + ctz64 ?w" for i
      using none [of i] that c by (auto simp: less_diff_conv)
    moreover have "bits bf (k * 64 + ctz64 ?w)" using bits_word k c by blast
    ultimately show ?thesis by auto
  qed
qed

lemma bitfield_successor_ok:
  assumes "bits bf j" and "i \<le> j"
  shows "\<exists>s. bitfield_successor bf i = Some s \<and> bits bf s \<and> i \<le> s \<and> (\<forall>k. i \<le> k \<and> k < s \<longrightarrow> \<not> bits bf k)"
proof -
  let ?q = "i div 64" and ?r = "i mod 64"
  have q: "?q < length (bf_words bf)" using assms div64_less [of i] by (auto simp: bits_def)
  let ?w = "bf_words bf ! ?q" and ?d = "drop_bit ?r (bf_words bf ! ?q)"
  have i: "i = ?q * 64 + ?r" by simp
  have rd: "bits bf (i + m) \<longleftrightarrow> bit ?d m" if "?r + m < 64" for m
  proof -
    have "bits bf (?q * 64 + (?r + m)) \<longleftrightarrow> bit ?w (?r + m)" using bits_word that q by blast
    then show ?thesis by (simp add: bit_drop_bit_eq add.assoc [symmetric])
  qed
  show ?thesis
  proof (cases "?d = 0")
    case True
    have n: "\<not> bits bf k" if "i \<le> k" "k < Suc ?q * 64" for k
    proof -
      have "?r + (k - i) < 64" using that i by arith
      with rd [of "k - i"] that True show ?thesis by simp
    qed
    then have "Suc ?q * 64 \<le> j" using assms not_less by blast
    then obtain s where s: "successor_scan (bf_words bf) (Suc ?q) = Some s" "bits bf s"
      "Suc ?q * 64 \<le> s" "\<forall>i. Suc ?q * 64 \<le> i \<and> i < s \<longrightarrow> \<not> bits bf i"
      using successor_scan_ok assms(1) by blast
    have "bitfield_successor bf i = Some s"
      using True q s(1) by (simp add: bitfield_successor_def)
    moreover have "\<not> bits bf k" if "i \<le> k" "k < s" for k
      using n [of k] s(4) that by (meson not_less)
    moreover have "i \<le> s" using s(3) div_mult_mod_eq [of i 64] mod_less_divisor [of 64 i] by simp
    ultimately show ?thesis using s(2) by blast
  next
    case False
    note c = ctz64_spec [OF False]
    have lt: "?r + ctz64 ?d < 64"
    proof (rule ccontr)
      assume "\<not> ?r + ctz64 ?d < 64"
      then have "\<not> bit ?w (?r + ctz64 ?d)" by (auto dest: bit_imp_le_length)
      with c show False by (simp add: bit_drop_bit_eq)
    qed
    have "bitfield_successor bf i = Some (i + ctz64 ?d)"
      using False q by (simp add: bitfield_successor_def)
    moreover have "\<not> bits bf k" if "i \<le> k" "k < i + ctz64 ?d" for k
      using rd [of "k - i"] that c lt by (auto simp: less_diff_conv)
    moreover have "bits bf (i + ctz64 ?d)" using rd lt c by blast
    ultimately show ?thesis by auto
  qed
qed

lemma predecessor_scan_ok:
  assumes "bits bf j" and "j < k * 64" and "k \<le> length (bf_words bf)"
  shows "\<exists>s. predecessor_scan (bf_words bf) k = Some s \<and> bits bf s \<and> s < k * 64 \<and>
     (\<forall>i. s < i \<and> i < k * 64 \<longrightarrow> \<not> bits bf i)"
  using assms(2,3)
proof (induction k)
  case 0
  then show ?case by simp
next
  case (Suc k)
  then have k: "k < length (bf_words bf)" by simp
  let ?w = "bf_words bf ! k"
  have none: "\<not> bits bf i" if "k * 64 \<le> i" "i < Suc k * 64" "\<not> bit ?w (i - k * 64)" for i
    using bits_word [of "i - k * 64" k bf] that k by auto
  show ?case
  proof (cases "?w = 0")
    case True
    then have n: "\<not> bits bf i" if "k * 64 \<le> i" "i < Suc k * 64" for i
      using none [OF that] by simp
    then have "j < k * 64" using Suc.prems(1) assms(1) not_less by blast
    then obtain s where s: "predecessor_scan (bf_words bf) k = Some s" "bits bf s" "s < k * 64"
      "\<forall>i. s < i \<and> i < k * 64 \<longrightarrow> \<not> bits bf i"
      using Suc.IH k by auto
    have "\<not> bits bf i" if "s < i" "i < Suc k * 64" for i
      using n [of i] s(4) that by (meson not_less)
    then show ?thesis using s True k by auto
  next
    case False
    note c = clz64_spec [OF False]
    let ?s = "k * 64 + (63 - clz64 ?w)"
    have "k * 64 + 63 - clz64 ?w = ?s" using c by arith
    then have "predecessor_scan (bf_words bf) (Suc k) = Some ?s"
      using False k by simp
    moreover have "\<not> bits bf i" if "?s < i" "i < Suc k * 64" for i
      using none [of i] c that by (auto simp: less_diff_conv2)
    moreover have "bits bf ?s" using bits_word [of "63 - clz64 ?w" k bf] k c by simp
    ultimately show ?thesis by fastforce
  qed
qed

lemma bitfield_predecessor_ok:
  assumes "bits bf j" and "j \<le> i" and "i < 64 * length (bf_words bf)"
  shows "\<exists>s. bitfield_predecessor bf i = Some s \<and> bits bf s \<and> s \<le> i \<and> (\<forall>k. s < k \<and> k \<le> i \<longrightarrow> \<not> bits bf k)"
proof -
  let ?q = "i div 64" and ?r = "i mod 64"
  have q: "?q < length (bf_words bf)" using div64_less assms(3) by blast
  let ?w = "bf_words bf ! ?q" and ?d = "push_bit (63 - i mod 64) (bf_words bf ! ?q)"
  have i: "i = ?q * 64 + ?r" and r: "?r < 64" by simp_all
  have rd: "bits bf (i - m) \<longleftrightarrow> bit ?d (63 - m)" if "m \<le> ?r" for m
  proof -
    have "i - m = ?q * 64 + (?r - m)" using that i by arith
    then have "bits bf (i - m) \<longleftrightarrow> bit ?w (?r - m)" using bits_word [of "?r - m" ?q bf] q r by simp
    moreover have "63 - m - (63 - ?r) = ?r - m" "63 - ?r \<le> 63 - m" using that r by arith+
    ultimately show ?thesis by (auto simp: bit_push_bit_iff)
  qed
  show ?thesis
  proof (cases "?d = 0")
    case True
    have n: "\<not> bits bf k" if "?q * 64 \<le> k" "k \<le> i" for k
    proof -
      have "i - k \<le> ?r" "i - (i - k) = k" using that i by arith+
      with rd [of "i - k"] True show ?thesis by simp
    qed
    then have "j < ?q * 64" using assms(1,2) not_less by blast
    then obtain s where s: "predecessor_scan (bf_words bf) ?q = Some s" "bits bf s" "s < ?q * 64"
      "\<forall>i. s < i \<and> i < ?q * 64 \<longrightarrow> \<not> bits bf i"
      using predecessor_scan_ok [OF assms(1)] q by (meson less_imp_le)
    have "bitfield_predecessor bf i = Some s"
      using True q s(1) by (simp add: bitfield_predecessor_def)
    moreover have "\<not> bits bf k" if "s < k" "k \<le> i" for k
      using n [of k] s(4) that by (meson not_less)
    moreover have "s \<le> i" using s(3) i by arith
    ultimately show ?thesis using s(2) by blast
  next
    case False
    note c = clz64_spec [OF False]
    have le: "clz64 ?d \<le> ?r"
    proof (rule ccontr)
      assume "\<not> clz64 ?d \<le> ?r"
      then have "\<not> 63 - ?r \<le> 63 - clz64 ?d" using c r by arith
      then have "\<not> bit ?d (63 - clz64 ?d)" by (simp only: bit_push_bit_iff) simp
      with c show False by simp
    qed
    have "bitfield_predecessor bf i = Some (i - clz64 ?d)"
      using False q by (simp add: bitfield_predecessor_def)
    moreover have "\<not> bits bf k" if "i - clz64 ?d < k" "k \<le> i" for k
    proof -
      have *: "i - k < clz64 ?d" "i - (i - k) = k" using that le by linarith+
      then have "i - k \<le> ?r" "63 - clz64 ?d < 63 - (i - k)" "63 - (i - k) < 64"
        using le c by linarith+
      with rd [of "i - k"] c * show ?thesis by metis
    qed
    moreover have "bits bf (i - clz64 ?d)" using rd le c by simp
    ultimately show ?thesis by auto
  qed
qed

subsection \<open>The interface of the backtracking encoders\<close>

text \<open>
  The encoders mark dead text positions in a bit array: they test and clear bits
  below the size they asked for. \<open>room n b\<close>: positions below \<open>n\<close> are in range.
\<close>

locale bit_array =
  fixes is_set :: "'b \<Rightarrow> nat \<Rightarrow> bool option"
    and clear :: "'b \<Rightarrow> nat \<Rightarrow> 'b option"
    and new :: "nat \<Rightarrow> 'b"
    and member :: "'b \<Rightarrow> nat \<Rightarrow> bool"
    and room :: "nat \<Rightarrow> 'b \<Rightarrow> bool"
  assumes new_room: "room n (new n)"
    and new_member: "i < n \<Longrightarrow> member (new n) i"
    and is_set_ok: "room n b \<Longrightarrow> i < n \<Longrightarrow> is_set b i = Some (member b i)"
    and clear_ok: "room n b \<Longrightarrow> i < n \<Longrightarrow>
      \<exists>b'. clear b i = Some b' \<and> room n b' \<and> (\<forall>j. member b' j \<longleftrightarrow> member b j \<and> j \<noteq> i)"
begin

definition alive :: "nat \<Rightarrow> 'b \<Rightarrow> nat set" where
  "alive n b = {i. i < n \<and> member b i}"

lemma finite_alive [simp]: "finite (alive n b)"
  by (rule finite_subset [of _ "{..<n}"]) (auto simp: alive_def)

text \<open>Clearing a set bit removes one live position: what bounds the backtracking.\<close>

lemma clear_alive:
  assumes "room n b" and "i < n" and "clear b i = Some b'"
  shows "room n b' \<and> alive n b' = alive n b - {i}"
  using clear_ok [OF assms(1,2)] assms(3) by (auto simp: alive_def)

lemma card_alive_clear:
  assumes "room n b" and "i < n" and "clear b i = Some b'" and "member b i"
  shows "card (alive n b') < card (alive n b)"
proof -
  have "i \<in> alive n b" using assms(2,4) by (simp add: alive_def)
  then show ?thesis using clear_alive [OF assms(1-3)] card_Diff1_less [of "alive n b" i] by simp
qed

end

interpretation word_bits: bit_array bitfield_is_set bitfield_clear bitfield_new bits bf_room
proof unfold_locales
  fix n i assume "i < (n::nat)"
  moreover have "n + 63 < 64 * ((n + 63) div 64) + 64" by linarith
  ultimately show "bits (bitfield_new n) i" by (simp add: bits_new)
qed (use room_new is_set_room clear_room in blast)+

end
