(* ===== verification/Bpe_Heap.thy ===== *)
theory Bpe_Heap
  imports Bpe_Encode Bitfield "HOL-Library.Multiset"
begin

text \<open>
  The priority-queue encoder of \<^verbatim>\<open>src/bpe_core.c\<close>: the binary min-heap of candidate
  merges, \<^verbatim>\<open>encode_into_bitfield\<close>, \<^verbatim>\<open>bpe_encode_via_bitfield\<close> and \<^verbatim>\<open>bpe_self_check\<close>.

  The heap is shown to be a heap, and the encoder to terminate with a sequence of
  tokens that spells the text. It is not the byte pair encoding: two
  candidates with the same token are popped in the order in which the heap holds them,
  not from left to right.
\<close>

subsection \<open>The heap\<close>

type_synonym heap_item = "nat \<times> nat"

partial_function (option) sift_up :: "heap_item list \<Rightarrow> nat \<Rightarrow> heap_item list option" where
  "sift_up h i =
     (if 0 < i then do {
        let parent = (i - 1) div 2;
        p \<leftarrow> rd h parent;
        x \<leftarrow> rd h i;
        if fst p \<le> fst x then Some h
        else do {
          h \<leftarrow> wr h parent x;
          h \<leftarrow> wr h i p;
          sift_up h parent
        }
      } else Some h)"

definition heap_push :: "heap_item list \<Rightarrow> nat \<Rightarrow> nat \<Rightarrow> heap_item list option" where
  "heap_push h pri start = sift_up (h @ [(pri, start)]) (length h)"

definition smaller_child :: "heap_item list \<Rightarrow> nat \<Rightarrow> nat \<Rightarrow> nat option" where
  "smaller_child h c smallest =
     (if c < length h then do {
        x \<leftarrow> rd h c;
        y \<leftarrow> rd h smallest;
        Some (if fst x < fst y then c else smallest)
      } else Some smallest)"

partial_function (option) sift_down :: "heap_item list \<Rightarrow> nat \<Rightarrow> heap_item list option" where
  "sift_down h i = do {
     smallest \<leftarrow> smaller_child h (2 * i + 1) i;
     smallest \<leftarrow> smaller_child h (2 * i + 2) smallest;
     if smallest = i then Some h
     else do {
       x \<leftarrow> rd h i;
       y \<leftarrow> rd h smallest;
       h \<leftarrow> wr h i y;
       h \<leftarrow> wr h smallest x;
       sift_down h smallest
     }
   }"

text \<open>Popping the last element leaves \<^verbatim>\<open>data[0]\<close> outside the heap; the loop then reads nothing.\<close>

definition heap_pop :: "heap_item list \<Rightarrow> (heap_item \<times> heap_item list) option" where
  "heap_pop h = do {
     top \<leftarrow> rd h 0;
     if length h = 1 then Some (top, [])
     else do {
       h \<leftarrow> sift_down (butlast (h[0 := last h])) 0;
       Some (top, h)
     }
   }"

subsection \<open>Encoding into the bit field\<close>

fun heap_seed :: "bpe \<Rightarrow> bytes \<Rightarrow> nat list \<Rightarrow> heap_item list \<Rightarrow> heap_item list option" where
  "heap_seed bpe bytes [] heap = Some heap"
| "heap_seed bpe bytes (i # is) heap = do {
     b \<leftarrow> rd_slice bytes i 2;
     tok \<leftarrow> bpe_find_token_by_bytes bpe b;
     heap \<leftarrow> (if tok \<noteq> UINT32_MAX then heap_push heap tok (i mod 2 ^ 32) else Some heap);
     heap_seed bpe bytes is heap
   }"

text \<open>Looking up \<open>bytes[a..<b]\<close> and pushing the token, if there is one, with its start.\<close>

definition push_token :: "bpe \<Rightarrow> bytes \<Rightarrow> nat \<Rightarrow> nat \<Rightarrow> heap_item list \<Rightarrow> heap_item list option" where
  "push_token bpe bytes a b heap = do {
     w \<leftarrow> rd_slice bytes a ((b - a) mod 2 ^ 32);
     ext \<leftarrow> bpe_find_token_by_bytes bpe w;
     if ext \<noteq> UINT32_MAX then heap_push heap ext (a mod 2 ^ 32) else Some heap
   }"

definition extend_right ::
    "bpe \<Rightarrow> bytes \<Rightarrow> bitfield \<Rightarrow> nat \<Rightarrow> nat \<Rightarrow> heap_item list \<Rightarrow> heap_item list option" where
  "extend_right bpe bytes bf start e heap =
     (if e < length bytes then do {
        new_end \<leftarrow> bitfield_successor bf (e + 1);
        push_token bpe bytes start new_end heap
      } else Some heap)"

definition extend_left ::
    "bpe \<Rightarrow> bytes \<Rightarrow> bitfield \<Rightarrow> nat \<Rightarrow> nat \<Rightarrow> heap_item list \<Rightarrow> heap_item list option" where
  "extend_left bpe bytes bf start e heap =
     (if 0 < start then do {
        new_start \<leftarrow> bitfield_predecessor bf (start - 1);
        push_token bpe bytes new_start e heap
      } else Some heap)"

partial_function (option) merge_loop ::
    "bpe \<Rightarrow> bytes \<Rightarrow> heap_item list \<Rightarrow> bitfield \<Rightarrow> nat \<Rightarrow> (bitfield \<times> nat) option" where
  "merge_loop bpe bytes heap bf cnt =
     (if heap = [] then Some (bf, cnt)
      else do {
        (item, heap) \<leftarrow> heap_pop heap;
        let token = fst item;
        let start = snd item;
        start_set \<leftarrow> bitfield_is_set bf start;
        if \<not> start_set then merge_loop bpe bytes heap bf cnt
        else do {
          mid \<leftarrow> bitfield_successor bf (start + 1);
          if length bytes \<le> mid then merge_loop bpe bytes heap bf cnt
          else do {
            e \<leftarrow> bitfield_successor bf (mid + 1);
            tlen \<leftarrow> token_len bpe token;
            if tlen \<noteq> e - start then merge_loop bpe bytes heap bf cnt
            else do {
              bf \<leftarrow> bitfield_clear bf mid;
              heap \<leftarrow> extend_right bpe bytes bf start e heap;
              heap \<leftarrow> extend_left bpe bytes bf start e heap;
              merge_loop bpe bytes heap bf (cnt - 1)
            }
          }
        }
      })"

definition encode_into_bitfield :: "bpe \<Rightarrow> bytes \<Rightarrow> (bitfield \<times> nat) option" where
  "encode_into_bitfield bpe bytes = do {
     heap \<leftarrow> heap_seed bpe bytes [0..<length bytes - 1] [];
     merge_loop bpe bytes heap (bitfield_new (length bytes + 1)) (length bytes)
   }"

text \<open>
  Reading the tokens off the marks into the result array; \<open>bpe_encode_via_bitfield\<close> returns that array
  and the \<^verbatim>\<open>count\<close> stored in \<^verbatim>\<open>*out_n\<close>, with which it was allocated.
\<close>

partial_function (option) read_bitfield ::
    "bpe \<Rightarrow> bytes \<Rightarrow> bitfield \<Rightarrow> nat \<Rightarrow> nat \<Rightarrow> nat option list \<Rightarrow> nat option list option" where
  "read_bitfield bpe text bf start idx result =
     (if start < length text then do {
        e \<leftarrow> bitfield_successor bf (start + 1);
        w \<leftarrow> rd_slice text start ((e - start) mod 2 ^ 32);
        tok \<leftarrow> bpe_find_token_by_bytes bpe w;
        result \<leftarrow> wr result idx (Some tok);
        read_bitfield bpe text bf e (idx + 1) result
      } else Some result)"

definition bpe_encode_via_bitfield :: "bpe \<Rightarrow> bytes \<Rightarrow> (nat option list \<times> nat) option" where
  "bpe_encode_via_bitfield bpe text = do {
     (bf, cnt) \<leftarrow> encode_into_bitfield bpe text;
     result \<leftarrow> read_bitfield bpe text bf 0 0 (replicate cnt None);
     Some (result, cnt)
   }"

fun self_check_loop :: "bpe \<Rightarrow> nat list \<Rightarrow> bool option" where
  "self_check_loop bpe [] = Some True"
| "self_check_loop bpe (i # is) = do {
     w \<leftarrow> bpe_token_bytes bpe i;
     (enc, n) \<leftarrow> bpe_encode_via_bitfield bpe w;
     good \<leftarrow> (if n = 1 then do { x \<leftarrow> rd enc 0; v \<leftarrow> x; Some (v = i) } else Some False);
     if good then self_check_loop bpe is else Some False
   }"

definition bpe_self_check :: "bpe \<Rightarrow> bool option" where
  "bpe_self_check bpe = self_check_loop bpe [0..<num_tokens bpe]"

subsection \<open>The heap property\<close>

definition is_heap :: "heap_item list \<Rightarrow> bool" where
  "is_heap h \<longleftrightarrow> (\<forall>i. 0 < i \<longrightarrow> i < length h \<longrightarrow> fst (h ! ((i - 1) div 2)) \<le> fst (h ! i))"

text \<open>A heap but for the edges above \<open>i\<close> (\<open>heap_up\<close>) or below \<open>i\<close> (\<open>heap_down\<close>).\<close>

definition heap_up :: "heap_item list \<Rightarrow> nat \<Rightarrow> bool" where
  "heap_up h i \<longleftrightarrow> (\<forall>j. 0 < j \<longrightarrow> j < length h \<longrightarrow> j \<noteq> i \<longrightarrow> fst (h ! ((j - 1) div 2)) \<le> fst (h ! j)) \<and>
     (\<forall>j. 0 < j \<longrightarrow> j < length h \<longrightarrow> 0 < i \<longrightarrow> (j - 1) div 2 = i \<longrightarrow> fst (h ! ((i - 1) div 2)) \<le> fst (h ! j))"

definition heap_down :: "heap_item list \<Rightarrow> nat \<Rightarrow> bool" where
  "heap_down h i \<longleftrightarrow> (\<forall>j. 0 < j \<longrightarrow> j < length h \<longrightarrow> (j - 1) div 2 \<noteq> i \<longrightarrow> fst (h ! ((j - 1) div 2)) \<le> fst (h ! j)) \<and>
     (\<forall>j. 0 < j \<longrightarrow> j < length h \<longrightarrow> 0 < i \<longrightarrow> (j - 1) div 2 = i \<longrightarrow> fst (h ! ((i - 1) div 2)) \<le> fst (h ! j))"

lemma mset_swap:
  assumes "i < length xs" and "j < length xs"
  shows "mset (xs[i := xs ! j, j := xs ! i]) = mset xs"
  using assms by (simp add: Multiset.mset_swap)

lemma parent_less: "0 < (x::nat) \<Longrightarrow> (x - 1) div 2 < x"
  by auto

lemma sift_up_ok:
  "heap_up h i \<Longrightarrow> i < length h \<Longrightarrow> \<exists>h'. sift_up h i = Some h' \<and> is_heap h' \<and> mset h' = mset h"
proof (induction i arbitrary: h rule: less_induct)
  case (less i)
  show ?case
  proof (cases "i = 0")
    case True
    then have "is_heap h" using less.prems by (auto simp: heap_up_def is_heap_def)
    then show ?thesis using True by (subst sift_up.simps) simp
  next
    case False
    let ?p = "(i - 1) div 2"
    have p: "?p < i" "?p < length h" using False less.prems by auto
    show ?thesis
    proof (cases "fst (h ! ?p) \<le> fst (h ! i)")
      case True
      then have "is_heap h" using less.prems by (auto simp: heap_up_def is_heap_def)
      then show ?thesis using False True p less.prems by (subst sift_up.simps) (simp add: Let_def)
    next
      case gt: False
      let ?h = "h[?p := h ! i, i := h ! ?p]"
      have nth: "?h ! j = (if j = i then h ! ?p else if j = ?p then h ! i else h ! j)" for j
        using p less.prems by (auto simp: nth_list_update)
      have up: "fst (h ! ((j - 1) div 2)) \<le> fst (h ! j)" if "0 < j" "j < length h" "j \<noteq> i" for j
        using less.prems(1) that by (simp add: heap_up_def)
      have kids: "fst (h ! ?p) \<le> fst (h ! j)" if "0 < j" "j < length h" "(j - 1) div 2 = i" for j
        using less.prems(1) that False by (simp add: heap_up_def)
      have "heap_up ?h ?p"
        unfolding heap_up_def
      proof (intro conjI allI impI)
        fix j assume j: "0 < j" "j < length ?h" "j \<noteq> ?p"
        show "fst (?h ! ((j - 1) div 2)) \<le> fst (?h ! j)"
        proof (cases "j = i")
          case True
          then show ?thesis using nth [of ?p] nth [of i] gt p by simp
        next
          case ji: False
          have pj: "?h ! j = h ! j" using nth [of j] ji j(3) by simp
          consider (a) "(j - 1) div 2 = i" | (b) "(j - 1) div 2 = ?p" | (c) "?h ! ((j - 1) div 2) = h ! ((j - 1) div 2)"
            using nth [of "(j - 1) div 2"] by presburger
          then show ?thesis
          proof cases
            case a
            have "?h ! i = h ! ?p" using nth [of i] by simp
            then show ?thesis using kids [of j] j a pj by simp
          next
            case b
            have "?h ! ?p = h ! i" using nth [of ?p] p(1) by simp
            moreover have "fst (h ! ?p) \<le> fst (h ! j)" using up [of j] j ji b by simp
            ultimately show ?thesis using gt b pj by simp
          next
            case c
            then show ?thesis using up [of j] j ji pj by simp
          qed
        qed
      next
        fix j assume j: "0 < j" "j < length ?h" "0 < ?p" "(j - 1) div 2 = ?p"
        have "fst (h ! ((?p - 1) div 2)) \<le> fst (h ! ?p)" using up [of ?p] j(3) p by simp
        moreover have "(?p - 1) div 2 \<noteq> ?p" "(?p - 1) div 2 \<noteq> i"
          using parent_less [OF j(3)] p(1) by simp_all
        moreover have "j \<noteq> ?p" using j by auto
        moreover have "fst (h ! ?p) \<le> fst (?h ! j)"
          using nth [of j] up [of j] j \<open>j \<noteq> ?p\<close> by (cases "j = i") auto
        ultimately show "fst (?h ! ((?p - 1) div 2)) \<le> fst (?h ! j)" using nth by simp
      qed
      then obtain h' where "sift_up ?h ?p = Some h'" "is_heap h'" "mset h' = mset ?h"
        using less.IH [OF p(1), of ?h] p less.prems by auto
      moreover have "mset ?h = mset h" using mset_swap [of ?p h i] p less.prems by simp
      moreover have "sift_up h i = sift_up ?h ?p"
        using False gt p less.prems by (subst sift_up.simps) (simp add: Let_def)
      ultimately show ?thesis by simp
    qed
  qed
qed

lemma heap_push_ok:
  assumes "is_heap h"
  shows "\<exists>h'. heap_push h pri start = Some h' \<and> is_heap h' \<and> mset h' = add_mset (pri, start) (mset h)"
proof -
  have "heap_up (h @ [(pri, start)]) (length h)"
    unfolding heap_up_def
  proof (intro conjI allI impI)
    fix j assume j: "0 < j" "j < length (h @ [(pri, start)])" "j \<noteq> length h"
    then have "j < length h" "(j - 1) div 2 < length h" using parent_less [OF j(1)] by auto
    then show "fst ((h @ [(pri, start)]) ! ((j - 1) div 2)) \<le> fst ((h @ [(pri, start)]) ! j)"
      using assms j(1) by (simp add: is_heap_def nth_append)
  next
    fix j assume "0 < j" "j < length (h @ [(pri, start)])" "(j - 1) div 2 = length h"
    then have False using parent_less [of j] by simp
    then show "fst ((h @ [(pri, start)]) ! ((length h - 1) div 2)) \<le> fst ((h @ [(pri, start)]) ! j)" ..
  qed
  from sift_up_ok [OF this] show ?thesis by (simp add: heap_push_def)
qed

lemma smaller_child_ok:
  assumes "s < length h"
  shows "smaller_child h c s = Some (if c < length h \<and> fst (h ! c) < fst (h ! s) then c else s)"
  using assms by (simp add: smaller_child_def)

lemma sift_down_ok:
  "heap_down h i \<Longrightarrow> i < length h \<Longrightarrow> \<exists>h'. sift_down h i = Some h' \<and> is_heap h' \<and> mset h' = mset h"
proof (induction "length h - i" arbitrary: h i rule: less_induct)
  case less
  let ?l = "2 * i + 1" and ?r = "2 * i + 2"
  let ?s1 = "if ?l < length h \<and> fst (h ! ?l) < fst (h ! i) then ?l else i"
  let ?s = "if ?r < length h \<and> fst (h ! ?r) < fst (h ! ?s1) then ?r else ?s1"
  have s1: "?s1 < length h" and s: "?s < length h" using less.prems(2) by auto
  have par: "(j - 1) div 2 = i \<longleftrightarrow> j = ?l \<or> j = ?r" if "0 < j" for j using that by presburger
  have min: "fst (h ! ?s) \<le> fst (h ! j)" if "0 < j" "j < length h" "(j - 1) div 2 = i \<or> j = i" for j
    using that par [OF that(1)] by auto
  have mini: "fst (h ! ?s) \<le> fst (h ! i)" by auto
  have step: "sift_down h i = (if ?s = i then Some h else sift_down (h[i := h ! ?s, ?s := h ! i]) ?s)"
    using smaller_child_ok [OF less.prems(2), of ?l] smaller_child_ok [OF s1, of ?r] s less.prems(2)
    by (subst sift_down.simps) simp
  show ?case
  proof (cases "?s = i")
    case True
    have "fst (h ! ((j - 1) div 2)) \<le> fst (h ! j)" if "0 < j" "j < length h" for j
    proof (cases "(j - 1) div 2 = i")
      case eq: True
      then show ?thesis using min [OF that] True by simp
    next
      case False
      then show ?thesis using less.prems(1) that by (simp add: heap_down_def)
    qed
    then have "is_heap h" by (simp add: is_heap_def)
    then show ?thesis using step True by simp
  next
    case False
    let ?h = "h[i := h ! ?s, ?s := h ! i]"
    have si: "i < ?s" "(?s - 1) div 2 = i" "0 < ?s" using False by (auto split: if_splits)
    define k where "k = ?s"
    have k: "i < k" "(k - 1) div 2 = i" "0 < k" "k < length h" using si s by (auto simp: k_def)
    have nth: "h[i := h ! k, k := h ! i] ! j = (if j = k then h ! i else if j = i then h ! k else h ! j)" for j
      using k less.prems(2) by (auto simp: nth_list_update)
    have dn: "fst (h ! ((j - 1) div 2)) \<le> fst (h ! j)" if "0 < j" "j < length h" "(j - 1) div 2 \<noteq> i" for j
      using less.prems(1) that by (simp add: heap_down_def)
    have kmin: "fst (h ! k) \<le> fst (h ! j)" if "0 < j" "j < length h" "(j - 1) div 2 = i \<or> j = i" for j
      using min [OF that] by (simp only: k_def)
    have "heap_down (h[i := h ! k, k := h ! i]) k"
      unfolding heap_down_def
    proof (intro conjI allI impI)
      fix j assume j: "0 < j" "j < length (h[i := h ! k, k := h ! i])" "(j - 1) div 2 \<noteq> k"
      show "fst (h[i := h ! k, k := h ! i] ! ((j - 1) div 2)) \<le> fst (h[i := h ! k, k := h ! i] ! j)"
      proof (cases "(j - 1) div 2 = i")
        case True
        have "j \<noteq> i" using True j(1) by auto
        have i: "h[i := h ! k, k := h ! i] ! i = h ! k" using nth [of i] k(1) by simp
        show ?thesis
        proof (cases "j = k")
          case jk: True
          have "h[i := h ! k, k := h ! i] ! k = h ! i" using nth [of k] by simp
          then show ?thesis using i jk True mini by (simp add: k_def)
        next
          case False
          then have "h[i := h ! k, k := h ! i] ! j = h ! j" using nth [of j] \<open>j \<noteq> i\<close> by simp
          then show ?thesis using i True kmin [of j] j by simp
        qed
      next
        case ne: False
        then have "j \<noteq> k" using k(2) by auto
        show ?thesis
        proof (cases "j = i")
          case True
          have "fst (h ! ((i - 1) div 2)) \<le> fst (h ! k)"
            using less.prems(1) k True j(1) unfolding heap_down_def by auto
          then show ?thesis using nth True ne j k by auto
        next
          case False
          then show ?thesis using nth ne j dn [of j] \<open>j \<noteq> k\<close> by simp
        qed
      qed
    next
      fix j assume j: "0 < j" "j < length (h[i := h ! k, k := h ! i])" "0 < k" "(j - 1) div 2 = k"
      then have "fst (h ! k) \<le> fst (h ! j)" using dn [of j] k by auto
      moreover have "j \<noteq> k" "j \<noteq> i" using j k by auto
      ultimately show "fst (h[i := h ! k, k := h ! i] ! ((k - 1) div 2)) \<le> fst (h[i := h ! k, k := h ! i] ! j)"
        using nth k by simp
    qed
    moreover have "length (h[i := h ! k, k := h ! i]) - k < length h - i" using k by simp
    ultimately obtain h' where "sift_down (h[i := h ! k, k := h ! i]) k = Some h'" "is_heap h'"
      "mset h' = mset (h[i := h ! k, k := h ! i])"
      using less.hyps [of "h[i := h ! k, k := h ! i]" k] k by auto
    moreover have "mset (h[i := h ! k, k := h ! i]) = mset h" using mset_swap [of i h k] k less.prems(2) by simp
    moreover have "sift_down h i = sift_down (h[i := h ! k, k := h ! i]) k"
      using step False by (simp only: k_def if_False)
    ultimately show ?thesis by simp
  qed
qed

lemma is_heap_min:
  assumes "is_heap h" and "i < length h"
  shows "fst (h ! 0) \<le> fst (h ! i)"
  using assms(2)
proof (induction i rule: less_induct)
  case (less i)
  show ?case
  proof (cases "i = 0")
    case False
    then have "(i - 1) div 2 < i" by auto
    then have "fst (h ! 0) \<le> fst (h ! ((i - 1) div 2))" using less by simp
    also have "\<dots> \<le> fst (h ! i)" using assms(1) less.prems False by (simp add: is_heap_def)
    finally show ?thesis .
  qed simp
qed

lemma heap_pop_ok:
  assumes h: "is_heap h" and ne: "h \<noteq> []"
  shows "\<exists>x h'. heap_pop h = Some (x, h') \<and> is_heap h' \<and> mset h = add_mset x (mset h') \<and>
    (\<forall>y \<in> set h. fst x \<le> fst y)"
proof -
  have min: "\<forall>y \<in> set h. fst (h ! 0) \<le> fst y"
    using is_heap_min [OF h] by (metis in_set_conv_nth)
  show ?thesis
  proof (cases "length h = 1")
    case True
    then obtain x where "h = [x]" by (auto simp: length_Suc_conv)
    then show ?thesis by (simp add: heap_pop_def is_heap_def)
  next
    case False
    obtain x m y where hx: "h = x # m @ [y]"
    proof -
      obtain x t where t: "h = x # t" "t \<noteq> []" using ne False by (cases h) auto
      then show ?thesis using that by (metis rev_exhaust)
    qed
    let ?h = "y # m"
    have b: "butlast (h[0 := last h]) = ?h" using hx by (simp add: butlast_append)
    have nth: "?h ! j = h ! j" if "0 < j" "j < length ?h" for j
      using that hx by (cases j) (simp_all add: nth_append)
    have "heap_down ?h 0"
      unfolding heap_down_def
    proof (intro conjI allI impI)
      fix j assume j: "0 < j" "j < length ?h" "(j - 1) div 2 \<noteq> 0"
      have "j < length h" using j(2) hx by simp
      then have "fst (h ! ((j - 1) div 2)) \<le> fst (h ! j)" using h j(1) unfolding is_heap_def by blast
      moreover have "?h ! ((j - 1) div 2) = h ! ((j - 1) div 2)"
        using j parent_less [OF j(1)] by (intro nth) linarith+
      ultimately show "fst (?h ! ((j - 1) div 2)) \<le> fst (?h ! j)"
        using nth [OF j(1,2)] by (simp only:)
    qed simp
    then obtain h' where "sift_down ?h 0 = Some h'" "is_heap h'" "mset h' = mset ?h"
      using sift_down_ok [of ?h 0] by auto
    moreover have "rd h 0 = Some (h ! 0)" "h ! 0 = x" using hx by simp_all
    ultimately show ?thesis using False b min hx by (simp add: heap_pop_def)
  qed
qed

subsection \<open>The merge loop\<close>

text \<open>Neighbouring marks, and the invariant: every piece between neighbouring marks is a token.\<close>

definition seg :: "bitfield \<Rightarrow> nat \<Rightarrow> nat \<Rightarrow> bool" where
  "seg bf a b \<longleftrightarrow> a < b \<and> bits bf a \<and> bits bf b \<and> (\<forall>k. a < k \<and> k < b \<longrightarrow> \<not> bits bf k)"

definition heap_ok :: "bytes list \<Rightarrow> bytes \<Rightarrow> heap_item list \<Rightarrow> bool" where
  "heap_ok D t h \<longleftrightarrow> is_heap h \<and> (\<forall>(tok, s) \<in> set h.
     tok < length D \<and> s + length (D ! tok) \<le> length t \<and> slice t s (s + length (D ! tok)) = D ! tok)"

definition marks_ok :: "bytes list \<Rightarrow> bytes \<Rightarrow> bitfield \<Rightarrow> nat \<Rightarrow> bool" where
  "marks_ok D t bf cnt \<longleftrightarrow> bf_room (length t + 1) bf \<and> bits bf 0 \<and> bits bf (length t) \<and>
     (\<forall>a b. seg bf a b \<longrightarrow> b \<le> length t \<longrightarrow> slice t a b \<in> set D) \<and>
     cnt = card (word_bits.alive (length t) bf)"

lemma successor_seg:
  assumes "marks_ok D t bf cnt" and "i \<le> length t"
  shows "\<exists>s. bitfield_successor bf i = Some s \<and> i \<le> s \<and> s \<le> length t \<and> bits bf s \<and>
    (\<forall>k. i \<le> k \<and> k < s \<longrightarrow> \<not> bits bf k)"
proof -
  have e: "bits bf (length t)" using assms(1) by (simp add: marks_ok_def)
  obtain s where s: "bitfield_successor bf i = Some s" "bits bf s" "i \<le> s"
    "\<forall>k. i \<le> k \<and> k < s \<longrightarrow> \<not> bits bf k"
    using bitfield_successor_ok [OF e assms(2)] by blast
  have "s \<le> length t" using s(4) e assms(2) by (meson not_le)
  then show ?thesis using s by blast
qed

lemma push_token_ok:
  assumes ok: "bpe_ok bpe D" and h: "heap_ok D t h" and ab: "a \<le> b" "b \<le> length t" and len: "length t < 2 ^ 32"
  shows "\<exists>h'. push_token bpe t a b h = Some h' \<and> heap_ok D t h' \<and> length h' \<le> Suc (length h)"
proof -
  let ?w = "slice t a b"
  have w: "rd_slice t a ((b - a) mod 2 ^ 32) = Some ?w" "a mod 2 ^ 32 = a" using ab len by simp_all
  show ?thesis
  proof (cases "?w \<in> set D")
    case False
    then show ?thesis using w h bpe_find_token [OF ok, of ?w] by (simp add: push_token_def)
  next
    case True
    let ?k = "tok_id D ?w"
    have k: "?k < length D" "D ! ?k = ?w" using True tok_id_less by simp_all
    then have "?k \<noteq> UINT32_MAX" using bpe_okD(9) [OF ok] by simp
    moreover obtain h' where h': "heap_push h ?k a = Some h'" "is_heap h'" "mset h' = add_mset (?k, a) (mset h)"
      using heap_push_ok [of h ?k a] h by (auto simp: heap_ok_def)
    moreover have "set h' = insert (?k, a) (set h)" using h'(3) by (metis set_mset_add_mset_insert set_mset_mset)
    moreover have "length h' = Suc (length h)" using h'(3) by (metis size_add_mset size_mset)
    ultimately show ?thesis
      using w k ab h True bpe_find_token [OF ok, of ?w]
      by (auto simp: push_token_def heap_ok_def)
  qed
qed

lemma heap_ok_pop:
  assumes h: "heap_ok D t h" and ne: "h \<noteq> []"
  shows "\<exists>tok s h'. heap_pop h = Some ((tok, s), h') \<and> heap_ok D t h' \<and> length h = Suc (length h') \<and>
    tok < length D \<and> s + length (D ! tok) \<le> length t \<and> slice t s (s + length (D ! tok)) = D ! tok"
proof -
  obtain x h' where x: "heap_pop h = Some (x, h')" "is_heap h'" "mset h = add_mset x (mset h')"
    using heap_pop_ok h ne unfolding heap_ok_def by blast
  have "set h = insert x (set h')" using x(3) by (metis set_mset_add_mset_insert set_mset_mset)
  moreover have "length h = Suc (length h')" using x(3) by (metis size_add_mset size_mset)
  ultimately show ?thesis using x(1,2) h by (cases x) (auto simp: heap_ok_def)
qed

lemma marks_clear:
  assumes mk: "marks_ok D t bf cnt" and s: "seg bf a m" "seg bf m e" and m: "m < length t" "e \<le> length t"
    and tok: "slice t a e \<in> set D"
  shows "\<exists>bf'. bitfield_clear bf m = Some bf' \<and> marks_ok D t bf' (cnt - 1) \<and> 0 < cnt \<and>
    (\<forall>j. bits bf' j \<longleftrightarrow> bits bf j \<and> j \<noteq> m)"
proof -
  have room: "bf_room (length t + 1) bf" and room': "bf_room (length t) bf"
    using mk by (auto simp: marks_ok_def bf_room_def)
  obtain bf' where bf': "bitfield_clear bf m = Some bf'" "bf_room (length t + 1) bf'"
    "\<And>j. bits bf' j \<longleftrightarrow> bits bf j \<and> j \<noteq> m"
    using clear_room [OF room, of m] m(1) by auto
  have al: "word_bits.alive (length t) bf' = word_bits.alive (length t) bf - {m}"
    using word_bits.clear_alive [OF room' m(1) bf'(1)] by simp
  have "m \<in> word_bits.alive (length t) bf" using s m(1) by (simp add: word_bits.alive_def seg_def)
  then have c: "card (word_bits.alive (length t) bf') = cnt - 1" "0 < cnt"
    using mk al word_bits.finite_alive [of "length t" bf] by (auto simp: marks_ok_def card_gt_0_iff)
  have "slice t x y \<in> set D" if xy: "seg bf' x y" "y \<le> length t" for x y
  proof (cases "x < m \<and> m < y")
    case False
    then have "seg bf x y" using xy(1) bf'(3) by (auto simp: seg_def)
    then show ?thesis using mk xy(2) by (auto simp: marks_ok_def)
  next
    case True
    have sm: "a < m" "m < e" "bits bf a" "bits bf e" using s by (auto simp: seg_def)
    have X: "bits bf x" "bits bf y" using xy(1) bf'(3) by (simp_all add: seg_def)
    have gap: "\<not> bits bf' k" if "x < k" "k < y" for k using xy(1) that by (simp add: seg_def)
    have ga: "\<not> bits bf k" if "a < k" "k < m" for k using s(1) that by (simp add: seg_def)
    have ge: "\<not> bits bf k" if "m < k" "k < e" for k using s(2) that by (simp add: seg_def)
    have "\<not> (a < x)" using ga [of x] X True by blast
    moreover have "\<not> (x < a)" using gap [of a] sm True bf'(3) [of a] by auto
    ultimately have "x = a" by simp
    moreover have "\<not> (y < e)" using ge [of y] X True by blast
    moreover have "\<not> (e < y)" using gap [of e] sm True bf'(3) [of e] by auto
    ultimately show ?thesis using tok by simp
  qed
  moreover have "m \<noteq> 0" "bits bf 0" "bits bf (length t)"
    using s(1) mk by (simp_all add: seg_def marks_ok_def)
  then have "bits bf' 0" "bits bf' (length t)" using bf'(3) m(1) by simp_all
  ultimately have "marks_ok D t bf' (cnt - 1)"
    unfolding marks_ok_def using bf'(2) c(1) by simp
  then show ?thesis using bf' c(2) by auto
qed

lemma merge_loop_ok:
  assumes ok: "bpe_ok bpe D" and len: "length t < 2 ^ 32"
  shows "marks_ok D t bf cnt \<Longrightarrow> heap_ok D t h \<Longrightarrow>
    \<exists>bf' cnt'. merge_loop bpe t h bf cnt = Some (bf', cnt') \<and> marks_ok D t bf' cnt'"
proof (induction "3 * cnt + length h" arbitrary: h bf cnt rule: less_induct)
  case less
  show ?case
  proof (cases "h = []")
    case True
    then show ?thesis using less.prems by (subst merge_loop.simps) simp
  next
    case False
    obtain tok s h1 where x: "heap_pop h = Some ((tok, s), h1)" "heap_ok D t h1" "length h = Suc (length h1)"
      "tok < length D" "s + length (D ! tok) \<le> length t" "slice t s (s + length (D ! tok)) = D ! tok"
      using heap_ok_pop [OF less.prems(2) False] by blast
    have l: "0 < length (D ! tok)" using bpe_pos_len [OF ok x(4)] .
    have sl: "s < length t" using x(5) l by arith
    have room: "bf_room (length t + 1) bf" using less.prems(1) by (simp add: marks_ok_def)
    have isset: "bitfield_is_set bf s = Some (bits bf s)" using is_set_room [OF room] sl by simp
    have skip: "\<exists>bf' cnt'. merge_loop bpe t h1 bf cnt = Some (bf', cnt') \<and> marks_ok D t bf' cnt'"
      using less.hyps [of cnt h1 bf] less.prems(1) x(2,3) by simp
    obtain mid where mid: "bitfield_successor bf (s + 1) = Some mid" "s + 1 \<le> mid" "mid \<le> length t" "bits bf mid"
      "\<forall>k. s + 1 \<le> k \<and> k < mid \<longrightarrow> \<not> bits bf k"
      using successor_seg [OF less.prems(1), of "s + 1"] sl by auto
    show ?thesis
    proof (cases "bits bf s \<and> mid < length t")
      case False
      then show ?thesis
        using skip x(1) isset mid(1,3) \<open>h \<noteq> []\<close> by (subst merge_loop.simps) (auto simp: Let_def)
    next
      case True
      obtain e where e: "bitfield_successor bf (mid + 1) = Some e" "mid + 1 \<le> e" "e \<le> length t" "bits bf e"
        "\<forall>k. mid + 1 \<le> k \<and> k < e \<longrightarrow> \<not> bits bf k"
        using successor_seg [OF less.prems(1), of "mid + 1"] True by auto
      show ?thesis
      proof (cases "length (D ! tok) = e - s")
        case False
        then show ?thesis
          using skip x(1) isset mid(1) True e(1) bpe_token_len [OF ok x(4)] \<open>h \<noteq> []\<close>
          by (subst merge_loop.simps) (simp add: Let_def)
      next
        case eq: True
        have se: "s + length (D ! tok) = e" using eq mid(2) e(2) by simp
        have "slice t s e \<in> set D" using x(4,6) se by (metis nth_mem)
        moreover have "seg bf s mid" "seg bf mid e"
          using True mid(2,4,5) e(2,4,5) by (auto simp: seg_def Suc_le_eq)
        ultimately obtain bf1 where bf1: "bitfield_clear bf mid = Some bf1" "marks_ok D t bf1 (cnt - 1)" "0 < cnt"
          "\<And>j. bits bf1 j \<longleftrightarrow> bits bf j \<and> j \<noteq> mid"
          using marks_clear [OF less.prems(1)] True e(3) by blast
        obtain h2 where h2: "extend_right bpe t bf1 s e h1 = Some h2" "heap_ok D t h2" "length h2 \<le> Suc (length h1)"
        proof (cases "e < length t")
          case el: True
          obtain ne where ne: "bitfield_successor bf1 (e + 1) = Some ne" "e + 1 \<le> ne" "ne \<le> length t"
            using successor_seg [OF bf1(2), of "e + 1"] el by auto
          have "s \<le> ne" using ne(2) se by simp
          then show ?thesis using that push_token_ok [OF ok x(2) _ ne(3) len, of s] ne(1) el by (auto simp: extend_right_def)
        qed (use that x(2) in \<open>simp add: extend_right_def\<close>)
        obtain h3 where h3: "extend_left bpe t bf1 s e h2 = Some h3" "heap_ok D t h3" "length h3 \<le> Suc (length h2)"
        proof (cases "0 < s")
          case s0: True
          have "bits bf1 0" "s - 1 < 64 * length (bf_words bf1)"
            using bf1(2) sl by (auto simp: marks_ok_def bf_room_def)
          then obtain ns where ns: "bitfield_predecessor bf1 (s - 1) = Some ns" "ns \<le> s - 1"
            using bitfield_predecessor_ok [of bf1 0 "s - 1"] by auto
          have "ns \<le> e" using ns(2) se by simp
          then show ?thesis using that push_token_ok [OF ok h2(2) _ e(3) len, of ns] ns(1) s0 by (auto simp: extend_left_def)
        qed (use that h2(2) in \<open>simp add: extend_left_def\<close>)
        have step: "merge_loop bpe t h bf cnt = merge_loop bpe t h3 bf1 (cnt - 1)"
          using x(1) isset mid(1) True e(1) bpe_token_len [OF ok x(4)] eq bf1(1) h2(1) h3(1) \<open>h \<noteq> []\<close>
          by (subst merge_loop.simps) (simp add: Let_def)
        have "3 * (cnt - 1) + length h3 < 3 * cnt + length h" using h3(3) h2(3) x(3) bf1(3) by arith
        from less.hyps [OF this bf1(2) h3(2)] step show ?thesis by simp
      qed
    qed
  qed
qed

lemma heap_seed_ok:
  assumes ok: "bpe_ok bpe D" and len: "length t < 2 ^ 32"
  shows "\<forall>i \<in> set is. i + 1 < length t \<Longrightarrow> heap_ok D t h \<Longrightarrow>
    \<exists>h'. heap_seed bpe t is h = Some h' \<and> heap_ok D t h'"
proof (induction "is" arbitrary: h)
  case (Cons i "is")
  have i: "i + 2 \<le> length t" using Cons.prems(1) by simp
  obtain h1 where "push_token bpe t i (i + 2) h = Some h1" "heap_ok D t h1"
    using push_token_ok [OF ok Cons.prems(2) _ i len, of i] by auto
  moreover have "heap_seed bpe t (i # is) h = Option.bind (push_token bpe t i (i + 2) h) (heap_seed bpe t is)"
    using i by (simp add: push_token_def)
  ultimately show ?case using Cons.IH [of h1] Cons.prems(1) by simp
qed simp

lemma read_bitfield_ok:
  assumes ok: "bpe_ok bpe D" and len: "length t < 2 ^ 32" and mk: "marks_ok D t bf c0"
  shows "st \<le> length t \<Longrightarrow> bits bf st \<Longrightarrow>
    length res + card {i. st \<le> i \<and> i < length t \<and> bits bf i} = cnt \<Longrightarrow>
    \<exists>ts. read_bitfield bpe t bf st (length res) (part_array cnt res) = Some (map Some (res @ ts)) \<and>
      length (res @ ts) = cnt \<and> (\<forall>i \<in> set ts. i < length D) \<and>
      concat (map (\<lambda>i. D ! i) ts) = drop st t"
proof (induction "length t - st" arbitrary: st res rule: less_induct)
  case less
  show ?case
  proof (cases "st < length t")
    case False
    then have none: "{i. st \<le> i \<and> i < length t \<and> bits bf i} = {}" by auto
    have "length res = cnt" using less.prems(3) unfolding none by simp
    then show ?thesis
      using False part_array_full [of res] by (intro exI [of _ "[]"], subst read_bitfield.simps) simp
  next
    case True
    obtain e where e: "bitfield_successor bf (st + 1) = Some e" "st + 1 \<le> e" "e \<le> length t" "bits bf e"
      "\<forall>k. st + 1 \<le> k \<and> k < e \<longrightarrow> \<not> bits bf k"
      using successor_seg [OF mk, of "st + 1"] True by auto
    have "seg bf st e" using less.prems(2) e by (auto simp: seg_def Suc_le_eq)
    then have w: "slice t st e \<in> set D" using mk e(3) by (auto simp: marks_ok_def)
    let ?k = "tok_id D (slice t st e)"
    have k: "?k < length D" "D ! ?k = slice t st e" using w tok_id_less by simp_all
    have rd: "rd_slice t st ((e - st) mod 2 ^ 32) = Some (slice t st e)" using e(2,3) len by simp
    let ?S = "\<lambda>st. {i. st \<le> i \<and> i < length t \<and> bits bf i}"
    have "?S st = insert st (?S e)"
    proof (intro equalityI subsetI)
      fix i assume "i \<in> ?S st"
      then show "i \<in> insert st (?S e)" using e(5) by (cases "i = st"; cases "i < e"; auto simp: Suc_le_eq)
    qed (use True less.prems(2) e(2) in auto)
    moreover have "st \<notin> ?S e" "finite (?S e)" using e(2) by auto
    ultimately have card: "card (?S st) = Suc (card (?S e))" by simp
    then have cap: "length res < cnt" "length (res @ [?k]) + card (?S e) = cnt" using less.prems(3) by simp_all
    have "length t - e < length t - st" using e(2) True by arith
    from less.hyps [OF this e(3,4) cap(2)] obtain ts where
      ts: "read_bitfield bpe t bf e (length (res @ [?k])) (part_array cnt (res @ [?k])) = Some (map Some ((res @ [?k]) @ ts))"
      "length ((res @ [?k]) @ ts) = cnt" "\<forall>i \<in> set ts. i < length D"
      "concat (map (\<lambda>i. D ! i) ts) = drop e t" by blast
    have "slice t st e @ drop e t = drop st t"
      using slice_append [of st e "length t" t] e(2,3) by (simp add: slice_to_end)
    moreover have "read_bitfield bpe t bf st (length res) (part_array cnt res) =
        read_bitfield bpe t bf e (length (res @ [?k])) (part_array cnt (res @ [?k]))"
      using True e(1) rd w wr_part_array [OF cap(1)] bpe_find_token [OF ok, of "slice t st e"] by (subst read_bitfield.simps) simp
    ultimately show ?thesis using ts k by (intro exI [of _ "?k # ts"]) simp
  qed
qed

lemma encode_via_bitfield_ok:
  assumes ok: "bpe_ok bpe D" and cov: "covers D t" and len: "length t < 2 ^ 32"
  shows "\<exists>ts. bpe_encode_via_bitfield bpe t = Some (map Some ts, length ts) \<and> (\<forall>i \<in> set ts. i < length D) \<and>
    concat (map (\<lambda>i. D ! i) ts) = t"
proof -
  let ?bf = "bitfield_new (length t + 1)"
  have all: "bits ?bf i" if "i < length t + 1" for i using word_bits.new_member that by blast
  have "slice t a b \<in> set D" if "seg ?bf a b" "b \<le> length t" for a b
  proof -
    have "b = Suc a" using that all [of "Suc a"] by (force simp: seg_def)
    then have "slice t a b = [t ! a]" using that(2) by (simp add: slice_def take_Suc_conv_app_nth Cons_nth_drop_Suc [symmetric])
    then show ?thesis using cov that \<open>b = Suc a\<close> by (simp add: covers_def)
  qed
  moreover have "word_bits.alive (length t) ?bf = {..<length t}" using all by (auto simp: word_bits.alive_def)
  ultimately have mk: "marks_ok D t ?bf (length t)"
    using all room_new by (auto simp: marks_ok_def)
  have h0: "heap_ok D t []" by (simp add: heap_ok_def is_heap_def)
  obtain h where h: "heap_seed bpe t [0..<length t - 1] [] = Some h" "heap_ok D t h"
  proof -
    have "\<forall>i \<in> set [0..<length t - 1]. i + 1 < length t" by auto
    from heap_seed_ok [OF ok len this h0] show ?thesis using that by blast
  qed
  obtain bf cnt where m: "merge_loop bpe t h ?bf (length t) = Some (bf, cnt)" "marks_ok D t bf cnt"
    using merge_loop_ok [OF ok len mk h(2)] by blast
  have "{i. 0 \<le> i \<and> i < length t \<and> bits bf i} = word_bits.alive (length t) bf"
    by (auto simp: word_bits.alive_def)
  then have "card {i. 0 \<le> i \<and> i < length t \<and> bits bf i} = cnt" "bits bf 0"
    using m(2) by (simp_all add: marks_ok_def)
  then obtain ts where "read_bitfield bpe t bf 0 0 (replicate cnt None) = Some (map Some ts)" "length ts = cnt"
    "\<forall>i \<in> set ts. i < length D" "concat (map (\<lambda>i. D ! i) ts) = t"
    using read_bitfield_ok [OF ok len m(2), of 0 "[]" cnt] by (auto simp: part_array_new)
  then show ?thesis
    using h(1) m(1) by (auto simp: bpe_encode_via_bitfield_def encode_into_bitfield_def)
qed

end
