(* ===== verification/Bpe_Backtrack.thy ===== *)
theory Bpe_Backtrack
  imports Bpe_Encode Bitfield
begin

text \<open>
  The backtracking encoder \<^verbatim>\<open>BtEnc\<close> of \<^verbatim>\<open>src/bpe_core.c\<close>: it extends the encoding of
  a prefix by the longest token that may follow, and steps back when no token
  fits, marking the position as dead in a bit field. \<^verbatim>\<open>bpe_count\<close>,
  \<^verbatim>\<open>bpe_count_till_limit\<close>, \<^verbatim>\<open>bpe_encode_via_backtracking\<close> and the scratch-buffer
  functions drive the same step function.

  The token array is the list of its first \<^verbatim>\<open>token_count\<close> entries; its capacity is kept
  because the code doubles it and writes below it.
\<close>

subsection \<open>State and step\<close>

record bt_enc =
  bt_text :: bytes
  bt_tokens :: "nat list"
  bt_token_cap :: nat
  bt_next_token :: nat
  bt_pos :: nat
  bt_bitfield :: bitfield

definition btenc_new :: "bpe \<Rightarrow> bytes \<Rightarrow> nat \<Rightarrow> bt_enc option" where
  "btenc_new bpe text cap = do {
     next \<leftarrow> bpe_next_match bpe text;
     Some \<lparr>bt_text = text, bt_tokens = [],
           bt_token_cap = (if 0 < cap then cap else length text div 3 + 16),
           bt_next_token = next, bt_pos = 0, bt_bitfield = bitfield_new (length text + 1)\<rparr>
   }"

definition bt_last :: "bt_enc \<Rightarrow> nat" where
  "bt_last e = (if bt_tokens e = [] then UINT32_MAX else last (bt_tokens e))"

text \<open>The two ways the inner loop of \<^verbatim>\<open>btenc_step\<close> ends: accepting a token, and stepping back.\<close>

definition btenc_accept :: "bpe \<Rightarrow> bt_enc \<Rightarrow> nat \<Rightarrow> nat \<Rightarrow> bt_enc option" where
  "btenc_accept bpe e tok end_pos = do {
     let cap = (if length (bt_tokens e) = bt_token_cap e then bt_token_cap e * 2 else bt_token_cap e);
     if length (bt_tokens e) < cap then do {
       next \<leftarrow> bpe_next_match bpe (drop end_pos (bt_text e));
       Some (e\<lparr>bt_tokens := bt_tokens e @ [tok], bt_token_cap := cap, bt_pos := end_pos,
               bt_next_token := next\<rparr>)
     } else None
   }"

definition btenc_back :: "bpe \<Rightarrow> bt_enc \<Rightarrow> bt_enc option" where
  "btenc_back bpe e = do {
     bf \<leftarrow> bitfield_clear (bt_bitfield e) (bt_pos e);
     if bt_tokens e = [] then Some (e\<lparr>bt_bitfield := bf, bt_next_token := UINT32_MAX\<rparr>)
     else do {
       let popped = last (bt_tokens e);
       len \<leftarrow> token_len bpe popped;
       Some (e\<lparr>bt_bitfield := bf, bt_tokens := butlast (bt_tokens e),
               bt_pos := usub (bt_pos e) len, bt_next_token := popped\<rparr>)
     }
   }"

partial_function (option) btenc_loop :: "bpe \<Rightarrow> bt_enc \<Rightarrow> nat \<Rightarrow> nat \<Rightarrow> bt_enc option" where
  "btenc_loop bpe e last_tok tok = do {
     tlen \<leftarrow> token_len bpe tok;
     let end_pos = bt_pos e + tlen;
     pair_ok \<leftarrow> (if last_tok = UINT32_MAX then Some True
                else bpe_is_valid_token_pair bpe last_tok tok);
     free \<leftarrow> bitfield_is_set (bt_bitfield e) end_pos;
     if free \<and> pair_ok then btenc_accept bpe e tok end_pos
     else do {
       shorter \<leftarrow> bpe_next_prefix bpe tok;
       if shorter \<noteq> UINT32_MAX then btenc_loop bpe e last_tok shorter
       else btenc_back bpe e
     }
   }"

definition btenc_step :: "bpe \<Rightarrow> bt_enc \<Rightarrow> bt_enc option" where
  "btenc_step bpe e =
     (if bt_next_token e = UINT32_MAX then Some e
      else btenc_loop bpe e (bt_last e) (bt_next_token e))"

text \<open>\<^verbatim>\<open>while (btenc_step(&e) != UINT32_MAX) {}\<close>\<close>

partial_function (option) btenc_run :: "bpe \<Rightarrow> bt_enc \<Rightarrow> bt_enc option" where
  "btenc_run bpe e = do {
     e \<leftarrow> btenc_step bpe e;
     if bt_next_token e \<noteq> UINT32_MAX then btenc_run bpe e else Some e
   }"

subsection \<open>The functions built on it\<close>

definition bpe_count :: "bpe \<Rightarrow> bytes \<Rightarrow> nat option" where
  "bpe_count bpe text = do {
     e \<leftarrow> btenc_new bpe text (length text div 3 + 16);
     e \<leftarrow> btenc_run bpe e;
     Some (length (bt_tokens e))
   }"

partial_function (option) limit_loop :: "bpe \<Rightarrow> nat \<Rightarrow> bt_enc \<Rightarrow> bt_enc option option" where
  "limit_loop bpe limit_buf e = do {
     e \<leftarrow> btenc_step bpe e;
     if bt_next_token e \<noteq> UINT32_MAX then
       (if limit_buf < length (bt_tokens e) then Some None else limit_loop bpe limit_buf e)
     else Some (Some e)
   }"

definition bpe_count_till_limit :: "bpe \<Rightarrow> bytes \<Rightarrow> nat \<Rightarrow> nat option" where
  "bpe_count_till_limit bpe text token_limit = do {
     e \<leftarrow> btenc_new bpe text ((token_limit + 16) mod 2 ^ 64);
     let limit_buf = (token_limit + 10) mod 2 ^ 64;
     r \<leftarrow> limit_loop bpe limit_buf e;
     Some (case r of None \<Rightarrow> SIZE_MAX
           | Some e \<Rightarrow> if length (bt_tokens e) \<le> token_limit then length (bt_tokens e) else SIZE_MAX)
   }"

definition bpe_encode_via_backtracking :: "bpe \<Rightarrow> bytes \<Rightarrow> nat list option" where
  "bpe_encode_via_backtracking bpe text = do {
     e \<leftarrow> btenc_new bpe text (length text div 3 + 16);
     e \<leftarrow> btenc_run bpe e;
     Some (bt_tokens e)
   }"

record enc_scratch =
  sc_tokens :: "nat list"
  sc_token_cap :: nat
  sc_bitfield :: bitfield

definition bpe_scratch_new :: enc_scratch where
  "bpe_scratch_new = \<lparr>sc_tokens = [], sc_token_cap = 0, sc_bitfield = \<lparr>bf_words = []\<rparr>\<rparr>"

definition btenc_init_reuse :: "bpe \<Rightarrow> bytes \<Rightarrow> enc_scratch \<Rightarrow> bt_enc option" where
  "btenc_init_reuse bpe text s = do {
     let need_cap = length text div 3 + 16;
     next \<leftarrow> bpe_next_match bpe text;
     bf \<leftarrow> bitfield_reset (sc_bitfield s) (length text + 1);
     Some \<lparr>bt_text = text, bt_tokens = [],
           bt_token_cap = (if sc_token_cap s < need_cap then need_cap else sc_token_cap s),
           bt_next_token = next, bt_pos = 0,
           bt_bitfield = bf\<rparr>
   }"

definition btenc_sync_scratch :: "bt_enc \<Rightarrow> enc_scratch" where
  "btenc_sync_scratch e =
     \<lparr>sc_tokens = bt_tokens e, sc_token_cap = bt_token_cap e, sc_bitfield = bt_bitfield e\<rparr>"

definition bpe_encode_piece :: "bpe \<Rightarrow> bytes \<Rightarrow> enc_scratch \<Rightarrow> (nat list \<times> enc_scratch) option" where
  "bpe_encode_piece bpe text s = do {
     e \<leftarrow> btenc_init_reuse bpe text s;
     e \<leftarrow> btenc_run bpe e;
     Some (bt_tokens e, btenc_sync_scratch e)
   }"

definition bpe_count_piece :: "bpe \<Rightarrow> bytes \<Rightarrow> enc_scratch \<Rightarrow> (nat \<times> enc_scratch) option" where
  "bpe_count_piece bpe text s = do {
     e \<leftarrow> btenc_init_reuse bpe text s;
     e \<leftarrow> btenc_run bpe e;
     Some (length (bt_tokens e), btenc_sync_scratch e)
   }"

subsection \<open>Candidates, rejected candidates and the stack\<close>

definition cand :: "bytes list \<Rightarrow> bytes \<Rightarrow> nat \<Rightarrow> nat \<Rightarrow> bool" where
  "cand D t p i \<longleftrightarrow> i < length D \<and> prefix (D ! i) (drop p t)"

text \<open>\<open>R\<close> is the token stack, newest token first.\<close>

definition rejected :: "bytes list \<Rightarrow> bitfield \<Rightarrow> nat list \<Rightarrow> nat \<Rightarrow> nat \<Rightarrow> bool" where
  "rejected D bf R p i \<longleftrightarrow>
     \<not> bits bf (p + length (D ! i)) \<or> (R \<noteq> [] \<and> \<not> ok_pair D (hd R) i)"

definition tried :: "bytes list \<Rightarrow> bytes \<Rightarrow> bitfield \<Rightarrow> nat list \<Rightarrow> nat \<Rightarrow> nat \<Rightarrow> bool" where
  "tried D t bf R p n \<longleftrightarrow> (\<forall>j. cand D t p j \<longrightarrow> n < length (D ! j) \<longrightarrow> rejected D bf R p j)"

fun stack_ok :: "bytes list \<Rightarrow> bytes \<Rightarrow> bitfield \<Rightarrow> nat \<Rightarrow> nat list \<Rightarrow> bool" where
  "stack_ok D t bf p [] \<longleftrightarrow> p = 0 \<and> bits bf 0"
| "stack_ok D t bf p (i # R) \<longleftrightarrow> length (D ! i) \<le> p \<and> bits bf p \<and>
     cand D t (p - length (D ! i)) i \<and> (R \<noteq> [] \<longrightarrow> ok_pair D (hd R) i) \<and>
     tried D t bf R (p - length (D ! i)) (length (D ! i)) \<and>
     stack_ok D t bf (p - length (D ! i)) R"

text \<open>The positions between tokens of the whole encoding stay marked.\<close>

definition boundary :: "bytes list \<Rightarrow> bytes \<Rightarrow> nat \<Rightarrow> bool" where
  "boundary D t p \<longleftrightarrow>
     (\<exists>A B. bpe_ids D t = A @ B \<and> p = length (concat (map (\<lambda>i. D ! i) A)))"

definition keeps :: "bytes list \<Rightarrow> bytes \<Rightarrow> bitfield \<Rightarrow> bool" where
  "keeps D t bf \<longleftrightarrow> bf_room (length t + 1) bf \<and> (\<forall>p. boundary D t p \<longrightarrow> bits bf p)"

lemma cand_end: "cand D t p i \<Longrightarrow> p < length t \<or> D ! i = [] \<Longrightarrow> p + length (D ! i) \<le> length t \<or> D ! i = []"
  using prefix_length_le by (fastforce simp: cand_def)

lemma cand_le: "cand D t p i \<Longrightarrow> 0 < length (D ! i) \<Longrightarrow> p + length (D ! i) \<le> length t"
proof -
  assume c: "cand D t p i" "0 < length (D ! i)"
  then have "length (D ! i) \<le> length t - p" using prefix_length_le by (fastforce simp: cand_def)
  then show ?thesis using c(2) by arith
qed

lemma cand_take: "cand D t p i \<Longrightarrow> 0 < length (D ! i) \<Longrightarrow> take (p + length (D ! i)) t = take p t @ D ! i"
proof -
  assume c: "cand D t p i" "0 < length (D ! i)"
  then obtain v where "drop p t = D ! i @ v" by (auto simp: cand_def prefix_def)
  then show ?thesis by (simp add: take_add)
qed

lemma stack_ok_text:
  assumes wf: "wf_dict D"
  shows "stack_ok D t bf p R \<Longrightarrow>
    p \<le> length t \<and> (\<forall>i \<in> set R. i < length D) \<and> adj (ok_pair D) (rev R) \<and>
    concat (map (\<lambda>i. D ! i) (rev R)) = take p t \<and> bits bf p"
proof (induction R arbitrary: p)
  case (Cons i R)
  let ?q = "p - length (D ! i)"
  have c: "cand D t ?q i" "length (D ! i) \<le> p" "bits bf p" "R \<noteq> [] \<longrightarrow> ok_pair D (hd R) i"
    using Cons.prems by auto
  have IH: "?q \<le> length t" "\<forall>i \<in> set R. i < length D" "adj (ok_pair D) (rev R)"
    "concat (map (\<lambda>i. D ! i) (rev R)) = take ?q t"
    using Cons.IH Cons.prems by auto
  have l: "0 < length (D ! i)" using wf_dict_nonempty [OF wf] c(1) by (simp add: cand_def)
  have "take p t = take ?q t @ D ! i" using cand_take [OF c(1) l] c(2) by simp
  moreover have "p \<le> length t" using cand_le [OF c(1) l] c(2) by simp
  ultimately show ?case using IH c by (simp add: adj_snoc last_rev cand_def)
qed simp

lemma stack_ok_ids:
  assumes "wf_dict D" and "stack_ok D t bf p R"
  shows "bpe_ids D (take p t) = rev R"
  using stack_ok_text [OF assms] bpe_ids_iff [OF assms(1), of "rev R"] by simp

lemma rejected_clear:
  "rejected D bf R p j \<Longrightarrow> (\<And>k. bits bf' k \<Longrightarrow> bits bf k) \<Longrightarrow> rejected D bf' R p j"
  by (auto simp: rejected_def)

lemma stack_ok_clear:
  assumes "\<And>k. bits bf' k \<longleftrightarrow> bits bf k \<and> k \<noteq> c"
  shows "stack_ok D t bf p R \<Longrightarrow> p < c \<Longrightarrow> stack_ok D t bf' p R"
proof (induction R arbitrary: p)
  case (Cons i R)
  then show ?case using rejected_clear [of D bf _ _ _ bf'] assms by (auto simp: tried_def)
qed (use assms in simp)

text \<open>A position of the encoding where every candidate is rejected cannot exist.\<close>

lemma boundary_0: "boundary D t 0"
  unfolding boundary_def by (rule exI [of _ "[]"], rule exI [of _ "bpe_ids D t"]) simp

lemma not_boundary:
  assumes wf: "wf_dict D" and cov: "covers D t" and st: "stack_ok D t bf p R" and p: "p < length t"
    and kp: "keeps D t bf" and rej: "\<And>j. cand D t p j \<Longrightarrow> rejected D bf R p j"
  shows "\<not> boundary D t p"
proof
  assume "boundary D t p"
  then obtain A B where AB: "bpe_ids D t = A @ B" "p = length (concat (map (\<lambda>i. D ! i) A))"
    by (auto simp: boundary_def)
  have dec: "concat (map (\<lambda>i. D ! i) A) @ concat (map (\<lambda>i. D ! i) B) = t"
    using bpe_ids_decode [OF cov] AB(1) by simp
  have ad: "adj (ok_pair D) (A @ B)" and less: "\<forall>i \<in> set (A @ B). i < length D"
    using bpe_ids_iff [OF wf, of "bpe_ids D t"] bpe_ids_decode [OF cov] bpe_ids_less [OF cov] AB(1)
    by auto
  have tp: "take p t = concat (map (\<lambda>i. D ! i) A)" and dp: "drop p t = concat (map (\<lambda>i. D ! i) B)"
    using dec AB(2) by (metis append_eq_conv_conj)+
  have "bpe_ids D (take p t) = A"
    using bpe_ids_iff [OF wf, of A] ad less tp by (auto simp: adj_append)
  then have R: "R = rev A" using stack_ok_ids [OF wf st] by auto
  obtain i B' where B: "B = i # B'" using dp p by (cases B) auto
  have c: "cand D t p i" using dp B less by (simp add: cand_def)
  have "bpe_ids D t = (A @ [i]) @ B' \<and> p + length (D ! i) = length (concat (map (\<lambda>i. D ! i) (A @ [i])))"
    using AB B by simp
  then have "boundary D t (p + length (D ! i))" unfolding boundary_def by blast
  then have "bits bf (p + length (D ! i))" using kp by (simp add: keeps_def)
  moreover have "R \<noteq> [] \<longrightarrow> ok_pair D (hd R) i" using ad B R by (auto simp: adj_append hd_rev)
  ultimately show False using rej [OF c] by (simp add: rejected_def)
qed

subsection \<open>One step\<close>

text \<open>
  The invariant between steps, and the measure that a step decreases: either a
  position dies, or the encoder moves forward.
\<close>

definition bt_inv :: "bytes list \<Rightarrow> bytes \<Rightarrow> bt_enc \<Rightarrow> bool" where
  "bt_inv D t e \<longleftrightarrow> bt_text e = t \<and> keeps D t (bt_bitfield e) \<and>
     length (bt_tokens e) \<le> bt_token_cap e \<and> 0 < bt_token_cap e \<and>
     stack_ok D t (bt_bitfield e) (bt_pos e) (rev (bt_tokens e)) \<and>
     (if bt_next_token e = UINT32_MAX then bt_pos e = length t
      else cand D t (bt_pos e) (bt_next_token e) \<and>
        tried D t (bt_bitfield e) (rev (bt_tokens e)) (bt_pos e) (length (D ! bt_next_token e)))"

definition bt_measure :: "bytes \<Rightarrow> bt_enc \<Rightarrow> nat" where
  "bt_measure t e =
     card (word_bits.alive (length t + 1) (bt_bitfield e)) * (length t + 1) + (length t - bt_pos e)"

lemma btenc_accept_ok:
  assumes ok: "bpe_ok bpe D" and cov: "covers D t" and inv: "bt_inv D t e"
    and c: "cand D t (bt_pos e) tok"
    and tr: "tried D t (bt_bitfield e) (rev (bt_tokens e)) (bt_pos e) (length (D ! tok))"
    and acc: "\<not> rejected D (bt_bitfield e) (rev (bt_tokens e)) (bt_pos e) tok"
  shows "\<exists>e'. btenc_accept bpe e tok (bt_pos e + length (D ! tok)) = Some e' \<and>
    bt_inv D t e' \<and> bt_measure t e' < bt_measure t e \<and> length (bt_tokens e') \<le> Suc (length (bt_tokens e))"
proof -
  let ?p = "bt_pos e + length (D ! tok)"
  have l: "0 < length (D ! tok)" using bpe_pos_len [OF ok] c by (simp add: cand_def)
  have p: "?p \<le> length t" using cand_le [OF c l] .
  obtain r where r: "bpe_next_match bpe (drop ?p t) = Some r" "is_longest D (drop ?p t) r"
    using bpe_next_match_longest [OF ok covers_drop [OF cov]] by blast
  have fin: "?p = length t" if "r = UINT32_MAX"
  proof (rule ccontr)
    assume "?p \<noteq> length t"
    then have "?p < length t" using p by simp
    then have "[t ! ?p] \<in> set D" "prefix [t ! ?p] (drop ?p t)"
      using cov by (auto simp: covers_def Cons_nth_drop_Suc [symmetric])
    then show False using is_longest_max [OF r(2)] that by blast
  qed
  have next_ok: "cand D t ?p r \<and> tried D t bf R ?p (length (D ! r))" if "r \<noteq> UINT32_MAX" for bf R
  proof -
    have "length (D ! j) \<le> length (D ! r)" if "cand D t ?p j" for j
      using is_longest_max [OF r(2), of "D ! j"] that by (simp add: cand_def)
    then have "tried D t bf R ?p (length (D ! r))" by (auto simp: tried_def not_less [symmetric])
    then show ?thesis
      using is_longest_less [OF r(2) that] is_longest_prefix [OF r(2) that] by (simp add: cand_def)
  qed
  have st: "stack_ok D t (bt_bitfield e) ?p (rev (bt_tokens e @ [tok]))"
    using inv c tr acc by (auto simp: bt_inv_def rejected_def hd_rev)
  let ?cap = "if length (bt_tokens e) = bt_token_cap e then bt_token_cap e * 2 else bt_token_cap e"
  have cap: "length (bt_tokens e) < ?cap" using inv by (auto simp: bt_inv_def)
  let ?e = "e\<lparr>bt_tokens := bt_tokens e @ [tok], bt_token_cap := ?cap, bt_pos := ?p, bt_next_token := r\<rparr>"
  have "btenc_accept bpe e tok ?p = Some ?e"
    using r(1) cap inv by (simp add: btenc_accept_def Let_def bt_inv_def)
  moreover have "bt_inv D t ?e"
    using inv st cap fin next_ok by (auto simp: bt_inv_def)
  moreover have "bt_measure t ?e < bt_measure t e"
  proof -
    have "length t - ?p < length t - bt_pos e" using l p by arith
    moreover have "bt_measure t ?e =
        card (word_bits.alive (length t + 1) (bt_bitfield e)) * (length t + 1) + (length t - ?p)"
      by (simp add: bt_measure_def)
    ultimately show ?thesis by (simp only: bt_measure_def add_less_cancel_left)
  qed
  ultimately show ?thesis by auto
qed

lemma btenc_back_ok:
  assumes ok: "bpe_ok bpe D" and cov: "covers D t" and inv: "bt_inv D t e"
    and p: "bt_pos e < length t"
    and rej: "\<And>j. cand D t (bt_pos e) j \<Longrightarrow>
      rejected D (bt_bitfield e) (rev (bt_tokens e)) (bt_pos e) j"
  shows "\<exists>e'. btenc_back bpe e = Some e' \<and> bt_inv D t e' \<and> bt_measure t e' < bt_measure t e \<and>
    length (bt_tokens e') \<le> length (bt_tokens e)"
proof -
  let ?bf = "bt_bitfield e" and ?p = "bt_pos e"
  note wf = bpe_okD(1) [OF ok]
  have st: "stack_ok D t ?bf ?p (rev (bt_tokens e))" and kp: "keeps D t ?bf"
    using inv by (auto simp: bt_inv_def)
  have nb: "\<not> boundary D t ?p" using not_boundary [OF wf cov st p kp rej] .
  have room: "bf_room (length t + 1) ?bf" using kp by (simp add: keeps_def)
  obtain bf where bf: "bitfield_clear ?bf ?p = Some bf" "bf_room (length t + 1) bf"
    "\<And>j. bits bf j \<longleftrightarrow> bits ?bf j \<and> j \<noteq> ?p"
    using clear_room [OF room, of ?p] p by auto
  have "bits ?bf ?p" using stack_ok_text [OF wf st] by blast
  then have card: "card (word_bits.alive (length t + 1) bf) < card (word_bits.alive (length t + 1) ?bf)"
    using word_bits.card_alive_clear [OF room _ bf(1)] p by simp
  have kp': "keeps D t bf" using kp bf nb by (auto simp: keeps_def)
  obtain ts i where ts: "bt_tokens e = ts @ [i]"
    using st nb boundary_0 by (cases "bt_tokens e" rule: rev_cases) auto
  let ?q = "?p - length (D ! i)"
  have s: "length (D ! i) \<le> ?p" "cand D t ?q i" "tried D t ?bf (rev ts) ?q (length (D ! i))"
    "stack_ok D t ?bf ?q (rev ts)" using st ts by auto
  have il: "i < length D" using s(2) by (simp add: cand_def)
  then have l: "0 < length (D ! i)" using bpe_pos_len [OF ok] by simp
  then have q: "?q < ?p" using s(1) by arith
  have st': "stack_ok D t bf ?q (rev ts)" using stack_ok_clear [OF bf(3) s(4) q] .
  have tr': "tried D t bf (rev ts) ?q (length (D ! i))"
    using s(3) rejected_clear [of D ?bf _ _ _ bf] bf(3) by (auto simp: tried_def)
  have im: "i \<noteq> UINT32_MAX" using il bpe_okD(9) [OF ok] by simp
  let ?e = "e\<lparr>bt_bitfield := bf, bt_tokens := ts, bt_pos := ?q, bt_next_token := i\<rparr>"
  have "btenc_back bpe e = Some ?e"
    using bf(1) ts s(1) bpe_token_len [OF ok il] by (simp add: btenc_back_def)
  moreover have "bt_inv D t ?e"
    using inv kp' st' tr' s(2) im ts by (auto simp: bt_inv_def)
  moreover have "bt_measure t ?e < bt_measure t e"
  proof -
    let ?a = "card (word_bits.alive (length t + 1) bf)" and ?b = "card (word_bits.alive (length t + 1) ?bf)"
    have "Suc ?a * (length t + 1) \<le> ?b * (length t + 1)" using card by (intro mult_le_mono1) simp
    then show ?thesis by (simp add: bt_measure_def) 
  qed
  ultimately show ?thesis using ts by auto
qed

lemma btenc_loop_ok:
  assumes ok: "bpe_ok bpe D" and cov: "covers D t" and inv: "bt_inv D t e"
    and "cand D t (bt_pos e) tok"
    and "tried D t (bt_bitfield e) (rev (bt_tokens e)) (bt_pos e) (length (D ! tok))"
  shows "\<exists>e'. btenc_loop bpe e (bt_last e) tok = Some e' \<and> bt_inv D t e' \<and>
    bt_measure t e' < bt_measure t e \<and> length (bt_tokens e') \<le> Suc (length (bt_tokens e))"
  using assms(4,5)
proof (induction "length (D ! tok)" arbitrary: tok rule: less_induct)
  case less
  let ?bf = "bt_bitfield e" and ?p = "bt_pos e" and ?R = "rev (bt_tokens e)"
  note wf = bpe_okD(1) [OF ok]
  have i: "tok < length D" using less.prems(1) by (simp add: cand_def)
  have l: "0 < length (D ! tok)" using bpe_pos_len [OF ok i] .
  have e: "?p + length (D ! tok) \<le> length t" using cand_le [OF less.prems(1) l] .
  have p: "?p < length t" using e l by arith
  have st: "stack_ok D t ?bf ?p ?R" and room: "bf_room (length t + 1) ?bf"
    using inv by (auto simp: bt_inv_def keeps_def)
  have toks: "\<forall>j \<in> set (bt_tokens e). j < length D" using stack_ok_text [OF wf st] by simp
  have pair: "(if bt_last e = UINT32_MAX then Some True else bpe_is_valid_token_pair bpe (bt_last e) tok) =
      Some (?R \<noteq> [] \<longrightarrow> ok_pair D (hd ?R) tok)"
  proof (cases "bt_tokens e = []")
    case False
    then have "last (bt_tokens e) < length D" using toks by simp
    then show ?thesis
      using False bpe_valid_pair [OF ok _ i] bpe_okD(9) [OF ok] by (auto simp: bt_last_def hd_rev)
  qed (simp add: bt_last_def)
  have isset: "bitfield_is_set ?bf (?p + length (D ! tok)) = Some (bits ?bf (?p + length (D ! tok)))"
    using is_set_room [OF room] e by simp
  show ?case
  proof (cases "rejected D ?bf ?R ?p tok")
    case False
    then have "btenc_loop bpe e (bt_last e) tok = btenc_accept bpe e tok (?p + length (D ! tok))"
      using pair isset bpe_token_len [OF ok i]
      by (subst btenc_loop.simps) (auto simp: rejected_def)
    then show ?thesis using btenc_accept_ok [OF ok cov inv less.prems False] by simp
  next
    case True
    obtain r where r: "bpe_next_prefix bpe tok = Some r" "is_longest D (butlast (D ! tok)) r"
      using bpe_next_prefix_longest [OF ok i] by blast
    have step: "btenc_loop bpe e (bt_last e) tok =
        (if r \<noteq> UINT32_MAX then btenc_loop bpe e (bt_last e) r else btenc_back bpe e)"
      using True r(1) pair isset bpe_token_len [OF ok i]
      by (subst btenc_loop.simps) (auto simp: rejected_def)
    have shorter: "r \<noteq> UINT32_MAX \<and> length (D ! j) \<le> length (D ! r)"
      if "cand D t ?p j" "length (D ! j) < length (D ! tok)" for j
    proof (rule is_longest_butlast [OF r(2)])
      show "D ! j \<in> set D" using that(1) by (simp add: cand_def)
      show "prefix (D ! j) (D ! tok)"
        using that less.prems(1) prefix_length_prefix by (fastforce simp: cand_def)
    qed (fact that(2))
    have tried_r: "rejected D ?bf ?R ?p j"
      if j: "cand D t ?p j" "r \<noteq> UINT32_MAX \<Longrightarrow> length (D ! r) < length (D ! j)" for j
    proof (cases "length (D ! tok) < length (D ! j)")
      case True
      then show ?thesis using less.prems(2) j(1) by (simp add: tried_def)
    next
      case False
      then have "length (D ! j) = length (D ! tok)" using shorter [OF j(1)] j(2) by fastforce
      then have "D ! j = D ! tok"
        using j(1) less.prems(1) unfolding cand_def
        by (metis order_refl prefix_length_prefix prefix_order.antisym)
      then have "j = tok" using j(1) i bpe_okD(7) [OF ok] by (simp add: cand_def nth_eq_iff_index_eq)
      then show ?thesis using True by simp
    qed
    show ?thesis
    proof (cases "r = UINT32_MAX")
      case True
      then have "btenc_loop bpe e (bt_last e) tok = btenc_back bpe e" using step by simp
      then show ?thesis
        using btenc_back_ok [OF ok cov inv p] tried_r True le_SucI by metis
    next
      case False
      note rl = is_longest_less [OF r(2) False] and rp = is_longest_prefix [OF r(2) False]
      have "prefix (D ! r) (D ! tok)" using rp prefix_order.order_trans prefixeq_butlast by blast
      then have c: "cand D t ?p r"
        using less.prems(1) rl prefix_order.order_trans by (auto simp: cand_def)
      have "length (D ! r) \<le> length (D ! tok) - 1" using prefix_length_le [OF rp] by simp
      then have "length (D ! r) < length (D ! tok)" using l by arith
      then show ?thesis
        using less.hyps [OF _ c] tried_r False step by (auto simp: tried_def)
    qed
  qed
qed

lemma btenc_step_ok:
  assumes "bpe_ok bpe D" and "covers D t" and "bt_inv D t e" and "bt_next_token e \<noteq> UINT32_MAX"
  shows "\<exists>e'. btenc_step bpe e = Some e' \<and> bt_inv D t e' \<and> bt_measure t e' < bt_measure t e \<and>
    length (bt_tokens e') \<le> Suc (length (bt_tokens e))"
  using btenc_loop_ok [OF assms(1-3), of "bt_next_token e"] assms(3,4)
  by (simp add: btenc_step_def bt_inv_def)

subsection \<open>The whole run\<close>

lemma bt_inv_final:
  assumes "bpe_ok bpe D" and "covers D t" and "bt_inv D t e" and "bt_next_token e = UINT32_MAX"
  shows "bt_tokens e = bpe_ids D t"
  using stack_ok_ids [OF bpe_okD(1) [OF assms(1)], of t "bt_bitfield e" "bt_pos e" "rev (bt_tokens e)"]
    assms(3,4)
  by (auto simp: bt_inv_def)

lemma btenc_run_ok:
  assumes ok: "bpe_ok bpe D" and cov: "covers D t"
  shows "bt_inv D t e \<Longrightarrow> \<exists>e'. btenc_run bpe e = Some e' \<and> bt_inv D t e' \<and> bt_tokens e' = bpe_ids D t"
proof (induction "bt_measure t e" arbitrary: e rule: less_induct)
  case less
  show ?case
  proof (cases "bt_next_token e = UINT32_MAX")
    case True
    then have "btenc_run bpe e = Some e" by (subst btenc_run.simps) (simp add: btenc_step_def)
    then show ?thesis using less.prems bt_inv_final [OF ok cov less.prems True] by simp
  next
    case False
    then obtain e1 where e1: "btenc_step bpe e = Some e1" "bt_inv D t e1" "bt_measure t e1 < bt_measure t e"
      using btenc_step_ok [OF ok cov less.prems] by blast
    have run: "btenc_run bpe e = (if bt_next_token e1 \<noteq> UINT32_MAX then btenc_run bpe e1 else Some e1)"
      using e1(1) by (subst btenc_run.simps) simp
    show ?thesis
    proof (cases "bt_next_token e1 = UINT32_MAX")
      case True
      then show ?thesis using run e1(2) bt_inv_final [OF ok cov e1(2) True] by simp
    next
      case False
      then show ?thesis using run less.hyps [OF e1(3,2)] by simp
    qed
  qed
qed

text \<open>A fresh encoder, whatever bit field it starts from, as long as every position is marked.\<close>

lemma keeps_full: "covers D t \<Longrightarrow> bf_room (length t + 1) bf \<Longrightarrow> (\<And>i. i < length t + 1 \<Longrightarrow> bits bf i) \<Longrightarrow> keeps D t bf"
proof -
  assume cov: "covers D t" and r: "bf_room (length t + 1) bf" and all: "\<And>i. i < length t + 1 \<Longrightarrow> bits bf i"
  have "p < length t + 1" if b: "boundary D t p" for p
  proof -
    obtain A B where "bpe_ids D t = A @ B" "p = length (concat (map (\<lambda>i. D ! i) A))"
      using b unfolding boundary_def by blast
    then have "length t = p + length (concat (map (\<lambda>i. D ! i) B))"
      using bpe_ids_decode [OF cov] by (metis concat_append length_append map_append)
    then show ?thesis by simp
  qed
  then show ?thesis using r all by (simp add: keeps_def)
qed

lemma bt_inv_start:
  assumes ok: "bpe_ok bpe D" and cov: "covers D t"
    and r: "is_longest D t r" and k: "keeps D t bf" and c: "0 < c"
  shows "bt_inv D t \<lparr>bt_text = t, bt_tokens = [], bt_token_cap = c, bt_next_token = r, bt_pos = 0, bt_bitfield = bf\<rparr>"
proof -
  have empty: "t = []" if "r = UINT32_MAX"
  proof (rule ccontr)
    assume "t \<noteq> []"
    then have "[hd t] \<in> set D" "prefix [hd t] t" using cov by (cases t; auto simp: covers_def)+
    then show False using is_longest_max [OF r] that by blast
  qed
  have start: "cand D t 0 r \<and> tried D t bf [] 0 (length (D ! r))" if "r \<noteq> UINT32_MAX"
  proof -
    have "length (D ! j) \<le> length (D ! r)" if "cand D t 0 j" for j
      using is_longest_max [OF r, of "D ! j"] that by (simp add: cand_def)
    then have "tried D t bf [] 0 (length (D ! r))" by (auto simp: tried_def not_less [symmetric])
    then show ?thesis
      using is_longest_less [OF r that] is_longest_prefix [OF r that] by (simp add: cand_def)
  qed
  have "bits bf 0" using k boundary_0 by (auto simp: keeps_def)
  then show ?thesis using empty start k c by (auto simp: bt_inv_def)
qed

lemma btenc_new_ok:
  assumes ok: "bpe_ok bpe D" and cov: "covers D t"
  shows "\<exists>e. btenc_new bpe t c = Some e \<and> bt_inv D t e \<and> bt_tokens e = []"
proof -
  obtain r where r: "bpe_next_match bpe t = Some r" "is_longest D t r"
    using bpe_next_match_longest [OF ok cov] by blast
  have "keeps D t (bitfield_new (length t + 1))"
    using word_bits.new_room word_bits.new_member by (intro keeps_full [OF cov]) auto
  from bt_inv_start [OF ok cov r(2) this] show ?thesis using r(1) by (simp add: btenc_new_def)
qed

lemma encode_via_backtracking_ok:
  assumes ok: "bpe_ok bpe D" and cov: "covers D t"
  shows "bpe_encode_via_backtracking bpe t = Some (bpe_ids D t)"
proof -
  obtain e where e: "btenc_new bpe t (length t div 3 + 16) = Some e" "bt_inv D t e"
    using btenc_new_ok [OF ok cov] by blast
  from btenc_run_ok [OF ok cov e(2)] e(1) show ?thesis by (auto simp: bpe_encode_via_backtracking_def)
qed

lemma count_ok:
  assumes ok: "bpe_ok bpe D" and cov: "covers D t"
  shows "bpe_count bpe t = Some (length (bpe_ids D t))"
proof -
  obtain e where e: "btenc_new bpe t (length t div 3 + 16) = Some e" "bt_inv D t e"
    using btenc_new_ok [OF ok cov] by blast
  from btenc_run_ok [OF ok cov e(2)] e(1) show ?thesis by (auto simp: bpe_count_def)
qed

subsection \<open>Counting with a limit\<close>

text \<open>
  The loop either reaches the end or stops at a prefix whose encoding is longer
  than the buffer limit; and it never reaches the end past the limit by more than one.
\<close>

lemma limit_loop_ok:
  assumes ok: "bpe_ok bpe D" and cov: "covers D t"
  shows "bt_inv D t e \<Longrightarrow> length (bt_tokens e) \<le> Suc b \<Longrightarrow>
    (\<exists>p \<le> length t. limit_loop bpe b e = Some None \<and> b < length (bpe_ids D (take p t))) \<or>
    (\<exists>e'. limit_loop bpe b e = Some (Some e') \<and> bt_tokens e' = bpe_ids D t)"
proof (induction "bt_measure t e" arbitrary: e rule: less_induct)
  case less
  show ?case
  proof (cases "bt_next_token e = UINT32_MAX")
    case True
    then have "limit_loop bpe b e = Some (Some e)" by (subst limit_loop.simps) (simp add: btenc_step_def)
    then show ?thesis using bt_inv_final [OF ok cov less.prems(1) True] by simp
  next
    case False
    then obtain e1 where e1: "btenc_step bpe e = Some e1" "bt_inv D t e1" "bt_measure t e1 < bt_measure t e"
      using btenc_step_ok [OF ok cov less.prems(1)] by blast
    have run: "limit_loop bpe b e = (if bt_next_token e1 \<noteq> UINT32_MAX
        then (if b < length (bt_tokens e1) then Some None else limit_loop bpe b e1) else Some (Some e1))"
      using e1(1) by (subst limit_loop.simps) simp
    have st: "stack_ok D t (bt_bitfield e1) (bt_pos e1) (rev (bt_tokens e1))"
      using e1(2) by (simp add: bt_inv_def)
    have p: "bt_pos e1 \<le> length t" "bpe_ids D (take (bt_pos e1) t) = bt_tokens e1"
      using stack_ok_text [OF bpe_okD(1) [OF ok] st] stack_ok_ids [OF bpe_okD(1) [OF ok] st] by simp_all
    show ?thesis
    proof (cases "bt_next_token e1 = UINT32_MAX")
      case True
      then show ?thesis using run bt_inv_final [OF ok cov e1(2) True] by simp
    next
      case no: False
      show ?thesis
      proof (cases "b < length (bt_tokens e1)")
        case True
        then have "limit_loop bpe b e = Some None" using run no by simp
        then show ?thesis using p True by metis
      next
        case False
        then show ?thesis using run no less.hyps [OF e1(3,2)] by simp
      qed
    qed
  qed
qed

lemma limit_loop_bound:
  assumes ok: "bpe_ok bpe D" and cov: "covers D t"
  shows "bt_inv D t e \<Longrightarrow> length (bt_tokens e) \<le> b \<Longrightarrow> limit_loop bpe b e = Some (Some e') \<Longrightarrow>
    length (bt_tokens e') \<le> Suc b"
proof (induction "bt_measure t e" arbitrary: e rule: less_induct)
  case less
  show ?case
  proof (cases "bt_next_token e = UINT32_MAX")
    case True
    then have "limit_loop bpe b e = Some (Some e)" by (subst limit_loop.simps) (simp add: btenc_step_def)
    then show ?thesis using less.prems by simp
  next
    case False
    then obtain e1 where e1: "btenc_step bpe e = Some e1" "bt_inv D t e1" "bt_measure t e1 < bt_measure t e"
      "length (bt_tokens e1) \<le> Suc (length (bt_tokens e))"
      using btenc_step_ok [OF ok cov less.prems(1)] by blast
    have run: "limit_loop bpe b e = (if bt_next_token e1 \<noteq> UINT32_MAX
        then (if b < length (bt_tokens e1) then Some None else limit_loop bpe b e1) else Some (Some e1))"
      using e1(1) by (subst limit_loop.simps) simp
    then show ?thesis
      using less.hyps [OF e1(3,2)] less.prems(2,3) e1(4) by (auto split: if_splits)
  qed
qed

lemma count_till_limit_cases:
  fixes limit :: nat
  assumes ok: "bpe_ok bpe D" and cov: "covers D t"
  defines "n \<equiv> length (bpe_ids D t)" and "b \<equiv> (limit + 10) mod 2 ^ 64"
  shows "bpe_count_till_limit bpe t limit = Some (if n \<le> limit then n else SIZE_MAX) \<and> n \<le> Suc b \<or>
    bpe_count_till_limit bpe t limit = Some SIZE_MAX \<and> (\<exists>p \<le> length t. b < length (bpe_ids D (take p t)))"
proof -
  obtain e where e: "btenc_new bpe t ((limit + 16) mod 2 ^ 64) = Some e" "bt_inv D t e" "bt_tokens e = []"
    using btenc_new_ok [OF ok cov] by blast
  have "length (bt_tokens e) \<le> Suc b" using e(3) by simp
  from limit_loop_ok [OF ok cov e(2) this] show ?thesis
  proof
    assume "\<exists>p \<le> length t. limit_loop bpe b e = Some None \<and> b < length (bpe_ids D (take p t))"
    then show ?thesis using e(1) by (auto simp: bpe_count_till_limit_def b_def)
  next
    assume "\<exists>e'. limit_loop bpe b e = Some (Some e') \<and> bt_tokens e' = bpe_ids D t"
    then obtain e' where e': "limit_loop bpe b e = Some (Some e')" "bt_tokens e' = bpe_ids D t" by blast
    have "n \<le> Suc b" using limit_loop_bound [OF ok cov e(2) _ e'(1)] e(3) e'(2) by (simp add: n_def)
    then show ?thesis using e(1) e' by (simp add: bpe_count_till_limit_def n_def b_def)
  qed
qed

subsection \<open>Scratch buffers\<close>

lemma btenc_init_reuse_ok:
  assumes ok: "bpe_ok bpe D" and cov: "covers D t"
  shows "\<exists>e. btenc_init_reuse bpe t s = Some e \<and> bt_inv D t e"
proof -
  obtain r where r: "bpe_next_match bpe t = Some r" "is_longest D t r"
    using bpe_next_match_longest [OF ok cov] by blast
  obtain bf where bf: "bitfield_reset (sc_bitfield s) (length t + 1) = Some bf"
    using reset_words by blast
  have "keeps D t bf" using room_reset [OF bf] bits_reset [OF bf] by (intro keeps_full [OF cov])
  from bt_inv_start [OF ok cov r(2) this] show ?thesis
    using r(1) bf by (simp add: btenc_init_reuse_def Let_def)
qed

lemma encode_piece_ok:
  assumes ok: "bpe_ok bpe D" and cov: "covers D t"
  shows "\<exists>s'. bpe_encode_piece bpe t s = Some (bpe_ids D t, s') \<and> sc_tokens s' = bpe_ids D t"
proof -
  obtain e where e: "btenc_init_reuse bpe t s = Some e" "bt_inv D t e"
    using btenc_init_reuse_ok [OF ok cov] by blast
  from btenc_run_ok [OF ok cov e(2)] e(1) show ?thesis
    by (auto simp: bpe_encode_piece_def btenc_sync_scratch_def)
qed

lemma count_piece_ok:
  assumes ok: "bpe_ok bpe D" and cov: "covers D t"
  shows "\<exists>s'. bpe_count_piece bpe t s = Some (length (bpe_ids D t), s')"
proof -
  obtain e where e: "btenc_init_reuse bpe t s = Some e" "bt_inv D t e"
    using btenc_init_reuse_ok [OF ok cov] by blast
  from btenc_run_ok [OF ok cov e(2)] e(1) show ?thesis by (auto simp: bpe_count_piece_def)
qed

end
