(* ===== verification/Bpe_Examples.thy ===== *)
theory Bpe_Examples
  imports Bpe_Build Bpe_Heap Bpe_Backtrack
begin

text \<open>
  Concrete dictionaries. \<open>ab_dict\<close> has merges at two levels and serves as the input of
  the witnesses. \<open>tie_dict\<close> has a token that overlaps itself: on \<open>tie_text\<close> the priority-queue
  encoder is evaluated step by step, and its result differs from the encoding.
\<close>

subsection \<open>A dictionary with two merges\<close>

definition ab_dict :: "bytes list" where
  "ab_dict = [[97], [98], [97, 98], [97, 98, 97]]"

lemma ab_input: "dict_input ab_dict 1"
  unfolding dict_input_def dict_wf_def
proof (intro conjI)
  show "wf_dict ab_dict" by (simp add: ab_dict_def wf_dict_def formed_def numeral_2_eq_2 numeral_3_eq_3)
  show "hash_free ab_dict (if (1::u64) = 0 then 1 else 1)" unfolding ab_dict_def by code_simp
qed (simp_all add: ab_dict_def)

text \<open>The longest token at the start is not the first token of the encoding.\<close>

lemma ab_covers [simp]: "covers ab_dict [97, 98, 97, 98, 97]" "covers ab_dict []"
  by (simp_all add: covers_def ab_dict_def)

lemma ab_ids [simp]: "bpe_ids ab_dict [97, 98, 97, 98, 97] = [2, 3]"
  by (simp add: ab_dict_def bpe_ids_def bpe_encode_def numeral_2_eq_2 numeral_3_eq_3)

lemma ab_length [simp]: "length ab_dict = 4"
  by (simp add: ab_dict_def)

lemma ab_built: obtains bpe where "built bpe ab_dict 1"
  using built_exists [OF ab_input] by blast

subsection \<open>A token that overlaps itself\<close>

definition tie_dict :: "bytes list" where
  "tie_dict = [[97], [97, 97]]"

definition tie_text :: bytes where
  "tie_text = [97, 97, 97, 97, 97]"

abbreviation (input) bfw :: "u64 \<Rightarrow> bitfield" where
  "bfw w \<equiv> \<lparr>bf_words = [w]\<rparr>"

lemma tie_input: "dict_input tie_dict 1"
  unfolding dict_input_def dict_wf_def
proof (intro conjI)
  show "wf_dict tie_dict" by (simp add: tie_dict_def wf_dict_def formed_def)
  show "hash_free tie_dict (if (1::u64) = 0 then 1 else 1)" unfolding tie_dict_def by code_simp
qed (simp_all add: tie_dict_def)

lemma tie_covers: "covers tie_dict tie_text"
  by (simp add: covers_def tie_dict_def tie_text_def)

lemma tie_ids: "bpe_ids tie_dict tie_text = [1, 1, 0]"
  by (simp add: tie_dict_def tie_text_def bpe_ids_def bpe_encode_def numeral_2_eq_2)

lemma tie_bits:
  "bitfield_new 6 = bfw 0xFFFFFFFFFFFFFFFF"
  "bitfield_is_set (bfw 0xFFFFFFFFFFFFFFFF) 0 = Some True"
  "bitfield_successor (bfw 0xFFFFFFFFFFFFFFFF) 1 = Some 1"
  "bitfield_successor (bfw 0xFFFFFFFFFFFFFFFF) 2 = Some 2"
  "bitfield_clear (bfw 0xFFFFFFFFFFFFFFFF) 1 = Some (bfw 0xFFFFFFFFFFFFFFFD)"
  "bitfield_successor (bfw 0xFFFFFFFFFFFFFFFD) 3 = Some 3"
  "bitfield_is_set (bfw 0xFFFFFFFFFFFFFFFD) 3 = Some True"
  "bitfield_successor (bfw 0xFFFFFFFFFFFFFFFD) 4 = Some 4"
  "bitfield_successor (bfw 0xFFFFFFFFFFFFFFFD) 5 = Some 5"
  "bitfield_clear (bfw 0xFFFFFFFFFFFFFFFD) 4 = Some (bfw 0xFFFFFFFFFFFFFFED)"
  "bitfield_predecessor (bfw 0xFFFFFFFFFFFFFFED) 2 = Some 2"
  "bitfield_is_set (bfw 0xFFFFFFFFFFFFFFED) 2 = Some True"
  "bitfield_is_set (bfw 0xFFFFFFFFFFFFFFED) 1 = Some False"
  "bitfield_successor (bfw 0xFFFFFFFFFFFFFFED) 1 = Some 2"
  "bitfield_successor (bfw 0xFFFFFFFFFFFFFFED) 3 = Some 3"
  "bitfield_successor (bfw 0xFFFFFFFFFFFFFFED) 4 = Some 5"
  by code_simp+

lemma tie_find:
  assumes "bpe_ok bpe tie_dict"
  shows "bpe_find_token_by_bytes bpe [97] = Some 0" "bpe_find_token_by_bytes bpe [97, 97] = Some 1"
    "bpe_find_token_by_bytes bpe [97, 97, 97] = Some UINT32_MAX" "token_len bpe 1 = Some 2"
  using bpe_find_token [OF assms] bpe_token_len [OF assms] by (simp_all add: tie_dict_def)

lemma tie_heap:
  "heap_push [] 1 0 = Some [(1, 0)]" "heap_push [(1, 0)] 1 1 = Some [(1, 0), (1, 1)]"
  "heap_push [(1, 0), (1, 1)] 1 2 = Some [(1, 0), (1, 1), (1, 2)]"
  "heap_push [(1, 0), (1, 1), (1, 2)] 1 3 = Some [(1, 0), (1, 1), (1, 2), (1, 3)]"
  by (simp_all add: heap_push_def sift_up.simps [of _ "Suc _"] sift_up.simps [of _ 0])

lemma tie_pop:
  "heap_pop [(1, 0), (1, 1), (1, 2), (1, 3)] = Some ((1, 0), [(1, 3), (1, 1), (1, 2)])"
  "heap_pop [(1, 3), (1, 1), (1, 2)] = Some ((1, 3), [(1, 2), (1, 1)])"
  "heap_pop [(1, 2), (1, 1)] = Some ((1, 2), [(1, 1)])"
  "heap_pop [(1, 1)] = Some ((1, 1), [])"
  by (simp_all add: heap_pop_def sift_down.simps [of _ 0] smaller_child_def)

lemma tie_slices:
  "rd_slice tie_text 0 2 = Some [97, 97]" "rd_slice tie_text 1 2 = Some [97, 97]"
  "rd_slice tie_text 2 2 = Some [97, 97]" "rd_slice tie_text 3 2 = Some [97, 97]"
  "rd_slice tie_text 0 3 = Some [97, 97, 97]" "rd_slice tie_text 2 3 = Some [97, 97, 97]"
  "rd_slice tie_text 2 1 = Some [97]" "length tie_text = 5"
  by (simp_all add: tie_text_def rd_slice_def slice_def)

lemma tie_writes:
  "wr [None, None, None] 0 (Some (1 :: nat)) = Some [Some 1, None, None]"
  "wr [Some 1, None, None] 1 (Some 0) = Some [Some 1, Some (0 :: nat), None]"
  "wr [Some 1, Some 0, None] 2 (Some 1) = Some [Some 1, Some 0, Some (1 :: nat)]"
  by (simp_all add: wr_def numeral_2_eq_2)

lemma tie_encode:
  assumes "bpe_ok bpe tie_dict"
  shows "bpe_encode_via_bitfield bpe tie_text = Some ([Some 1, Some 0, Some 1], 3)"
proof -
  note ev = tie_bits tie_find [OF assms] tie_heap tie_pop tie_slices tie_writes
    extend_right_def extend_left_def push_token_def
  have "heap_seed bpe tie_text [0, 1, 2, 3] [] = Some [(1, 0), (1, 1), (1, 2), (1, 3)]"
    by (simp add: ev UINT32_MAX_def del: One_nat_def)
  moreover have "merge_loop bpe tie_text [(1, 0), (1, 1), (1, 2), (1, 3)] (bfw 0xFFFFFFFFFFFFFFFF) 5 =
     merge_loop bpe tie_text [(1, 3), (1, 1), (1, 2)] (bfw 0xFFFFFFFFFFFFFFFD) 4"
    by (subst merge_loop.simps) (simp add: ev del: One_nat_def)
  moreover have "merge_loop bpe tie_text [(1, 3), (1, 1), (1, 2)] (bfw 0xFFFFFFFFFFFFFFFD) 4 =
     merge_loop bpe tie_text [(1, 2), (1, 1)] (bfw 0xFFFFFFFFFFFFFFED) 3"
    by (subst merge_loop.simps) (simp add: ev del: One_nat_def)
  moreover have "merge_loop bpe tie_text [(1, 2), (1, 1)] (bfw 0xFFFFFFFFFFFFFFED) 3 = 
    merge_loop bpe tie_text [(1, 1)] (bfw 0xFFFFFFFFFFFFFFED) 3"
    by (subst merge_loop.simps) (simp add: ev del: One_nat_def)
  moreover have "merge_loop bpe tie_text [(1, 1)] (bfw 0xFFFFFFFFFFFFFFED) 3 = Some (bfw 0xFFFFFFFFFFFFFFED, 3)"
    by (subst merge_loop.simps) (simp add: ev merge_loop.simps [of _ _ "[]"] del: One_nat_def)
  moreover have "read_bitfield bpe tie_text (bfw 0xFFFFFFFFFFFFFFED) 0 0 [None, None, None] =
      Some [Some 1, Some 0, Some 1]"
    by (subst read_bitfield.simps, simp add: ev del: One_nat_def wr_in,
        subst read_bitfield.simps, simp add: ev del: One_nat_def wr_in,
        subst read_bitfield.simps, simp add: ev read_bitfield.simps [of _ _ _ 5] del: One_nat_def wr_in)
  moreover have "[0..<5 - 1] = [0, 1, 2, 3]" by (simp add: upt_rec)
  ultimately show ?thesis
    by (simp add: bpe_encode_via_bitfield_def encode_into_bitfield_def tie_slices tie_bits numeral_3_eq_3)
qed

end
