(* ===== verification/Utf8.thy ===== *)
theory Utf8
  imports Bpe_Prelude
begin

text \<open>
  The decoder \<^verbatim>\<open>utf8_decode\<close> of \<^verbatim>\<open>include/pretok.h\<close> and the encoding it inverts.

  The pointers \<^verbatim>\<open>p\<close> and \<^verbatim>\<open>end\<close> of the code delimit the bytes that are left, so
  the model passes these bytes as a list. Code points are 32-bit words. The decoder accepts
  every byte: what is not UTF-8 is returned as a code point of one byte.
\<close>

unbundle bit_operations_syntax

subsection \<open>The decoder\<close>

definition is_cont :: "byte \<Rightarrow> bool" where
  "is_cont b \<longleftrightarrow> b AND 0xC0 = 0x80"

definition utf8_decode :: "bytes \<Rightarrow> (u32 \<times> nat) option" where
  "utf8_decode s = (case s of [] \<Rightarrow> None | b0 # _ \<Rightarrow>
     if b0 < 0x80 then Some (ucast b0, 1)
     else if b0 AND 0xE0 = 0xC0 \<and> 1 < length s \<and> is_cont (s ! 1)
     then Some (push_bit 6 (ucast (b0 AND 0x1F)) OR ucast (s ! 1 AND 0x3F), 2)
     else if b0 AND 0xF0 = 0xE0 \<and> 2 < length s \<and> is_cont (s ! 1) \<and> is_cont (s ! 2)
     then Some (push_bit 12 (ucast (b0 AND 0x0F)) OR push_bit 6 (ucast (s ! 1 AND 0x3F))
                OR ucast (s ! 2 AND 0x3F), 3)
     else if b0 AND 0xF8 = 0xF0 \<and> 3 < length s \<and> is_cont (s ! 1) \<and> is_cont (s ! 2) \<and> is_cont (s ! 3)
     then Some (push_bit 18 (ucast (b0 AND 0x07)) OR push_bit 12 (ucast (s ! 1 AND 0x3F))
                OR push_bit 6 (ucast (s ! 2 AND 0x3F)) OR ucast (s ! 3 AND 0x3F), 4)
     else Some (ucast b0, 1))"

lemma utf8_decode_Nil [simp]: "utf8_decode [] = None"
  by (simp add: utf8_decode_def)

lemma utf8_decode_total: "s \<noteq> [] \<Longrightarrow> \<exists>cp n. utf8_decode s = Some (cp, n)"
  by (cases s) (auto simp: utf8_decode_def)

lemma utf8_decode_len: "utf8_decode s = Some (cp, n) \<Longrightarrow> 0 < n \<and> n \<le> length s"
  by (cases s) (auto simp: utf8_decode_def Suc_le_eq split: if_splits)

subsection \<open>The encoding\<close>

text \<open>Scalar values are the code points that UTF-8 encodes.\<close>

definition scalar :: "u32 \<Rightarrow> bool" where
  "scalar c \<longleftrightarrow> c < 0xD800 \<or> 0xE000 \<le> c \<and> c < 0x110000"

definition cont_byte :: "u32 \<Rightarrow> byte" where
  "cont_byte c = 0x80 OR (ucast c AND 0x3F)"

definition utf8_encode :: "u32 \<Rightarrow> bytes" where
  "utf8_encode c =
     (if c < 0x80 then [ucast c]
      else if c < 0x800 then [0xC0 OR ucast (drop_bit 6 c), cont_byte c]
      else if c < 0x10000 then [0xE0 OR ucast (drop_bit 12 c), cont_byte (drop_bit 6 c), cont_byte c]
      else [0xF0 OR ucast (drop_bit 18 c), cont_byte (drop_bit 12 c), cont_byte (drop_bit 6 c), cont_byte c])"

definition utf8 :: "u32 list \<Rightarrow> bytes" where
  "utf8 cs = concat (map utf8_encode cs)"

lemma is_cont_cont_byte: "is_cont (cont_byte c)"
  unfolding is_cont_def cont_byte_def
  by (rule bit_word_eqI) (auto simp: bit_simps numeral_eq_Suc less_Suc_eq)

lemma low_cont_byte: "ucast (cont_byte c AND 0x3F) = (c AND 0x3F :: u32)"
  unfolding cont_byte_def
  by (rule bit_word_eqI) (auto simp: bit_simps numeral_eq_Suc less_Suc_eq)

lemma bit_bound:
  assumes "unat (c :: u32) < 2 ^ n" and "bit c m"
  shows "m < n"
proof (rule ccontr)
  assume "\<not> m < n"
  then have "unat c < 2 ^ m"
    using assms(1) by (meson less_le_trans not_less one_le_numeral power_increasing)
  then have "\<not> bit (unat c) m" by (simp add: bit_iff_odd)
  then show False using assms(2) by (simp add: bit_unsigned_iff)
qed

lemma bit_bounds:
  "c < 0x800 \<Longrightarrow> bit (c :: u32) m \<Longrightarrow> m < 11"
  "c < 0x10000 \<Longrightarrow> bit (c :: u32) m \<Longrightarrow> m < 16"
  "c < 0x110000 \<Longrightarrow> bit (c :: u32) m \<Longrightarrow> m < 21"
  by (rule bit_bound; simp add: word_less_nat_alt)+

text \<open>The head bytes.\<close>

lemma head_bytes:
  "c < 0x800 \<Longrightarrow> (0xC0 OR ucast (drop_bit 6 (c :: u32)) :: byte) AND 0xE0 = 0xC0"
  "c < 0x10000 \<Longrightarrow> (0xE0 OR ucast (drop_bit 12 (c :: u32)) :: byte) AND 0xF0 = 0xE0"
  "c < 0x110000 \<Longrightarrow> (0xF0 OR ucast (drop_bit 18 (c :: u32)) :: byte) AND 0xF8 = 0xF0"
  by (rule bit_word_eqI; auto simp: bit_simps numeral_eq_Suc less_Suc_eq dest: bit_bounds)+

lemma head_not_ascii:
  "\<not> 0xC0 OR (x :: byte) < 0x80" "\<not> 0xE0 OR (x :: byte) < 0x80" "\<not> 0xF0 OR (x :: byte) < 0x80"
proof -
  have "(0x80 :: byte) \<le> y OR x" if "0x80 \<le> y" for y :: byte
    using that le_word_or2 [of y x] by (simp add: or.commute le_word_or1 order_trans [of _ y])
  then show "\<not> 0xC0 OR x < 0x80" "\<not> 0xE0 OR x < 0x80" "\<not> 0xF0 OR x < 0x80"
    by (simp_all add: not_less)
qed

lemma head_bits:
  "bit (0xC0 :: byte) m \<longleftrightarrow> 6 \<le> m \<and> m < 8" "bit (0xE0 :: byte) m \<longleftrightarrow> 5 \<le> m \<and> m < 8"
  "bit (0xF0 :: byte) m \<longleftrightarrow> 4 \<le> m \<and> m < 8" "bit (0x80 :: byte) m \<longleftrightarrow> 7 \<le> m \<and> m < 8"
  by (cases "m < 8"; auto simp: numeral_eq_Suc less_Suc_eq dest: bit_imp_le_length)+

lemma differ_bit: "bit a n \<noteq> bit b n \<Longrightarrow> a \<noteq> (b :: byte)"
  by blast

lemma head_distinct:
  "(0xE0 OR x) AND 0xE0 \<noteq> (0xC0 :: byte)" "(0xF0 OR x) AND 0xE0 \<noteq> (0xC0 :: byte)"
  "(0xF0 OR x) AND 0xF0 \<noteq> (0xE0 :: byte)"
    apply (rule differ_bit [of _ 5], simp only: bit_simps head_bits, simp)
   apply (rule differ_bit [of _ 5], simp only: bit_simps head_bits, simp)
  apply (rule differ_bit [of _ 4], simp only: bit_simps head_bits, simp)
  done

lemma head_not_cont: "\<not> is_cont (0xC0 OR x)" "\<not> is_cont (0xE0 OR x)" "\<not> is_cont (0xF0 OR x)"
  unfolding is_cont_def by (rule differ_bit [of _ 6], simp only: bit_simps head_bits, simp)+

lemma mask_bits:
  "bit (0x07 :: byte) m \<longleftrightarrow> m < 3" "bit (0x0F :: byte) m \<longleftrightarrow> m < 4" "bit (0x1F :: byte) m \<longleftrightarrow> m < 5"
  "bit (0x3F :: u32) m \<longleftrightarrow> m < 6"
  using bit_mask_iff [where 'a = byte, of 3 m] bit_mask_iff [where 'a = byte, of 4 m]
    bit_mask_iff [where 'a = byte, of 5 m] bit_mask_iff [where 'a = u32, of 6 m]
  by (auto simp: mask_eq_exp_minus_1 dest: bit_imp_le_length)

lemma decode_parts:
  "c < 0x800 \<Longrightarrow> push_bit 6 (ucast ((0xC0 OR ucast (drop_bit 6 c) :: byte) AND 0x1F)) OR (c AND 0x3F) = (c :: u32)"
  "c < 0x10000 \<Longrightarrow> push_bit 12 (ucast ((0xE0 OR ucast (drop_bit 12 c) :: byte) AND 0x0F)) OR
     push_bit 6 (drop_bit 6 c AND 0x3F) OR (c AND 0x3F) = (c :: u32)"
  "c < 0x110000 \<Longrightarrow> push_bit 18 (ucast ((0xF0 OR ucast (drop_bit 18 c) :: byte) AND 0x07)) OR
     push_bit 12 (drop_bit 12 c AND 0x3F) OR push_bit 6 (drop_bit 6 c AND 0x3F) OR (c AND 0x3F) = (c :: u32)"
  subgoal
    apply (rule bit_word_eqI, simp only: bit_simps mask_bits head_bits)
    subgoal for n using bit_bounds(1) [of c n] by (cases "n < 6") auto
    done
  subgoal
    apply (rule bit_word_eqI, simp only: bit_simps mask_bits head_bits)
    subgoal for n using bit_bounds(2) [of c n] by (cases "n < 6"; cases "n < 12"; auto)
    done
  subgoal
    apply (rule bit_word_eqI, simp only: bit_simps mask_bits head_bits)
    subgoal for n using bit_bounds(3) [of c n] by (cases "n < 6"; cases "n < 12"; cases "n < 18"; auto)
    done
  done

lemma ascii_decode: "c < 0x80 \<Longrightarrow> (ucast c :: byte) < 0x80 \<and> ucast (ucast c :: byte) = (c :: u32)"
proof -
  assume "c < 0x80"
  then have "unat c < 128" by (simp add: word_less_nat_alt)
  then show ?thesis
    by (simp add: word_less_nat_alt word_unat_eq_iff unsigned_ucast_eq unsigned_take_bit_eq take_bit_nat_def)
qed

text \<open>Decoding inverts encoding, whatever follows.\<close>

lemma utf8_decode_encode:
  assumes "scalar c"
  shows "utf8_decode (utf8_encode c @ s) = Some (c, length (utf8_encode c))"
proof -
  have "c < 0x110000" using assms by (auto simp: scalar_def word_less_nat_alt word_le_nat_alt)
  then consider "c < 0x80" | "\<not> c < 0x80" "c < 0x800" | "\<not> c < 0x800" "c < 0x10000" | "\<not> c < 0x10000" "c < 0x110000"
    by blast
  then show ?thesis
  proof cases
    case 1
    then show ?thesis using ascii_decode [of c] by (simp add: utf8_decode_def utf8_encode_def)
  next
    case 2
    then have "utf8_encode c = [0xC0 OR ucast (drop_bit 6 c), cont_byte c]" by (simp add: utf8_encode_def)
    then show ?thesis using decode_parts(1) [of c] head_bytes(1) [of c] head_not_ascii 2
      by (simp add: utf8_decode_def is_cont_cont_byte low_cont_byte)
  next
    case 3
    then have "utf8_encode c = [0xE0 OR ucast (drop_bit 12 c), cont_byte (drop_bit 6 c), cont_byte c]"
      by (auto simp: utf8_encode_def word_less_nat_alt)
    then show ?thesis using decode_parts(2) [of c] head_bytes(2) [of c] head_not_ascii head_distinct 3
      by (simp add: utf8_decode_def is_cont_cont_byte low_cont_byte)
  next
    case 4
    then have "utf8_encode c =
        [0xF0 OR ucast (drop_bit 18 c), cont_byte (drop_bit 12 c), cont_byte (drop_bit 6 c), cont_byte c]"
      by (auto simp: utf8_encode_def word_less_nat_alt)
    then show ?thesis using decode_parts(3) [of c] head_bytes(3) [of c] head_not_ascii head_distinct 4
      by (simp add: utf8_decode_def is_cont_cont_byte low_cont_byte)
  qed
qed

subsection \<open>Encoded text\<close>

lemma utf8_simps [simp]: "utf8 [] = []" "utf8 (c # cs) = utf8_encode c @ utf8 cs"
  "utf8 (cs @ ds) = utf8 cs @ utf8 ds"
  by (simp_all add: utf8_def)

lemma utf8_encode_nonempty [simp]: "utf8_encode c \<noteq> []" "0 < length (utf8_encode c)"
  by (simp_all add: utf8_encode_def)

lemma utf8_Nil_iff [simp]: "utf8 cs = [] \<longleftrightarrow> cs = []"
  by (cases cs) auto

lemma utf8_decode_utf8:
  "scalar c \<Longrightarrow> utf8_decode (utf8_encode c @ s) = Some (c, length (utf8_encode c))"
  "scalar c \<Longrightarrow> utf8_decode (utf8_encode c) = Some (c, length (utf8_encode c))"
  using utf8_decode_encode [of c s] utf8_decode_encode [of c "[]"] by simp_all

lemma drop_utf8_append [simp]: "drop (length (utf8_encode c)) (utf8_encode c @ s) = s"
  by simp

text \<open>Only the first byte of an encoded code point is not a continuation byte.\<close>

lemma utf8_encode_shape:
  assumes "scalar c"
  shows "\<exists>b bs. utf8_encode c = b # bs \<and> \<not> is_cont b \<and> (\<forall>x \<in> set bs. is_cont x)"
proof -
  have "\<not> is_cont (ucast c)" if "c < 0x80"
    using ascii_decode [OF that] word_and_le2 [of "ucast c" "0xC0 :: byte"]
    by (auto simp: is_cont_def not_le [symmetric] and.commute)
  then show ?thesis by (auto simp: utf8_encode_def is_cont_cont_byte head_not_cont)
qed

end
