(* ===== verification/Pretok.thy ===== *)
theory Pretok
  imports Utf8
begin

text \<open>
  What the two hand-coded pretokenizers share: the property lookups of
  \<^verbatim>\<open>include/pretok_ucd.h\<close>, the match result of \<^verbatim>\<open>include/pretok.h\<close> and the loops that
  step over code points.

  The Unicode tables of PCRE2 (thousands of lines of data) are an argument: two lookup
  stages and the category of each record. A lookup past their end is \<open>None\<close>.
  A pointer into the text is the list of the bytes from it to \<^verbatim>\<open>end\<close>.
\<close>

unbundle bit_operations_syntax

subsection \<open>Unicode properties\<close>

datatype ucp_general = ucp_C | ucp_L | ucp_M | ucp_N | ucp_P | ucp_S | ucp_Z

datatype ucp_type =
    ucp_Cc | ucp_Cf | ucp_Cn | ucp_Co | ucp_Cs
  | ucp_Ll | ucp_Lm | ucp_Lo | ucp_Lt | ucp_Lu
  | ucp_Mc | ucp_Me | ucp_Mn
  | ucp_Nd | ucp_Nl | ucp_No
  | ucp_Pc | ucp_Pd | ucp_Pe | ucp_Pf | ucp_Pi | ucp_Po | ucp_Ps
  | ucp_Sc | ucp_Sk | ucp_Sm | ucp_So
  | ucp_Zl | ucp_Zp | ucp_Zs

definition ucp_gentype :: "ucp_type \<Rightarrow> ucp_general" where
  "ucp_gentype t =
     (if t \<in> {ucp_Cc, ucp_Cf, ucp_Cn, ucp_Co, ucp_Cs} then ucp_C
      else if t \<in> {ucp_Ll, ucp_Lu, ucp_Lm, ucp_Lo, ucp_Lt} then ucp_L
      else if t \<in> {ucp_Mc, ucp_Me, ucp_Mn} then ucp_M
      else if t \<in> {ucp_Nd, ucp_Nl, ucp_No} then ucp_N
      else if t \<in> {ucp_Pc, ucp_Pd, ucp_Pe, ucp_Pf, ucp_Pi, ucp_Ps, ucp_Po} then ucp_P
      else if t \<in> {ucp_Sc, ucp_Sk, ucp_Sm, ucp_So} then ucp_S
      else ucp_Z)"

record ucd_record =
  chartype :: ucp_type

record ucd_tables =
  ucd_records :: "ucd_record list"
  ucd_stage1 :: "nat list"
  ucd_stage2 :: "nat list"

definition GET_UCD :: "ucd_tables \<Rightarrow> u32 \<Rightarrow> ucd_record option" where
  "GET_UCD T ch = do {
     block \<leftarrow> rd (ucd_stage1 T) (unat ch div 128);
     i \<leftarrow> rd (ucd_stage2 T) (block * 128 + unat ch mod 128);
     rd (ucd_records T) i
   }"

definition ucd_chartype :: "ucd_tables \<Rightarrow> u32 \<Rightarrow> ucp_type option" where
  "ucd_chartype T cp = map_option chartype (GET_UCD T cp)"

definition ucd_is_letter :: "ucd_tables \<Rightarrow> u32 \<Rightarrow> bool option" where
  "ucd_is_letter T cp = map_option (\<lambda>r. ucp_gentype (chartype r) = ucp_L) (GET_UCD T cp)"

definition ucd_is_number :: "ucd_tables \<Rightarrow> u32 \<Rightarrow> bool option" where
  "ucd_is_number T cp = map_option (\<lambda>r. ucp_gentype (chartype r) = ucp_N) (GET_UCD T cp)"

definition ucd_is_upper_class :: "ucd_tables \<Rightarrow> u32 \<Rightarrow> bool option" where
  "ucd_is_upper_class T cp = map_option
     (\<lambda>ct. ct = ucp_Lu \<or> ct = ucp_Lt \<or> ct = ucp_Lm \<or> ct = ucp_Lo \<or> ucp_gentype ct = ucp_M)
     (ucd_chartype T cp)"

definition ucd_is_lower_class :: "ucd_tables \<Rightarrow> u32 \<Rightarrow> bool option" where
  "ucd_is_lower_class T cp = map_option
     (\<lambda>ct. ct = ucp_Ll \<or> ct = ucp_Lm \<or> ct = ucp_Lo \<or> ucp_gentype ct = ucp_M)
     (ucd_chartype T cp)"

definition ucd_is_whitespace :: "u32 \<Rightarrow> bool" where
  "ucd_is_whitespace cp \<longleftrightarrow>
     (if cp \<le> 0x7F then cp = 0x20 \<or> cp = 0x09 \<or> cp = 0x0A \<or> cp = 0x0B \<or> cp = 0x0C \<or> cp = 0x0D
      else cp = 0x85 \<or> cp = 0xA0 \<or>
        (cp = 0x1680 \<or> 0x2000 \<le> cp \<and> cp \<le> 0x200A \<or> cp = 0x180E \<or> cp = 0x202F \<or> cp = 0x205F \<or> cp = 0x3000) \<or>
        (cp = 0x2028 \<or> cp = 0x2029))"

definition ucd_is_newline :: "u32 \<Rightarrow> bool" where
  "ucd_is_newline cp \<longleftrightarrow> cp = 0x0D \<or> cp = 0x0A"

text \<open>The two conditions the patterns build from them, evaluated from left to right as
  \<^verbatim>\<open>&&\<close> and \<^verbatim>\<open>||\<close> do: \<^verbatim>\<open>[^\r\n\p{L}\p{N}]\<close> and \<^verbatim>\<open>[\s\p{L}\p{N}]\<close>.\<close>

definition is_prefix_cp :: "ucd_tables \<Rightarrow> u32 \<Rightarrow> bool option" where
  "is_prefix_cp T cp =
     (if ucd_is_newline cp then Some False
      else do { l \<leftarrow> ucd_is_letter T cp; if l then Some False else map_option Not (ucd_is_number T cp) })"

definition is_word_or_space :: "ucd_tables \<Rightarrow> u32 \<Rightarrow> bool option" where
  "is_word_or_space T cp =
     (if ucd_is_whitespace cp then Some True
      else do { l \<leftarrow> ucd_is_letter T cp; if l then Some True else ucd_is_number T cp })"

subsection \<open>Matches and loops\<close>

record pretok_match =
  m_start :: nat
  m_end :: nat
  pattern_id :: nat
  lookahead :: bool

text \<open>\<^verbatim>\<open>while (p < end) { cp = utf8_decode(p, end, &clen); if (!P(cp)) break; p += clen; }\<close>\<close>

function scan_while :: "(u32 \<Rightarrow> bool option) \<Rightarrow> bytes \<Rightarrow> bytes option" where
  "scan_while P p = (case utf8_decode p of None \<Rightarrow> Some p
     | Some (cp, clen) \<Rightarrow> (case P cp of None \<Rightarrow> None
         | Some ok \<Rightarrow> if ok then scan_while P (drop clen p) else Some p))"
  by pat_completeness auto
termination
  by (relation "measure (length \<circ> snd)") (auto dest: utf8_decode_len)

declare scan_while.simps [simp del]

definition is_crlf_byte :: "byte \<Rightarrow> bool" where
  "is_crlf_byte b \<longleftrightarrow> b = 0x0D \<or> b = 0x0A"

text \<open>A match from \<open>offset\<close> up to the pointer \<open>q\<close>.\<close>

definition match_to :: "bytes \<Rightarrow> nat \<Rightarrow> bytes \<Rightarrow> pretok_match" where
  "match_to text offset q =
     \<lparr>m_start = offset, m_end = length text - length q, pattern_id = 0, lookahead = False\<rparr>"

subsection \<open>Tables that answer for every code point of Unicode\<close>

definition ucd_ok :: "ucd_tables \<Rightarrow> bool" where
  "ucd_ok T \<longleftrightarrow> 8704 \<le> length (ucd_stage1 T) \<and>
     (\<forall>b \<in> set (ucd_stage1 T). b * 128 + 128 \<le> length (ucd_stage2 T)) \<and>
     (\<forall>i \<in> set (ucd_stage2 T). i < length (ucd_records T))"

definition cat :: "ucd_tables \<Rightarrow> u32 \<Rightarrow> ucp_type" where
  "cat T cp = chartype (the (GET_UCD T cp))"

lemma GET_UCD_ok:
  assumes "ucd_ok T" and "scalar cp"
  shows "GET_UCD T cp \<noteq> None"
proof -
  have "unat cp < 0x110000"
    using assms(2) by (auto simp: scalar_def word_less_nat_alt word_le_nat_alt)
  then have "unat cp div 128 < 8704" by (simp add: less_mult_imp_div_less)
  then have "unat cp div 128 < length (ucd_stage1 T)" using assms(1) by (auto simp: ucd_ok_def)
  then obtain b where b: "rd (ucd_stage1 T) (unat cp div 128) = Some b" "b \<in> set (ucd_stage1 T)"
    by (auto simp: rd_def)
  then have "b * 128 + unat cp mod 128 < length (ucd_stage2 T)"
    using assms(1) by (fastforce simp: ucd_ok_def intro: less_le_trans)
  then obtain i where "rd (ucd_stage2 T) (b * 128 + unat cp mod 128) = Some i" "i \<in> set (ucd_stage2 T)"
    by (auto simp: rd_def)
  then show ?thesis using b(1) assms(1) by (auto simp: GET_UCD_def ucd_ok_def rd_def)
qed

definition letter_cp :: "ucd_tables \<Rightarrow> u32 \<Rightarrow> bool" where
  "letter_cp T cp \<longleftrightarrow> ucp_gentype (cat T cp) = ucp_L"

definition number_cp :: "ucd_tables \<Rightarrow> u32 \<Rightarrow> bool" where
  "number_cp T cp \<longleftrightarrow> ucp_gentype (cat T cp) = ucp_N"

definition mark_cp :: "ucd_tables \<Rightarrow> u32 \<Rightarrow> bool" where
  "mark_cp T cp \<longleftrightarrow> ucp_gentype (cat T cp) = ucp_M"

definition upper_cp :: "ucd_tables \<Rightarrow> u32 \<Rightarrow> bool" where
  "upper_cp T cp \<longleftrightarrow> cat T cp \<in> {ucp_Lu, ucp_Lt, ucp_Lm, ucp_Lo} \<or> mark_cp T cp"

definition lower_cp :: "ucd_tables \<Rightarrow> u32 \<Rightarrow> bool" where
  "lower_cp T cp \<longleftrightarrow> cat T cp \<in> {ucp_Ll, ucp_Lm, ucp_Lo} \<or> mark_cp T cp"

lemma upper_lower: "upper_cp T cp \<or> lower_cp T cp \<longleftrightarrow> letter_cp T cp \<or> mark_cp T cp"
  by (cases "cat T cp") (auto simp: upper_cp_def lower_cp_def letter_cp_def mark_cp_def ucp_gentype_def)

lemma mark_not_letter: "mark_cp T cp \<Longrightarrow> \<not> letter_cp T cp"
  by (auto simp: mark_cp_def letter_cp_def)

lemma ucd_lookups:
  assumes "ucd_ok T" and "scalar cp"
  shows "ucd_is_letter T cp = Some (letter_cp T cp)"
    and "ucd_is_number T cp = Some (number_cp T cp)"
    and "ucd_chartype T cp = Some (cat T cp)"
    and "is_prefix_cp T cp = Some (\<not> ucd_is_newline cp \<and> \<not> letter_cp T cp \<and> \<not> number_cp T cp)"
    and "is_word_or_space T cp = Some (ucd_is_whitespace cp \<or> letter_cp T cp \<or> number_cp T cp)"
    and "ucd_is_upper_class T cp = Some (upper_cp T cp)"
    and "ucd_is_lower_class T cp = Some (lower_cp T cp)"
  using GET_UCD_ok [OF assms]
  by (auto simp: ucd_is_letter_def letter_cp_def ucd_is_number_def number_cp_def ucd_chartype_def
      is_prefix_cp_def is_word_or_space_def cat_def
      ucd_is_upper_class_def ucd_is_lower_class_def upper_cp_def lower_cp_def mark_cp_def)

subsection \<open>The loops on encoded text\<close>

lemma scan_while_utf8:
  assumes "\<forall>c \<in> set cs. scalar c" and "\<forall>c \<in> set cs. P c = Some (Q c)"
  shows "scan_while P (utf8 cs) = Some (utf8 (dropWhile Q cs))"
  using assms
proof (induction cs)
  case Nil
  then show ?case by (simp add: scan_while.simps)
next
  case (Cons c cs)
  then show ?case by (subst scan_while.simps) (simp add: utf8_decode_encode)
qed

end
