(* ===== verification/Pretok_Regex.thy ===== *)
theory Pretok_Regex
  imports Pretok
begin

text \<open>
  The reference for the pretokenizers: regular expressions over code points with the
  backtracking semantics of PCRE. \<open>rests r cs\<close> lists what is left of \<open>cs\<close> after each
  way to match \<open>r\<close> at its start, in the order in which a backtracking matcher tries them
  (the left alternative first, greedy repetitions first longest). The match is the first of them.
\<close>

datatype rx = Cls "u32 \<Rightarrow> bool" | Star "u32 \<Rightarrow> bool" | Eos | Opt rx | Seq rx rx | Alt rx rx

fun star_rests :: "(u32 \<Rightarrow> bool) \<Rightarrow> u32 list \<Rightarrow> u32 list list" where
  "star_rests P [] = [[]]"
| "star_rests P (c # cs) = (if P c then star_rests P cs else []) @ [c # cs]"

fun rests :: "rx \<Rightarrow> u32 list \<Rightarrow> u32 list list" where
  "rests (Cls P) cs = (case cs of [] \<Rightarrow> [] | c # r \<Rightarrow> if P c then [r] else [])"
| "rests (Star P) cs = star_rests P cs"
| "rests Eos cs = (if cs = [] then [[]] else [])"
| "rests (Opt r) cs = rests r cs @ [cs]"
| "rests (Seq r s) cs = concat (map (rests s) (rests r cs))"
| "rests (Alt r s) cs = rests r cs @ rests s cs"

definition rx_match :: "rx \<Rightarrow> u32 list \<Rightarrow> u32 list option" where
  "rx_match r cs = (case rests r cs of [] \<Rightarrow> None | x # _ \<Rightarrow> Some x)"

definition Plus :: "(u32 \<Rightarrow> bool) \<Rightarrow> rx" where
  "Plus P = Seq (Cls P) (Star P)"

subsection \<open>First matches\<close>

definition first_of :: "'a list \<Rightarrow> 'a option" where
  "first_of xs = (case xs of [] \<Rightarrow> None | x # _ \<Rightarrow> Some x)"

lemma first_of_simps [simp]: "first_of [] = None" "first_of (x # xs) = Some x"
  "first_of (xs @ ys) = (case first_of xs of None \<Rightarrow> first_of ys | Some x \<Rightarrow> Some x)"
  by (auto simp: first_of_def split: list.splits)

lemma rx_match_first: "rx_match r cs = first_of (rests r cs)"
  by (simp add: rx_match_def first_of_def)

lemma first_of_star: "first_of (star_rests P cs) = Some (dropWhile P cs)"
  by (induction cs) (auto split: option.splits)

lemma rx_match_Alt [simp]:
  "rx_match (Alt r s) cs = (case rx_match r cs of None \<Rightarrow> rx_match s cs | Some x \<Rightarrow> Some x)"
  by (simp add: rx_match_first split: option.split)

lemma rx_match_Cls [simp]: "rx_match (Cls P) [] = None" "rx_match (Cls P) (c # cs) = (if P c then Some cs else None)"
  by (simp_all add: rx_match_first)

lemma rx_match_Star [simp]: "rx_match (Star P) cs = Some (dropWhile P cs)"
  by (simp add: rx_match_first first_of_star)

lemma rx_match_Opt [simp]: "rx_match (Opt r) cs = (case rx_match r cs of None \<Rightarrow> Some cs | Some x \<Rightarrow> Some x)"
  by (simp add: rx_match_first split: option.split)

lemma rx_match_Cls_Seq [simp]:
  "rx_match (Seq (Cls P) r) [] = None"
  "rx_match (Seq (Cls P) r) (c # cs) = (if P c then rx_match r cs else None)"
  by (simp_all add: rx_match_first)

lemma rx_match_Plus [simp]:
  "rx_match (Plus P) [] = None"
  "rx_match (Plus P) (c # cs) = (if P c then Some (dropWhile P cs) else None)"
  by (simp_all add: Plus_def)

lemma rests_Plus: "rests (Plus P) cs = (case cs of [] \<Rightarrow> [] | c # r \<Rightarrow> if P c then star_rests P r else [])"
  by (simp add: Plus_def split: list.splits)

lemma rx_match_Opt_Seq:
  "rx_match (Seq (Opt (Cls P)) r) cs =
     (case cs of [] \<Rightarrow> rx_match r []
      | c # ds \<Rightarrow> if P c then (case rx_match r ds of None \<Rightarrow> rx_match r cs | Some x \<Rightarrow> Some x)
                 else rx_match r cs)"
  by (simp add: rx_match_first split: list.split option.split)

lemma rx_match_Plus_Seq:
  "rx_match (Seq (Plus P) r) cs =
     (case cs of [] \<Rightarrow> None | c # ds \<Rightarrow> if P c then rx_match (Seq (Star P) r) ds else None)"
  by (simp add: rx_match_first rests_Plus split: list.splits)

text \<open>A match leaves a suffix, and a proper one when the expression cannot match nothing.\<close>

lemma star_rests_suffix: "x \<in> set (star_rests P cs) \<Longrightarrow> suffix x cs"
  by (induction cs) (auto split: if_splits intro: suffix_ConsI)

lemma rests_suffix: "x \<in> set (rests r cs) \<Longrightarrow> suffix x cs"
proof (induction r arbitrary: cs x)
  case (Cls P)
  then show ?case by (cases cs) (auto split: if_splits intro: suffix_ConsI)
next
  case (Seq r s)
  then obtain y where "y \<in> set (rests r cs)" "x \<in> set (rests s y)" by auto
  then show ?case using Seq.IH by (meson suffix_order.trans)
qed (auto split: if_splits intro: star_rests_suffix)

lemma rx_match_suffix: "rx_match r cs = Some x \<Longrightarrow> suffix x cs"
  using rests_suffix [of x r cs] by (auto simp: rx_match_def split: list.splits)

fun consuming :: "rx \<Rightarrow> bool" where
  "consuming (Cls P) = True"
| "consuming (Seq r s) = (consuming r \<or> consuming s)"
| "consuming (Alt r s) = (consuming r \<and> consuming s)"
| "consuming _ = False"

lemma rests_consuming: "consuming r \<Longrightarrow> x \<in> set (rests r cs) \<Longrightarrow> length x < length cs"
proof (induction r arbitrary: cs x)
  case (Cls P)
  then show ?case by (cases cs) (auto split: if_splits)
next
  case (Seq r s)
  then obtain y where y: "y \<in> set (rests r cs)" "x \<in> set (rests s y)" by auto
  then have "length y \<le> length cs" "length x \<le> length y" using rests_suffix suffix_length_le by blast+
  moreover have "length y < length cs \<or> length x < length y" using Seq y by auto
  ultimately show ?case by linarith
qed auto

lemma rx_match_consuming: "consuming r \<Longrightarrow> rx_match r cs = Some x \<Longrightarrow> length x < length cs"
  using rests_consuming [of r x cs] by (auto simp: rx_match_def split: list.splits)

text \<open>What may follow a greedy repetition.\<close>

lemma rx_match_star_Seq:
  "rx_match (Seq (Star P) r) [] = rx_match r []"
  "rx_match (Seq (Star P) r) (c # cs) =
     (if P c then (case rx_match (Seq (Star P) r) cs of None \<Rightarrow> rx_match r (c # cs) | Some x \<Rightarrow> Some x)
      else rx_match r (c # cs))"
  by (simp_all add: rx_match_first split: option.split)

lemma star_then_Star:
  "rx_match (Seq (Star P) (Star Q)) cs = Some (dropWhile Q (dropWhile P cs))"
proof -
  have "first_of (concat (map (rests (Star Q)) (star_rests P cs))) = Some (dropWhile Q (dropWhile P cs))"
    by (induction cs) (simp_all add: first_of_star)
  then show ?thesis by (simp add: rx_match_first)
qed

lemma star_then_Eos: "rx_match (Seq (Star P) Eos) cs = (if \<forall>c \<in> set cs. P c then Some [] else None)"
proof -
  have "first_of (concat (map (rests Eos) (star_rests P cs))) = (if \<forall>c \<in> set cs. P c then Some [] else None)"
    by (induction cs) (simp_all split: option.split)
  then show ?thesis by (simp add: rx_match_first)
qed

lemma star_then_Cls:
  "rx_match (Seq (Star P) (Cls P)) cs =
     (case cs of [] \<Rightarrow> None | c # r \<Rightarrow> if P c then Some (dropWhile P r) else None)"
proof -
  have "first_of (concat (map (rests (Cls P)) (star_rests P cs))) =
      (case cs of [] \<Rightarrow> None | c # r \<Rightarrow> if P c then Some (dropWhile P r) else None)"
    by (induction cs) (auto split: option.splits list.splits)
  then show ?thesis by (simp add: rx_match_first)
qed

lemma star_then_Plus:
  assumes "\<And>c. P c \<Longrightarrow> \<not> Q c"
  shows "rx_match (Seq (Star P) (Plus Q)) cs = rx_match (Plus Q) (dropWhile P cs)"
proof -
  have "first_of (concat (map (rests (Plus Q)) (star_rests P cs))) = first_of (rests (Plus Q) (dropWhile P cs))"
    by (induction cs) (auto simp: rests_Plus assms split: option.splits)
  then show ?thesis by (simp add: rx_match_first)
qed

subsection \<open>The patterns the two pretokenizers share\<close>

text \<open>Letters of the contractions match in both cases: the code compares ASCII letters; in the
  documented expression \<^verbatim>\<open>(?i:...)\<close> also folds U+017F to \<^verbatim>\<open>s\<close>, the one code point outside ASCII in
  the caseless sets of these letters (\<^verbatim>\<open>ucd_caseless_sets\<close> of PCRE2).\<close>

definition ci :: "u32 \<Rightarrow> u32 \<Rightarrow> bool" where
  "ci l c \<longleftrightarrow> c = l \<or> c = l - 0x20"

definition ci_unicode :: "u32 \<Rightarrow> u32 \<Rightarrow> bool" where
  "ci_unicode l c \<longleftrightarrow> ci l c \<or> l = 0x73 \<and> c = 0x17F"

text \<open>\<^verbatim>\<open>(?i:'s|'t|'re|'ve|'m|'ll|'d)\<close>, for a comparison of letters and a set of apostrophes.\<close>

definition contraction_letters_rx :: "(u32 \<Rightarrow> u32 \<Rightarrow> bool) \<Rightarrow> rx" where
  "contraction_letters_rx L =
     (Alt (Cls (L 0x73)) (Alt (Cls (L 0x74)) (Alt (Seq (Cls (L 0x72)) (Cls (L 0x65)))
       (Alt (Seq (Cls (L 0x76)) (Cls (L 0x65))) (Alt (Cls (L 0x6D))
         (Alt (Seq (Cls (L 0x6C)) (Cls (L 0x6C))) (Cls (L 0x64))))))))"

definition contraction_rx :: "(u32 \<Rightarrow> u32 \<Rightarrow> bool) \<Rightarrow> u32 set \<Rightarrow> rx" where
  "contraction_rx L apos = Seq (Cls (\<lambda>c. c \<in> apos)) (contraction_letters_rx L)"

lemma contraction_letters_ascii:
  assumes "cs = [] \<or> hd cs \<noteq> 0x17F"
  shows "rx_match (contraction_letters_rx ci_unicode) cs = rx_match (contraction_letters_rx ci) cs"
proof -
  have "ci_unicode l c = ci l c" if "l \<noteq> 0x73" for l c using that by (simp add: ci_unicode_def)
  then have e: "Cls (ci_unicode l) = Cls (ci l)" if "l \<noteq> 0x73" for l using that by (metis ext)
  have "rx_match (Cls (ci_unicode 0x73)) cs = rx_match (Cls (ci 0x73)) cs"
    using assms by (cases cs) (simp_all add: ci_unicode_def)
  then show ?thesis by (simp add: contraction_letters_rx_def e)
qed

lemma contraction_ascii:
  "take 2 cs \<noteq> [0x27, 0x17F] \<Longrightarrow> rx_match (contraction_rx ci_unicode {0x27}) cs = rx_match (contraction_rx ci {0x27}) cs"
  using contraction_letters_ascii [of "tl cs"]
  by (cases cs; cases "tl cs") (auto simp: contraction_rx_def)

definition prefix_cp :: "ucd_tables \<Rightarrow> u32 \<Rightarrow> bool" where
  "prefix_cp T c \<longleftrightarrow> \<not> ucd_is_newline c \<and> \<not> letter_cp T c \<and> \<not> number_cp T c"

definition other_cp :: "ucd_tables \<Rightarrow> u32 \<Rightarrow> bool" where
  "other_cp T c \<longleftrightarrow> \<not> ucd_is_whitespace c \<and> \<not> letter_cp T c \<and> \<not> number_cp T c"

definition numbers_rx :: "ucd_tables \<Rightarrow> rx" where
  "numbers_rx T = Seq (Cls (number_cp T)) (Opt (Seq (Cls (number_cp T)) (Opt (Cls (number_cp T)))))"

definition newlines_rx :: rx where
  "newlines_rx = Seq (Star ucd_is_whitespace) (Plus ucd_is_newline)"

definition trailing_rx :: rx where
  "trailing_rx = Seq (Plus ucd_is_whitespace) Eos"

text \<open>Patterns 1 and 2, tried after pattern 0.\<close>

definition spaces2_rx :: rx where
  "spaces2_rx = Seq (Plus ucd_is_whitespace) (Cls ucd_is_whitespace)"

text \<open>The first pattern that matches, with its number and whether the last code point is given back.\<close>

definition first_pattern ::
    "u32 list option \<Rightarrow> u32 list option \<Rightarrow> u32 list option \<Rightarrow> (u32 list \<times> nat \<times> bool) option" where
  "first_pattern r0 r1 r2 =
     (case r0 of Some r \<Rightarrow> Some (r, 0, False)
      | None \<Rightarrow> (case r1 of Some r \<Rightarrow> Some (r, 1, True)
         | None \<Rightarrow> (case r2 of Some r \<Rightarrow> Some (r, 2, False) | None \<Rightarrow> None)))"

definition three_patterns :: "rx \<Rightarrow> u32 list \<Rightarrow> (u32 list \<times> nat \<times> bool) option" where
  "three_patterns p0 cs =
     first_pattern (rx_match p0 cs) (rx_match spaces2_rx cs) (rx_match (Plus ucd_is_whitespace) cs)"

lemma newline_space: "ucd_is_newline c \<Longrightarrow> ucd_is_whitespace c"
  by (auto simp: ucd_is_newline_def ucd_is_whitespace_def)

text \<open>White space with two runs of newlines is where the code stops early.\<close>

definition split_newlines :: "u32 list \<Rightarrow> bool" where
  "split_newlines cs \<longleftrightarrow>
     (\<exists>c \<in> set (takeWhile ucd_is_whitespace
         (dropWhile ucd_is_newline (dropWhile (\<lambda>c. ucd_is_whitespace c \<and> \<not> ucd_is_newline c) cs))).
       ucd_is_newline c)"

lemma newlines_Cons:
  "rx_match newlines_rx (c # cs) =
     (if ucd_is_whitespace c then (case rx_match newlines_rx cs of None \<Rightarrow> rx_match (Plus ucd_is_newline) (c # cs)
                                   | Some x \<Rightarrow> Some x)
      else rx_match (Plus ucd_is_newline) (c # cs))"
  unfolding newlines_rx_def by (rule rx_match_star_Seq(2))

text \<open>What the code matches: white space up to the first run of newlines.\<close>

definition one_run_rx :: rx where
  "one_run_rx = Seq (Star (\<lambda>c. ucd_is_whitespace c \<and> \<not> ucd_is_newline c)) (Plus ucd_is_newline)"

lemma rx_match_one_run:
  "rx_match one_run_rx cs =
     rx_match (Plus ucd_is_newline) (dropWhile (\<lambda>c. ucd_is_whitespace c \<and> \<not> ucd_is_newline c) cs)"
  unfolding one_run_rx_def by (rule star_then_Plus) simp

lemma newlines_none:
  "\<forall>c \<in> set (takeWhile ucd_is_whitespace cs). \<not> ucd_is_newline c \<Longrightarrow> rx_match newlines_rx cs = None"
proof (induction cs)
  case Nil
  then show ?case by (simp add: newlines_rx_def rx_match_first rests_Plus)
next
  case (Cons c cs)
  then show ?case
    using newline_space [of c] by (cases "ucd_is_whitespace c") (auto simp: newlines_Cons)
qed

lemma newlines_run:
  assumes "\<forall>c \<in> set (takeWhile ucd_is_whitespace (dropWhile ucd_is_newline cs)). \<not> ucd_is_newline c"
  shows "rx_match newlines_rx cs = rx_match (Plus ucd_is_newline) cs"
  using assms
proof (induction cs)
  case Nil
  then show ?case by (simp add: newlines_none)
next
  case (Cons c cs)
  show ?case
  proof (cases "ucd_is_newline c")
    case False
    then have e: "dropWhile ucd_is_newline (c # cs) = c # cs" by simp
    have "\<forall>d \<in> set (takeWhile ucd_is_whitespace (c # cs)). \<not> ucd_is_newline d"
      using Cons.prems unfolding e .
    then have "rx_match newlines_rx (c # cs) = None" by (rule newlines_none)
    then show ?thesis using False by simp
  next
    case True
    then have e: "dropWhile ucd_is_newline (c # cs) = dropWhile ucd_is_newline cs" by simp
    have "rx_match newlines_rx cs = rx_match (Plus ucd_is_newline) cs"
      by (rule Cons.IH [OF Cons.prems [unfolded e]])
    then have "rx_match newlines_rx (c # cs) =
        (case rx_match (Plus ucd_is_newline) cs of None \<Rightarrow> rx_match (Plus ucd_is_newline) (c # cs) | Some x \<Rightarrow> Some x)"
      using newline_space [OF True] by (simp only: newlines_Cons if_True)
    then show ?thesis using True by (cases cs) (simp_all split: if_splits)
  qed
qed

lemma newlines_one_run:
  "\<not> split_newlines cs \<Longrightarrow> rx_match newlines_rx cs = rx_match one_run_rx cs"
  unfolding rx_match_one_run
proof (induction cs)
  case Nil
  then show ?case by (simp add: newlines_none)
next
  case (Cons c cs)
  show ?case
  proof (cases "ucd_is_whitespace c \<and> \<not> ucd_is_newline c")
    case True
    then have "rx_match (Plus ucd_is_newline) (c # cs) = None" using True by simp
    then have "rx_match newlines_rx (c # cs) = rx_match newlines_rx cs"
      using True by (simp only: newlines_Cons if_True split: option.split) simp
    moreover have e: "dropWhile (\<lambda>c. ucd_is_whitespace c \<and> \<not> ucd_is_newline c) (c # cs) =
        dropWhile (\<lambda>c. ucd_is_whitespace c \<and> \<not> ucd_is_newline c) cs"
      using True by simp
    moreover have "\<not> split_newlines cs" using Cons.prems unfolding split_newlines_def e .
    ultimately show ?thesis using Cons.IH unfolding e by metis
  next
    case False
    then have e: "dropWhile (\<lambda>c. ucd_is_whitespace c \<and> \<not> ucd_is_newline c) (c # cs) = c # cs" by auto
    have "rx_match newlines_rx (c # cs) = rx_match (Plus ucd_is_newline) (c # cs)"
      using Cons.prems unfolding split_newlines_def e by (intro newlines_run) blast
    then show ?thesis unfolding e .
  qed
qed

lemma rx_match_trailing:
  "rx_match trailing_rx cs = (if cs \<noteq> [] \<and> (\<forall>c \<in> set cs. ucd_is_whitespace c) then Some [] else None)"
  unfolding trailing_rx_def by (cases cs) (simp_all add: rx_match_Plus_Seq star_then_Eos)

lemma rx_match_spaces2:
  "rx_match spaces2_rx cs =
     (case cs of c # d # r \<Rightarrow> if ucd_is_whitespace c \<and> ucd_is_whitespace d then Some (dropWhile ucd_is_whitespace r) else None
      | _ \<Rightarrow> None)"
  unfolding spaces2_rx_def by (cases cs) (auto simp: rx_match_Plus_Seq star_then_Cls split: list.split)

text \<open>Some pattern matches every nonempty text; what it leaves is a proper suffix, and two code
  points at least are matched when one is given back.\<close>

lemma first_pattern_ok:
  assumes "\<And>r. r0 = Some r \<Longrightarrow> suffix r cs \<and> length r < length cs" and "r1 = None \<or> r1 = rx_match spaces2_rx cs" and "cs \<noteq> []"
    and "\<not> ucd_is_whitespace (hd cs) \<Longrightarrow> r0 \<noteq> None"
  shows "\<exists>m r i la. first_pattern r0 r1 (rx_match (Plus ucd_is_whitespace) cs) = Some (r, i, la) \<and>
    cs = m @ r \<and> m \<noteq> [] \<and> (la \<longrightarrow> 2 \<le> length m)"
proof -
  show ?thesis
  proof (cases r0)
    case (Some r)
    then obtain m where "cs = m @ r" "m \<noteq> []"
      using assms(1) by (metis append_Nil less_irrefl suffixE)
    then show ?thesis using Some by (auto simp: first_pattern_def)
  next
    case None
    then obtain c cs' where c: "cs = c # cs'" "ucd_is_whitespace c" using assms(3,4) by (cases cs) auto
    show ?thesis
    proof (cases r1)
      case None
      have "rx_match (Plus ucd_is_whitespace) cs = Some (dropWhile ucd_is_whitespace cs')" using c by simp
      then have "first_pattern (r0) r1 (rx_match (Plus ucd_is_whitespace) cs) =
          Some (dropWhile ucd_is_whitespace cs', 2, False)"
        using \<open>r0 = None\<close> None by (simp add: first_pattern_def)
      moreover have "cs = (c # takeWhile ucd_is_whitespace cs') @ dropWhile ucd_is_whitespace cs'" using c by simp
      ultimately show ?thesis by (metis list.distinct(1))
    next
      case (Some r)
      then have sp: "rx_match spaces2_rx cs = Some r" using assms(2) by simp
      then obtain d r2 where d: "cs' = d # r2" "r = dropWhile ucd_is_whitespace r2"
        using c by (auto simp: rx_match_spaces2 split: list.splits if_splits)
      then have "cs = (c # d # takeWhile ucd_is_whitespace r2) @ r" using c by simp
      moreover have "first_pattern (r0) r1 (rx_match (Plus ucd_is_whitespace) cs) = Some (r, 1, True)"
        using \<open>r0 = None\<close> Some by (simp add: first_pattern_def)
      moreover have "2 \<le> length (c # d # takeWhile ucd_is_whitespace r2)" by simp
      ultimately show ?thesis by (metis list.distinct(1))
    qed
  qed
qed

end
