(* ===== verification/Pretok_Cl100k.thy ===== *)
theory Pretok_Cl100k
  imports Pretok_Regex
begin

text \<open>
  The pretokenizer of \<^verbatim>\<open>src/pretok_cl100k.c\<close>, function by function, and its relation to the
  regular expression its header comment gives. On UTF-8 text it implements that expression
  except in four places, which the second half states: the typographic apostrophe, the long s
  (U+017F) after an apostrophe, white space with more than one run of newlines, and the test for a
  single white space in pattern 1.
\<close>

unbundle bit_operations_syntax

subsection \<open>Code\<close>

text \<open>The letters after the apostrophe: how many bytes match, 0 if they do not.\<close>

definition contraction_letters :: "bytes \<Rightarrow> nat" where
  "contraction_letters after_apos =
     (if after_apos = [] then 0
      else let c = after_apos ! 0 OR 0x20;
               next = (\<lambda>b. 1 < length after_apos \<and> after_apos ! 1 OR 0x20 = b)
           in if c = 0x73 \<or> c = 0x74 \<or> c = 0x6D \<or> c = 0x64 then 1
              else if c = 0x72 then (if next 0x65 then 2 else 0)
              else if c = 0x76 then (if next 0x65 then 2 else 0)
              else if c = 0x6C then (if next 0x6C then 2 else 0)
              else 0)"

definition try_contraction :: "bytes \<Rightarrow> nat" where
  "try_contraction p =
     (if length p < 2 then 0
      else let apos_len = (if p ! 0 = 0x27 then 1
                           else if p ! 0 = 0xE2 \<and> 3 \<le> length p \<and> p ! 1 = 0x80 \<and> p ! 2 = 0x99 then 3
                           else 0);
               n = contraction_letters (drop apos_len p)
           in if apos_len = 0 \<or> n = 0 then 0 else apos_len + n)"

text \<open>Each pattern returns \<open>Some None\<close> for \<^verbatim>\<open>false\<close>; \<open>None\<close> is a table lookup out of range.\<close>

definition p0_contraction :: "bytes \<Rightarrow> nat \<Rightarrow> pretok_match option option" where
  "p0_contraction text offset =
     (let n = try_contraction (drop offset text)
      in Some (if n = 0 then None
               else Some \<lparr>m_start = offset, m_end = offset + n, pattern_id = 0, lookahead = False\<rparr>))"

definition letters_start :: "ucd_tables \<Rightarrow> bytes \<Rightarrow> bytes option" where
  "letters_start T p = (case utf8_decode p of None \<Rightarrow> Some p
     | Some (cp, clen) \<Rightarrow> do {
         ok \<leftarrow> is_prefix_cp T cp;
         if ok then (case utf8_decode (drop clen p) of None \<Rightarrow> Some p
                     | Some (cp2, _) \<Rightarrow> map_option (\<lambda>l. if l then drop clen p else p) (ucd_is_letter T cp2))
         else Some p
       })"

definition p0_letters :: "ucd_tables \<Rightarrow> bytes \<Rightarrow> nat \<Rightarrow> pretok_match option option" where
  "p0_letters T text offset = do {
     letter_start \<leftarrow> letters_start T (drop offset text);
     q \<leftarrow> scan_while (ucd_is_letter T) letter_start;
     Some (if length q = length letter_start then None else Some (match_to text offset q))
   }"

text \<open>\<^verbatim>\<open>while (p < end && count < 3)\<close>, with the number of rounds left.\<close>

fun scan_upto :: "(u32 \<Rightarrow> bool option) \<Rightarrow> nat \<Rightarrow> bytes \<Rightarrow> (bytes \<times> nat) option" where
  "scan_upto P 0 p = Some (p, 0)"
| "scan_upto P (Suc k) p = (case utf8_decode p of None \<Rightarrow> Some (p, 0)
     | Some (cp, clen) \<Rightarrow> do {
         ok \<leftarrow> P cp;
         if ok then map_option (\<lambda>(q, n). (q, n + 1)) (scan_upto P k (drop clen p)) else Some (p, 0)
       })"

definition p0_numbers :: "ucd_tables \<Rightarrow> bytes \<Rightarrow> nat \<Rightarrow> pretok_match option option" where
  "p0_numbers T text offset = do {
     (p, cnt) \<leftarrow> scan_upto (ucd_is_number T) 3 (drop offset text);
     Some (if cnt = 0 then None else Some (match_to text offset p))
   }"

text \<open>The optional space of \<^verbatim>\<open>p0_punct\<close>, and the run that must follow.\<close>

definition punct_start :: "ucd_tables \<Rightarrow> bytes \<Rightarrow> bytes option" where
  "punct_start T p =
     (if p \<noteq> [] \<and> p ! 0 = 0x20 \<and> 1 < length p
      then (case utf8_decode (tl p) of None \<Rightarrow> Some p
            | Some (cp2, _) \<Rightarrow> map_option (\<lambda>w. if w then p else tl p) (is_word_or_space T cp2))
      else Some p)"

definition punct_run :: "ucd_tables \<Rightarrow> bytes \<Rightarrow> bytes option" where
  "punct_run T p = scan_while (\<lambda>cp. map_option Not (is_word_or_space T cp)) p"

definition p0_punct :: "ucd_tables \<Rightarrow> bytes \<Rightarrow> nat \<Rightarrow> pretok_match option option" where
  "p0_punct T text offset = do {
     run_start \<leftarrow> punct_start T (drop offset text);
     p \<leftarrow> punct_run T run_start;
     Some (if length p = length run_start then None
           else Some (match_to text offset (dropWhile is_crlf_byte p)))
   }"

text \<open>The second loop of \<^verbatim>\<open>p0_ws_newlines\<close> (the first computes \<^verbatim>\<open>ws_end\<close>, which is not used):
  \<open>None\<close> when a code point that is not white space comes before a newline.\<close>

function skip_to_newline :: "bytes \<Rightarrow> bytes option" where
  "skip_to_newline q = (case utf8_decode q of None \<Rightarrow> Some q
     | Some (cp, clen) \<Rightarrow>
         if ucd_is_newline cp then Some q
         else if \<not> ucd_is_whitespace cp then None
         else skip_to_newline (drop clen q))"
  by pat_completeness auto
termination
  by (relation "measure length") (auto dest: utf8_decode_len)

definition p0_ws_newlines :: "bytes \<Rightarrow> nat \<Rightarrow> pretok_match option option" where
  "p0_ws_newlines text offset =
     Some (case skip_to_newline (drop offset text) of None \<Rightarrow> None
           | Some q \<Rightarrow> if q = [] then None else Some (match_to text offset (dropWhile is_crlf_byte q)))"

definition space_run :: "bytes \<Rightarrow> bytes option" where
  "space_run q = scan_while (\<lambda>cp. Some (ucd_is_whitespace cp)) q"

definition p0_trailing_ws :: "bytes \<Rightarrow> nat \<Rightarrow> pretok_match option option" where
  "p0_trailing_ws text offset = do {
     let p = drop offset text;
     q \<leftarrow> space_run p;
     Some (if q \<noteq> [] then None else if length q = length p then None
           else Some \<lparr>m_start = offset, m_end = length text, pattern_id = 0, lookahead = False\<rparr>)
   }"

text \<open>The loop of \<^verbatim>\<open>p1_ws_lookahead\<close> leaves in \<^verbatim>\<open>clen\<close> the length of the last code point it decoded,
  be it white space or not.\<close>

function space_run_len :: "bytes \<Rightarrow> nat \<Rightarrow> bytes \<times> nat" where
  "space_run_len q clen = (case utf8_decode q of None \<Rightarrow> (q, clen)
     | Some (cp, clen) \<Rightarrow> if \<not> ucd_is_whitespace cp then (q, clen) else space_run_len (drop clen q) clen)"
  by pat_completeness auto
termination
  by (relation "measure (length \<circ> fst)") (auto dest: utf8_decode_len)

definition p1_ws_lookahead :: "bytes \<Rightarrow> nat \<Rightarrow> pretok_match option option" where
  "p1_ws_lookahead text offset = Some (let p = drop offset text in case utf8_decode p of None \<Rightarrow> None
     | Some (cp, first_len) \<Rightarrow>
         if \<not> ucd_is_whitespace cp then None
         else let (q, clen) = space_run_len (drop first_len p) first_len;
                  match_end = length text - length q
              in if match_end - offset \<le> clen \<and> length p - length q = clen then None
                 else if length p - length q \<le> first_len then None
                 else Some \<lparr>m_start = offset, m_end = match_end, pattern_id = 1, lookahead = True\<rparr>)"

definition p2_ws :: "bytes \<Rightarrow> nat \<Rightarrow> pretok_match option option" where
  "p2_ws text offset = (let p = drop offset text in case utf8_decode p of None \<Rightarrow> Some None
     | Some (cp, clen) \<Rightarrow>
         if \<not> ucd_is_whitespace cp then Some None
         else map_option (\<lambda>q. Some ((match_to text offset q)\<lparr>pattern_id := 2\<rparr>)) (space_run (drop clen p)))"

text \<open>\<^verbatim>\<open>if (f(...)) return true;\<close> followed by the next alternative.\<close>

definition or_try :: "'a option option \<Rightarrow> 'a option option \<Rightarrow> 'a option option" where
  "or_try r s = (case r of Some None \<Rightarrow> s | _ \<Rightarrow> r)"

definition pretok_cl100k :: "ucd_tables \<Rightarrow> bytes \<Rightarrow> nat \<Rightarrow> pretok_match option option" where
  "pretok_cl100k T text offset =
     (if length text \<le> offset then Some None
      else or_try (p0_contraction text offset)
        (or_try (p0_letters T text offset)
          (or_try (p0_numbers T text offset)
            (or_try (p0_punct T text offset)
              (or_try (p0_ws_newlines text offset)
                (or_try (p0_trailing_ws text offset)
                  (or_try (p1_ws_lookahead text offset) (p2_ws text offset))))))))"

declare skip_to_newline.simps [simp del] space_run_len.simps [simp del]

lemma or_try_simps [simp]: "or_try None s = None" "or_try (Some None) s = s" "or_try (Some (Some x)) s = Some (Some x)"
  by (simp_all add: or_try_def)

subsection \<open>Loops on encoded text\<close>

lemma scan_upto_3:
  assumes "\<forall>c \<in> set cs. scalar c" and "\<forall>c \<in> set cs. P c = Some (Q c)"
  shows "scan_upto P k (utf8 cs) =
    Some (utf8 (drop (length (takeWhile Q (take k cs))) cs), length (takeWhile Q (take k cs)))"
  using assms
proof (induction k arbitrary: cs)
  case 0
  then show ?case by simp
next
  case (Suc k)
  then show ?case by (cases cs) (simp_all add: utf8_decode_encode)
qed

text \<open>The first byte of a code point is an ASCII byte iff the code point is that character.\<close>

lemma hd_utf8_encode:
  assumes "scalar c" and "b < 0x80"
  shows "hd (utf8_encode c) = b \<longleftrightarrow> c = ucast b"
proof
  assume h: "hd (utf8_encode c) = b"
  then have "utf8_decode (utf8_encode c @ []) = Some (ucast b, 1)"
    using assms(2) by (cases "utf8_encode c") (auto simp: utf8_decode_def)
  then show "c = ucast b" using utf8_decode_encode [OF assms(1), of "[]"] by simp
next
  assume c: "c = ucast b"
  then have "c < 0x80" using assms(2) by (simp add: word_less_nat_alt unsigned_ucast_eq take_bit_nat_def)
  moreover have "ucast (ucast b :: u32) = b" by (rule bit_word_eqI) (auto simp: bit_simps)
  ultimately show "hd (utf8_encode c) = b" using c by (simp add: utf8_encode_def)
qed

lemma crlf_encode: "scalar c \<Longrightarrow> is_crlf_byte (hd (utf8_encode c)) = ucd_is_newline c"
  by (simp add: is_crlf_byte_def hd_utf8_encode ucd_is_newline_def)

lemma dropWhile_crlf:
  "\<forall>c \<in> set cs. scalar c \<Longrightarrow> dropWhile is_crlf_byte (utf8 cs) = utf8 (dropWhile ucd_is_newline cs)"
proof (induction cs)
  case (Cons c cs)
  show ?case
  proof (cases "ucd_is_newline c")
    case True
    then have "utf8_encode c = [ucast c]" by (auto simp: utf8_encode_def ucd_is_newline_def)
    then show ?thesis using Cons True crlf_encode [of c] by simp
  next
    case False
    then have "\<not> is_crlf_byte (hd (utf8_encode c))" using Cons.prems crlf_encode [of c] by simp
    then have "dropWhile is_crlf_byte (utf8_encode c @ utf8 cs) = utf8_encode c @ utf8 cs"
      by (cases "utf8_encode c") simp_all
    then show ?thesis using False by simp
  qed
qed simp

lemma skip_to_newline_utf8:
  "\<forall>c \<in> set cs. scalar c \<Longrightarrow> skip_to_newline (utf8 cs) =
     (case dropWhile (\<lambda>c. ucd_is_whitespace c \<and> \<not> ucd_is_newline c) cs of [] \<Rightarrow> Some []
      | c # r \<Rightarrow> if ucd_is_newline c then Some (utf8 (c # r)) else None)"
proof (induction cs)
  case Nil
  then show ?case by (simp add: skip_to_newline.simps)
next
  case (Cons c cs)
  then show ?case by (subst skip_to_newline.simps) (simp add: utf8_decode_encode)
qed

lemma space_run_utf8:
  "\<forall>c \<in> set cs. scalar c \<Longrightarrow> space_run (utf8 cs) = Some (utf8 (dropWhile ucd_is_whitespace cs))"
  unfolding space_run_def by (rule scan_while_utf8) simp_all

text \<open>After the loop of pattern 1 \<^verbatim>\<open>clen\<close> is the length of the code point that stopped it.\<close>

lemma space_run_len_utf8:
  "\<forall>c \<in> set cs. scalar c \<Longrightarrow> fst (space_run_len (utf8 cs) n) = utf8 (dropWhile ucd_is_whitespace cs) \<and>
     snd (space_run_len (utf8 cs) n) =
       (case dropWhile ucd_is_whitespace cs of c # _ \<Rightarrow> length (utf8_encode c)
        | [] \<Rightarrow> if cs = [] then n else length (utf8_encode (last cs)))"
proof (induction cs arbitrary: n)
  case Nil
  then show ?case by (simp add: space_run_len.simps)
next
  case (Cons c cs)
  have e: "space_run_len (utf8 (c # cs)) n =
      (if ucd_is_whitespace c then space_run_len (utf8 cs) (length (utf8_encode c))
       else (utf8 (c # cs), length (utf8_encode c)))"
    using Cons.prems by (subst space_run_len.simps) (simp add: utf8_decode_encode)
  show ?case using Cons.IH [of "length (utf8_encode c)"] Cons.prems unfolding e
    by (cases "ucd_is_whitespace c"; cases "dropWhile ucd_is_whitespace cs"; simp del: dropWhile_eq_Nil_conv)
qed

subsection \<open>The alternatives on encoded text\<close>

text \<open>The match that leaves \<open>r\<close> of the code points \<open>cs\<close> after \<open>ds\<close>.\<close>

definition on_match :: "u32 list \<Rightarrow> u32 list \<Rightarrow> u32 list \<times> nat \<times> bool \<Rightarrow> pretok_match" where
  "on_match ds cs = (\<lambda>(r, i, la). \<lparr>m_start = length (utf8 ds),
     m_end = length (utf8 (ds @ cs)) - length (utf8 r), pattern_id = i, lookahead = la\<rparr>)"

abbreviation (input) matches :: "u32 list \<Rightarrow> u32 list \<Rightarrow> nat \<Rightarrow> bool \<Rightarrow> u32 list option \<Rightarrow> pretok_match option option" where
  "matches ds cs i la r \<equiv> Some (map_option (\<lambda>r. on_match ds cs (r, i, la)) r)"

lemma match_to_utf8: "match_to (utf8 (ds @ cs)) (length (utf8 ds)) (utf8 r) = on_match ds cs (r, 0, False)"
  by (simp add: match_to_def on_match_def)

lemma drop_text: "drop (length (utf8 ds)) (utf8 (ds @ cs)) = utf8 cs"
  by simp

definition letters_rx :: "ucd_tables \<Rightarrow> rx" where
  "letters_rx T = Seq (Opt (Cls (prefix_cp T))) (Plus (letter_cp T))"

definition punct_rx :: "ucd_tables \<Rightarrow> (u32 \<Rightarrow> bool) \<Rightarrow> rx" where
  "punct_rx T nl = Seq (Opt (Cls (\<lambda>c. c = 0x20))) (Seq (Plus (other_cp T)) (Star nl))"

lemma length_utf8_dropWhile: "length (utf8 (dropWhile P cs)) = length (utf8 cs) \<longleftrightarrow> dropWhile P cs = cs"
proof -
  have "utf8 cs = utf8 (takeWhile P cs) @ utf8 (dropWhile P cs)" by (metis utf8_simps(3) takeWhile_dropWhile_id)
  then show ?thesis by (metis append_Nil append_self_conv2 length_append add_cancel_left_left length_0_conv takeWhile_dropWhile_id utf8_Nil_iff)
qed

lemma dropWhile_neq [simp]: "dropWhile P cs \<noteq> c # cs" "dropWhile P cs \<noteq> c # d # cs"
  using length_dropWhile_le [of P cs] by (metis Suc_n_not_le_n Suc_leD length_Cons)+

lemma p0_letters_utf8:
  assumes "ucd_ok T" and "\<forall>c \<in> set cs. scalar c"
  shows "p0_letters T (utf8 (ds @ cs)) (length (utf8 ds)) = matches ds cs 0 False (rx_match (letters_rx T) cs)"
proof -
  have s: "scan_while (ucd_is_letter T) (utf8 xs) = Some (utf8 (dropWhile (letter_cp T) xs))" if "set xs \<subseteq> set cs" for xs
    using that assms ucd_lookups(1) by (intro scan_while_utf8) auto
  show ?thesis
  proof (cases cs)
    case Nil
    then show ?thesis using s [of "[]"]
      by (simp add: p0_letters_def letters_start_def letters_rx_def rx_match_Opt_Seq)
  next
    case (Cons c r)
    define xs where "xs = (if prefix_cp T c \<and> r \<noteq> [] \<and> letter_cp T (hd r) then r else cs)"
    have "is_prefix_cp T c = Some (prefix_cp T c)" using ucd_lookups(4) [OF assms(1)] assms(2) Cons
      by (simp add: prefix_cp_def)
    then have "letters_start T (utf8 cs) = Some (utf8 xs)"
      using assms ucd_lookups(1) [OF assms(1)] Cons
      by (cases r) (simp_all add: letters_start_def utf8_decode_utf8 xs_def)
    moreover have "scan_while (ucd_is_letter T) (utf8 xs) = Some (utf8 (dropWhile (letter_cp T) xs))"
      using Cons by (intro s) (auto simp: xs_def)
    ultimately have "p0_letters T (utf8 (ds @ cs)) (length (utf8 ds)) =
        matches ds cs 0 False (if dropWhile (letter_cp T) xs = xs then None else Some (dropWhile (letter_cp T) xs))"
      by (simp add: p0_letters_def drop_text length_utf8_dropWhile match_to_utf8 del: utf8_simps)
    moreover have "rx_match (letters_rx T) cs =
        (if dropWhile (letter_cp T) xs = xs then None else Some (dropWhile (letter_cp T) xs))"
      using Cons by (cases r) (auto simp: letters_rx_def rx_match_Opt_Seq prefix_cp_def xs_def)
    ultimately show ?thesis by simp
  qed
qed

lemma p0_numbers_utf8:
  assumes "ucd_ok T" and "\<forall>c \<in> set cs. scalar c"
  shows "p0_numbers T (utf8 (ds @ cs)) (length (utf8 ds)) = matches ds cs 0 False (rx_match (numbers_rx T) cs)"
proof -
  define n where "n = length (takeWhile (number_cp T) (take 3 cs))"
  have "scan_upto (ucd_is_number T) 3 (utf8 cs) = Some (utf8 (drop n cs), n)"
    unfolding n_def using assms ucd_lookups(2) by (intro scan_upto_3) auto
  then have "p0_numbers T (utf8 (ds @ cs)) (length (utf8 ds)) =
      matches ds cs 0 False (if n = 0 then None else Some (drop n cs))"
    by (simp add: p0_numbers_def drop_text match_to_utf8 del: utf8_simps)
  moreover have "rx_match (numbers_rx T) cs = (if n = 0 then None else Some (drop n cs))"
    by (cases cs; cases "tl cs"; cases "tl (tl cs)")
      (auto simp: numbers_rx_def n_def eval_nat_numeral)
  ultimately show ?thesis by simp
qed

lemma punct_parts:
  assumes "ucd_ok T" and "\<forall>c \<in> set cs. scalar c"
  obtains xs where "set xs \<subseteq> set cs" and "punct_start T (utf8 cs) = Some (utf8 xs)"
    and "punct_run T (utf8 xs) = Some (utf8 (dropWhile (other_cp T) xs))"
    and "\<forall>nl. rx_match (punct_rx T nl) cs =
      (if dropWhile (other_cp T) xs = xs then None else Some (dropWhile nl (dropWhile (other_cp T) xs)))"
proof -
  define xs where "xs = (case cs of c # d # r \<Rightarrow> if c = 0x20 \<and> other_cp T d then d # r else cs | _ \<Rightarrow> cs)"
  have xs: "set xs \<subseteq> set cs" by (auto simp: xs_def split: list.splits)
  have w: "is_word_or_space T c = Some (\<not> other_cp T c)" if "c \<in> set cs" for c
    using that assms ucd_lookups(5) by (simp add: other_cp_def)
  have hd: "utf8_encode c ! 0 = 0x20 \<longleftrightarrow> c = 0x20" if "c \<in> set cs" for c
    using hd_utf8_encode [of c "0x20"] that assms(2) by (simp add: hd_conv_nth)
  have sp: "utf8_encode 0x20 = [0x20]" by (simp add: utf8_encode_def)
  have "punct_start T (utf8 cs) = Some (utf8 xs)"
  proof (cases "\<exists>d r. cs = 0x20 # d # r")
    case True
    then obtain d r where cs: "cs = 0x20 # d # r" by blast
    then show ?thesis using w assms(2) by (simp add: punct_start_def xs_def sp utf8_decode_utf8)
  next
    case False
    then have "utf8 cs = [] \<or> utf8 cs ! 0 \<noteq> 0x20 \<or> length (utf8 cs) \<le> 1" "xs = cs"
      using hd by (cases cs; cases "tl cs"; auto simp: nth_append sp xs_def)+
    then show ?thesis by (auto simp: punct_start_def)
  qed
  moreover have "punct_run T (utf8 xs) = Some (utf8 (dropWhile (other_cp T) xs))"
    unfolding punct_run_def using assms(2) w xs by (intro scan_while_utf8) auto
  moreover have "rx_match (punct_rx T nl) cs =
      (if dropWhile (other_cp T) xs = xs then None else Some (dropWhile nl (dropWhile (other_cp T) xs)))" for nl
    by (cases cs; cases "tl cs") (auto simp: punct_rx_def rx_match_Opt_Seq rx_match_Plus_Seq star_then_Star xs_def)
  ultimately show ?thesis using xs that by blast
qed

lemma p0_punct_utf8:
  assumes "ucd_ok T" and "\<forall>c \<in> set cs. scalar c"
  shows "p0_punct T (utf8 (ds @ cs)) (length (utf8 ds)) =
    matches ds cs 0 False (rx_match (punct_rx T ucd_is_newline) cs)"
proof -
  obtain xs where xs: "set xs \<subseteq> set cs" "punct_start T (utf8 cs) = Some (utf8 xs)"
    "punct_run T (utf8 xs) = Some (utf8 (dropWhile (other_cp T) xs))"
    and rx: "\<forall>nl. rx_match (punct_rx T nl) cs =
      (if dropWhile (other_cp T) xs = xs then None else Some (dropWhile nl (dropWhile (other_cp T) xs)))"
    by (rule punct_parts [OF assms])
  from xs rx [rule_format, of "ucd_is_newline"] show ?thesis
    using dropWhile_crlf [of "dropWhile (other_cp T) xs"] assms(2) set_dropWhileD [of _ "other_cp T" xs]
    by (simp add: p0_punct_def drop_text match_to_utf8 length_utf8_dropWhile subset_iff del: utf8_simps)
qed

lemma p0_ws_newlines_utf8:
  assumes "\<forall>c \<in> set cs. scalar c"
  shows "p0_ws_newlines (utf8 (ds @ cs)) (length (utf8 ds)) = matches ds cs 0 False (rx_match one_run_rx cs)"
proof (cases "dropWhile (\<lambda>c. ucd_is_whitespace c \<and> \<not> ucd_is_newline c) cs")
  case Nil
  then show ?thesis
    using rx_match_one_run [of cs] skip_to_newline_utf8 [OF assms]
    by (simp add: p0_ws_newlines_def del: dropWhile_eq_Nil_conv)
next
  case (Cons c r)
  then have "\<forall>x \<in> set (c # r). scalar x" using assms by (metis set_dropWhileD)
  then show ?thesis
    using rx_match_one_run [of cs] skip_to_newline_utf8 [OF assms] Cons dropWhile_crlf [of "c # r"]
    by (simp add: p0_ws_newlines_def drop_text match_to_utf8 del: utf8_simps)
qed

lemma p0_trailing_ws_utf8:
  assumes "\<forall>c \<in> set cs. scalar c"
  shows "p0_trailing_ws (utf8 (ds @ cs)) (length (utf8 ds)) = matches ds cs 0 False (rx_match trailing_rx cs)"
  using space_run_utf8 [OF assms]
  by (cases cs) (auto simp: p0_trailing_ws_def rx_match_trailing on_match_def Let_def length_utf8_dropWhile)

lemma p2_ws_utf8:
  assumes "\<forall>c \<in> set cs. scalar c"
  shows "p2_ws (utf8 (ds @ cs)) (length (utf8 ds)) = matches ds cs 2 False (rx_match (Plus ucd_is_whitespace) cs)"
proof (cases cs)
  case (Cons c r)
  then show ?thesis using assms space_run_utf8 [of r]
    by (simp add: p2_ws_def utf8_decode_utf8 match_to_def on_match_def)
qed (simp add: p2_ws_def)

text \<open>Pattern 1 fails when the white space happens to be as many bytes long as the code point after it.\<close>

definition space_clash :: "u32 list \<Rightarrow> bool" where
  "space_clash cs \<longleftrightarrow> (case dropWhile ucd_is_whitespace cs of [] \<Rightarrow> False
     | c # _ \<Rightarrow> length (utf8 (takeWhile ucd_is_whitespace cs)) = length (utf8_encode c))"

lemma p1_ws_lookahead_utf8:
  assumes "\<forall>c \<in> set cs. scalar c"
  shows "p1_ws_lookahead (utf8 (ds @ cs)) (length (utf8 ds)) =
    matches ds cs 1 True (if space_clash cs then None else rx_match spaces2_rx cs)"
proof (cases cs)
  case Nil
  then show ?thesis by (simp add: p1_ws_lookahead_def rx_match_spaces2)
next
  case (Cons c r)
  define k where "k = takeWhile ucd_is_whitespace r"
  define r' where "r' = dropWhile ucd_is_whitespace r"
  obtain q clen where q: "space_run_len (utf8 r) (length (utf8_encode c)) = (q, clen)" by fastforce
  have r: "r = k @ r'" by (simp add: k_def r'_def)
  have qc: "q = utf8 r'" "clen = (case r' of d # _ \<Rightarrow> length (utf8_encode d)
      | [] \<Rightarrow> if r = [] then length (utf8_encode c) else length (utf8_encode (last r)))"
    using space_run_len_utf8 [of r "length (utf8_encode c)"] assms Cons q by (auto simp: r'_def)
  have code: "p1_ws_lookahead (utf8 (ds @ cs)) (length (utf8 ds)) =
      matches ds cs 1 True (if \<not> ucd_is_whitespace c \<or> length (utf8 (c # k)) = clen \<or> k = [] then None else Some r')"
    using assms Cons q r
    by (auto simp: p1_ws_lookahead_def utf8_decode_utf8 qc(1) on_match_def Let_def)
  have "(\<not> ucd_is_whitespace c \<or> length (utf8 (c # k)) = clen \<or> k = []) \<longleftrightarrow>
      (\<not> ucd_is_whitespace c \<or> space_clash cs \<or> k = [])"
  proof (cases r')
    case Nil
    then have rk: "r = k" using r by simp
    have "dropWhile ucd_is_whitespace cs = []" if "ucd_is_whitespace c"
      using that Nil Cons by (simp add: r'_def)
    then have "\<not> space_clash cs" if "ucd_is_whitespace c"
      using that unfolding space_clash_def by (simp del: dropWhile_eq_Nil_conv)
    moreover have "length (utf8 (c # k)) \<noteq> clen" if "k \<noteq> []"
    proof -
      have "length (utf8_encode (last k)) \<le> length (utf8 k)"
        using that by (cases k rule: rev_cases) simp_all
      moreover have "clen = length (utf8_encode (last k))" using that rk qc(2) Nil by simp
      ultimately show ?thesis using utf8_encode_nonempty(2) [of c] by (simp only: utf8_simps length_append)
    qed
    ultimately show ?thesis by blast
  next
    case (Cons d r2)
    then show ?thesis using qc(2) \<open>cs = c # r\<close> by (auto simp: space_clash_def r'_def k_def)
  qed
  moreover have "rx_match spaces2_rx cs = (if \<not> ucd_is_whitespace c \<or> k = [] then None else Some r')"
    using Cons by (cases r) (auto simp: rx_match_spaces2 k_def r'_def)
  ultimately show ?thesis unfolding code by auto
qed

text \<open>The contraction, with both apostrophes.\<close>

lemma or_case_bit:
  assumes "bit (L :: byte) 5"
  shows "b OR 0x20 = L \<longleftrightarrow> b = L \<or> b = L AND NOT 0x20"
proof -
  have m: "bit (0x20 :: byte) n = (n = 5)" for n
    by (cases "n < 8"; auto simp: numeral_eq_Suc less_Suc_eq dest: bit_imp_le_length)
  have l: "bit (b OR 0x20) n = (bit b n \<or> n = 5)" "bit (L AND NOT 0x20) n = (bit L n \<and> n \<noteq> 5)" for n
    using bit_imp_le_length [of L n] by (auto simp only: bit_or_iff bit_and_iff bit_not_iff m possible_bit_word)
  show ?thesis
  proof (intro iffI)
    assume "b OR 0x20 = L"
    then have bl: "bit L n = (bit b n \<or> n = 5)" for n using l(1) by blast
    show "b = L \<or> b = L AND NOT 0x20"
    proof (cases "bit b 5")
      case True
      then have "b = L" using bl by (intro bit_word_eqI) auto
      then show ?thesis ..
    next
      case False
      then have "b = L AND NOT 0x20" using bl l(2) by (intro bit_word_eqI) auto
      then show ?thesis ..
    qed
  next
    assume "b = L \<or> b = L AND NOT 0x20"
    then have "bit (b OR 0x20) n = bit L n" for n
      using assms l by (cases "b = L") blast+
    then show "b OR 0x20 = L" by (intro bit_word_eqI)
  qed
qed

text \<open>What the test of the first letter says of the code point.\<close>

lemma ci_byte:
  assumes "scalar c"
  shows "hd (utf8_encode c) OR 0x20 = 0x73 \<longleftrightarrow> ci 0x73 c" "hd (utf8_encode c) OR 0x20 = 0x74 \<longleftrightarrow> ci 0x74 c"
    "hd (utf8_encode c) OR 0x20 = 0x6D \<longleftrightarrow> ci 0x6D c" "hd (utf8_encode c) OR 0x20 = 0x64 \<longleftrightarrow> ci 0x64 c"
    "hd (utf8_encode c) OR 0x20 = 0x72 \<longleftrightarrow> ci 0x72 c" "hd (utf8_encode c) OR 0x20 = 0x76 \<longleftrightarrow> ci 0x76 c"
    "hd (utf8_encode c) OR 0x20 = 0x6C \<longleftrightarrow> ci 0x6C c" "hd (utf8_encode c) OR 0x20 = 0x65 \<longleftrightarrow> ci 0x65 c"
  by (simp_all add: or_case_bit hd_utf8_encode [OF assms] ci_def)

lemma ci_single: "ci l c \<Longrightarrow> l < 0x80 \<Longrightarrow> 0x20 \<le> l \<Longrightarrow> length (utf8_encode c) = 1"
  unfolding ci_def by (auto simp: utf8_encode_def word_less_nat_alt word_le_nat_alt unat_sub)

lemma contraction_letters_utf8:
  assumes "\<forall>c \<in> set cs. scalar c"
  shows "contraction_letters (utf8 cs) =
    (case rx_match (contraction_letters_rx ci) cs of None \<Rightarrow> 0 | Some r \<Rightarrow> length (utf8 cs) - length (utf8 r))"
proof (cases cs)
  case Nil
  then show ?thesis by (simp add: contraction_letters_def contraction_letters_rx_def)
next
  case (Cons c r)
  have h: "utf8 (d # ds) ! 0 = hd (utf8_encode d)" for d ds
    by (cases "utf8_encode d") auto
  have h2: "(1 < length (utf8 cs) \<and> utf8 cs ! 1 OR 0x20 = b) =
      (case r of [] \<Rightarrow> False | d # _ \<Rightarrow> hd (utf8_encode d) OR 0x20 = b)" if l1: "length (utf8_encode c) = 1" for b
  proof -
    obtain x where x: "utf8_encode c = [x]" using l1 by (auto simp: length_Suc_conv)
    show ?thesis using Cons x h by (cases r) (simp_all del: utf8_simps(2), simp_all)
  qed
  have two: "contraction_letters (utf8 cs) = (case m of None \<Rightarrow> 0 | Some r \<Rightarrow> length (utf8 cs) - length (utf8 r))"
    if code: "contraction_letters (utf8 cs) = (if 1 < length (utf8 cs) \<and> utf8 cs ! 1 OR 0x20 = b then 2 else 0)"
      and m: "m = (case r of [] \<Rightarrow> None | d # r2 \<Rightarrow> if ci l d then Some r2 else None)"
      and c1: "length (utf8_encode c) = 1" and l: "l < 0x80" "0x20 \<le> l"
      and hb: "\<And>d. scalar d \<Longrightarrow> hd (utf8_encode d) OR 0x20 = b \<longleftrightarrow> ci l d"
    for m l b
    using assms Cons hb ci_single [OF _ l] c1 unfolding code m h2 [OF c1] by (cases r) simp_all
  have c0: "utf8 cs ! 0 = hd (utf8_encode c)" "utf8 cs \<noteq> []" "scalar c" using h Cons assms by simp_all
  consider "ci 0x73 c \<or> ci 0x74 c \<or> ci 0x6D c \<or> ci 0x64 c" | "ci 0x72 c" | "ci 0x76 c" | "ci 0x6C c"
    | "\<not> (ci 0x73 c \<or> ci 0x74 c \<or> ci 0x6D c \<or> ci 0x64 c)" "\<not> ci 0x72 c" "\<not> ci 0x76 c" "\<not> ci 0x6C c" by blast
  then show ?thesis
  proof cases
    case 1
    then have "length (utf8_encode c) = 1" using ci_single [of _ c] by auto
    moreover have "rx_match (contraction_letters_rx ci) cs = Some r"
      using 1 Cons by (auto simp: contraction_letters_rx_def ci_def)
    ultimately show ?thesis using 1 assms Cons ci_byte [of c] h [of c r]
      by (auto simp: contraction_letters_def)
  next
    case 2
    have ex: "\<not> ci 0x73 c" "\<not> ci 0x74 c" "\<not> ci 0x76 c" "\<not> ci 0x6D c" "\<not> ci 0x6C c" "\<not> ci 0x64 c"
      using 2 by (auto simp: ci_def)
    have "hd (utf8_encode c) OR 0x20 = 0x72" using ci_byte [OF c0(3)] 2 by simp
    then have "contraction_letters (utf8 cs) = (if 1 < length (utf8 cs) \<and> utf8 cs ! 1 OR 0x20 = 0x65 then 2 else 0)"
      by (simp add: contraction_letters_def c0)
    then show ?thesis using 2 ex Cons ci_single [OF 2] ci_byte(8)
      by (intro two [of "0x65" _ "0x65"]) (simp_all add: contraction_letters_rx_def split: list.split)
  next
    case 3
    have ex: "\<not> ci 0x73 c" "\<not> ci 0x74 c" "\<not> ci 0x72 c" "\<not> ci 0x6D c" "\<not> ci 0x6C c" "\<not> ci 0x64 c"
      using 3 by (auto simp: ci_def)
    have "hd (utf8_encode c) OR 0x20 = 0x76" using ci_byte [OF c0(3)] 3 by simp
    then have "contraction_letters (utf8 cs) = (if 1 < length (utf8 cs) \<and> utf8 cs ! 1 OR 0x20 = 0x65 then 2 else 0)"
      by (simp add: contraction_letters_def c0)
    then show ?thesis using 3 ex Cons ci_single [OF 3] ci_byte(8)
      by (intro two [of "0x65" _ "0x65"]) (simp_all add: contraction_letters_rx_def split: list.split)
  next
    case 4
    have ex: "\<not> ci 0x73 c" "\<not> ci 0x74 c" "\<not> ci 0x72 c" "\<not> ci 0x76 c" "\<not> ci 0x6D c" "\<not> ci 0x64 c"
      using 4 by (auto simp: ci_def)
    have "hd (utf8_encode c) OR 0x20 = 0x6C" using ci_byte [OF c0(3)] 4 by simp
    then have "contraction_letters (utf8 cs) = (if 1 < length (utf8 cs) \<and> utf8 cs ! 1 OR 0x20 = 0x6C then 2 else 0)"
      by (simp add: contraction_letters_def c0)
    then show ?thesis using 4 ex Cons ci_single [OF 4] ci_byte(7)
      by (intro two [of "0x6C" _ "0x6C"]) (simp_all add: contraction_letters_rx_def split: list.split)
  next
    case 5
    then show ?thesis using assms Cons ci_byte [of c] h [of c r]
      by (simp add: contraction_letters_def contraction_letters_rx_def del: utf8_simps)
  qed
qed

lemma utf8_suffix_less: "suffix x cs \<Longrightarrow> length x < length cs \<Longrightarrow> length (utf8 x) < length (utf8 cs)"
  by (auto simp: suffix_def)

lemma try_contraction_utf8:
  assumes "\<forall>c \<in> set cs. scalar c"
  shows "try_contraction (utf8 cs) = (case rx_match (contraction_rx ci {0x27, 0x2019}) cs of
    None \<Rightarrow> 0 | Some r \<Rightarrow> length (utf8 cs) - length (utf8 r))"
proof (cases cs)
  case Nil
  then show ?thesis by (simp add: try_contraction_def contraction_rx_def)
next
  case (Cons c r)
  have enc: "utf8_encode 0x27 = [0x27]" "utf8_encode 0x2019 = [0xE2, 0x80, 0x99]"
    by (simp_all add: utf8_encode_def cont_byte_def)
  have r: "\<forall>d \<in> set r. scalar d" using assms Cons by simp
  have "consuming (contraction_letters_rx ci)" by (simp add: contraction_letters_rx_def)
  then have less: "length (utf8 x) < length (utf8 r)" if "rx_match (contraction_letters_rx ci) r = Some x" for x
    using utf8_suffix_less [OF rx_match_suffix rx_match_consuming] that by blast
  then have pos: "contraction_letters (utf8 r) = 0 \<longleftrightarrow> rx_match (contraction_letters_rx ci) r = None"
    using contraction_letters_utf8 [OF r] by (fastforce split: option.splits)
  have le: "length (utf8 x) \<le> length (utf8 r)" if "rx_match (contraction_letters_rx ci) r = Some x" for x
    using rx_match_suffix [OF that] by (auto simp: suffix_def)
  show ?thesis
  proof (cases "c \<in> {0x27, 0x2019}")
    case True
    have e: "rx_match (contraction_letters_rx ci) [] = None" by (simp add: contraction_letters_rx_def)
    then show ?thesis
      using True pos contraction_letters_utf8 [OF r] Cons enc le
      by (cases "r = []") (auto simp: try_contraction_def contraction_rx_def Let_def Suc_diff_le split: option.splits)
  next
    case False
    have "utf8 cs ! 0 \<noteq> 0x27" using hd_utf8_encode [of c "0x27"] assms Cons False
      by (cases "utf8_encode c") auto
    moreover have "\<not> (utf8 cs ! 0 = 0xE2 \<and> 3 \<le> length (utf8 cs) \<and> utf8 cs ! 1 = 0x80 \<and> utf8 cs ! 2 = 0x99)"
    proof
      assume p: "utf8 cs ! 0 = 0xE2 \<and> 3 \<le> length (utf8 cs) \<and> utf8 cs ! 1 = 0x80 \<and> utf8 cs ! 2 = 0x99"
      then have "utf8_decode (utf8 cs) = Some (0x2019, 3)"
        by (cases "utf8 cs") (auto simp: utf8_decode_def is_cont_def)
      then show False using False Cons assms by (simp add: utf8_decode_utf8)
    qed
    ultimately have "try_contraction (utf8 cs) = 0" unfolding try_contraction_def Let_def by argo
    then show ?thesis using False Cons by (simp add: contraction_rx_def)
  qed
qed

lemma p0_contraction_utf8:
  assumes "\<forall>c \<in> set cs. scalar c"
  shows "p0_contraction (utf8 (ds @ cs)) (length (utf8 ds)) =
    matches ds cs 0 False (rx_match (contraction_rx ci {0x27, 0x2019}) cs)"
proof (cases "rx_match (contraction_rx ci {0x27, 0x2019}) cs")
  case None
  then show ?thesis using try_contraction_utf8 [OF assms] by (simp add: p0_contraction_def)
next
  case (Some r)
  have "consuming (contraction_rx ci {0x27, 0x2019})" by (simp add: contraction_rx_def)
  then have "length (utf8 r) < length (utf8 cs)"
    using utf8_suffix_less [OF rx_match_suffix rx_match_consuming] Some by blast
  then show ?thesis using try_contraction_utf8 [OF assms] Some
    by (simp add: p0_contraction_def on_match_def)
qed

subsection \<open>The pretokenizer is the documented pattern, with four exceptions\<close>

text \<open>Pattern 0 of the header comment, with the case folding and the apostrophes as arguments.\<close>

definition cl100k_rx :: "ucd_tables \<Rightarrow> (u32 \<Rightarrow> u32 \<Rightarrow> bool) \<Rightarrow> u32 set \<Rightarrow> rx \<Rightarrow> rx" where
  "cl100k_rx T L apos newlines =
     Alt (contraction_rx L apos) (Alt (letters_rx T) (Alt (numbers_rx T)
       (Alt (punct_rx T ucd_is_newline) (Alt newlines trailing_rx))))"

text \<open>What the code does on code points, and what the comment says.\<close>

definition cl100k_code :: "ucd_tables \<Rightarrow> u32 list \<Rightarrow> (u32 list \<times> nat \<times> bool) option" where
  "cl100k_code T cs = first_pattern (rx_match (cl100k_rx T ci {0x27, 0x2019} one_run_rx) cs)
     (if space_clash cs then None else rx_match spaces2_rx cs) (rx_match (Plus ucd_is_whitespace) cs)"

definition cl100k_doc :: "ucd_tables \<Rightarrow> u32 list \<Rightarrow> (u32 list \<times> nat \<times> bool) option" where
  "cl100k_doc T = three_patterns (cl100k_rx T ci_unicode {0x27} newlines_rx)"

definition pick :: "u32 list \<Rightarrow> u32 list \<Rightarrow> (u32 list \<times> nat \<times> bool) option \<Rightarrow> pretok_match option option" where
  "pick ds cs x = Some (map_option (on_match ds cs) x)"

lemma or_try_matches:
  "or_try (matches ds cs i la r) (pick ds cs x) = pick ds cs (case r of Some y \<Rightarrow> Some (y, i, la) | None \<Rightarrow> x)"
  by (simp add: pick_def split: option.split)

lemma p2_pick:
  "\<forall>c \<in> set cs. scalar c \<Longrightarrow> p2_ws (utf8 (ds @ cs)) (length (utf8 ds)) =
     pick ds cs (case rx_match (Plus ucd_is_whitespace) cs of Some y \<Rightarrow> Some (y, 2, False) | None \<Rightarrow> None)"
  unfolding pick_def by (simp only: p2_ws_utf8) (simp split: option.split)

lemma pretok_cl100k_utf8:
  assumes "ucd_ok T" and "\<forall>c \<in> set cs. scalar c"
  shows "pretok_cl100k T (utf8 (ds @ cs)) (length (utf8 ds)) = pick ds cs (cl100k_code T cs)"
proof (cases "cs = []")
  case True
  then show ?thesis
    by (simp add: pretok_cl100k_def cl100k_code_def first_pattern_def cl100k_rx_def contraction_rx_def letters_rx_def
        numbers_rx_def punct_rx_def rx_match_Opt_Seq rx_match_Plus_Seq rx_match_one_run rx_match_trailing
        rx_match_spaces2 pick_def)
next
  case False
  have "\<not> length (utf8 (ds @ cs)) \<le> length (utf8 ds)" using False by simp
  then show ?thesis
    unfolding pretok_cl100k_def p0_contraction_utf8 [OF assms(2)] p0_letters_utf8 [OF assms]
      p0_numbers_utf8 [OF assms] p0_punct_utf8 [OF assms] p0_ws_newlines_utf8 [OF assms(2)]
      p0_trailing_ws_utf8 [OF assms(2)] p1_ws_lookahead_utf8 [OF assms(2)] p2_pick [OF assms(2)] or_try_matches
    by (simp add: cl100k_code_def first_pattern_def cl100k_rx_def split: option.split)
qed

definition spaces_clash :: "u32 list \<Rightarrow> bool" where
  "spaces_clash cs \<longleftrightarrow> 2 \<le> length (takeWhile ucd_is_whitespace cs) \<and> space_clash cs"

lemma cl100k_code_doc:
  assumes "\<not> split_newlines cs" and "\<not> spaces_clash cs" and "cs = [] \<or> hd cs \<noteq> 0x2019"
    and "take 2 cs \<noteq> [0x27, 0x17F]"
  shows "cl100k_code T cs = cl100k_doc T cs"
proof -
  have "rx_match (contraction_rx ci {0x27, 0x2019}) cs = rx_match (contraction_rx ci {0x27}) cs"
    using assms(3) by (cases cs) (auto simp: contraction_rx_def)
  then have "rx_match (contraction_rx ci {0x27, 0x2019}) cs = rx_match (contraction_rx ci_unicode {0x27}) cs"
    by (simp only: contraction_ascii [OF assms(4)])
  moreover have "(if space_clash cs then None else rx_match spaces2_rx cs) = rx_match spaces2_rx cs"
    using assms(2) by (cases cs) (auto simp: spaces_clash_def rx_match_spaces2 split: list.split)
  ultimately show ?thesis using newlines_one_run [OF assms(1)]
    by (simp add: cl100k_code_def cl100k_doc_def three_patterns_def cl100k_rx_def cong: option.case_cong)
qed

text \<open>Every nonempty text is matched.\<close>

lemma letters_match: "cs \<noteq> [] \<Longrightarrow> letter_cp T (hd cs) \<Longrightarrow> rx_match (letters_rx T) cs \<noteq> None"
  by (cases cs) (auto simp: letters_rx_def rx_match_Opt_Seq prefix_cp_def)

lemma numbers_match: "cs \<noteq> [] \<Longrightarrow> number_cp T (hd cs) \<Longrightarrow> rx_match (numbers_rx T) cs \<noteq> None"
  by (cases cs) (auto simp: numbers_rx_def split: option.split)

lemma punct_match: "cs \<noteq> [] \<Longrightarrow> other_cp T (hd cs) \<Longrightarrow> rx_match (punct_rx T nl) cs \<noteq> None"
  by (cases cs) (auto simp: punct_rx_def rx_match_Opt_Seq rx_match_Plus_Seq star_then_Star split: option.split)

lemma cl100k_code_ok:
  assumes "cs \<noteq> []"
  shows "\<exists>m r i la. cl100k_code T cs = Some (r, i, la) \<and> cs = m @ r \<and> m \<noteq> [] \<and> (la \<longrightarrow> 2 \<le> length m)"
  unfolding cl100k_code_def
proof (rule first_pattern_ok [OF _ _ assms])
  fix r
  have "consuming (cl100k_rx T ci {0x27, 0x2019} one_run_rx)"
    by (simp add: cl100k_rx_def contraction_rx_def letters_rx_def numbers_rx_def punct_rx_def one_run_rx_def
        trailing_rx_def Plus_def)
  then show "suffix r cs \<and> length r < length cs" if "rx_match (cl100k_rx T ci {0x27, 0x2019} one_run_rx) cs = Some r"
    using rx_match_suffix rx_match_consuming that by blast
next
  assume "\<not> ucd_is_whitespace (hd cs)"
  then have "letter_cp T (hd cs) \<or> number_cp T (hd cs) \<or> other_cp T (hd cs)" by (auto simp: other_cp_def)
  then show "rx_match (cl100k_rx T ci {0x27, 0x2019} one_run_rx) cs \<noteq> None"
    using letters_match [OF assms, of T] numbers_match [OF assms, of T] punct_match [OF assms, of T ucd_is_newline]
    by (auto simp: cl100k_rx_def split: option.split)
qed simp

end
