(* ===== verification/Pretok_O200k.thy ===== *)
theory Pretok_O200k
  imports Pretok_Cl100k
begin

text \<open>
  The pretokenizer of \<^verbatim>\<open>src/pretok_o200k.c\<close>. The functions for contractions, numbers, trailing
  white space and single white space are the same text as in \<^verbatim>\<open>pretok_cl100k.c\<close>. Its two word
  patterns take the longest run of upper-class code points and never give any back, which is the
  main difference from the regular expression of its header comment; the others are the two
  apostrophes, the long s (U+017F) after an apostrophe, a mark at the start and white space with two
  runs of newlines.
\<close>

subsection \<open>Code\<close>

definition o200k_try_contraction :: "bytes \<Rightarrow> nat" where
  "o200k_try_contraction p = try_contraction p"

text \<open>The optional prefix of both word patterns.\<close>

definition word_prefix :: "ucd_tables \<Rightarrow> bytes \<Rightarrow> bytes option" where
  "word_prefix T p = (case utf8_decode p of None \<Rightarrow> Some p
     | Some (cp, clen) \<Rightarrow> map_option (\<lambda>ok. if ok then drop clen p else p) (is_prefix_cp T cp))"

definition p0_camel :: "ucd_tables \<Rightarrow> bytes \<Rightarrow> nat \<Rightarrow> pretok_match option option" where
  "p0_camel T text offset = do {
     let p = drop offset text;
     after_prefix \<leftarrow> word_prefix T p;
     lower_start \<leftarrow> scan_while (ucd_is_upper_class T) after_prefix;
     q \<leftarrow> scan_while (ucd_is_lower_class T) lower_start;
     Some (if length q = length lower_start then None
           else if length q = length p then None
           else if length after_prefix < length p \<and> length after_prefix = length lower_start \<and>
                   length q = length lower_start then None
           else Some (match_to text offset (drop (o200k_try_contraction q) q)))
   }"

definition p0_allcaps :: "ucd_tables \<Rightarrow> bytes \<Rightarrow> nat \<Rightarrow> pretok_match option option" where
  "p0_allcaps T text offset = do {
     let p = drop offset text;
     upper_start \<leftarrow> word_prefix T p;
     q \<leftarrow> scan_while (ucd_is_upper_class T) upper_start;
     if length q = length upper_start then Some None
     else if length q = length p then Some None
     else if length upper_start < length p \<and> length q = length upper_start then Some None
     else do {
       q \<leftarrow> scan_while (ucd_is_lower_class T) q;
       Some (Some (match_to text offset (drop (o200k_try_contraction q) q)))
     }
   }"

definition o200k_numbers :: "ucd_tables \<Rightarrow> bytes \<Rightarrow> nat \<Rightarrow> pretok_match option option" where
  "o200k_numbers T text offset = do {
     (q, cnt) \<leftarrow> scan_upto (ucd_is_number T) 3 (drop offset text);
     Some (if cnt = 0 then None else Some (match_to text offset q))
   }"

definition o200k_punct :: "ucd_tables \<Rightarrow> bytes \<Rightarrow> nat \<Rightarrow> pretok_match option option" where
  "o200k_punct T text offset = do {
     run_start \<leftarrow> punct_start T (drop offset text);
     p \<leftarrow> punct_run T run_start;
     Some (if length p = length run_start then None
           else Some (match_to text offset (dropWhile (\<lambda>b. is_crlf_byte b \<or> b = 0x2F) p)))
   }"

definition o200k_ws_newlines :: "bytes \<Rightarrow> nat \<Rightarrow> pretok_match option option" where
  "o200k_ws_newlines text offset =
     Some (case skip_to_newline (drop offset text) of None \<Rightarrow> None
           | Some q \<Rightarrow> if q = [] then None else Some (match_to text offset (dropWhile is_crlf_byte q)))"

definition o200k_trailing_ws :: "bytes \<Rightarrow> nat \<Rightarrow> pretok_match option option" where
  "o200k_trailing_ws text offset = do {
     let p = drop offset text;
     q \<leftarrow> space_run p;
     Some (if q \<noteq> [] then None else if length q = length p then None
           else Some \<lparr>m_start = offset, m_end = length text, pattern_id = 0, lookahead = False\<rparr>)
   }"

definition o200k_ws_lookahead :: "bytes \<Rightarrow> nat \<Rightarrow> pretok_match option option" where
  "o200k_ws_lookahead text offset = (let p = drop offset text in case utf8_decode p of None \<Rightarrow> Some None
     | Some (cp, first_len) \<Rightarrow>
         if \<not> ucd_is_whitespace cp then Some None
         else map_option (\<lambda>q. if length p - length q \<le> first_len then None
              else Some \<lparr>m_start = offset, m_end = length text - length q, pattern_id = 1, lookahead = True\<rparr>)
           (space_run (drop first_len p)))"

definition o200k_ws :: "bytes \<Rightarrow> nat \<Rightarrow> pretok_match option option" where
  "o200k_ws text offset = (let p = drop offset text in case utf8_decode p of None \<Rightarrow> Some None
     | Some (cp, clen) \<Rightarrow>
         if \<not> ucd_is_whitespace cp then Some None
         else map_option (\<lambda>q. Some ((match_to text offset q)\<lparr>pattern_id := 2\<rparr>)) (space_run (drop clen p)))"

definition pretok_o200k :: "ucd_tables \<Rightarrow> bytes \<Rightarrow> nat \<Rightarrow> pretok_match option option" where
  "pretok_o200k T text offset =
     (if length text \<le> offset then Some None
      else or_try (p0_camel T text offset)
        (or_try (p0_allcaps T text offset)
          (or_try (o200k_numbers T text offset)
            (or_try (o200k_punct T text offset)
              (or_try (o200k_ws_newlines text offset)
                (or_try (o200k_trailing_ws text offset)
                  (or_try (o200k_ws_lookahead text offset) (o200k_ws text offset))))))))"

lemmas o200k_same = o200k_try_contraction_def
  o200k_numbers_def [folded p0_numbers_def] o200k_ws_newlines_def [folded p0_ws_newlines_def]
  o200k_trailing_ws_def [folded p0_trailing_ws_def] o200k_ws_def [folded p2_ws_def]

subsection \<open>The word patterns on encoded text\<close>

text \<open>Code points after the prefix, and what follows a word: the lower-class run, then a contraction.\<close>

definition after_prefix :: "ucd_tables \<Rightarrow> u32 list \<Rightarrow> u32 list" where
  "after_prefix T cs = (case cs of c # r \<Rightarrow> if prefix_cp T c then r else cs | [] \<Rightarrow> [])"

definition opt_rest :: "rx \<Rightarrow> u32 list \<Rightarrow> u32 list" where
  "opt_rest r cs = (case rx_match r cs of None \<Rightarrow> cs | Some x \<Rightarrow> x)"

definition word_code :: "ucd_tables \<Rightarrow> rx \<Rightarrow> u32 list \<Rightarrow> u32 list option" where
  "word_code T k cs = (let xs = after_prefix T cs; v = dropWhile (upper_cp T) xs; w = dropWhile (lower_cp T) v
     in if w = v \<and> v = xs then None else Some (opt_rest k w))"

lemma word_prefix_utf8:
  assumes "ucd_ok T" and "\<forall>c \<in> set cs. scalar c"
  shows "word_prefix T (utf8 cs) = Some (utf8 (after_prefix T cs))"
  using assms ucd_lookups(4) [OF assms(1)]
  by (cases cs) (simp_all add: word_prefix_def after_prefix_def prefix_cp_def utf8_decode_utf8)

lemma drop_contraction:
  assumes "\<forall>c \<in> set cs. scalar c"
  shows "drop (try_contraction (utf8 cs)) (utf8 cs) = utf8 (opt_rest (contraction_rx ci {0x27, 0x2019}) cs)"
proof (cases "rx_match (contraction_rx ci {0x27, 0x2019}) cs")
  case None
  then show ?thesis using try_contraction_utf8 [OF assms] by (simp add: opt_rest_def)
next
  case (Some r)
  then obtain m where "cs = m @ r" using rx_match_suffix [OF Some] by (auto simp: suffix_def)
  then show ?thesis using try_contraction_utf8 [OF assms] Some by (simp add: opt_rest_def)
qed

lemma word_patterns_utf8:
  assumes "ucd_ok T" and "\<forall>c \<in> set cs. scalar c"
  shows "or_try (p0_camel T (utf8 (ds @ cs)) (length (utf8 ds)))
      (or_try (p0_allcaps T (utf8 (ds @ cs)) (length (utf8 ds))) x) =
    or_try (matches ds cs 0 False (word_code T (contraction_rx ci {0x27, 0x2019}) cs)) x"
proof -
  define xs where "xs = after_prefix T cs"
  define v where "v = dropWhile (upper_cp T) xs"
  define w where "w = dropWhile (lower_cp T) v"
  have sub: "set xs \<subseteq> set cs" "set v \<subseteq> set cs" "set w \<subseteq> set cs"
    using set_dropWhileD [of _ "upper_cp T" xs] set_dropWhileD [of _ "lower_cp T" v]
    by (auto simp: xs_def after_prefix_def v_def w_def split: list.splits if_splits dest: set_dropWhileD)
  have pre: "word_prefix T (utf8 cs) = Some (utf8 xs)"
    unfolding xs_def by (rule word_prefix_utf8 [OF assms])
  have up: "scan_while (ucd_is_upper_class T) (utf8 xs) = Some (utf8 v)"
    unfolding v_def using sub assms ucd_lookups(6) by (intro scan_while_utf8) auto
  have lo: "scan_while (ucd_is_lower_class T) (utf8 v) = Some (utf8 w)"
    unfolding w_def using sub assms ucd_lookups(7) by (intro scan_while_utf8) auto
  have con: "drop (o200k_try_contraction (utf8 w)) (utf8 w) = utf8 (opt_rest (contraction_rx ci {0x27, 0x2019}) w)"
    unfolding o200k_try_contraction_def using sub assms(2) by (intro drop_contraction) auto
  have le: "length (utf8 (dropWhile P ys)) \<le> length (utf8 ys)" for P ys
    by (metis length_append le_add2 takeWhile_dropWhile_id utf8_simps(3))
  have le_xs: "length (utf8 xs) \<le> length (utf8 cs)"
    by (auto simp: xs_def after_prefix_def split: list.split)
  have wv: "length (utf8 w) = length (utf8 v) \<longleftrightarrow> w = v" and vx: "length (utf8 v) = length (utf8 xs) \<longleftrightarrow> v = xs"
    unfolding w_def v_def by (rule length_utf8_dropWhile)+
  have wc: "w = v" if "length (utf8 w) = length (utf8 cs)"
    using that le_xs le [of "upper_cp T" xs] le [of "lower_cp T" v] wv unfolding v_def [symmetric] w_def [symmetric] by simp
  have vc: "v = xs" if "length (utf8 v) = length (utf8 cs)"
    using that le_xs le [of "upper_cp T" xs] vx unfolding v_def [symmetric] by simp
  have code: "word_code T (contraction_rx ci {0x27, 0x2019}) cs =
      (if w = v \<and> v = xs then None else Some (opt_rest (contraction_rx ci {0x27, 0x2019}) w))"
    by (simp only: word_code_def xs_def v_def w_def Let_def)
  have "p0_camel T (utf8 (ds @ cs)) (length (utf8 ds)) =
      matches ds cs 0 False (if w = v then None else Some (opt_rest (contraction_rx ci {0x27, 0x2019}) w))"
    using wc by (auto simp: p0_camel_def drop_text pre up lo con wv match_to_utf8 Let_def simp del: utf8_simps)
  moreover have "p0_allcaps T (utf8 (ds @ cs)) (length (utf8 ds)) =
      matches ds cs 0 False (if v = xs then None else Some (opt_rest (contraction_rx ci {0x27, 0x2019}) w))"
    using vc by (auto simp: p0_allcaps_def drop_text pre up lo con vx match_to_utf8 Let_def simp del: utf8_simps)
  ultimately show ?thesis unfolding code by simp
qed

lemma slash_encode: "scalar c \<Longrightarrow> (hd (utf8_encode c) = 0x2F) = (c = 0x2F)"
  by (simp add: hd_utf8_encode)

lemma dropWhile_crlf_slash:
  "\<forall>c \<in> set cs. scalar c \<Longrightarrow> dropWhile (\<lambda>b. is_crlf_byte b \<or> b = 0x2F) (utf8 cs) =
     utf8 (dropWhile (\<lambda>c. ucd_is_newline c \<or> c = 0x2F) cs)"
proof (induction cs)
  case (Cons c cs)
  show ?case
  proof (cases "ucd_is_newline c \<or> c = 0x2F")
    case True
    then have "utf8_encode c = [ucast c]" by (auto simp: utf8_encode_def ucd_is_newline_def)
    then show ?thesis using Cons True crlf_encode [of c] slash_encode [of c] by auto
  next
    case False
    then have "\<not> (is_crlf_byte (hd (utf8_encode c)) \<or> hd (utf8_encode c) = 0x2F)"
      using Cons.prems crlf_encode [of c] slash_encode [of c] by simp
    then have "dropWhile (\<lambda>b. is_crlf_byte b \<or> b = 0x2F) (utf8_encode c @ utf8 cs) = utf8_encode c @ utf8 cs"
      by (cases "utf8_encode c") simp_all
    then show ?thesis using False by simp
  qed
qed simp

lemma o200k_punct_utf8:
  assumes "ucd_ok T" and "\<forall>c \<in> set cs. scalar c"
  shows "o200k_punct T (utf8 (ds @ cs)) (length (utf8 ds)) =
    matches ds cs 0 False (rx_match (punct_rx T (\<lambda>c. ucd_is_newline c \<or> c = 0x2F)) cs)"
proof -
  obtain xs where xs: "set xs \<subseteq> set cs" "punct_start T (utf8 cs) = Some (utf8 xs)"
    "punct_run T (utf8 xs) = Some (utf8 (dropWhile (other_cp T) xs))"
    and rx: "\<forall>nl. rx_match (punct_rx T nl) cs =
      (if dropWhile (other_cp T) xs = xs then None else Some (dropWhile nl (dropWhile (other_cp T) xs)))"
    by (rule punct_parts [OF assms])
  from xs rx [rule_format, of "(\<lambda>c. ucd_is_newline c \<or> c = 0x2F)"] show ?thesis
    using dropWhile_crlf_slash [of "dropWhile (other_cp T) xs"] assms(2) set_dropWhileD [of _ "other_cp T" xs]
    by (simp add: o200k_punct_def drop_text match_to_utf8 length_utf8_dropWhile subset_iff del: utf8_simps)
qed

lemma o200k_ws_lookahead_utf8:
  assumes "\<forall>c \<in> set cs. scalar c"
  shows "o200k_ws_lookahead (utf8 (ds @ cs)) (length (utf8 ds)) = matches ds cs 1 True (rx_match spaces2_rx cs)"
proof (cases cs)
  case Nil
  then show ?thesis by (simp add: o200k_ws_lookahead_def rx_match_spaces2)
next
  case (Cons c r)
  define x where "x = dropWhile ucd_is_whitespace r"
  have "length (utf8 x) \<le> length (utf8 r)" unfolding x_def
    by (metis length_append le_add2 takeWhile_dropWhile_id utf8_simps(3))
  then have l: "length (utf8 cs) - length (utf8 x) \<le> length (utf8_encode c) \<longleftrightarrow> x = r"
    using length_utf8_dropWhile [of ucd_is_whitespace r] Cons unfolding x_def by simp linarith
  have "space_run (utf8 r) = Some (utf8 x)" using assms Cons space_run_utf8 [of r] by (simp add: x_def)
  then have "o200k_ws_lookahead (utf8 (ds @ cs)) (length (utf8 ds)) =
      matches ds cs 1 True (if \<not> ucd_is_whitespace c \<or> x = r then None else Some x)"
    using assms Cons l by (simp add: o200k_ws_lookahead_def utf8_decode_utf8 on_match_def Let_def)
  moreover have "rx_match spaces2_rx cs = (if \<not> ucd_is_whitespace c \<or> x = r then None else Some x)"
    using Cons by (cases r) (simp_all add: rx_match_spaces2 x_def)
  ultimately show ?thesis by simp
qed

subsection \<open>The pretokenizer on encoded text\<close>

definition o200k_rest_rx :: "ucd_tables \<Rightarrow> rx \<Rightarrow> rx" where
  "o200k_rest_rx T newlines =
     Alt (numbers_rx T) (Alt (punct_rx T (\<lambda>c. ucd_is_newline c \<or> c = 0x2F)) (Alt newlines trailing_rx))"

definition o200k_code :: "ucd_tables \<Rightarrow> u32 list \<Rightarrow> (u32 list \<times> nat \<times> bool) option" where
  "o200k_code T cs = first_pattern
     (case word_code T (contraction_rx ci {0x27, 0x2019}) cs of None \<Rightarrow> rx_match (o200k_rest_rx T one_run_rx) cs | Some r \<Rightarrow> Some r)
     (rx_match spaces2_rx cs) (rx_match (Plus ucd_is_whitespace) cs)"

lemma word_code_Nil: "word_code T k [] = None"
  by (simp add: word_code_def after_prefix_def)

lemma pretok_o200k_utf8:
  assumes "ucd_ok T" and "\<forall>c \<in> set cs. scalar c"
  shows "pretok_o200k T (utf8 (ds @ cs)) (length (utf8 ds)) = pick ds cs (o200k_code T cs)"
proof (cases "cs = []")
  case True
  then show ?thesis
    by (simp add: pretok_o200k_def o200k_code_def first_pattern_def o200k_rest_rx_def word_code_Nil
        numbers_rx_def punct_rx_def rx_match_Opt_Seq rx_match_Plus_Seq rx_match_one_run rx_match_trailing
        rx_match_spaces2 pick_def)
next
  case False
  have "\<not> length (utf8 (ds @ cs)) \<le> length (utf8 ds)" using False by simp
  then show ?thesis
    unfolding pretok_o200k_def word_patterns_utf8 [OF assms] o200k_same
      p0_numbers_utf8 [OF assms] o200k_punct_utf8 [OF assms] p0_ws_newlines_utf8 [OF assms(2)]
      p0_trailing_ws_utf8 [OF assms(2)] o200k_ws_lookahead_utf8 [OF assms(2)] p2_pick [OF assms(2)] or_try_matches
    by (simp add: o200k_code_def first_pattern_def o200k_rest_rx_def split: option.split)
qed

lemma word_match: "cs \<noteq> [] \<Longrightarrow> letter_cp T (hd cs) \<Longrightarrow> word_code T k cs \<noteq> None"
  using upper_lower [of T "hd cs"]
  by (cases cs) (auto simp: word_code_def after_prefix_def prefix_cp_def Let_def)

lemma opt_rest_suffix: "suffix (opt_rest r cs) cs"
  using rx_match_suffix [of r cs] by (auto simp: opt_rest_def split: option.split)

lemma dropWhile_suffix: "suffix (dropWhile P cs) cs"
  by (rule suffix_dropWhile)

lemma word_code_suffix:
  assumes "word_code T k cs = Some r"
  shows "suffix r cs \<and> length r < length cs"
proof -
  define xs where "xs = after_prefix T cs"
  define v where "v = dropWhile (upper_cp T) xs"
  define w where "w = dropWhile (lower_cp T) v"
  have r: "r = opt_rest k w" "\<not> (w = v \<and> v = xs)"
    using assms by (auto simp: word_code_def xs_def v_def w_def Let_def split: if_splits)
  have "suffix xs cs" by (auto simp: xs_def after_prefix_def suffix_ConsI split: list.split)
  moreover have s: "suffix v xs" "suffix w v" "suffix r w"
    unfolding v_def w_def r(1) by (rule suffix_dropWhile suffix_dropWhile opt_rest_suffix)+
  ultimately have "suffix r cs" by (meson suffix_order.trans)
  have eq: "a = b" if "suffix a b" "length a = length b" for a b :: "u32 list"
    using that by (auto simp: suffix_def)
  have "length w < length xs"
    using r(2) eq [OF s(1)] eq [OF s(2)] suffix_length_le [OF s(1)] suffix_length_le [OF s(2)] by linarith
  moreover have "length r \<le> length w" "length xs \<le> length cs"
    using s(3) \<open>suffix xs cs\<close> by (auto dest: suffix_length_le)
  ultimately show ?thesis using \<open>suffix r cs\<close> by simp
qed

lemma o200k_code_ok:
  assumes "cs \<noteq> []"
  shows "\<exists>m r i la. o200k_code T cs = Some (r, i, la) \<and> cs = m @ r \<and> m \<noteq> [] \<and> (la \<longrightarrow> 2 \<le> length m)"
  unfolding o200k_code_def
proof (rule first_pattern_ok [OF _ _ assms])
  fix r
  have "consuming (o200k_rest_rx T one_run_rx)"
    by (simp add: o200k_rest_rx_def numbers_rx_def punct_rx_def one_run_rx_def trailing_rx_def Plus_def)
  then have "suffix r cs \<and> length r < length cs" if "rx_match (o200k_rest_rx T one_run_rx) cs = Some r"
    using rx_match_suffix rx_match_consuming that by blast
  then show "suffix r cs \<and> length r < length cs"
    if "(case word_code T (contraction_rx ci {0x27, 0x2019}) cs of None \<Rightarrow> rx_match (o200k_rest_rx T one_run_rx) cs | Some r \<Rightarrow> Some r) = Some r"
    using that word_code_suffix by (auto split: option.splits)
next
  assume "\<not> ucd_is_whitespace (hd cs)"
  then have "letter_cp T (hd cs) \<or> number_cp T (hd cs) \<or> other_cp T (hd cs)" by (auto simp: other_cp_def)
  then show "(case word_code T (contraction_rx ci {0x27, 0x2019}) cs of None \<Rightarrow> rx_match (o200k_rest_rx T one_run_rx) cs | Some r \<Rightarrow> Some r) \<noteq> None"
    using word_match [OF assms, of T "contraction_rx ci {0x27, 0x2019}"] numbers_match [OF assms, of T]
      punct_match [OF assms, of T "\<lambda>c. ucd_is_newline c \<or> c = 0x2F"]
    by (auto simp: o200k_rest_rx_def split: option.split)
qed simp

subsection \<open>The documented patterns\<close>

definition camel_rx :: "ucd_tables \<Rightarrow> rx" where
  "camel_rx T = Seq (Opt (Cls (prefix_cp T)))
     (Seq (Star (upper_cp T)) (Seq (Plus (lower_cp T)) (Opt (contraction_rx ci_unicode {0x27}))))"

definition caps_rx :: "ucd_tables \<Rightarrow> rx" where
  "caps_rx T = Seq (Opt (Cls (prefix_cp T)))
     (Seq (Plus (upper_cp T)) (Seq (Star (lower_cp T)) (Opt (contraction_rx ci_unicode {0x27}))))"

definition o200k_doc :: "ucd_tables \<Rightarrow> u32 list \<Rightarrow> (u32 list \<times> nat \<times> bool) option" where
  "o200k_doc T = three_patterns (Alt (camel_rx T) (Alt (caps_rx T) (o200k_rest_rx T newlines_rx)))"

text \<open>An upper-class run that contains a code point both classes have, but does not end with one, and
  is not followed by a lower-class one: the expression would give back its end.\<close>

definition caps_clash :: "ucd_tables \<Rightarrow> u32 list \<Rightarrow> bool" where
  "caps_clash T cs \<longleftrightarrow>
     (let u = takeWhile (upper_cp T) (after_prefix T cs); v = dropWhile (upper_cp T) (after_prefix T cs)
      in (v = [] \<or> \<not> lower_cp T (hd v)) \<and> (\<exists>c \<in> set u. lower_cp T c) \<and> \<not> lower_cp T (last u))"

lemma star_then_Opt: "rx_match (Seq (Star P) (Opt r)) cs = Some (opt_rest r (dropWhile P cs))"
  by (induction cs) (simp_all add: rx_match_star_Seq opt_rest_def split: option.split)

lemma star_then_total:
  "(\<And>xs. rx_match r xs = Some (f xs)) \<Longrightarrow> rx_match (Seq (Star P) r) cs = Some (f (dropWhile P cs))"
  by (induction cs) (simp_all add: rx_match_star_Seq)

lemma lower_word: "rx_match (Seq (Plus P) (Opt r)) cs =
    (case cs of [] \<Rightarrow> None | c # ds \<Rightarrow> if P c then Some (opt_rest r (dropWhile P ds)) else None)"
  by (simp add: rx_match_Plus_Seq star_then_Opt split: list.split)

lemma star_lower_Cons:
  "rx_match (Seq (Star U) (Seq (Plus L) (Opt r))) [] = None"
  "rx_match (Seq (Star U) (Seq (Plus L) (Opt r))) (c # cs) =
     (if U c then (case rx_match (Seq (Star U) (Seq (Plus L) (Opt r))) cs of
          None \<Rightarrow> if L c then Some (opt_rest r (dropWhile L cs)) else None | Some x \<Rightarrow> Some x)
      else if L c then Some (opt_rest r (dropWhile L cs)) else None)"
  by (simp_all add: rx_match_star_Seq lower_word split: option.split)

lemma camel_greedy:
  "dropWhile U xs \<noteq> [] \<and> L (hd (dropWhile U xs)) \<Longrightarrow>
     rx_match (Seq (Star U) (Seq (Plus L) (Opt r))) xs = Some (opt_rest r (dropWhile L (dropWhile U xs)))"
  by (induction xs) (auto simp: star_lower_Cons split: if_splits)

lemma camel_none:
  "dropWhile U xs = [] \<or> \<not> L (hd (dropWhile U xs)) \<Longrightarrow> \<forall>c \<in> set (takeWhile U xs). \<not> L c \<Longrightarrow>
     rx_match (Seq (Star U) (Seq (Plus L) (Opt r))) xs = None"
  by (induction xs) (auto simp: star_lower_Cons split: if_splits)

lemma camel_last:
  "dropWhile U xs = [] \<or> \<not> L (hd (dropWhile U xs)) \<Longrightarrow> takeWhile U xs \<noteq> [] \<Longrightarrow> L (last (takeWhile U xs)) \<Longrightarrow>
     rx_match (Seq (Star U) (Seq (Plus L) (Opt r))) xs = Some (opt_rest r (dropWhile U xs))"
proof (induction xs)
  case (Cons c xs)
  show ?case
  proof (cases "takeWhile U xs = []")
    case True
    then have "dropWhile U xs = xs" by (cases xs) (auto split: if_splits)
    then have "rx_match (Seq (Star U) (Seq (Plus L) (Opt r))) xs = None" "dropWhile L xs = xs"
      using Cons.prems True camel_none [of U xs L r] by (cases xs; auto split: if_splits)+
    then show ?thesis using Cons.prems True \<open>dropWhile U xs = xs\<close>
      by (auto simp: star_lower_Cons split: if_splits)
  next
    case False
    then show ?thesis using Cons by (auto simp: star_lower_Cons split: if_splits)
  qed
qed simp

lemma words_doc:
  assumes "\<not> caps_clash T cs" and "cs = [] \<or> \<not> mark_cp T (hd cs)"
  shows "rx_match (Alt (camel_rx T) (caps_rx T)) cs = word_code T (contraction_rx ci_unicode {0x27}) cs"
proof -
  let ?U = "upper_cp T" and ?L = "lower_cp T" and ?K = "contraction_rx ci_unicode {0x27}"
  define xs where "xs = after_prefix T cs"
  define v where "v = dropWhile ?U xs"
  have pre: "rx_match (Seq (Opt (Cls (prefix_cp T))) m) cs = rx_match m xs"
    if "\<And>c ds. \<not> ?U c \<Longrightarrow> \<not> ?L c \<Longrightarrow> rx_match m (c # ds) = None" for m
  proof (cases cs)
    case (Cons c ds)
    have "\<not> ?U c \<and> \<not> ?L c" if "prefix_cp T c"
      using that assms(2) Cons upper_lower [of T c] by (auto simp: prefix_cp_def)
    then show ?thesis using Cons that
      by (auto simp: rx_match_Opt_Seq xs_def after_prefix_def split: option.split)
  qed (simp add: rx_match_Opt_Seq xs_def after_prefix_def)
  have camel: "rx_match (camel_rx T) cs = rx_match (Seq (Star ?U) (Seq (Plus ?L) (Opt ?K))) xs"
    unfolding camel_rx_def by (rule pre) (simp add: star_lower_Cons)
  have caps: "rx_match (caps_rx T) cs = (if v = xs then None else Some (opt_rest ?K (dropWhile ?L v)))"
  proof -
    have "rx_match (caps_rx T) cs = rx_match (Seq (Plus ?U) (Seq (Star ?L) (Opt ?K))) xs"
      unfolding caps_rx_def by (rule pre) (simp add: rx_match_Plus_Seq)
    also have "\<dots> = (if v = xs then None else Some (opt_rest ?K (dropWhile ?L v)))"
      by (cases xs) (auto simp: v_def rx_match_Plus_Seq star_then_total [OF star_then_Opt])
    finally show ?thesis .
  qed
  have code: "word_code T (contraction_rx ci_unicode {0x27}) cs =
      (if dropWhile ?L v = v \<and> v = xs then None else Some (opt_rest ?K (dropWhile ?L v)))"
    by (simp only: word_code_def xs_def v_def Let_def)
  show ?thesis
  proof (cases "v \<noteq> [] \<and> ?L (hd v)")
    case True
    then have "dropWhile ?L v \<noteq> v" by (cases v) auto
    then show ?thesis using camel_greedy [of ?U xs ?L ?K] True camel code by (simp add: v_def)
  next
    case False
    then have l: "dropWhile ?L v = v" by (cases v) auto
    show ?thesis
    proof (cases "\<exists>c \<in> set (takeWhile ?U xs). ?L c")
      case True
      then have "?L (last (takeWhile ?U xs))" "takeWhile ?U xs \<noteq> []"
        using assms(1) False by (auto simp: caps_clash_def v_def xs_def Let_def)
      moreover have "v \<noteq> xs" using \<open>takeWhile ?U xs \<noteq> []\<close> by (cases xs) (auto simp: v_def split: if_splits)
      ultimately show ?thesis using camel_last [of ?U xs ?L ?K] False camel code l by (auto simp: v_def)
    next
      case F: False
      then have "rx_match (camel_rx T) cs = None"
        using camel_none [of ?U xs ?L ?K] False camel by (auto simp: v_def)
      then show ?thesis using caps code l by simp
    qed
  qed
qed

text \<open>An apostrophe directly before a long s, anywhere in the text.\<close>

fun long_s_after :: "u32 list \<Rightarrow> bool" where
  "long_s_after [] = False"
| "long_s_after (c # cs) = (c = 0x27 \<and> cs \<noteq> [] \<and> hd cs = 0x17F \<or> long_s_after cs)"

lemma long_s_suffix: "suffix xs cs \<Longrightarrow> long_s_after xs \<Longrightarrow> long_s_after cs"
proof -
  have "long_s_after xs \<Longrightarrow> long_s_after (ys @ xs)" for ys by (induction ys) auto
  then show "suffix xs cs \<Longrightarrow> long_s_after xs \<Longrightarrow> long_s_after cs" by (auto simp: suffix_def)
qed

lemma contraction_plain:
  assumes "0x2019 \<notin> set cs" and "\<not> long_s_after cs"
  shows "rx_match (contraction_rx ci {0x27, 0x2019}) cs = rx_match (contraction_rx ci_unicode {0x27}) cs"
proof -
  have "take 2 cs \<noteq> [0x27, 0x17F]" using assms(2) by (cases cs; cases "tl cs") auto
  moreover have "rx_match (contraction_rx ci {0x27, 0x2019}) cs = rx_match (contraction_rx ci {0x27}) cs"
    using assms(1) by (cases cs) (auto simp: contraction_rx_def)
  ultimately show ?thesis using contraction_ascii [of cs] by simp
qed

lemma word_code_plain:
  assumes "0x2019 \<notin> set cs" and "\<not> long_s_after cs"
  shows "word_code T (contraction_rx ci {0x27, 0x2019}) cs = word_code T (contraction_rx ci_unicode {0x27}) cs"
proof -
  define w where "w = dropWhile (lower_cp T) (dropWhile (upper_cp T) (after_prefix T cs))"
  have "suffix (after_prefix T cs) cs" by (auto simp: after_prefix_def suffix_ConsI split: list.split)
  then have s: "suffix w cs" unfolding w_def by (meson suffix_dropWhile suffix_order.trans)
  then have "set w \<subseteq> set cs" by (rule set_mono_suffix)
  then have "0x2019 \<notin> set w" "\<not> long_s_after w" using assms long_s_suffix [OF s] by blast+
  then have "opt_rest (contraction_rx ci {0x27, 0x2019}) w = opt_rest (contraction_rx ci_unicode {0x27}) w"
    unfolding opt_rest_def using contraction_plain [of w] by simp
  then show ?thesis unfolding word_code_def Let_def w_def by (simp only:)
qed

lemma o200k_code_doc:
  assumes "\<not> split_newlines cs" and "\<not> caps_clash T cs" and "cs = [] \<or> \<not> mark_cp T (hd cs)"
    and "0x2019 \<notin> set cs" and "\<not> long_s_after cs"
  shows "o200k_code T cs = o200k_doc T cs"
proof -
  have w: "rx_match (Alt (camel_rx T) (Alt (caps_rx T) r)) cs =
      (case word_code T (contraction_rx ci {0x27, 0x2019}) cs of None \<Rightarrow> rx_match r cs | Some x \<Rightarrow> Some x)" for r
    using words_doc [OF assms(2,3)] word_code_plain [OF assms(4,5)] by (auto split: option.splits)
  show ?thesis using newlines_one_run [OF assms(1)]
    by (simp add: o200k_code_def o200k_doc_def three_patterns_def w o200k_rest_rx_def cong: option.case_cong
        del: rx_match_Alt) (simp add: o200k_rest_rx_def cong: option.case_cong)
qed

end
