(* ===== verification/Tokenizer.thy ===== *)
theory Tokenizer
  imports Bpe_Backtrack Ac_Pack Pretok_O200k
begin

text \<open>
  The tokenizer of \<^verbatim>\<open>src/tokenizer.c\<close>: the pretokenizer splits the text into pieces, and every
  piece is encoded on its own. A pretokenizer is a function pointer, here a function that a tokenizer
  holds; the locale \<open>pretokenizer\<close> states what the tokenizer relies on, and both
  pretokenizers are interpretations of it.
\<close>

subsection \<open>Code\<close>

type_synonym pretok_fn = "bytes \<Rightarrow> nat \<Rightarrow> pretok_match option option"

record tokenizer =
  tok_bpe :: bpe
  native_pre :: "pretok_fn option"

definition tokenizer_new_native :: "bpe \<Rightarrow> pretok_fn option \<Rightarrow> tokenizer" where
  "tokenizer_new_native bpe fn = \<lparr>tok_bpe = bpe, native_pre = fn\<rparr>"

record pretok_iter =
  it_native :: "pretok_fn option"
  it_text :: bytes
  it_offset :: nat

definition pretok_iter_new_native_ext :: "pretok_fn option \<Rightarrow> bytes \<Rightarrow> pretok_iter" where
  "pretok_iter_new_native_ext fn text = \<lparr>it_native = fn, it_text = text, it_offset = 0\<rparr>"

definition pretok_iter_new_for :: "tokenizer \<Rightarrow> bytes \<Rightarrow> pretok_iter" where
  "pretok_iter_new_for tok text =
     (case native_pre tok of Some fn \<Rightarrow> pretok_iter_new_native_ext (Some fn) text
      | None \<Rightarrow> \<lparr>it_native = None, it_text = text, it_offset = 0\<rparr>)"

text \<open>The walk back to the first byte of the last code point.\<close>

fun strip_back :: "bytes \<Rightarrow> nat \<Rightarrow> nat \<Rightarrow> nat option" where
  "strip_back text p l =
     (if p < l then do { b \<leftarrow> rd text l; if is_cont b then strip_back text p (l - 1) else Some l }
      else Some l)"

declare strip_back.simps [simp del]

definition pretok_iter_next :: "pretok_iter \<Rightarrow> ((nat \<times> nat) option \<times> pretok_iter) option" where
  "pretok_iter_next it =
     (case it_native it of None \<Rightarrow> Some (None, it)
      | Some native \<Rightarrow>
          if length (it_text it) \<le> it_offset it then Some (None, it)
          else do {
            r \<leftarrow> native (it_text it) (it_offset it);
            case r of None \<Rightarrow> Some (None, it)
            | Some m \<Rightarrow> do {
                piece_end \<leftarrow> (if lookahead m \<and> m_start m < m_end m
                             then strip_back (it_text it) (m_start m) (m_end m - 1) else Some (m_end m));
                Some (Some (m_start m, piece_end), it\<lparr>it_offset := piece_end\<rparr>)
              }
          })"

text \<open>The loop of \<^verbatim>\<open>tokenizer_encode\<close> and \<^verbatim>\<open>tokenizer_encode_into\<close>: the tokens written so far, the
  capacity of their buffer and the scratch buffers are passed on.\<close>

partial_function (option) encode_pieces ::
    "bpe \<Rightarrow> pretok_iter \<Rightarrow> enc_scratch \<Rightarrow> nat list \<Rightarrow> nat \<Rightarrow> (nat list \<times> enc_scratch \<times> nat) option" where
  "encode_pieces bpe it scratch buf cap = do {
     (r, it) \<leftarrow> pretok_iter_next it;
     case r of None \<Rightarrow> Some (buf, scratch, cap)
     | Some (ps, pe) \<Rightarrow>
         if pe \<le> ps then encode_pieces bpe it scratch buf cap
         else do {
           piece \<leftarrow> rd_slice (it_text it) ps (pe - ps);
           (toks, scratch) \<leftarrow> bpe_encode_piece bpe piece scratch;
           cap \<leftarrow> grow_cap cap (length buf + length toks);
           encode_pieces bpe it scratch (buf @ toks) cap
         }
   }"

definition tokenizer_encode :: "tokenizer \<Rightarrow> bytes \<Rightarrow> nat list option" where
  "tokenizer_encode tok text =
     (if native_pre tok = None then bpe_encode_via_backtracking (tok_bpe tok) text
      else do {
        (result, _, _) \<leftarrow> encode_pieces (tok_bpe tok) (pretok_iter_new_for tok text) bpe_scratch_new [] 256;
        Some result
      })"

definition tokenizer_encode_into ::
    "tokenizer \<Rightarrow> bytes \<Rightarrow> enc_scratch \<Rightarrow> nat \<Rightarrow> (nat list \<times> enc_scratch \<times> nat) option" where
  "tokenizer_encode_into tok text scratch buf_cap =
     (if native_pre tok = None then do {
        tmp \<leftarrow> bpe_encode_via_backtracking (tok_bpe tok) text;
        buf_cap \<leftarrow> grow_cap buf_cap (length tmp);
        Some (tmp, scratch, buf_cap)
      }
      else encode_pieces (tok_bpe tok) (pretok_iter_new_for tok text) scratch [] buf_cap)"

partial_function (option) count_pieces :: "bpe \<Rightarrow> pretok_iter \<Rightarrow> enc_scratch \<Rightarrow> nat \<Rightarrow> nat option" where
  "count_pieces bpe it scratch tot = do {
     (r, it) \<leftarrow> pretok_iter_next it;
     case r of None \<Rightarrow> Some tot
     | Some (ps, pe) \<Rightarrow>
         if ps < pe then do {
           piece \<leftarrow> rd_slice (it_text it) ps (pe - ps);
           (n, scratch) \<leftarrow> bpe_count_piece bpe piece scratch;
           count_pieces bpe it scratch (tot + n)
         }
         else count_pieces bpe it scratch tot
   }"

definition tokenizer_count :: "tokenizer \<Rightarrow> bytes \<Rightarrow> nat option" where
  "tokenizer_count tok text =
     (if native_pre tok = None then bpe_count (tok_bpe tok) text
      else count_pieces (tok_bpe tok) (pretok_iter_new_for tok text) bpe_scratch_new 0)"

partial_function (option) limit_pieces :: "bpe \<Rightarrow> pretok_iter \<Rightarrow> nat \<Rightarrow> nat \<Rightarrow> nat option" where
  "limit_pieces bpe it token_limit tot = do {
     (r, it) \<leftarrow> pretok_iter_next it;
     case r of None \<Rightarrow> Some tot
     | Some (ps, pe) \<Rightarrow>
         if pe \<le> ps then limit_pieces bpe it token_limit tot
         else do {
           let remaining = (if tot < token_limit then token_limit - tot else 0);
           piece \<leftarrow> rd_slice (it_text it) ps (pe - ps);
           piece_count \<leftarrow> bpe_count_till_limit bpe piece remaining;
           if piece_count = SIZE_MAX then Some SIZE_MAX
           else if token_limit < tot + piece_count then Some SIZE_MAX
           else limit_pieces bpe it token_limit (tot + piece_count)
         }
   }"

definition tokenizer_count_till_limit :: "tokenizer \<Rightarrow> bytes \<Rightarrow> nat \<Rightarrow> nat option" where
  "tokenizer_count_till_limit tok text token_limit =
     (if native_pre tok = None then bpe_count_till_limit (tok_bpe tok) text token_limit
      else limit_pieces (tok_bpe tok) (pretok_iter_new_for tok text) token_limit 0)"

subsection \<open>Pieces\<close>

text \<open>\<open>splits f cs ps\<close>: taking a match of \<open>f\<close> again and again, less its last code point
  where the match looks ahead, splits the code points \<open>cs\<close> into the pieces \<open>ps\<close>.\<close>

inductive splits :: "(u32 list \<Rightarrow> (u32 list \<times> nat \<times> bool) option) \<Rightarrow> u32 list \<Rightarrow> u32 list list \<Rightarrow> bool"
  for f where
  done_: "splits f [] []"
| piece: "f (p @ cs) = Some (r, i, la) \<Longrightarrow> p \<noteq> [] \<Longrightarrow>
    (if la then \<exists>c. cs = c # r else cs = r) \<Longrightarrow> splits f cs ps \<Longrightarrow> splits f (p @ cs) (p # ps)"

lemma splits_concat: "splits f cs ps \<Longrightarrow> concat ps = cs"
  by (induction rule: splits.induct) auto

lemma splits_nonempty: "splits f cs ps \<Longrightarrow> [] \<notin> set ps"
  by (induction rule: splits.induct) auto

text \<open>The walk back finds the start of the last code point.\<close>

lemma strip_back_run:
  "\<forall>j < k. is_cont (text ! (a + 1 + j)) \<Longrightarrow> a + k < length text \<Longrightarrow> p \<le> a \<Longrightarrow>
     p < a \<Longrightarrow> \<not> is_cont (text ! a) \<Longrightarrow> strip_back text p (a + k) = Some a"
proof (induction k)
  case 0
  then show ?case by (subst strip_back.simps) simp
next
  case (Suc k)
  then have "is_cont (text ! (a + Suc k))" by (metis add.assoc lessI plus_1_eq_Suc)
  then show ?case using Suc by (subst strip_back.simps) simp
qed

lemma strip_back_utf8:
  assumes "scalar c" and "m \<noteq> []"
  shows "strip_back (utf8 (ds @ m @ c # r)) (length (utf8 ds)) (length (utf8 (ds @ m @ [c])) - 1) =
    Some (length (utf8 (ds @ m)))"
proof -
  obtain b bs where e: "utf8_encode c = b # bs" "\<not> is_cont b" "\<forall>x \<in> set bs. is_cont x"
    using utf8_encode_shape [OF assms(1)] by blast
  let ?a = "length (utf8 (ds @ m))"
  have t: "utf8 (ds @ m @ c # r) = utf8 (ds @ m) @ b # bs @ utf8 r" using e(1) by simp
  have "strip_back (utf8 (ds @ m @ c # r)) (length (utf8 ds)) (?a + length bs) = Some ?a"
  proof (rule strip_back_run)
    show "\<forall>j < length bs. is_cont (utf8 (ds @ m @ c # r) ! (?a + 1 + j))"
      unfolding t using e(3) by (auto simp: nth_append)
    show "length (utf8 ds) < ?a" using assms(2) by simp
    then show "length (utf8 ds) \<le> ?a" by simp
    show "\<not> is_cont (utf8 (ds @ m @ c # r) ! ?a)" unfolding t using e(2) by (simp add: nth_append)
    show "?a + length bs < length (utf8 (ds @ m @ c # r))" unfolding t by simp
  qed
  then show ?thesis using e(1) by (simp add: add.assoc)
qed

text \<open>A pretokenizer that follows a function on code points.\<close>

definition follows :: "pretok_fn \<Rightarrow> (u32 list \<Rightarrow> (u32 list \<times> nat \<times> bool) option) \<Rightarrow> bool" where
  "follows fn f \<longleftrightarrow>
     (\<forall>ds cs. (\<forall>c \<in> set cs. scalar c) \<longrightarrow> fn (utf8 (ds @ cs)) (length (utf8 ds)) = pick ds cs (f cs)) \<and>
     (\<forall>cs. cs \<noteq> [] \<longrightarrow> (\<exists>m r i la. f cs = Some (r, i, la) \<and> cs = m @ r \<and> m \<noteq> [] \<and> (la \<longrightarrow> 2 \<le> length m)))"

lemma splits_exist:
  assumes "follows fn f"
  shows "\<exists>ps. splits f cs ps"
proof (induction cs rule: length_induct)
  case (1 cs)
  show ?case
  proof (cases "cs = []")
    case True
    then show ?thesis using splits.done_ by blast
  next
    case False
    then obtain m r i la where m: "f cs = Some (r, i, la)" "cs = m @ r" "m \<noteq> []" "la \<longrightarrow> 2 \<le> length m"
      using assms unfolding follows_def by blast
    define p where "p = (if la then butlast m else m)"
    define rest where "rest = (if la then last m # r else r)"
    have cs: "cs = p @ rest" using m(2,3) by (auto simp: p_def rest_def)
    have p: "p \<noteq> []" using m(3,4) by (cases m rule: rev_cases) (auto simp: p_def Suc_le_eq)
    have "length rest < length cs" using cs p by simp
    then obtain ps where "splits f rest ps" using 1 by blast
    then have "splits f (p @ rest) (p # ps)"
      using m(1) p unfolding cs by (intro splits.piece [where la = la]) (auto simp: rest_def)
    then show ?thesis unfolding cs by blast
  qed
qed

text \<open>Where the iterator stands after a prefix of the text.\<close>

definition iter_at :: "pretok_fn \<Rightarrow> u32 list \<Rightarrow> u32 list \<Rightarrow> pretok_iter" where
  "iter_at fn ds cs = \<lparr>it_native = Some fn, it_text = utf8 (ds @ cs), it_offset = length (utf8 ds)\<rparr>"

lemma iter_next_end: "pretok_iter_next (iter_at fn ds []) = Some (None, iter_at fn ds [])"
  by (simp add: pretok_iter_next_def iter_at_def)

lemma iter_next_piece:
  assumes fol: "follows fn f" and sc: "\<forall>c \<in> set (p @ cs). scalar c"
    and f: "f (p @ cs) = Some (r, i, la)" and p: "p \<noteq> []" and la: "if la then \<exists>c. cs = c # r else cs = r"
  shows "pretok_iter_next (iter_at fn ds (p @ cs)) =
    Some (Some (length (utf8 ds), length (utf8 (ds @ p))), iter_at fn (ds @ p) cs)"
proof -
  have "fn (utf8 (ds @ p @ cs)) (length (utf8 ds)) = pick ds (p @ cs) (f (p @ cs))"
    using fol sc unfolding follows_def by blast
  then have fn: "fn (utf8 (ds @ p @ cs)) (length (utf8 ds)) = Some (Some (on_match ds (p @ cs) (r, i, la)))"
    using f by (simp add: pick_def)
  have len: "\<not> length (utf8 (ds @ p @ cs)) \<le> length (utf8 ds)" using p by simp
  show ?thesis
  proof (cases la)
    case False
    then show ?thesis using la fn len
      by (simp add: pretok_iter_next_def iter_at_def on_match_def)
  next
    case True
    then obtain c where c: "cs = c # r" using la by auto
    have "strip_back (utf8 (ds @ p @ c # r)) (length (utf8 ds)) (length (utf8 (ds @ p @ [c])) - 1) =
        Some (length (utf8 (ds @ p)))"
      using sc c by (intro strip_back_utf8 [OF _ p]) simp
    moreover have "m_end (on_match ds (p @ cs) (r, i, la)) = length (utf8 (ds @ p @ [c]))"
      using c by (simp add: on_match_def)
    moreover have "length (utf8 ds) < length (utf8 (ds @ p @ [c]))" by simp
    ultimately show ?thesis using True fn len c
      by (simp add: pretok_iter_next_def iter_at_def on_match_def del: utf8_simps)
  qed
qed

subsection \<open>The three loops\<close>

lemma piece_slice: "rd_slice (utf8 (ds @ p @ cs)) (length (utf8 ds)) (length (utf8 (ds @ p)) - length (utf8 ds)) = Some (utf8 p)"
  by (simp add: rd_slice_def slice_def)

text \<open>Every piece is encoded on its own.\<close>

definition piece_ids :: "bytes list \<Rightarrow> u32 list list \<Rightarrow> nat list" where
  "piece_ids D ps = concat (map (\<lambda>p. bpe_ids D (utf8 p)) ps)"

lemma piece_ids_simps [simp]:
  "piece_ids D [] = []" "piece_ids D (p # ps) = bpe_ids D (utf8 p) @ piece_ids D ps"
  by (simp_all add: piece_ids_def)

lemma covers_append [simp]: "covers D (s @ t) \<longleftrightarrow> covers D s \<and> covers D t"
  by (auto simp: covers_def)

lemma encode_pieces_ok:
  assumes "follows fn f" and "bpe_ok bpe D" and "splits f cs ps"
  shows "\<forall>c \<in> set cs. scalar c \<Longrightarrow> covers D (utf8 cs) \<Longrightarrow> 0 < cap \<Longrightarrow> length buf \<le> cap \<Longrightarrow>
    \<exists>s' cap'. encode_pieces bpe (iter_at fn ds cs) s buf cap = Some (buf @ piece_ids D ps, s', cap') \<and>
      length (buf @ piece_ids D ps) \<le> cap'"
  using assms(3)
proof (induction arbitrary: ds s buf cap rule: splits.induct)
  case done_
  then show ?case by (subst encode_pieces.simps) (auto simp: iter_next_end)
next
  case (piece p cs r i la ps)
  have cov: "covers D (utf8 p)" "covers D (utf8 cs)" using piece.prems(2) by auto
  let ?ids = "bpe_ids D (utf8 p)"
  obtain s1 where s1: "bpe_encode_piece bpe (utf8 p) s = Some (?ids, s1)"
    using encode_piece_ok [OF assms(2) cov(1)] by blast
  obtain cap1 where cap1: "grow_cap cap (length buf + length ?ids) = Some cap1" "cap \<le> cap1"
      "length buf + length ?ids \<le> cap1"
    using grow_cap_ok [OF piece.prems(3)] by blast
  have "length (buf @ ?ids) \<le> cap1" "0 < cap1" using cap1 piece.prems(3) by simp_all
  then obtain s2 cap2 where
    "encode_pieces bpe (iter_at fn (ds @ p) cs) s1 (buf @ ?ids) cap1 = Some ((buf @ ?ids) @ piece_ids D ps, s2, cap2)"
    "length ((buf @ ?ids) @ piece_ids D ps) \<le> cap2"
    using piece.IH [of cap1 "buf @ ?ids"] piece.prems(1) cov(2) by fastforce
  moreover have "length (utf8 ds) < length (utf8 (ds @ p))" using piece.hyps(2) by simp
  moreover note iter_next_piece [OF assms(1) piece.prems(1) piece.hyps(1-3), of ds] s1 cap1(1)
    piece_slice [of ds p cs]
  ultimately show ?case
    by (subst encode_pieces.simps) (simp add: iter_at_def del: utf8_simps)
qed

text \<open>A buffer of capacity 0 is never grown.\<close>

lemma grow_cap_zero:
  assumes "0 < n"
  shows "grow_cap 0 n = None"
proof -
  have z: "c \<noteq> 0 \<or> needed = 0" if "grow_cap c needed = Some y" for c needed y
    using that by (rule grow_cap.raw_induct [where P = "\<lambda>c needed y. c \<noteq> 0 \<or> needed = 0", rotated])
      (fastforce split: if_splits)
  show ?thesis
  proof (cases "grow_cap 0 n")
    case (Some y)
    from z [OF this] assms show ?thesis by simp
  qed
qed

lemma encode_into_zero:
  assumes "bpe_ok bpe D" and "covers D t" and "t \<noteq> []"
    and "pretok_iter_next (pretok_iter_new_for (tokenizer_new_native bpe (Some fn)) t) = Some (Some (0, length t), it)"
    and "it_text it = t"
  shows "tokenizer_encode_into (tokenizer_new_native bpe (Some fn)) t s 0 = None"
proof -
  obtain s1 where s1: "bpe_encode_piece bpe t s = Some (bpe_ids D t, s1)"
    using encode_piece_ok [OF assms(1,2)] by blast
  have "bpe_ids D t \<noteq> []" using bpe_ids_decode [OF assms(2)] assms(3) by auto
  then show ?thesis using assms(3-5) s1
    unfolding tokenizer_encode_into_def
    by (subst encode_pieces.simps) (simp add: tokenizer_new_native_def rd_slice_def slice_def grow_cap_zero)
qed

lemma count_pieces_ok:
  assumes "follows fn f" and "bpe_ok bpe D" and "splits f cs ps"
  shows "\<forall>c \<in> set cs. scalar c \<Longrightarrow> covers D (utf8 cs) \<Longrightarrow>
    count_pieces bpe (iter_at fn ds cs) s tot = Some (tot + length (piece_ids D ps))"
  using assms(3)
proof (induction arbitrary: ds s tot rule: splits.induct)
  case done_
  then show ?case by (subst count_pieces.simps) (simp add: iter_next_end)
next
  case (piece p cs r i la ps)
  have cov: "covers D (utf8 p)" "covers D (utf8 cs)" using piece.prems(2) by auto
  obtain s1 where s1: "bpe_count_piece bpe (utf8 p) s = Some (length (bpe_ids D (utf8 p)), s1)"
    using count_piece_ok [OF assms(2) cov(1)] by blast
  have "count_pieces bpe (iter_at fn (ds @ p) cs) s1 (tot + length (bpe_ids D (utf8 p))) =
      Some (tot + length (bpe_ids D (utf8 p)) + length (piece_ids D ps))"
    using piece.IH piece.prems(1) cov(2) by simp
  moreover have "length (utf8 ds) < length (utf8 (ds @ p))" using piece.hyps(2) by simp
  moreover note iter_next_piece [OF assms(1) piece.prems(1) piece.hyps(1-3), of ds] s1
    piece_slice [of ds p cs]
  ultimately show ?case
    by (subst count_pieces.simps) (simp add: iter_at_def del: utf8_simps)
qed

text \<open>A text none of whose prefixes takes more than ten tokens more than the text itself: the
  slack within which \<^verbatim>\<open>bpe_count_till_limit\<close> is exact.\<close>

definition slack_ok :: "bytes list \<Rightarrow> bytes \<Rightarrow> bool" where
  "slack_ok D t \<longleftrightarrow> (\<forall>k \<le> length t. length (bpe_ids D (take k t)) \<le> length (bpe_ids D t) + 10)"

lemma count_till_limit_slack:
  assumes "bpe_ok bpe D" and "covers D t" and "slack_ok D t" and "limit + 16 < 2 ^ 62"
  shows "bpe_count_till_limit bpe t limit =
    Some (if length (bpe_ids D t) \<le> limit then length (bpe_ids D t) else SIZE_MAX)"
proof (cases "length (bpe_ids D t) \<le> limit")
  case True
  then have "\<not> limit + 10 < length (bpe_ids D (take k t))" if "k \<le> length t" for k
    using assms(3) that unfolding slack_ok_def by (meson add_mono_thms_linordered_semiring(3) dual_order.trans not_le)
  then show ?thesis using count_till_limit_cases [OF assms(1,2), of limit] assms(4) by auto
next
  case False
  then show ?thesis using count_till_limit_cases [OF assms(1,2), of limit] by auto
qed

lemma limit_pieces_ok:
  assumes "follows fn f" and "bpe_ok bpe D" and lim: "limit + 16 < 2 ^ 62" and "splits f cs ps"
  shows "\<forall>c \<in> set cs. scalar c \<Longrightarrow> covers D (utf8 cs) \<Longrightarrow> \<forall>p \<in> set ps. slack_ok D (utf8 p) \<Longrightarrow> tot \<le> limit \<Longrightarrow>
    limit_pieces bpe (iter_at fn ds cs) limit tot =
      Some (if tot + length (piece_ids D ps) \<le> limit then tot + length (piece_ids D ps) else SIZE_MAX)"
  using assms(4)
proof (induction arbitrary: ds tot rule: splits.induct)
  case done_
  then show ?case by (subst limit_pieces.simps) (simp add: iter_next_end)
next
  case (piece p cs r i la ps)
  have cov: "covers D (utf8 p)" "covers D (utf8 cs)" using piece.prems(2) by auto
  let ?n = "length (bpe_ids D (utf8 p))"
  have n: "bpe_count_till_limit bpe (utf8 p) (limit - tot) = Some (if ?n \<le> limit - tot then ?n else SIZE_MAX)"
    using count_till_limit_slack [OF assms(2) cov(1), of "limit - tot"] piece.prems(3) lim by simp
  have rem: "(if tot < limit then limit - tot else 0) = limit - tot" by simp
  have max: "limit < SIZE_MAX" using lim by (simp add: SIZE_MAX_def)
  have IH: "limit_pieces bpe (iter_at fn (ds @ p) cs) limit (tot + ?n) =
      Some (if tot + ?n + length (piece_ids D ps) \<le> limit then tot + ?n + length (piece_ids D ps) else SIZE_MAX)"
    if "?n \<le> limit - tot"
    using piece.IH [of "tot + ?n"] piece.prems cov(2) that by simp
  have "length (utf8 ds) < length (utf8 (ds @ p))" using piece.hyps(2) by simp
  note start = iter_next_piece [OF assms(1) piece.prems(1) piece.hyps(1-3), of ds] n piece_slice [of ds p cs] this
  show ?case
  proof (cases "?n \<le> limit - tot")
    case True
    then have "?n \<noteq> SIZE_MAX" "tot + ?n \<le> limit" using max piece.prems(4) by auto
    then show ?thesis using start IH True
      by (subst limit_pieces.simps) (simp add: iter_at_def Let_def rem del: utf8_simps)
  next
    case False
    then have "\<not> tot + (?n + k) \<le> limit" for k by simp
    then show ?thesis using start False
      by (subst limit_pieces.simps) (simp add: iter_at_def Let_def rem del: utf8_simps)
  qed
qed

subsection \<open>The tokenizer over a pretokenizer\<close>

lemma splits_unique: "splits f cs ps \<Longrightarrow> splits f cs qs \<Longrightarrow> ps = qs"
proof (induction arbitrary: qs rule: splits.induct)
  case done_
  then show ?case by (auto elim: splits.cases)
next
  case (piece p cs r i la ps)
  from piece.prems piece.hyps(2) obtain p' cs' r' i' la' ps' where p': "p @ cs = p' @ cs'" "qs = p' # ps'"
      "f (p' @ cs') = Some (r', i', la')" "if la' then \<exists>c. cs' = c # r' else cs' = r'" "splits f cs' ps'"
    by (auto elim: splits.cases)
  then have "r' = r" "la' = la" using piece.hyps(1) by auto
  then have "length cs' = length cs" using p'(4) piece.hyps(3) by (auto split: if_splits)
  then have "p = p'" "cs = cs'" using p'(1) by auto
  then show ?case using p' piece.IH by simp
qed

lemma iter_new_for:
  "pretok_iter_new_for (tokenizer_new_native bpe (Some fn)) (utf8 cs) = iter_at fn [] cs"
  by (simp add: pretok_iter_new_for_def tokenizer_new_native_def pretok_iter_new_native_ext_def iter_at_def)

lemma piece_ids_text:
  "covers D (utf8 (concat ps)) \<Longrightarrow> (\<forall>i \<in> set (piece_ids D ps). i < length D) \<and>
     concat (map (\<lambda>i. D ! i) (piece_ids D ps)) = utf8 (concat ps)"
  by (induction ps) (auto simp: bpe_ids_decode dest: bpe_ids_less)

lemma decode_piece_ids:
  "dict_ok bpe D \<Longrightarrow> covers D (utf8 (concat ps)) \<Longrightarrow>
     bpe_decode_tokens bpe (piece_ids D ps) =
       Some (Some (map Some (utf8 (concat ps)) @ [Some 0], length (utf8 (concat ps))))"
  using piece_ids_text [of D ps] by (simp add: decode_tokens_ok)

locale pretokenizer =
  fixes pre :: "ucd_tables \<Rightarrow> pretok_fn"
    and code :: "ucd_tables \<Rightarrow> u32 list \<Rightarrow> (u32 list \<times> nat \<times> bool) option"
  assumes code_follows: "ucd_ok T \<Longrightarrow> follows (pre T) (code T)"
begin

lemma pieces_exist: "ucd_ok T \<Longrightarrow> \<exists>ps. splits (code T) cs ps"
  by (rule splits_exist [OF code_follows])

lemma encode_ok:
  assumes "bpe_ok bpe D" and "ucd_ok T" and "\<forall>c \<in> set cs. scalar c" and "covers D (utf8 cs)"
    and "splits (code T) cs ps"
  shows "tokenizer_encode (tokenizer_new_native bpe (Some (pre T))) (utf8 cs) = Some (piece_ids D ps)"
proof -
  obtain s c where "encode_pieces bpe (iter_at (pre T) [] cs) bpe_scratch_new [] 256 = Some (piece_ids D ps, s, c)"
    using encode_pieces_ok [OF code_follows [OF assms(2)] assms(1,5,3,4), of 256 "[]" "[]" bpe_scratch_new] by auto
  then show ?thesis unfolding tokenizer_encode_def iter_new_for by (simp add: tokenizer_new_native_def)
qed

lemma encode_into_ok:
  assumes "bpe_ok bpe D" and "ucd_ok T" and "\<forall>c \<in> set cs. scalar c" and "covers D (utf8 cs)"
    and "splits (code T) cs ps" and "0 < cap"
  shows "\<exists>s' cap'. tokenizer_encode_into (tokenizer_new_native bpe (Some (pre T))) (utf8 cs) s cap =
    Some (piece_ids D ps, s', cap') \<and> length (piece_ids D ps) \<le> cap'"
  using encode_pieces_ok [OF code_follows [OF assms(2)] assms(1,5,3,4,6), of "[]" "[]" s]
  unfolding tokenizer_encode_into_def iter_new_for by (simp add: tokenizer_new_native_def)

lemma count_all_ok:
  assumes "bpe_ok bpe D" and "ucd_ok T" and "\<forall>c \<in> set cs. scalar c" and "covers D (utf8 cs)"
    and "splits (code T) cs ps"
  shows "tokenizer_count (tokenizer_new_native bpe (Some (pre T))) (utf8 cs) = Some (length (piece_ids D ps))"
  using count_pieces_ok [OF code_follows [OF assms(2)] assms(1,5,3,4), of "[]" bpe_scratch_new 0]
  unfolding tokenizer_count_def iter_new_for by (simp add: tokenizer_new_native_def)

lemma count_till_limit_ok:
  assumes "bpe_ok bpe D" and "ucd_ok T" and "\<forall>c \<in> set cs. scalar c" and "covers D (utf8 cs)"
    and "splits (code T) cs ps" and "\<forall>p \<in> set ps. slack_ok D (utf8 p)" and "limit + 16 < 2 ^ 62"
  shows "tokenizer_count_till_limit (tokenizer_new_native bpe (Some (pre T))) (utf8 cs) limit =
    Some (if length (piece_ids D ps) \<le> limit then length (piece_ids D ps) else SIZE_MAX)"
  using limit_pieces_ok [OF code_follows [OF assms(2)] assms(1,7,5,3,4,6), of 0 "[]"]
  unfolding tokenizer_count_till_limit_def iter_new_for by (simp add: tokenizer_new_native_def)

end

interpretation cl100k: pretokenizer pretok_cl100k cl100k_code
  by unfold_locales (unfold follows_def, blast intro: pretok_cl100k_utf8 cl100k_code_ok)

interpretation o200k: pretokenizer pretok_o200k o200k_code
  by unfold_locales (unfold follows_def, blast intro: pretok_o200k_utf8 o200k_code_ok)

end
