(* ===== verification/Pretok_Examples.thy ===== *)
theory Pretok_Examples
  imports Tokenizer Bpe_Build
begin

text \<open>
  Where the pretokenizers leave the documented patterns, and tables to run them on.
\<close>

subsection \<open>Differences from the documented patterns\<close>

text \<open>White space that is neither newline, letter nor number.\<close>

definition blank_cp :: "ucd_tables \<Rightarrow> u32 \<Rightarrow> bool" where
  "blank_cp T w \<longleftrightarrow> ucd_is_whitespace w \<and> \<not> ucd_is_newline w \<and> \<not> letter_cp T w \<and> \<not> number_cp T w"

lemma blank_apos: "blank_cp T w \<Longrightarrow> w \<noteq> 0x27 \<and> w \<noteq> 0x2019"
  by (auto simp: blank_cp_def ucd_is_whitespace_def)

text \<open>A run of white space before a word: none of the alternatives of pattern 0 matches.\<close>

lemma dropWhile_run:
  "\<forall>w \<in> set ws. P w \<Longrightarrow> \<not> P c \<Longrightarrow> dropWhile P (ws @ c # cs) = c # cs"
  by (induction ws) auto

lemma takeWhile_run:
  "\<forall>w \<in> set ws. P w \<Longrightarrow> \<not> P c \<Longrightarrow> takeWhile P (ws @ c # cs) = ws"
  by (induction ws) auto

lemma spaces_no_word:
  assumes "2 \<le> length ws" and "\<forall>w \<in> set ws. blank_cp T w" and "\<not> ucd_is_whitespace c"
    and "apos \<subseteq> {0x27, 0x2019}" and "rx_match nl (ws @ c # cs) = None"
  shows "rx_match (cl100k_rx T L apos nl) (ws @ c # cs) = None"
proof -
  obtain w v us where ws: "ws = w # v # us" using assms(1) by (auto simp: numeral_2_eq_2 Suc_le_length_iff)
  have wv: "blank_cp T w" "blank_cp T v" using assms(2) by (simp_all add: ws)
  have "ucd_is_whitespace 0x20" by (simp add: ucd_is_whitespace_def)
  then have "rx_match (letters_rx T) (ws @ c # cs) = None" "rx_match (numbers_rx T) (ws @ c # cs) = None"
      "rx_match (punct_rx T ucd_is_newline) (ws @ c # cs) = None"
    using wv by (simp_all add: ws letters_rx_def numbers_rx_def punct_rx_def blank_cp_def other_cp_def rx_match_Opt_Seq
        rx_match_Plus_Seq)
  moreover have "rx_match trailing_rx (ws @ c # cs) = None" using assms(3) by (simp add: rx_match_trailing)
  moreover have "w \<notin> apos" using blank_apos [OF wv(1)] assms(4) by blast
  moreover note assms(5)
  ultimately show ?thesis by (simp add: ws cl100k_rx_def contraction_rx_def)
qed

lemma spaces_doc_code:
  assumes "2 \<le> length ws" and "\<forall>w \<in> set ws. blank_cp T w" and "\<not> ucd_is_whitespace c"
  shows "cl100k_doc T (ws @ c # cs) = Some (c # cs, 1, True)"
    and "length (utf8 ws) = length (utf8_encode c) \<Longrightarrow> cl100k_code T (ws @ c # cs) = Some (c # cs, 2, False)"
proof -
  obtain w v us where ws: "ws = w # v # us" using assms(1) by (auto simp: numeral_2_eq_2 Suc_le_length_iff)
  have wsp: "\<forall>w \<in> set ws. ucd_is_whitespace w" using assms(2) by (simp add: blank_cp_def)
  have d: "dropWhile ucd_is_whitespace (ws @ c # cs) = c # cs" "takeWhile ucd_is_whitespace (ws @ c # cs) = ws"
    using wsp assms(3) by (simp_all only: dropWhile_run takeWhile_run not_False_eq_True)
  have d2: "dropWhile ucd_is_whitespace (us @ c # cs) = c # cs"
    using wsp assms(3) by (intro dropWhile_run) (simp_all add: ws)
  have sp: "rx_match spaces2_rx (ws @ c # cs) = Some (c # cs)"
    using wsp d2 by (simp add: ws rx_match_spaces2)
  have pl: "rx_match (Plus ucd_is_whitespace) (ws @ c # cs) = Some (c # cs)"
    using wsp d by (simp add: ws)
  have nl: "rx_match newlines_rx (ws @ c # cs) = None"
    using assms(2) d(2) by (intro newlines_none) (simp add: blank_cp_def)
  have "dropWhile (\<lambda>c. ucd_is_whitespace c \<and> \<not> ucd_is_newline c) (ws @ c # cs) = c # cs"
    using assms(2,3) by (intro dropWhile_run) (auto simp: blank_cp_def)
  then have one: "rx_match one_run_rx (ws @ c # cs) = None"
    using assms(3) newline_space [of c] by (auto simp: rx_match_one_run)
  show "cl100k_doc T (ws @ c # cs) = Some (c # cs, 1, True)"
    using spaces_no_word [OF assms _ nl, of "{0x27}" ci_unicode] sp
    by (simp add: cl100k_doc_def three_patterns_def first_pattern_def)
  show "cl100k_code T (ws @ c # cs) = Some (c # cs, 2, False)" if "length (utf8 ws) = length (utf8_encode c)"
    using spaces_no_word [OF assms _ one, of "{0x27, 0x2019}" ci] pl d that
    by (simp add: cl100k_code_def first_pattern_def space_clash_def)
qed

subsection \<open>Newlines with white space between them\<close>

lemma newlines_apart:
  assumes "blank_cp T 0x20" and "\<not> letter_cp T 0x0A" and "\<not> number_cp T 0x0A"
  shows "cl100k_code T [0x0A, 0x20, 0x0A] = Some ([0x20, 0x0A], 0, False)"
    and "cl100k_doc T [0x0A, 0x20, 0x0A] = Some ([], 0, False)"
  using assms
  by (simp_all add: cl100k_code_def cl100k_doc_def three_patterns_def first_pattern_def cl100k_rx_def
      contraction_rx_def letters_rx_def numbers_rx_def punct_rx_def rx_match_Opt_Seq rx_match_Plus_Seq
      rx_match_one_run newlines_Cons newlines_none blank_cp_def prefix_cp_def other_cp_def ucd_is_newline_def
      ucd_is_whitespace_def)

subsection \<open>A word of letters without case before capitals\<close>

lemma capitals_joined:
  assumes "cat T l = ucp_Lo" and "cat T u = ucp_Lu"
  shows "o200k_code T [l, u] = Some ([], 0, False)" and "o200k_doc T [l, u] = Some ([u], 0, False)"
  using assms
  by (simp_all add: o200k_code_def o200k_doc_def three_patterns_def first_pattern_def word_code_def after_prefix_def
      prefix_cp_def letter_cp_def upper_cp_def lower_cp_def mark_cp_def ucp_gentype_def camel_rx_def opt_rest_def
      rx_match_Opt_Seq star_lower_Cons contraction_rx_def contraction_letters_rx_def)

subsection \<open>The long s after an apostrophe\<close>

text \<open>In a caseless match U+017F is an \<^verbatim>\<open>s\<close>: the documented patterns end the piece after it. The code
  compares single bytes with \<^verbatim>\<open>| 0x20\<close> and finds no contraction.\<close>

lemma long_s_cl100k:
  assumes "letter_cp T 0x17F" and "letter_cp T c" and "prefix_cp T 0x27"
  shows "cl100k_code T [0x27, 0x17F, c] = Some ([], 0, False)"
    and "cl100k_doc T [0x27, 0x17F, c] = Some ([c], 0, False)"
  using assms
  by (simp_all add: cl100k_code_def cl100k_doc_def three_patterns_def first_pattern_def cl100k_rx_def
      contraction_rx_def contraction_letters_rx_def ci_def ci_unicode_def letters_rx_def rx_match_Opt_Seq)

lemma long_s_o200k:
  assumes "cat T l = ucp_Ll" and "cat T 0x27 = ucp_Po"
  shows "o200k_code T [l, 0x27, 0x17F] = Some ([0x27, 0x17F], 0, False)"
    and "o200k_doc T [l, 0x27, 0x17F] = Some ([], 0, False)"
proof -
  have c: "upper_cp T l = False" "lower_cp T l = True" "prefix_cp T l = False"
      "upper_cp T 0x27 = False" "lower_cp T 0x27 = False"
    using assms by (simp_all add: prefix_cp_def letter_cp_def upper_cp_def lower_cp_def mark_cp_def ucp_gentype_def)
  have k: "rx_match (contraction_rx ci {0x27, 0x2019}) [0x27, 0x17F] = None"
      "rx_match (contraction_rx ci_unicode {0x27}) [0x27, 0x17F] = Some []"
    by (simp_all add: contraction_rx_def contraction_letters_rx_def ci_def ci_unicode_def)
  have "word_code T (contraction_rx ci {0x27, 0x2019}) [l, 0x27, 0x17F] = Some [0x27, 0x17F]"
    using k by (simp add: word_code_def after_prefix_def c opt_rest_def Let_def)
  then show "o200k_code T [l, 0x27, 0x17F] = Some ([0x27, 0x17F], 0, False)"
    by (simp add: o200k_code_def first_pattern_def)
  have "rx_match (camel_rx T) [l, 0x27, 0x17F] = Some []"
    unfolding camel_rx_def using k by (simp add: rx_match_Opt_Seq c star_lower_Cons opt_rest_def)
  then show "o200k_doc T [l, 0x27, 0x17F] = Some ([], 0, False)"
    by (simp add: o200k_doc_def three_patterns_def first_pattern_def)
qed

subsection \<open>A text on which the tokenizer does not return\<close>

definition stuck_text :: bytes where
  "stuck_text = [0x85, 0x85, 0x61]"

lemma stuck_decode: "utf8_decode (0x85 # r) = Some (0x85, 1)" "utf8_decode (0x61 # r) = Some (0x61, 1)"
  by (simp_all add: utf8_decode_def)

lemma stuck_space: "ucd_is_whitespace 0x85" "\<not> ucd_is_whitespace 0x61" "\<not> ucd_is_newline 0x85" "\<not> ucd_is_newline 0x61"
    "scalar 0x85" "scalar 0x61"
  by (simp_all add: ucd_is_whitespace_def ucd_is_newline_def scalar_def)

lemma stuck_classes:
  assumes "cat T 0x85 = ucp_Cc"
  shows "letter_cp T 0x85 = False" "number_cp T 0x85 = False" "upper_cp T 0x85 = False" "lower_cp T 0x85 = False"
  using assms by (simp_all add: letter_cp_def number_cp_def upper_cp_def lower_cp_def mark_cp_def ucp_gentype_def)

lemma stuck_pretok:
  assumes "cat T 0x85 = ucp_Cc" and "ucd_ok T"
  shows "pretok_cl100k T stuck_text 0 = Some (Some \<lparr>m_start = 0, m_end = 2, pattern_id = 1, lookahead = True\<rparr>)"
    and "pretok_o200k T stuck_text 0 = Some (Some \<lparr>m_start = 0, m_end = 2, pattern_id = 1, lookahead = True\<rparr>)"
proof -
  note sd = stuck_text_def stuck_decode stuck_space stuck_classes [OF assms(1)] ucd_lookups [OF assms(2)]
    scan_while.simps skip_to_newline.simps space_run_def space_run_len.simps
  have "p0_contraction stuck_text 0 = Some None"
    by (simp add: sd p0_contraction_def try_contraction_def)
  moreover have "p0_letters T stuck_text 0 = Some None"
    by (simp add: sd p0_letters_def letters_start_def)
  moreover have "p0_numbers T stuck_text 0 = Some None"
    by (simp add: sd p0_numbers_def numeral_3_eq_3)
  moreover have "p0_punct T stuck_text 0 = Some None" "o200k_punct T stuck_text 0 = Some None"
    by (simp_all add: sd p0_punct_def o200k_punct_def punct_start_def punct_run_def)
  moreover have "p0_ws_newlines stuck_text 0 = Some None"
    by (simp add: sd p0_ws_newlines_def)
  moreover have "p0_trailing_ws stuck_text 0 = Some None"
    by (simp add: sd p0_trailing_ws_def)
  moreover have "p0_camel T stuck_text 0 = Some None" "p0_allcaps T stuck_text 0 = Some None"
    by (simp_all add: sd p0_camel_def p0_allcaps_def word_prefix_def)
  moreover have "p1_ws_lookahead stuck_text 0 = Some (Some \<lparr>m_start = 0, m_end = 2, pattern_id = 1, lookahead = True\<rparr>)"
      "o200k_ws_lookahead stuck_text 0 = Some (Some \<lparr>m_start = 0, m_end = 2, pattern_id = 1, lookahead = True\<rparr>)"
    by (simp_all add: sd p1_ws_lookahead_def o200k_ws_lookahead_def)
  ultimately show "pretok_cl100k T stuck_text 0 = Some (Some \<lparr>m_start = 0, m_end = 2, pattern_id = 1, lookahead = True\<rparr>)"
      "pretok_o200k T stuck_text 0 = Some (Some \<lparr>m_start = 0, m_end = 2, pattern_id = 1, lookahead = True\<rparr>)"
    by (simp_all add: pretok_cl100k_def pretok_o200k_def o200k_same) (simp_all add: stuck_text_def)
qed

lemma stuck_next:
  assumes "fn stuck_text 0 = Some (Some \<lparr>m_start = 0, m_end = 2, pattern_id = 1, lookahead = True\<rparr>)"
  shows "pretok_iter_next \<lparr>it_native = Some fn, it_text = stuck_text, it_offset = 0\<rparr> =
    Some (Some (0, 0), \<lparr>it_native = Some fn, it_text = stuck_text, it_offset = 0\<rparr>)"
  using assms by (simp add: pretok_iter_next_def strip_back.simps stuck_text_def is_cont_def)

lemma encode_pieces_stuck:
  assumes "pretok_iter_next it = Some (Some (0, 0), it)"
  shows "encode_pieces bpe it s buf cap = None"
proof -
  have stuck: "i \<noteq> it" if "encode_pieces b i s buf cap = Some y" for b i s buf cap y
    using that
    by (rule encode_pieces.raw_induct [where P = "\<lambda>b i s buf cap y. i \<noteq> it", rotated]) (auto simp: assms; blast)
  show ?thesis
  proof (cases "encode_pieces bpe it s buf cap")
    case (Some y)
    from stuck [OF this] show ?thesis by simp
  qed
qed

lemma tokenizer_encode_stuck:
  assumes "fn stuck_text 0 = Some (Some \<lparr>m_start = 0, m_end = 2, pattern_id = 1, lookahead = True\<rparr>)"
  shows "tokenizer_encode (tokenizer_new_native bpe (Some fn)) stuck_text = None"
  using encode_pieces_stuck [OF stuck_next [of fn, OF assms]]
  by (simp add: tokenizer_encode_def tokenizer_new_native_def pretok_iter_new_for_def pretok_iter_new_native_ext_def)

subsection \<open>Tables for examples\<close>

text \<open>Small tables in the format of PCRE2: ASCII as in Unicode, punctuation from U+2000 on, marks
  from U+0300 on, and letters without case everywhere from U+0100 else.\<close>

definition demo_tables :: ucd_tables where
  "demo_tables = \<lparr>
     ucd_records = map (\<lambda>c. \<lparr>chartype = c\<rparr>) [ucp_Cc, ucp_Lu, ucp_Ll, ucp_Nd, ucp_Zs, ucp_Po, ucp_Lo, ucp_Mn],
     ucd_stage1 = [0, 1, 2, 2, 2, 2, 4] @ replicate 57 2 @ [3] @ replicate 8639 2,
     ucd_stage2 = replicate 32 0 @ [4] @ replicate 15 5 @ replicate 10 3 @ replicate 7 5 @ replicate 26 1 @
       replicate 6 5 @ replicate 26 2 @ replicate 4 5 @ [0] @
       replicate 32 0 @ [4] @ replicate 31 5 @ replicate 64 2 @
       replicate 128 6 @ replicate 128 5 @ replicate 128 7\<rparr>"

lemma demo_ok: "ucd_ok demo_tables"
  by (simp add: demo_tables_def ucd_ok_def)

lemma demo_cat:
  "cat demo_tables 0x0A = ucp_Cc" "cat demo_tables 0x20 = ucp_Zs" "cat demo_tables 0x41 = ucp_Lu"
  "cat demo_tables 0x61 = ucp_Ll" "cat demo_tables 0x73 = ucp_Ll" "cat demo_tables 0x75 = ucp_Ll"
  "cat demo_tables 0x85 = ucp_Cc" "cat demo_tables 0xE9 = ucp_Ll"
  "cat demo_tables 0x2019 = ucp_Po" "cat demo_tables 0x4F60 = ucp_Lo"
  by (simp_all add: demo_tables_def cat_def GET_UCD_def rd_def nth_append)

lemmas demo_classes = letter_cp_def number_cp_def upper_cp_def lower_cp_def mark_cp_def ucp_gentype_def demo_cat

definition sp_dict :: "bytes list" where
  "sp_dict = [[0x20], [0x61], [0x61, 0x20]]"

lemma sp_splits: "splits (cl100k_code demo_tables) [0x61, 0x20, 0x61] [[0x61], [0x20, 0x61]]"
proof -
  note cl = cl100k_code_def first_pattern_def cl100k_rx_def contraction_rx_def letters_rx_def rx_match_Opt_Seq
    prefix_cp_def ucd_is_newline_def demo_classes
  have "cl100k_code demo_tables [0x61, 0x20, 0x61] = Some ([0x20, 0x61], 0, False)"
      "cl100k_code demo_tables [0x20, 0x61] = Some ([], 0, False)"
    by (simp_all add: cl)
  then show ?thesis
    using splits.piece [of "cl100k_code demo_tables" "[0x61]" "[0x20, 0x61]" "[0x20, 0x61]" 0 False]
      splits.piece [of "cl100k_code demo_tables" "[0x20, 0x61]" "[]" "[]" 0 False] splits.done_
    by simp
qed

lemma sp_bytes: "(0x61 = (0x20 :: byte)) = False" "(0x20 = (0x61 :: byte)) = False"
  by simp_all

lemma sp_input: "dict_input sp_dict 1"
  unfolding dict_input_def dict_wf_def
proof (intro conjI)
  show "wf_dict sp_dict" by (simp add: sp_dict_def wf_dict_def formed_def sp_bytes numeral_2_eq_2 del: word_eq_numeral_iff_iszero)
  show "hash_free sp_dict (if (1::u64) = 0 then 1 else 1)" unfolding sp_dict_def by code_simp
qed (simp_all add: sp_dict_def)

lemma sp_built: obtains bpe where "built bpe sp_dict 1"
  using built_exists [OF sp_input] by blast

lemma sp_utf8: "utf8 [0x61, 0x20, 0x61] = [0x61, 0x20, 0x61]" "utf8 [0x20, 0x61] = [0x20, 0x61]" "utf8 [0x61] = [0x61]"
  by (simp_all add: utf8_encode_def)

lemma sp_covers: "covers sp_dict (utf8 [0x61, 0x20, 0x61])" "\<forall>c \<in> set [0x61, 0x20, 0x61]. scalar c"
  unfolding sp_utf8 by (simp_all add: covers_def sp_dict_def scalar_def)

text \<open>The token of a letter and a space does not cross the pieces.\<close>

lemma sp_ids: "piece_ids sp_dict [[0x61], [0x20, 0x61]] = [1, 0, 1]" "bpe_ids sp_dict (utf8 [0x61, 0x20, 0x61]) = [2, 1]"
  unfolding piece_ids_def list.map sp_utf8
  by (simp_all add: sp_dict_def bpe_ids_def bpe_encode_def sp_bytes numeral_2_eq_2 del: word_eq_numeral_iff_iszero)

end
