(* ===== verification/Bpe_Minimal.thy ===== *)
theory Bpe_Minimal
  imports Bpe_Encode
begin

text \<open>
  \<^verbatim>\<open>bpe_encode_minimal\<close> of \<^verbatim>\<open>src/bpe_core.c\<close>: dynamic programming over the
  positions of the text. The reference is the least length of a segmentation of a text into tokens.
\<close>

subsection \<open>Code\<close>

record min_state =
  ms_token :: nat
  count_so_far :: nat

partial_function (option) min_matches ::
    "bpe \<Rightarrow> ac_match_iter \<Rightarrow> nat \<Rightarrow> min_state list \<Rightarrow> (ac_match_iter \<times> min_state list) option" where
  "min_matches bpe it pos states = do {
     (it, m) \<leftarrow> ac_iter_next_match (overlapping_searcher bpe) it;
     case m of
       None \<Rightarrow> Some (it, states)
     | Some (out_tok, out_start) \<Rightarrow> do {
         prev_count \<leftarrow> (if out_start = 0 then Some 0
                       else map_option count_so_far (rd states (out_start - 1)));
         if prev_count = UINT32_MAX then min_matches bpe it pos states
         else do {
           let new_count = add32 prev_count 1;
           s \<leftarrow> rd states pos;
           if new_count < count_so_far s then do {
             states \<leftarrow> wr states pos \<lparr>ms_token = out_tok, count_so_far = new_count\<rparr>;
             min_matches bpe it pos states
           } else min_matches bpe it pos states
         }
       }
   }"

fun min_loop :: "bpe \<Rightarrow> bytes \<Rightarrow> nat \<Rightarrow> ac_match_iter \<Rightarrow> min_state list \<Rightarrow> min_state list option" where
  "min_loop bpe [] pos it states = Some states"
| "min_loop bpe (b # bs) pos it states = do {
     it \<leftarrow> ac_iter_advance (overlapping_searcher bpe) it b (pos + 1);
     (it, states) \<leftarrow> min_matches bpe it pos states;
     min_loop bpe bs (pos + 1) it states
   }"

partial_function (option) min_back ::
    "bpe \<Rightarrow> min_state list \<Rightarrow> nat \<Rightarrow> nat \<Rightarrow> nat option list \<Rightarrow> nat option list option" where
  "min_back bpe states pos idx result =
     (if 0 < pos \<and> 0 < idx then do {
        s \<leftarrow> rd states (pos - 1);
        let tok = ms_token s;
        result \<leftarrow> wr result (idx - 1) (Some tok);
        len \<leftarrow> token_len bpe tok;
        min_back bpe states (usub pos len) (idx - 1) result
      } else Some result)"

text \<open>The result is \<open>None\<close> when an entry was never written.\<close>

definition bpe_encode_minimal :: "bpe \<Rightarrow> bytes \<Rightarrow> nat list option" where
  "bpe_encode_minimal bpe text = do {
     let text_len = length text;
     let states = replicate text_len \<lparr>ms_token = UINT32_MAX, count_so_far = UINT32_MAX\<rparr>;
     states \<leftarrow> min_loop bpe text 0 ac_iter_new states;
     cnt \<leftarrow> (if 0 < text_len then map_option count_so_far (rd states (text_len - 1)) else Some 0);
     result \<leftarrow> min_back bpe states text_len cnt (replicate cnt None);
     if None \<in> set result then None else Some (map the result)
   }"

subsection \<open>Segmentations of least length\<close>

definition seg :: "bytes list \<Rightarrow> bytes \<Rightarrow> nat list \<Rightarrow> bool" where
  "seg D t ts \<longleftrightarrow> (\<forall>i \<in> set ts. i < length D) \<and> concat (map (\<lambda>i. D ! i) ts) = t"

definition min_count :: "bytes list \<Rightarrow> bytes \<Rightarrow> nat" where
  "min_count D t = (LEAST n. \<exists>ts. seg D t ts \<and> length ts = n)"

lemma seg_bpe_ids: "covers D t \<Longrightarrow> seg D t (bpe_ids D t)"
  using bpe_ids_less bpe_ids_decode by (auto simp: seg_def)

lemma min_count_le: "seg D t ts \<Longrightarrow> min_count D t \<le> length ts"
  unfolding min_count_def by (rule Least_le) blast

lemma min_count_ex: "covers D t \<Longrightarrow> \<exists>ts. seg D t ts \<and> length ts = min_count D t"
  unfolding min_count_def by (rule LeastI_ex) (use seg_bpe_ids in blast)

lemma min_count_length: "covers D t \<Longrightarrow> min_count D t \<le> length t"
  using min_count_le [OF seg_bpe_ids] length_bpe_ids le_trans by blast

lemma min_count_Nil [simp]: "min_count D [] = 0"
  using min_count_le [of D "[]" "[]"] by (simp add: seg_def)

lemma seg_snoc: "seg D t ts \<Longrightarrow> i < length D \<Longrightarrow> seg D (t @ D ! i) (ts @ [i])"
  by (simp add: seg_def)

lemma suffix_split: "suffix w u \<Longrightarrow> u = take (length u - length w) u @ w"
  by (auto simp: suffix_def)

lemma min_count_match:
  assumes "covers D u" and "i < length D" and "suffix (D ! i) u"
  shows "min_count D u \<le> min_count D (take (length u - length (D ! i)) u) + 1"
proof -
  let ?v = "take (length u - length (D ! i)) u"
  obtain ts where "seg D ?v ts" "length ts = min_count D ?v"
    using min_count_ex [OF covers_take [OF assms(1)]] by blast
  then show ?thesis
    using min_count_le [OF seg_snoc [OF _ assms(2)], of ?v ts] suffix_split [OF assms(3)] by simp
qed

lemma min_count_last:
  assumes "covers D u" and "u \<noteq> []" and "[] \<notin> set D"
  shows "\<exists>i < length D. suffix (D ! i) u \<and> min_count D u = min_count D (take (length u - length (D ! i)) u) + 1"
proof -
  obtain ts where ts: "seg D u ts" "length ts = min_count D u" using min_count_ex [OF assms(1)] by blast
  have "ts \<noteq> []" using ts(1) assms(2) by (auto simp: seg_def)
  then obtain us i where us: "ts = us @ [i]" by (metis rev_exhaust)
  let ?v = "concat (map (\<lambda>i. D ! i) us)"
  have i: "i < length D" and u: "u = ?v @ D ! i" and v: "seg D ?v us" using ts(1) us by (auto simp: seg_def)
  have s: "suffix (D ! i) u" "take (length u - length (D ! i)) u = ?v" using u by (auto intro: suffixI)
  have "min_count D ?v + 1 \<le> min_count D u" using min_count_le [OF v] ts(2) us by simp
  with min_count_match [OF assms(1) i s(1)] i s show ?thesis by auto
qed

subsection \<open>The table of states\<close>

definition best_state :: "bytes list \<Rightarrow> bytes \<Rightarrow> min_state \<Rightarrow> bool" where
  "best_state D u s \<longleftrightarrow> count_so_far s = min_count D u \<and> ms_token s < length D \<and> suffix (D ! ms_token s) u \<and>
     min_count D u = min_count D (take (length u - length (D ! ms_token s)) u) + 1"

definition min_table :: "bytes list \<Rightarrow> bytes \<Rightarrow> nat \<Rightarrow> min_state list \<Rightarrow> bool" where
  "min_table D t pos ss \<longleftrightarrow> length ss = length t \<and> (\<forall>j < pos. best_state D (take (Suc j) t) (ss ! j)) \<and>
     (\<forall>j < length t. pos \<le> j \<longrightarrow> count_so_far (ss ! j) = UINT32_MAX)"

text \<open>What the matches read so far leave at the current position.\<close>

definition improves :: "bytes list \<Rightarrow> bytes \<Rightarrow> (nat \<times> nat) list \<Rightarrow> min_state \<Rightarrow> min_state \<Rightarrow> bool" where
  "improves D u ms s s' \<longleftrightarrow> count_so_far s' \<le> count_so_far s \<and>
     (\<forall>(i, n) \<in> set ms. count_so_far s' \<le> min_count D (take (length u - n) u) + 1) \<and>
     (s' = s \<or> (\<exists>(i, n) \<in> set ms. s' = \<lparr>ms_token = i, count_so_far = min_count D (take (length u - n) u) + 1\<rparr>))"

lemma improves_Cons:
  assumes "improves D u ms s1 s'" and "s1 = (if c < count_so_far s then \<lparr>ms_token = i, count_so_far = c\<rparr> else s)"
    and "c = min_count D (take (length u - n) u) + 1"
  shows "improves D u ((i, n) # ms) s s'"
  using assms by (auto simp: improves_def split: if_splits)

lemma min_matches_ok:
  assumes wf: "wf_dict D" and cov: "covers D t" and pos: "pos < length t" and small: "length t < UINT32_MAX"
    and "pending (overlapping_searcher bpe) it (Suc pos) ms" and "\<forall>(i, n) \<in> set ms. 0 < n \<and> n \<le> Suc pos"
    and "length ss = length t" and "\<forall>j < pos. best_state D (take (Suc j) t) (ss ! j)"
  shows "\<exists>it' s. min_matches bpe it pos ss = Some (it', ss[pos := s]) \<and> it_state it' = it_state it \<and>
    improves D (take (Suc pos) t) ms (ss ! pos) s"
  using assms(5-)
proof (induction ms arbitrary: it ss)
  case Nil
  then show ?case by (subst min_matches.simps) (auto simp: ac_iter_next_match_Nil improves_def)
next
  case (Cons m ms)
  let ?u = "take (Suc pos) t"
  obtain i n where m: "m = (i, n)" by (cases m)
  have n: "0 < n" "n \<le> Suc pos" using Cons.prems(2) m by auto
  obtain it' where it': "ac_iter_next_match (overlapping_searcher bpe) it = Some (it', Some (i, Suc pos - n))"
    "pending (overlapping_searcher bpe) it' (Suc pos) ms" "it_state it' = it_state it"
    using ac_iter_next_match_Cons [of _ it "Suc pos" i n ms] Cons.prems(1) m n by blast
  let ?v = "take (Suc pos - n) t"
  have "length ?u = Suc pos" using pos by simp
  then have u: "take (length ?u - n) ?u = ?v" by (simp del: length_take add: take_take min_def)
  have prev: "(if Suc pos - n = 0 then Some 0 else map_option count_so_far (rd ss (Suc pos - n - 1))) =
      Some (min_count D ?v)"
  proof (cases "Suc pos - n = 0")
    case False
    then have "Suc (Suc pos - n - 1) = Suc pos - n" "Suc pos - n - 1 < pos" using n by auto
    then show ?thesis using False Cons.prems(3,4) pos by (auto simp: best_state_def)
  qed simp
  have "min_count D ?v \<le> length ?v" by (rule min_count_length [OF covers_take [OF cov]])
  then have c: "min_count D ?v \<noteq> UINT32_MAX" "add32 (min_count D ?v) 1 = min_count D ?v + 1"
    using small by (auto simp: UINT32_MAX_def)
  define s1 where "s1 = (if min_count D ?v + 1 < count_so_far (ss ! pos)
    then \<lparr>ms_token = i, count_so_far = min_count D ?v + 1\<rparr> else ss ! pos)"
  have run: "min_matches bpe it pos ss = min_matches bpe it' pos (ss[pos := s1])"
    using it'(1) prev c Cons.prems(3) pos unfolding s1_def
    by (subst min_matches.simps) (auto simp: Let_def split: if_splits)
  have "\<forall>j < pos. best_state D (take (Suc j) t) (ss[pos := s1] ! j)" using Cons.prems(4) by simp
  then obtain it2 s where s: "min_matches bpe it' pos (ss[pos := s1]) = Some (it2, ss[pos := s1, pos := s])"
    "it_state it2 = it_state it'" "improves D ?u ms (ss[pos := s1] ! pos) s"
    using Cons.IH [OF it'(2), of "ss[pos := s1]"] Cons.prems(2,3) by auto
  have "improves D ?u ms s1 s" using s(3) Cons.prems(3) pos by simp
  from improves_Cons [OF this s1_def] u have "improves D ?u (m # ms) (ss ! pos) s" using m by simp
  then show ?case using run s(1,2) it'(3) by auto
qed

lemma improves_best:
  assumes wf: "wf_dict D" and cov: "covers D u" and u: "u \<noteq> []" and small: "length u < UINT32_MAX"
    and "improves D u (smatch D u) s s'" and "count_so_far s = UINT32_MAX"
  shows "best_state D u s'"
proof -
  have ne: "[] \<notin> set D" using wf by (simp add: wf_dict_def)
  have "min_count D u \<le> length u" by (rule min_count_length [OF cov])
  obtain i where i: "i < length D" "suffix (D ! i) u"
      "min_count D u = min_count D (take (length u - length (D ! i)) u) + 1"
    using min_count_last [OF cov u ne] by blast
  have tok: "tok_id D (D ! j) = j" if "j < length D" for j
    using that wf_dict_distinct [OF wf] by (simp add: tok_id_nth)
  have "(i, length (D ! i)) \<in> set (smatch D u)"
    unfolding set_smatch using i(1,2) tok [OF i(1)] ne by (metis nth_mem)
  then have le: "count_so_far s' \<le> min_count D u" using assms(5) i(3) unfolding improves_def by fastforce
  then have "s' \<noteq> s" using assms(6) small \<open>min_count D u \<le> length u\<close> by auto
  then obtain k n where k: "(k, n) \<in> set (smatch D u)"
      "s' = \<lparr>ms_token = k, count_so_far = min_count D (take (length u - n) u) + 1\<rparr>"
    using assms(5) unfolding improves_def by blast
  then obtain w where w: "w \<in> set D" "suffix w u" "k = tok_id D w" "n = length w" by (auto simp: set_smatch)
  then have kw: "k < length D" "D ! k = w" using tok_id_less by auto
  have "min_count D u \<le> min_count D (take (length u - n) u) + 1"
    using min_count_match [OF cov kw(1)] w kw(2) by simp
  then show ?thesis using le k(2) kw w by (simp add: best_state_def)
qed

lemma min_loop_ok:
  assumes ok: "bpe_ok bpe D" and cov: "covers D t" and small: "length t < UINT32_MAX"
    and "pos \<le> length t" and "min_table D t pos ss"
    and "it_state it = ac_state (overlapping_searcher bpe) D (take pos t)"
  shows "\<exists>ss'. min_loop bpe (drop pos t) pos it ss = Some ss' \<and> min_table D t (length t) ss'"
  using assms(4-)
proof (induction "length t - pos" arbitrary: pos ss it)
  case 0
  then show ?case by simp
next
  case (Suc n)
  then have pos: "pos < length t" by simp
  let ?u = "take (Suc pos) t" and ?a = "overlapping_searcher bpe"
  note wf = bpe_okD(1) [OF ok]
  have ac: "ac_ok ?a D" using bpe_okD(4) [OF ok] by (simp add: search_ok_def)
  have u: "?u = take pos t @ [t ! pos]" using pos by (simp add: take_Suc_conv_app_nth)
  obtain it1 where it1: "ac_iter_advance ?a it (t ! pos) (Suc pos) = Some it1"
    "it_state it1 = ac_state ?a D ?u" "pending ?a it1 (Suc pos) (smatch D ?u)"
    using ac_iter_advance_ok [OF ac Suc.prems(3), of "t ! pos" "Suc pos"] u by auto
  have ns: "\<forall>(i, n) \<in> set (smatch D ?u). 0 < n \<and> n \<le> Suc pos"
    using set_smatch_slice(1,2) [where t = ?u and D = D] pos by fastforce
  obtain it2 s where it2: "min_matches bpe it1 pos ss = Some (it2, ss[pos := s])" "it_state it2 = it_state it1"
    "improves D ?u (smatch D ?u) (ss ! pos) s"
    using min_matches_ok [OF wf cov pos small it1(3) ns, of ss] Suc.prems(2) by (auto simp: min_table_def)
  have "best_state D ?u s"
    using pos small Suc.prems(2) cov
    by (intro improves_best [OF wf _ _ _ it2(3)]) (auto simp: covers_take min_table_def)
  then have "min_table D t (Suc pos) (ss[pos := s])"
    using Suc.prems(2) pos by (auto simp: min_table_def less_Suc_eq)
  then have "\<exists>ss'. min_loop bpe (drop (Suc pos) t) (Suc pos) it2 (ss[pos := s]) = Some ss' \<and>
      min_table D t (length t) ss'"
    using Suc.hyps(2) pos it1(2) it2(2) by (intro Suc.hyps(1)) auto
  moreover have "drop pos t = t ! pos # drop (Suc pos) t" using pos by (simp add: Cons_nth_drop_Suc)
  ultimately show ?case using it1(1) it2(1) by simp
qed

subsection \<open>Reading the table back\<close>

lemma min_back_ok:
  assumes ok: "bpe_ok bpe D" and ss: "min_table D t (length t) ss"
  shows "pos \<le> length t \<Longrightarrow> min_count D (take pos t) \<le> length res \<Longrightarrow>
    \<exists>ts. min_back bpe ss pos (min_count D (take pos t)) res =
        Some (map Some ts @ drop (min_count D (take pos t)) res) \<and>
      seg D (take pos t) ts \<and> length ts = min_count D (take pos t)"
proof (induction pos arbitrary: res rule: less_induct)
  case (less pos)
  show ?case
  proof (cases pos)
    case 0
    then show ?thesis by (subst min_back.simps) (simp add: seg_def)
  next
    case (Suc p)
    let ?u = "take pos t"
    define s where "s = ss ! p"
    let ?i = "ms_token s" and ?n = "min_count D ?u"
    have p: "p < length t" using less.prems(1) Suc by simp
    then have b: "best_state D ?u s" using ss Suc by (auto simp: min_table_def s_def)
    have lu: "length ?u = pos" using less.prems(1) by simp
    let ?q = "pos - length (D ! ?i)"
    have i: "?i < length D" "suffix (D ! ?i) ?u" "?n = min_count D (take ?q ?u) + 1"
      using b lu by (auto simp: best_state_def)
    have l: "0 < length (D ! ?i)" using wf_dict_nonempty [OF bpe_okD(1) [OF ok] i(1)] by simp
    have le: "length (D ! ?i) \<le> pos" using suffix_length_le [OF i(2)] lu by simp
    have q: "take ?q ?u = take ?q t" "?q < pos" using l Suc by (simp_all add: min_def)
    let ?m = "min_count D (take ?q t)"
    have m: "?n = Suc ?m" using i(3) q(1) by simp
    then have "?m \<le> length (res[?m := Some ?i])" "?q \<le> length t" using less.prems by simp_all
    from less.IH [OF q(2) this(2,1)] obtain ts where ts:
      "min_back bpe ss ?q ?m (res[?m := Some ?i]) = Some (map Some ts @ drop ?m (res[?m := Some ?i]))"
      "seg D (take ?q t) ts" "length ts = ?m" by blast
    have "rd ss (pos - 1) = Some s" using ss p Suc by (simp add: min_table_def s_def)
    then have "min_back bpe ss pos ?n res = min_back bpe ss ?q ?m (res[?m := Some ?i])"
      using Suc m le less.prems(2) token_len_ok [OF bpe_okD(2) [OF ok] i(1)]
      by (subst min_back.simps) (simp add: Let_def)
    moreover have "drop ?m (res[?m := Some ?i]) = Some ?i # drop ?n res"
      using m less.prems(2) by (simp add: Cons_nth_drop_Suc [symmetric])
    moreover have "seg D ?u (ts @ [?i])"
      using seg_snoc [OF ts(2) i(1)] suffix_split [OF i(2)] q(1) lu by simp
    ultimately show ?thesis using ts m by (intro exI [of _ "ts @ [?i]"]) simp
  qed
qed

lemma encode_minimal_ok:
  assumes "bpe_ok bpe D" and "covers D t" and "length t < UINT32_MAX"
  shows "\<exists>ts. bpe_encode_minimal bpe t = Some ts \<and> seg D t ts \<and> length ts = min_count D t"
proof -
  let ?init = "replicate (length t) \<lparr>ms_token = UINT32_MAX, count_so_far = UINT32_MAX\<rparr>"
  have "min_table D t 0 ?init" by (simp add: min_table_def)
  then obtain ss where ss: "min_loop bpe t 0 ac_iter_new ?init = Some ss" "min_table D t (length t) ss"
    using min_loop_ok [OF assms, of 0 _ ac_iter_new] by (auto simp: ac_iter_new_def)
  have cnt: "(if 0 < length t then map_option count_so_far (rd ss (length t - 1)) else Some 0) = Some (min_count D t)"
  proof (cases "0 < length t")
    case True
    then have "length t - 1 < length t" "take (Suc (length t - 1)) t = t" by simp_all
    then have "best_state D t (ss ! (length t - 1))" "length t - 1 < length ss"
      using ss(2) unfolding min_table_def by metis+
    then show ?thesis using True by (simp add: best_state_def)
  qed simp
  obtain ts where ts: "min_back bpe ss (length t) (min_count D t) (replicate (min_count D t) None) = Some (map Some ts)"
    "seg D t ts" "length ts = min_count D t"
    using min_back_ok [OF assms(1) ss(2), of "length t" "replicate (min_count D t) None"] by auto
  have "bpe_encode_minimal bpe t = Some ts"
    using ss(1) cnt ts(1) by (simp add: bpe_encode_minimal_def Let_def comp_def image_iff)
  then show ?thesis using ts by blast
qed

end
