(* ===== verification/Bpe_Incremental.thy ===== *)
theory Bpe_Incremental
  imports Bpe_Encode
begin

text \<open>
  The two incremental encoders: \<^verbatim>\<open>src/appendable_encoder.c\<close>, which takes the text from left
  to right, and \<^verbatim>\<open>src/prependable_encoder.c\<close>, which takes it from right to left with the
  automaton of the reversed tokens. Both keep one state for every byte taken so far, and share the
  contract of the locale \<open>incremental_encoder\<close>.
\<close>

subsection \<open>Code\<close>

text \<open>The match loop both push functions contain: \<open>entry\<close> reads the token and the count of a
  state, \<open>valid\<close> tests that token with the matched one. The first accepted match is returned.\<close>

partial_function (option) inc_matches ::
    "ac_automaton \<Rightarrow> (nat \<Rightarrow> (nat \<times> nat) option) \<Rightarrow> (nat \<Rightarrow> nat \<Rightarrow> bool option) \<Rightarrow> ac_match_iter
       \<Rightarrow> (ac_match_iter \<times> nat \<times> nat) option" where
  "inc_matches a entry valid it = do {
     (it, m) \<leftarrow> ac_iter_next_match a it;
     case m of
       None \<Rightarrow> Some (it, UINT32_MAX, 0)
     | Some (out_tok, out_start) \<Rightarrow>
         if out_start = 0 then Some (it, out_tok, 1)
         else do {
           (tok, cnt) \<leftarrow> entry (out_start - 1);
           ok \<leftarrow> valid tok out_tok;
           if ok then Some (it, out_tok, add32 cnt 1) else inc_matches a entry valid it
         }
   }"

record app_state =
  app_ac_state :: nat
  last_token :: nat
  app_count :: nat

text \<open>The array of states has \<open>ap_cap\<close> entries; unwritten ones are \<open>None\<close>.\<close>

record appendable_encoder =
  ap_bpe :: bpe
  ap_states :: "app_state option list"
  ap_nstates :: nat
  ap_cap :: nat

definition appendable_encoder_new :: "bpe \<Rightarrow> appendable_encoder" where
  "appendable_encoder_new bpe =
     \<lparr>ap_bpe = bpe, ap_states = replicate 256 None, ap_nstates = 0, ap_cap = 256\<rparr>"

definition app_read :: "appendable_encoder \<Rightarrow> nat \<Rightarrow> app_state option" where
  "app_read enc i = do { s \<leftarrow> rd (ap_states enc) i; s }"

definition appendable_encoder_push :: "appendable_encoder \<Rightarrow> byte \<Rightarrow> appendable_encoder option" where
  "appendable_encoder_push enc c = do {
     let enc = (if ap_nstates enc = ap_cap enc
                then enc\<lparr>ap_cap := ap_cap enc * 2, ap_states := ap_states enc @ replicate (ap_cap enc) None\<rparr>
                else enc);
     let n = ap_nstates enc;
     prev_state \<leftarrow> (if 0 < n then map_option app_ac_state (app_read enc (n - 1)) else Some ac_start_state);
     let a = overlapping_searcher (ap_bpe enc);
     it \<leftarrow> ac_iter_advance a \<lparr>it_state = prev_state, it_pos = n, it_pending_out = 0, it_pending_end = 0\<rparr> c (n + 1);
     (it, new_tok, new_cnt) \<leftarrow> inc_matches a (\<lambda>i. map_option (\<lambda>s. (last_token s, app_count s)) (app_read enc i))
       (\<lambda>prev_tok out_tok. bpe_is_valid_token_pair (ap_bpe enc) prev_tok out_tok) it;
     states \<leftarrow> wr (ap_states enc) n
       (Some \<lparr>app_ac_state = it_state it, last_token = new_tok, app_count = new_cnt\<rparr>);
     Some (enc\<lparr>ap_states := states, ap_nstates := n + 1\<rparr>)
   }"

text \<open>\<^verbatim>\<open>for (i = 0; i < len; i++) push(enc, bytes[i])\<close>.\<close>

fun push_all :: "('e \<Rightarrow> byte \<Rightarrow> 'e option) \<Rightarrow> 'e \<Rightarrow> bytes \<Rightarrow> 'e option" where
  "push_all push enc [] = Some enc"
| "push_all push enc (b # bs) = do { enc \<leftarrow> push enc b; push_all push enc bs }"

definition appendable_encoder_extend :: "appendable_encoder \<Rightarrow> bytes \<Rightarrow> appendable_encoder option" where
  "appendable_encoder_extend enc bytes = push_all appendable_encoder_push enc bytes"

definition appendable_encoder_truncate :: "appendable_encoder \<Rightarrow> nat \<Rightarrow> appendable_encoder" where
  "appendable_encoder_truncate enc len = (if len < ap_nstates enc then enc\<lparr>ap_nstates := len\<rparr> else enc)"

definition appendable_encoder_token_count :: "appendable_encoder \<Rightarrow> nat option" where
  "appendable_encoder_token_count enc =
     (if ap_nstates enc = 0 then Some 0 else map_option app_count (app_read enc (ap_nstates enc - 1)))"

definition appendable_encoder_len :: "appendable_encoder \<Rightarrow> nat" where
  "appendable_encoder_len enc = ap_nstates enc"

record prep_state =
  prep_ac_state :: nat
  prev_token :: nat
  prep_count :: nat

record prependable_encoder =
  pr_bpe :: bpe
  pr_states :: "prep_state option list"
  pr_nstates :: nat
  pr_cap :: nat

definition prependable_encoder_new :: "bpe \<Rightarrow> prependable_encoder" where
  "prependable_encoder_new bpe =
     \<lparr>pr_bpe = bpe, pr_states = replicate 256 None, pr_nstates = 0, pr_cap = 256\<rparr>"

definition prep_read :: "prependable_encoder \<Rightarrow> nat \<Rightarrow> prep_state option" where
  "prep_read enc i = do { s \<leftarrow> rd (pr_states enc) i; s }"

definition prependable_encoder_push :: "prependable_encoder \<Rightarrow> byte \<Rightarrow> prependable_encoder option" where
  "prependable_encoder_push enc c = do {
     let enc = (if pr_nstates enc = pr_cap enc
                then enc\<lparr>pr_cap := pr_cap enc * 2, pr_states := pr_states enc @ replicate (pr_cap enc) None\<rparr>
                else enc);
     let n = pr_nstates enc;
     prev_state \<leftarrow> (if 0 < n then map_option prep_ac_state (prep_read enc (n - 1)) else Some ac_start_state);
     let a = overlapping_searcher_rev (pr_bpe enc);
     it \<leftarrow> ac_iter_advance a \<lparr>it_state = prev_state, it_pos = n, it_pending_out = 0, it_pending_end = 0\<rparr> c (n + 1);
     (it, new_tok, new_cnt) \<leftarrow> inc_matches a (\<lambda>i. map_option (\<lambda>s. (prev_token s, prep_count s)) (prep_read enc i))
       (\<lambda>next_tok out_tok. bpe_is_valid_token_pair (pr_bpe enc) out_tok next_tok) it;
     states \<leftarrow> wr (pr_states enc) n
       (Some \<lparr>prep_ac_state = it_state it, prev_token = new_tok, prep_count = new_cnt\<rparr>);
     Some (enc\<lparr>pr_states := states, pr_nstates := n + 1\<rparr>)
   }"

definition prependable_encoder_extend :: "prependable_encoder \<Rightarrow> bytes \<Rightarrow> prependable_encoder option" where
  "prependable_encoder_extend enc bytes = push_all prependable_encoder_push enc bytes"

definition prependable_encoder_truncate :: "prependable_encoder \<Rightarrow> nat \<Rightarrow> prependable_encoder" where
  "prependable_encoder_truncate enc len = (if len < pr_nstates enc then enc\<lparr>pr_nstates := len\<rparr> else enc)"

definition prependable_encoder_token_count :: "prependable_encoder \<Rightarrow> nat option" where
  "prependable_encoder_token_count enc =
     (if pr_nstates enc = 0 then Some 0 else map_option prep_count (prep_read enc (pr_nstates enc - 1)))"

definition prependable_encoder_len :: "prependable_encoder \<Rightarrow> nat" where
  "prependable_encoder_len enc = pr_nstates enc"

subsection \<open>The match loop\<close>

lemma inc_matches_ok:
  assumes "pending a it e ms" and "\<forall>(i, n) \<in> set ms. 0 < n \<and> n \<le> e"
    and "\<forall>(i, n) \<in> set ms. n < e \<longrightarrow> (\<exists>q c. entry (e - n - 1) = Some (q, c) \<and> valid q i = Some (i = k) \<and>
      (i = k \<longrightarrow> add32 c 1 = r))"
    and "\<forall>(i, n) \<in> set ms. n = e \<longrightarrow> i = k \<and> r = 1" and "k \<in> fst ` set ms"
  shows "\<exists>it'. inc_matches a entry valid it = Some (it', k, r) \<and> it_state it' = it_state it"
  using assms
proof (induction ms arbitrary: it)
  case Nil
  then show ?case by simp
next
  case (Cons m ms)
  obtain i n where m: "m = (i, n)" by (cases m)
  have n: "0 < n" "n \<le> e" using Cons.prems(2) m by auto
  obtain it' where it': "ac_iter_next_match a it = Some (it', Some (i, e - n))"
    "pending a it' e ms" "it_state it' = it_state it"
    using ac_iter_next_match_Cons [of a it e i n ms] Cons.prems(1) m n by blast
  show ?case
  proof (cases "n = e")
    case True
    then show ?thesis using it' Cons.prems(4) m by (subst inc_matches.simps) auto
  next
    case False
    then have ne: "e - n \<noteq> 0" "n < e" using n by auto
    then obtain q c where q: "entry (e - n - 1) = Some (q, c)" "valid q i = Some (i = k)" "i = k \<longrightarrow> add32 c 1 = r"
      using Cons.prems(3) m by auto
    show ?thesis
    proof (cases "i = k")
      case True
      then show ?thesis using it' q ne by (subst inc_matches.simps) simp
    next
      case no: False
      then obtain it2 where "inc_matches a entry valid it' = Some (it2, k, r)" "it_state it2 = it_state it'"
        using Cons.IH [OF it'(2)] Cons.prems m by auto
      then show ?thesis using it' q ne no by (subst inc_matches.simps) simp
    qed
  qed
qed

subsection \<open>The contract\<close>

text \<open>What a client does with an encoder, and the bytes it has then taken.\<close>

datatype enc_op = Push byte | Extend bytes | Truncate nat

fun op_bytes :: "enc_op \<Rightarrow> bytes" where
  "op_bytes (Push b) = [b]"
| "op_bytes (Extend bs) = bs"
| "op_bytes (Truncate n) = []"

fun taken :: "bytes \<Rightarrow> enc_op list \<Rightarrow> bytes" where
  "taken h [] = h"
| "taken h (Push b # ops) = taken (h @ [b]) ops"
| "taken h (Extend bs # ops) = taken (h @ bs) ops"
| "taken h (Truncate n # ops) = taken (take n h) ops"

fun run_ops :: "('e \<Rightarrow> byte \<Rightarrow> 'e option) \<Rightarrow> ('e \<Rightarrow> bytes \<Rightarrow> 'e option) \<Rightarrow> ('e \<Rightarrow> nat \<Rightarrow> 'e) \<Rightarrow>
    'e \<Rightarrow> enc_op list \<Rightarrow> 'e option" where
  "run_ops push ext trunc e [] = Some e"
| "run_ops push ext trunc e (Push b # ops) = do { e \<leftarrow> push e b; run_ops push ext trunc e ops }"
| "run_ops push ext trunc e (Extend bs # ops) = do { e \<leftarrow> ext e bs; run_ops push ext trunc e ops }"
| "run_ops push ext trunc e (Truncate n # ops) = run_ops push ext trunc (trunc e n) ops"

locale incremental_encoder =
  fixes holds :: "'e \<Rightarrow> bytes \<Rightarrow> bool" and allowed :: "byte \<Rightarrow> bool" and tokens :: "bytes \<Rightarrow> nat"
    and push :: "'e \<Rightarrow> byte \<Rightarrow> 'e option" and ext :: "'e \<Rightarrow> bytes \<Rightarrow> 'e option" and trunc :: "'e \<Rightarrow> nat \<Rightarrow> 'e"
    and token_count :: "'e \<Rightarrow> nat option" and byte_count :: "'e \<Rightarrow> nat"
  assumes push_step: "holds e h \<Longrightarrow> allowed b \<Longrightarrow> \<exists>e'. push e b = Some e' \<and> holds e' (h @ [b])"
    and ext_push: "ext e bs = push_all push e bs"
    and trunc_step: "holds e h \<Longrightarrow> holds (trunc e n) (take n h)"
    and token_count_holds: "holds e h \<Longrightarrow> token_count e = Some (tokens h)"
    and byte_count_holds: "holds e h \<Longrightarrow> byte_count e = length h"
begin

lemma ext_step: "holds e h \<Longrightarrow> \<forall>b \<in> set bs. allowed b \<Longrightarrow> \<exists>e'. ext e bs = Some e' \<and> holds e' (h @ bs)"
proof (induction bs arbitrary: e h)
  case Nil
  then show ?case by (simp add: ext_push)
next
  case (Cons b bs)
  then obtain e1 where e1: "push e b = Some e1" "holds e1 (h @ [b])" using push_step by fastforce
  with Cons.IH [OF e1(2)] Cons.prems(2) show ?case by (simp add: ext_push)
qed

lemma run_holds:
  "holds e h \<Longrightarrow> \<forall>x \<in> set ops. \<forall>b \<in> set (op_bytes x). allowed b \<Longrightarrow>
     \<exists>e'. run_ops push ext trunc e ops = Some e' \<and> holds e' (taken h ops)"
proof (induction ops arbitrary: e h)
  case (Cons x ops)
  show ?case
  proof (cases x)
    case (Push b)
    then obtain e1 where "push e b = Some e1" "holds e1 (h @ [b])" using Cons.prems push_step by fastforce
    then show ?thesis using Cons.IH [of e1 "h @ [b]"] Cons.prems(2) Push by simp
  next
    case (Extend bs)
    then obtain e1 where "ext e bs = Some e1" "holds e1 (h @ bs)" using Cons.prems ext_step by fastforce
    then show ?thesis using Cons.IH [of e1 "h @ bs"] Cons.prems(2) Extend by simp
  next
    case (Truncate n)
    then show ?thesis using Cons.IH [OF trunc_step] Cons.prems by simp
  qed
qed simp

lemma run_counts:
  assumes "holds e []" and "\<forall>x \<in> set ops. \<forall>b \<in> set (op_bytes x). allowed b"
  shows "\<exists>e'. run_ops push ext trunc e ops = Some e' \<and> token_count e' = Some (tokens (taken [] ops)) \<and>
    byte_count e' = length (taken [] ops)"
  using run_holds [OF assms] token_count_holds byte_count_holds by blast

end

subsection \<open>The appendable encoder\<close>

definition app_entry :: "bpe \<Rightarrow> bytes list \<Rightarrow> bytes \<Rightarrow> app_state" where
  "app_entry bpe D u = \<lparr>app_ac_state = ac_state (overlapping_searcher bpe) D u,
     last_token = last (bpe_ids D u), app_count = length (bpe_ids D u) mod 2 ^ 32\<rparr>"

definition app_holds :: "bytes list \<Rightarrow> appendable_encoder \<Rightarrow> bytes \<Rightarrow> bool" where
  "app_holds D e h \<longleftrightarrow> bpe_ok (ap_bpe e) D \<and> covers D h \<and> ap_nstates e = length h \<and>
     ap_cap e = length (ap_states e) \<and> 0 < ap_cap e \<and> length h \<le> ap_cap e \<and>
     (\<forall>j < length h. ap_states e ! j = Some (app_entry (ap_bpe e) D (take (Suc j) h)))"

lemma add32_Suc: "add32 (n mod 2 ^ 32) 1 = Suc n mod 2 ^ 32"
  by (simp add: add32_def mod_Suc_eq)

lemma app_matches:
  assumes ok: "bpe_ok bpe D" and cov: "covers D u" and u: "u \<noteq> []"
    and "pending (overlapping_searcher bpe) it (length u) (smatch D u)"
    and entry: "\<And>j. Suc j < length u \<Longrightarrow>
      entry j = Some (last (bpe_ids D (take (Suc j) u)), length (bpe_ids D (take (Suc j) u)) mod 2 ^ 32)"
  shows "\<exists>it'. inc_matches (overlapping_searcher bpe) entry (bpe_is_valid_token_pair bpe) it =
    Some (it', last (bpe_ids D u), length (bpe_ids D u) mod 2 ^ 32) \<and> it_state it' = it_state it"
proof (rule inc_matches_ok [OF assms(4)])
  note wf = bpe_okD(1) [OF ok]
  let ?k = "last (bpe_ids D u)"
  show "\<forall>(i, n) \<in> set (smatch D u). 0 < n \<and> n \<le> length u"
    using set_smatch_slice(1,2) [where t = u and D = D] by fast
  show "?k \<in> fst ` set (smatch D u)" by (rule last_in_smatch [OF wf cov u])
  have i: "i < length D \<and> suffix (D ! i) u \<and> n = length (D ! i) \<and> (i = ?k \<longrightarrow>
      length (bpe_ids D u) = Suc (length (bpe_ids D (take (length u - n) u))))" if m: "(i, n) \<in> set (smatch D u)" for i n
  proof -
    obtain w where w: "w \<in> set D" "suffix w u" "i = tok_id D w" "n = length w" using m by (auto simp: set_smatch)
    then have "i < length D" "D ! i = w" using tok_id_less by auto
    moreover have "length (bpe_ids D u) = Suc (length (bpe_ids D (take (length u - length (D ! ?k)) u)))"
      using arg_cong [OF bpe_ids_last(3) [OF wf cov u], of length] by simp
    ultimately show ?thesis using w by metis
  qed
  have "i = ?k \<and> length (bpe_ids D u) mod 2 ^ 32 = 1" if m: "(i, n) \<in> set (smatch D u)" "n = length u" for i n
  proof -
    have "?k = i" using accept_iff(1) [OF wf cov _ _ refl] i m by auto
    then show ?thesis using i [OF m(1)] m(2) by simp
  qed
  then show "\<forall>(i, n) \<in> set (smatch D u). n = length u \<longrightarrow> i = ?k \<and> length (bpe_ids D u) mod 2 ^ 32 = 1" by blast
  show "\<forall>(i, n) \<in> set (smatch D u). n < length u \<longrightarrow> (\<exists>q c. entry (length u - n - 1) = Some (q, c) \<and>
      bpe_is_valid_token_pair bpe q i = Some (i = ?k) \<and> (i = ?k \<longrightarrow> add32 c 1 = length (bpe_ids D u) mod 2 ^ 32))"
  proof clarify
    fix i n assume m: "(i, n) \<in> set (smatch D u)" "n < length u"
    note i = i [OF m(1)]
    let ?v = "take (length u - n) u"
    have "0 < n" using wf_dict_nonempty [OF wf] i by auto
    then have j: "Suc (length u - n - 1) = length u - n" "Suc (length u - n - 1) < length u" using m(2) by auto
    have e: "entry (length u - n - 1) = Some (last (bpe_ids D ?v), length (bpe_ids D ?v) mod 2 ^ 32)"
      using entry [OF j(2)] unfolding j(1) .
    have "?v \<noteq> []" using m(2) by auto
    then have "last (bpe_ids D ?v) < length D" by (rule bpe_ids_last(1) [OF wf covers_take [OF cov]])
    then have "bpe_is_valid_token_pair bpe (last (bpe_ids D ?v)) i = Some (?k = i)"
      using bpe_valid_pair [OF ok] accept_iff(2) [OF wf cov _ _ refl, of i] i m(2) by auto
    then show "\<exists>q c. entry (length u - n - 1) = Some (q, c) \<and>
        bpe_is_valid_token_pair bpe q i = Some (i = ?k) \<and> (i = ?k \<longrightarrow> add32 c 1 = length (bpe_ids D u) mod 2 ^ 32)"
      using e i by (auto simp: add32_Suc [simplified])
  qed
qed

lemma app_read_ok:
  assumes "app_holds D e h"
  shows "j < length h \<Longrightarrow> app_read e j = Some (app_entry (ap_bpe e) D (take (Suc j) h))"
    and "h \<noteq> [] \<Longrightarrow> app_read e (length h - 1) = Some (app_entry (ap_bpe e) D h)"
proof -
  have read: "app_read e j = Some (app_entry (ap_bpe e) D (take (Suc j) h))" if "j < length h" for j
    using assms that by (simp add: app_read_def app_holds_def)
  then show "app_read e j = Some (app_entry (ap_bpe e) D (take (Suc j) h))" if "j < length h"
    using that by blast
  show "app_read e (length h - 1) = Some (app_entry (ap_bpe e) D h)" if "h \<noteq> []"
    using read [of "length h - 1"] that by simp
qed

lemma app_push:
  assumes h: "app_holds D e h" and c: "[c] \<in> set D"
  shows "\<exists>e'. appendable_encoder_push e c = Some e' \<and> app_holds D e' (h @ [c])"
proof -
  let ?bpe = "ap_bpe e" and ?n = "length h" and ?u = "h @ [c]"
  let ?a = "overlapping_searcher ?bpe"
  have ok: "bpe_ok ?bpe D" and cov: "covers D ?u" using h c by (auto simp: app_holds_def covers_def)
  have ac: "ac_ok ?a D" using bpe_okD(4) [OF ok] by (simp add: search_ok_def)
  define e1 where "e1 = (if ap_nstates e = ap_cap e
    then e\<lparr>ap_cap := ap_cap e * 2, ap_states := ap_states e @ replicate (ap_cap e) None\<rparr> else e)"
  have e1: "app_holds D e1 h" "?n < length (ap_states e1)" "ap_bpe e1 = ?bpe" "ap_nstates e1 = ?n"
    using h by (auto simp: e1_def app_holds_def nth_append)
  note read = app_read_ok [OF e1(1), unfolded e1(3)]
  have st: "(if 0 < ?n then map_option app_ac_state (app_read e1 (?n - 1)) else Some ac_start_state) =
      Some (ac_state ?a D h)"
    using read(2) by (cases "h = []") (simp_all add: app_entry_def ac_start_state_def)
  let ?it = "\<lparr>it_state = ac_state ?a D h, it_pos = ?n, it_pending_out = 0, it_pending_end = 0\<rparr>"
  obtain it1 where it1: "ac_iter_advance ?a ?it c (?n + 1) = Some it1" "it_state it1 = ac_state ?a D ?u"
    "pending ?a it1 (length ?u) (smatch D ?u)"
    using ac_iter_advance_ok [OF ac, of ?it h c "?n + 1"] by auto
  have entry: "map_option (\<lambda>s. (last_token s, app_count s)) (app_read e1 j) =
      Some (last (bpe_ids D (take (Suc j) ?u)), length (bpe_ids D (take (Suc j) ?u)) mod 2 ^ 32)" if "Suc j < length ?u" for j
    using read(1) [of j] that by (simp add: app_entry_def)
  obtain it2 where it2: "inc_matches ?a (\<lambda>i. map_option (\<lambda>s. (last_token s, app_count s)) (app_read e1 i))
      (bpe_is_valid_token_pair ?bpe) it1 = Some (it2, last (bpe_ids D ?u), length (bpe_ids D ?u) mod 2 ^ 32)"
    "it_state it2 = it_state it1"
    using app_matches [OF ok cov _ it1(3), where entry = "\<lambda>i. map_option (\<lambda>s. (last_token s, app_count s)) (app_read e1 i)"]
      entry by blast
  let ?e2 = "e1\<lparr>ap_states := (ap_states e1)[?n := Some (app_entry ?bpe D ?u)], ap_nstates := ?n + 1\<rparr>"
  have "appendable_encoder_push e c = Some ?e2"
    unfolding appendable_encoder_push_def e1_def [symmetric] Let_def e1(3,4) st
    using it1 it2 e1(2) by (simp add: app_entry_def)
  moreover have "app_holds D ?e2 ?u"
    using e1 cov by (auto simp: app_holds_def nth_list_update less_Suc_eq)
  ultimately show ?thesis by blast
qed

interpretation appendable: incremental_encoder "app_holds D" "\<lambda>b. [b] \<in> set D" "\<lambda>h. length (bpe_ids D h) mod 2 ^ 32"
  appendable_encoder_push appendable_encoder_extend appendable_encoder_truncate
  appendable_encoder_token_count appendable_encoder_len for D
proof unfold_locales
  show "app_holds D e h \<Longrightarrow> app_holds D (appendable_encoder_truncate e n) (take n h)" for e h n
    by (auto simp: app_holds_def appendable_encoder_truncate_def covers_take min_def)
  show "appendable_encoder_token_count e = Some (length (bpe_ids D h) mod 2 ^ 32)" if h: "app_holds D e h" for e h
  proof -
    have "ap_nstates e = length h" using h by (simp add: app_holds_def)
    then show ?thesis using app_read_ok(2) [OF h]
      by (cases "h = []") (simp_all add: appendable_encoder_token_count_def app_entry_def)
  qed
  show "app_holds D e h \<Longrightarrow> [b] \<in> set D \<Longrightarrow> \<exists>e'. appendable_encoder_push e b = Some e' \<and> app_holds D e' (h @ [b])"
    for e h b by (rule app_push)
qed (simp_all add: appendable_encoder_extend_def appendable_encoder_len_def app_holds_def)

lemma app_new: "bpe_ok bpe D \<Longrightarrow> app_holds D (appendable_encoder_new bpe) []"
  by (simp add: app_holds_def appendable_encoder_new_def covers_def)

subsection \<open>The first token of an encoding\<close>

lemma bpe_ids_first:
  assumes wf: "wf_dict D" and cov: "covers D t" and t: "t \<noteq> []"
  defines "k \<equiv> hd (bpe_ids D t)"
  shows "k < length D" and "prefix (D ! k) t" and "bpe_ids D t = k # bpe_ids D (drop (length (D ! k)) t)"
proof -
  obtain ks where ids: "bpe_ids D t = k # ks"
    using t bpe_ids_decode [OF cov] by (cases "bpe_ids D t") (auto simp: k_def)
  have b: "\<forall>i \<in> set (k # ks). i < length D" using bpe_ids_less [OF cov] ids by auto
  then show "k < length D" by simp
  have dec: "t = D ! k @ concat (map (\<lambda>i. D ! i) ks)" using bpe_ids_decode [OF cov] ids by simp
  then show "prefix (D ! k) t" by (metis prefixI)
  have "adj (ok_pair D) (k # ks)" using bpe_ids_iff [OF wf b] bpe_ids_decode [OF cov] ids by simp
  then have "adj (ok_pair D) ks" by (cases ks) auto
  then have "bpe_ids D (concat (map (\<lambda>i. D ! i) ks)) = ks" using bpe_ids_iff [OF wf, of ks] b by simp
  then show "bpe_ids D t = k # bpe_ids D (drop (length (D ! k)) t)" using ids dec by simp
qed

lemma accept_first:
  assumes wf: "wf_dict D" and cov: "covers D u" and i: "i < length D" and pre: "prefix (D ! i) u"
  shows "length (D ! i) = length u \<Longrightarrow> hd (bpe_ids D u) = i"
    and "length (D ! i) < length u \<Longrightarrow>
      ok_pair D i (hd (bpe_ids D (drop (length (D ! i)) u))) \<longleftrightarrow> hd (bpe_ids D u) = i"
proof -
  obtain v where v: "u = D ! i @ v" using pre by (auto simp: prefix_def)
  show "hd (bpe_ids D u) = i" if "length (D ! i) = length u" using that v bpe_ids_whole [OF wf i] by simp
  show "ok_pair D i (hd (bpe_ids D (drop (length (D ! i)) u))) \<longleftrightarrow> hd (bpe_ids D u) = i"
    if l: "length (D ! i) < length u"
  proof -
    have vn: "v \<noteq> []" and cv: "covers D v" using l v cov by (auto simp: covers_def)
    have un: "u \<noteq> []" using v vn by simp
    have b: "\<forall>j \<in> set (i # bpe_ids D v). j < length D" using bpe_ids_less [OF cv] i by auto
    have "bpe_ids D v \<noteq> []" using vn bpe_ids_decode [OF cv] by auto
    then have "adj (ok_pair D) (i # bpe_ids D v) \<longleftrightarrow> ok_pair D i (hd (bpe_ids D v)) \<and> adj (ok_pair D) (bpe_ids D v)"
      by (cases "bpe_ids D v") auto
    moreover have "adj (ok_pair D) (bpe_ids D v)"
      using bpe_ids_iff [OF wf, of "bpe_ids D v"] bpe_ids_decode [OF cv] bpe_ids_less [OF cv] by auto
    ultimately have "ok_pair D i (hd (bpe_ids D v)) \<longleftrightarrow> bpe_ids D u = i # bpe_ids D v"
      using bpe_ids_iff [OF wf b] bpe_ids_decode [OF cv] v by simp
    also have "\<dots> \<longleftrightarrow> hd (bpe_ids D u) = i" using bpe_ids_first(3) [OF wf cov un] v by auto
    finally show ?thesis using v by simp
  qed
qed

lemma rev_match:
  assumes "(i, n) \<in> set (smatch (map rev D) u)"
  shows "i < length D" and "prefix (D ! i) (rev u)" and "n = length (D ! i)" and "0 < n"
proof -
  obtain w where w: "w \<in> set (map rev D)" "w \<noteq> []" "suffix w u" "i = tok_id (map rev D) w" "n = length w"
    using assms unfolding set_smatch by blast
  have i: "i < length D" using tok_id_less [OF w(1)] w(4) by simp
  moreover have "map rev D ! i = w" using nth_tok_id [OF w(1)] w(4) by simp
  ultimately have "rev (D ! i) = w" by simp
  then show "i < length D" "prefix (D ! i) (rev u)" "n = length (D ! i)" "0 < n"
    using i w by (auto simp: suffix_to_prefix)
qed

lemma first_in_smatch:
  assumes wf: "wf_dict D" and cov: "covers D (rev u)" and u: "u \<noteq> []"
  shows "hd (bpe_ids D (rev u)) \<in> fst ` set (smatch (map rev D) u)"
proof -
  let ?k = "hd (bpe_ids D (rev u))" and ?D = "map rev D"
  have un: "rev u \<noteq> []" using u by simp
  note k = bpe_ids_first(1,2) [OF wf cov un]
  have "distinct ?D" using wf_dict_distinct [OF wf] by (simp add: distinct_map)
  then have "tok_id ?D (?D ! ?k) = ?k" using k(1) by (intro tok_id_nth) simp_all
  moreover have "?D ! ?k = rev (D ! ?k)" "suffix (rev (D ! ?k)) u" "?D ! ?k \<in> set ?D"
    using k by (auto simp: suffix_to_prefix)
  ultimately have "(?k, length (D ! ?k)) \<in> set (smatch ?D u)"
    unfolding set_smatch using wf_dict_nonempty [OF wf k(1)] by (intro bexI [of _ "?D ! ?k"]) simp_all
  then show ?thesis by force
qed

subsection \<open>The prependable encoder\<close>

text \<open>The bytes taken, \<open>h\<close>, are the text from its end.\<close>

definition prep_entry :: "bpe \<Rightarrow> bytes list \<Rightarrow> bytes \<Rightarrow> prep_state" where
  "prep_entry bpe D u = \<lparr>prep_ac_state = ac_state (overlapping_searcher_rev bpe) (map rev D) u,
     prev_token = hd (bpe_ids D (rev u)), prep_count = length (bpe_ids D (rev u)) mod 2 ^ 32\<rparr>"

definition prep_holds :: "bytes list \<Rightarrow> prependable_encoder \<Rightarrow> bytes \<Rightarrow> bool" where
  "prep_holds D e h \<longleftrightarrow> bpe_ok (pr_bpe e) D \<and> covers D h \<and> pr_nstates e = length h \<and>
     pr_cap e = length (pr_states e) \<and> 0 < pr_cap e \<and> length h \<le> pr_cap e \<and>
     (\<forall>j < length h. pr_states e ! j = Some (prep_entry (pr_bpe e) D (take (Suc j) h)))"

lemma covers_rev [simp]: "covers D (rev t) = covers D t"
  by (simp add: covers_def)

lemma prep_matches:
  assumes ok: "bpe_ok bpe D" and cov: "covers D u" and u: "u \<noteq> []"
    and "pending (overlapping_searcher_rev bpe) it (length u) (smatch (map rev D) u)"
    and entry: "\<And>j. Suc j < length u \<Longrightarrow>
      entry j = Some (hd (bpe_ids D (rev (take (Suc j) u))), length (bpe_ids D (rev (take (Suc j) u))) mod 2 ^ 32)"
  shows "\<exists>it'. inc_matches (overlapping_searcher_rev bpe) entry (\<lambda>next_tok out_tok. bpe_is_valid_token_pair bpe out_tok next_tok) it =
    Some (it', hd (bpe_ids D (rev u)), length (bpe_ids D (rev u)) mod 2 ^ 32) \<and> it_state it' = it_state it"
proof (rule inc_matches_ok [OF assms(4)])
  note wf = bpe_okD(1) [OF ok]
  have cr: "covers D (rev u)" and ur: "rev u \<noteq> []" using cov u by simp_all
  let ?k = "hd (bpe_ids D (rev u))" and ?ms = "smatch (map rev D) u"
  show "\<forall>(i, n) \<in> set ?ms. 0 < n \<and> n \<le> length u"
    using set_smatch_slice(1,2) [where t = u and D = "map rev D"] by fast
  show "?k \<in> fst ` set ?ms" by (rule first_in_smatch [OF wf cr u])
  have rest: "drop n (rev u) = rev (take (length u - n) u)" for n
    by (cases "n \<le> length u") (simp_all add: rev_take)
  have len: "length (bpe_ids D (rev u)) = Suc (length (bpe_ids D (rev (take (length u - n) u))))"
    if "(?k, n) \<in> set ?ms" for n
    using arg_cong [OF bpe_ids_first(3) [OF wf cr ur], of length] rev_match(3) [OF that] rest by simp
  have "i = ?k \<and> length (bpe_ids D (rev u)) mod 2 ^ 32 = 1" if m: "(i, n) \<in> set ?ms" "n = length u" for i n
  proof -
    note i = rev_match [OF m(1)]
    have k: "?k = i" using accept_first(1) [OF wf cr i(1,2)] i(3) m(2) by simp
    then show ?thesis using len [of n] m by simp
  qed
  then show "\<forall>(i, n) \<in> set ?ms. n = length u \<longrightarrow> i = ?k \<and> length (bpe_ids D (rev u)) mod 2 ^ 32 = 1" by blast
  have "\<exists>q c. entry (length u - n - 1) = Some (q, c) \<and> bpe_is_valid_token_pair bpe i q = Some (i = ?k) \<and>
      (i = ?k \<longrightarrow> add32 c 1 = length (bpe_ids D (rev u)) mod 2 ^ 32)" if m: "(i, n) \<in> set ?ms" "n < length u" for i n
  proof -
    note i = rev_match [OF m(1)]
    let ?v = "rev (take (length u - n) u)"
    have j: "Suc (length u - n - 1) = length u - n" "Suc (length u - n - 1) < length u" using m(2) i(4) by auto
    have e: "entry (length u - n - 1) = Some (hd (bpe_ids D ?v), length (bpe_ids D ?v) mod 2 ^ 32)"
      using entry [OF j(2)] unfolding j(1) .
    have "?v \<noteq> []" "covers D ?v" using m(2) cov by (auto simp: covers_take)
    then have "hd (bpe_ids D ?v) < length D" using bpe_ids_first(1) [OF wf] by blast
    then have "bpe_is_valid_token_pair bpe i (hd (bpe_ids D ?v)) = Some (?k = i)"
      using bpe_valid_pair [OF ok i(1)] accept_first(2) [OF wf cr i(1,2)] i(3) m(2) rest [of n] by simp
    then show ?thesis using e len [of n] m(1) by (auto simp: add32_Suc [simplified])
  qed
  then show "\<forall>(i, n) \<in> set ?ms. n < length u \<longrightarrow> (\<exists>q c. entry (length u - n - 1) = Some (q, c) \<and>
      bpe_is_valid_token_pair bpe i q = Some (i = ?k) \<and> (i = ?k \<longrightarrow> add32 c 1 = length (bpe_ids D (rev u)) mod 2 ^ 32))"
    by blast
qed

lemma prep_read_ok:
  assumes "prep_holds D e h"
  shows "j < length h \<Longrightarrow> prep_read e j = Some (prep_entry (pr_bpe e) D (take (Suc j) h))"
    and "h \<noteq> [] \<Longrightarrow> prep_read e (length h - 1) = Some (prep_entry (pr_bpe e) D h)"
proof -
  have read: "prep_read e j = Some (prep_entry (pr_bpe e) D (take (Suc j) h))" if "j < length h" for j
    using assms that by (simp add: prep_read_def prep_holds_def)
  then show "prep_read e j = Some (prep_entry (pr_bpe e) D (take (Suc j) h))" if "j < length h"
    using that by blast
  show "prep_read e (length h - 1) = Some (prep_entry (pr_bpe e) D h)" if "h \<noteq> []"
    using read [of "length h - 1"] that by simp
qed

lemma prep_push:
  assumes h: "prep_holds D e h" and c: "[c] \<in> set D"
  shows "\<exists>e'. prependable_encoder_push e c = Some e' \<and> prep_holds D e' (h @ [c])"
proof -
  let ?bpe = "pr_bpe e" and ?n = "length h" and ?u = "h @ [c]"
  let ?a = "overlapping_searcher_rev ?bpe"
  have ok: "bpe_ok ?bpe D" and cov: "covers D ?u" using h c by (auto simp: prep_holds_def covers_def)
  have ac: "ac_ok ?a (map rev D)" using bpe_okD(4) [OF ok] by (simp add: search_ok_def)
  define e1 where "e1 = (if pr_nstates e = pr_cap e
    then e\<lparr>pr_cap := pr_cap e * 2, pr_states := pr_states e @ replicate (pr_cap e) None\<rparr> else e)"
  have e1: "prep_holds D e1 h" "?n < length (pr_states e1)" "pr_bpe e1 = ?bpe" "pr_nstates e1 = ?n"
    using h by (auto simp: e1_def prep_holds_def nth_append)
  note read = prep_read_ok [OF e1(1), unfolded e1(3)]
  have st: "(if 0 < ?n then map_option prep_ac_state (prep_read e1 (?n - 1)) else Some ac_start_state) =
      Some (ac_state ?a (map rev D) h)"
    using read(2) by (cases "h = []") (simp_all add: prep_entry_def ac_start_state_def)
  let ?it = "\<lparr>it_state = ac_state ?a (map rev D) h, it_pos = ?n, it_pending_out = 0, it_pending_end = 0\<rparr>"
  obtain it1 where it1: "ac_iter_advance ?a ?it c (?n + 1) = Some it1" "it_state it1 = ac_state ?a (map rev D) ?u"
    "pending ?a it1 (length ?u) (smatch (map rev D) ?u)"
    using ac_iter_advance_ok [OF ac, of ?it h c "?n + 1"] by auto
  let ?entry = "\<lambda>i. map_option (\<lambda>s. (prev_token s, prep_count s)) (prep_read e1 i)"
  have entry: "?entry j = Some (hd (bpe_ids D (rev (take (Suc j) ?u))),
      length (bpe_ids D (rev (take (Suc j) ?u))) mod 2 ^ 32)" if "Suc j < length ?u" for j
    using read(1) [of j] that by (simp add: prep_entry_def)
  obtain it2 where it2: "inc_matches ?a ?entry (\<lambda>next_tok out_tok. bpe_is_valid_token_pair ?bpe out_tok next_tok) it1 =
      Some (it2, hd (bpe_ids D (rev ?u)), length (bpe_ids D (rev ?u)) mod 2 ^ 32)" "it_state it2 = it_state it1"
    using prep_matches [OF ok cov _ it1(3), where entry = ?entry] entry by blast
  let ?e2 = "e1\<lparr>pr_states := (pr_states e1)[?n := Some (prep_entry ?bpe D ?u)], pr_nstates := ?n + 1\<rparr>"
  have "prependable_encoder_push e c = Some ?e2"
    unfolding prependable_encoder_push_def e1_def [symmetric] Let_def e1(3,4) st
    using it1 it2 e1(2) by (simp add: prep_entry_def)
  moreover have "prep_holds D ?e2 ?u"
    using e1 cov by (auto simp: prep_holds_def nth_list_update less_Suc_eq)
  ultimately show ?thesis by blast
qed

interpretation prependable: incremental_encoder "prep_holds D" "\<lambda>b. [b] \<in> set D"
  "\<lambda>h. length (bpe_ids D (rev h)) mod 2 ^ 32"
  prependable_encoder_push prependable_encoder_extend prependable_encoder_truncate
  prependable_encoder_token_count prependable_encoder_len for D
proof unfold_locales
  show "prep_holds D e h \<Longrightarrow> prep_holds D (prependable_encoder_truncate e n) (take n h)" for e h n
    by (auto simp: prep_holds_def prependable_encoder_truncate_def covers_take min_def)
  show "prependable_encoder_token_count e = Some (length (bpe_ids D (rev h)) mod 2 ^ 32)" if h: "prep_holds D e h" for e h
  proof -
    have "pr_nstates e = length h" using h by (simp add: prep_holds_def)
    then show ?thesis using prep_read_ok(2) [OF h]
      by (cases "h = []") (simp_all add: prependable_encoder_token_count_def prep_entry_def)
  qed
  show "prep_holds D e h \<Longrightarrow> [b] \<in> set D \<Longrightarrow> \<exists>e'. prependable_encoder_push e b = Some e' \<and> prep_holds D e' (h @ [b])"
    for e h b by (rule prep_push)
qed (simp_all add: prependable_encoder_extend_def prependable_encoder_len_def prep_holds_def)

lemma prep_new: "bpe_ok bpe D \<Longrightarrow> prep_holds D (prependable_encoder_new bpe) []"
  by (simp add: prep_holds_def prependable_encoder_new_def covers_def)

end
