(* ===== verification/Parent_Tree.thy ===== *)
theory Parent_Tree
  imports Main
begin

text \<open>
  Trees on the numbers \<open>0..n\<close> given by the parent of every number but 0, as the tree of the prefixes
  of a text in \<^verbatim>\<open>src/interval_encoding.c\<close>: a node gets the first free number of the interval of its
  parent, and the numbers of its subtree are an interval. The locale is the contract: a parent is smaller
  than its child.
\<close>

locale parent_tree =
  fixes par :: "nat \<Rightarrow> nat" and n :: nat
  assumes par_less: "0 < i \<Longrightarrow> i \<le> n \<Longrightarrow> par i < i"
begin

inductive anc :: "nat \<Rightarrow> nat \<Rightarrow> bool" for p where
  anc_refl: "anc p p"
| anc_step: "0 < e \<Longrightarrow> e \<le> n \<Longrightarrow> anc p (par e) \<Longrightarrow> anc p e"

lemma anc_le: "anc p e \<Longrightarrow> p \<le> e"
  by (induction rule: anc.induct) (use par_less in \<open>auto intro: le_trans less_imp_le\<close>)

lemma anc_trans: "anc q e \<Longrightarrow> anc p q \<Longrightarrow> anc p e"
  by (induction rule: anc.induct) (auto intro: anc_step)

lemma anc_root: "e \<le> n \<Longrightarrow> anc 0 e"
proof (induction e rule: less_induct)
  case (less e)
  show ?case
  proof (cases "e = 0")
    case False
    then show ?thesis using less par_less [of e] by (auto intro: anc_step)
  qed (simp add: anc_refl)
qed

lemma anc_comparable: "anc p e \<Longrightarrow> anc q e \<Longrightarrow> anc p q \<or> anc q p"
proof (induction rule: anc.induct)
  case (anc_step e)
  from anc_step(5) show ?case
  proof cases
    case anc_refl
    then show ?thesis using anc.anc_step [OF anc_step(1-3)] by simp
  qed (use anc_step.IH in blast)
qed blast

definition kids :: "nat \<Rightarrow> nat set" where
  "kids p = {c. 0 < c \<and> c \<le> n \<and> par c = p}"

definition desc :: "nat \<Rightarrow> nat set" where
  "desc p = {e. e \<le> n \<and> anc p e}"

definition tsize :: "nat \<Rightarrow> nat" where
  "tsize p = card (desc p)"

lemma finite_kids [simp]: "finite (kids p)"
  unfolding kids_def by (rule finite_subset [of _ "{..n}"]) auto

lemma finite_desc [simp]: "finite (desc p)"
  unfolding desc_def by simp

lemma kids_less: "c \<in> kids p \<Longrightarrow> p < c"
  using par_less by (auto simp: kids_def)

lemma anc_kid: "anc p e \<Longrightarrow> e \<le> n \<Longrightarrow> e = p \<or> (\<exists>c \<in> kids p. anc c e)"
proof (induction rule: anc.induct)
  case (anc_step e)
  then have "par e \<le> n" using par_less [of e] by simp
  then show ?case
  proof (cases "par e = p")
    case True
    then have "e \<in> kids p" using anc_step by (simp add: kids_def)
    then show ?thesis using anc_refl by blast
  next
    case False
    then show ?thesis using anc_step \<open>par e \<le> n\<close> by (auto intro: anc.anc_step)
  qed
qed simp

lemma anc_kidI: "c \<in> kids p \<Longrightarrow> anc p c"
  by (auto simp: kids_def intro: anc.intros)

lemma kids_disjoint:
  assumes "c \<in> kids p" and "c' \<in> kids p" and "c \<noteq> c'"
  shows "desc c \<inter> desc c' = {}"
proof -
  have no: "\<not> anc a b" if k: "a \<in> kids p" "b \<in> kids p" "a \<noteq> b" for a b
  proof
    assume "anc a b"
    then show False
    proof cases
      case anc_step
      then have "anc a p" using k(2) by (simp add: kids_def)
      then show False using anc_le kids_less [OF k(1)] by fastforce
    qed (use k(3) in simp)
  qed
  show ?thesis using no assms anc_comparable by (fastforce simp: desc_def)
qed

lemma desc_split: "p \<le> n \<Longrightarrow> desc p = insert p (\<Union>c \<in> kids p. desc c)"
  using anc_kid anc_kidI anc_trans anc_refl by (fastforce simp: desc_def)

lemma tsize_kids:
  assumes "p \<le> n"
  shows "tsize p = 1 + (\<Sum>c \<in> kids p. tsize c)"
proof -
  have "p \<notin> (\<Union>c \<in> kids p. desc c)"
    using anc_le kids_less by (fastforce simp: desc_def)
  then have "tsize p = 1 + card (\<Union>c \<in> kids p. desc c)"
    unfolding tsize_def using desc_split [OF assms] by simp
  also have "card (\<Union>c \<in> kids p. desc c) = (\<Sum>c \<in> kids p. tsize c)"
    unfolding tsize_def by (rule card_UN_disjoint) (use kids_disjoint in auto)
  finally show ?thesis .
qed

lemma tsize_le: "tsize p \<le> n + 1"
proof -
  have "desc p \<subseteq> {..n}" by (auto simp: desc_def)
  then show ?thesis unfolding tsize_def using card_mono [of "{..n}" "desc p"] by simp
qed

text \<open>The number of a node, and the numbers taken in the interval of \<open>p\<close> by its children below \<open>i\<close>.\<close>

definition taken :: "nat \<Rightarrow> nat \<Rightarrow> nat" where
  "taken p i = (\<Sum>c \<in> {c \<in> kids p. c < i}. tsize c)"

lemma taken_mono: "i \<le> j \<Longrightarrow> taken p i \<le> taken p j"
  unfolding taken_def by (rule sum_mono2) auto

lemma taken_Suc: "taken p (Suc i) = taken p i + (if i \<in> kids p then tsize i else 0)"
proof -
  have "{c \<in> kids p. c < Suc i} = (if i \<in> kids p then insert i {c \<in> kids p. c < i} else {c \<in> kids p. c < i})"
    by (auto simp: less_Suc_eq)
  then show ?thesis unfolding taken_def by simp
qed

lemma taken_start: "i \<le> Suc p \<Longrightarrow> taken p i = 0"
  unfolding taken_def using kids_less by (fastforce intro: sum.neutral)

lemma taken_all: "p \<le> n \<Longrightarrow> taken p (Suc n) + 1 = tsize p"
proof -
  assume p: "p \<le> n"
  have "{c \<in> kids p. c < Suc n} = kids p" by (auto simp: kids_def)
  then show ?thesis using tsize_kids [OF p] by (simp add: taken_def)
qed

function tid :: "nat \<Rightarrow> nat" where
  "tid i = (if i = 0 \<or> n < i then 0 else tid (par i) + 1 + taken (par i) i)"
  by pat_completeness auto
termination
  by (relation "measure id") (auto simp: par_less)

declare tid.simps [simp del]

lemma tid_kid: "c \<in> kids p \<Longrightarrow> tid c = tid p + 1 + taken p c"
  by (subst tid.simps) (auto simp: kids_def)

lemma tid_0 [simp]: "tid 0 = 0"
  by (simp add: tid.simps)

lemma tid_siblings:
  assumes "c \<in> kids p" and "c' \<in> kids p" and "c < c'"
  shows "tid c + tsize c \<le> tid c'"
  using taken_mono [of "Suc c" c' p] assms by (simp add: tid_kid taken_Suc)

lemma tid_kid_end:
  assumes "c \<in> kids p"
  shows "tid c + tsize c \<le> tid p + tsize p"
proof -
  have "c \<le> n" using assms by (simp add: kids_def)
  moreover from this have "p \<le> n" using kids_less [OF assms] by simp
  ultimately show ?thesis using taken_mono [of "Suc c" "Suc n" p] taken_all [of p] assms by (simp add: tid_kid taken_Suc)
qed

lemma anc_interval: "anc p e \<Longrightarrow> tid p \<le> tid e \<and> tid e + tsize e \<le> tid p + tsize p"
proof (induction rule: anc.induct)
  case (anc_step e)
  then have "e \<in> kids (par e)" by (simp add: kids_def)
  then show ?case using anc_step.IH tid_kid tid_kid_end by fastforce
qed simp

lemma tid_end: "p \<le> n \<Longrightarrow> tid p + tsize p \<le> n + 1"
  using anc_interval [OF anc_root] tsize_le [of 0] by fastforce

lemma tsize_pos: "p \<le> n \<Longrightarrow> 0 < tsize p"
  using tsize_kids by simp

text \<open>A number in the interval of \<open>p\<close> belongs to a descendant of \<open>p\<close>.\<close>

theorem interval_anc:
  "p \<le> n \<Longrightarrow> e \<le> n \<Longrightarrow> tid p \<le> tid e \<Longrightarrow> tid e < tid p + tsize p \<Longrightarrow> anc p e"
proof (induction p rule: less_induct)
  case (less p)
  show ?case
  proof (cases "p = 0")
    case False
    then have k: "p \<in> kids (par p)" and r: "par p < p" "par p \<le> n"
      using less.prems par_less [of p] by (auto simp: kids_def)
    have "anc (par p) e"
      using less.IH [OF r] less.prems tid_kid [OF k] tid_kid_end [OF k] by simp
    then have "e = par p \<or> (\<exists>c \<in> kids (par p). anc c e)" using anc_kid less.prems(2) by blast
    then show ?thesis
    proof
      assume "e = par p"
      then show ?thesis using less.prems(3) tid_kid [OF k] by simp
    next
      assume "\<exists>c \<in> kids (par p). anc c e"
      then obtain c where c: "c \<in> kids (par p)" "anc c e" by blast
      have "tid c \<le> tid e" "tid e < tid c + tsize c"
        using anc_interval [OF c(2)] tsize_pos [OF less.prems(2)] by auto
      then have "c = p"
        using tid_siblings [OF c(1) k] tid_siblings [OF k c(1)] less.prems(3,4) by (cases c p rule: linorder_cases) auto
      then show ?thesis using c(2) by simp
    qed
  qed (use less.prems anc_root in simp)
qed

end

end
