(* ===== verification/Bpe_Interval.thy ===== *)
theory Bpe_Interval
  imports Bpe_Backtrack Parent_Tree
begin

text \<open>
  The interval encoding of \<^verbatim>\<open>src/interval_encoding.c\<close>: the tree of all prefixes of a text, where the
  parent of a prefix is the prefix without its last token, numbered so that a subtree is an interval, and
  the count of the tokens of any slice of the text. The count runs a copy of the backtracking encoder on
  the slice until its position is an ancestor of the end of the slice with the same last token; the rest
  of the count is then a difference of depths.
\<close>

subsection \<open>Construction\<close>

record interval_encoding =
  ie_bpe :: bpe
  ie_text :: bytes
  ie_last_token :: "nat option list"
  ie_tree_id :: "nat option list"
  ie_tree_end :: "nat option list"
  ie_tree_depth :: "nat option list"

text \<open>Reading an array from \<^verbatim>\<open>malloc\<close>: an entry that was not written is undefined.\<close>

definition rd_written :: "nat option list \<Rightarrow> nat \<Rightarrow> nat option" where
  "rd_written xs i = do { x \<leftarrow> rd xs i; x }"

definition ie_parent :: "bpe \<Rightarrow> nat option list \<Rightarrow> nat \<Rightarrow> nat option" where
  "ie_parent bpe last_tok node = do {
     tok \<leftarrow> rd_written last_tok (node - 1);
     len \<leftarrow> token_len bpe tok;
     Some (usub node len)
   }"

fun size_loop :: "bpe \<Rightarrow> nat option list \<Rightarrow> nat \<Rightarrow> nat list \<Rightarrow> nat list option" where
  "size_loop bpe last_tok 0 tree_size = Some tree_size"
| "size_loop bpe last_tok (Suc i) tree_size = do {
     parent \<leftarrow> ie_parent bpe last_tok (Suc i);
     a \<leftarrow> rd tree_size parent;
     b \<leftarrow> rd tree_size (Suc i);
     tree_size \<leftarrow> wr tree_size parent (add32 a b);
     size_loop bpe last_tok i tree_size
   }"

type_synonym tree_arrays = "nat option list \<times> nat option list \<times> nat option list"

definition tree_node :: "bpe \<Rightarrow> nat option list \<Rightarrow> nat list \<Rightarrow> nat \<Rightarrow> tree_arrays \<Rightarrow> tree_arrays option" where
  "tree_node bpe last_tok tree_size node arrays = (case arrays of (tree_id, tree_end, tree_depth) \<Rightarrow> do {
     parent \<leftarrow> ie_parent bpe last_tok node;
     e \<leftarrow> rd_written tree_end parent;
     d \<leftarrow> rd_written tree_depth parent;
     size \<leftarrow> rd tree_size node;
     tree_id \<leftarrow> wr tree_id node (Some e);
     tree_end \<leftarrow> wr tree_end node (Some (add32 e 1));
     tree_depth \<leftarrow> wr tree_depth node (Some (add32 d 1));
     e \<leftarrow> rd_written tree_end parent;
     tree_end \<leftarrow> wr tree_end parent (Some (add32 e size));
     Some (tree_id, tree_end, tree_depth)
   })"

fun tree_loop :: "bpe \<Rightarrow> nat option list \<Rightarrow> nat list \<Rightarrow> nat list \<Rightarrow> tree_arrays \<Rightarrow> tree_arrays option" where
  "tree_loop bpe last_tok tree_size [] arrays = Some arrays"
| "tree_loop bpe last_tok tree_size (node # nodes) arrays = do {
     arrays \<leftarrow> tree_node bpe last_tok tree_size node arrays;
     tree_loop bpe last_tok tree_size nodes arrays
   }"

definition interval_encoding_new :: "bpe \<Rightarrow> bytes \<Rightarrow> interval_encoding option" where
  "interval_encoding_new bpe text = do {
     last_tok \<leftarrow> bpe_encode_all_prefixes bpe text;
     tree_size \<leftarrow> size_loop bpe last_tok (length text) (replicate (length text + 1) 1);
     let blank = replicate (length text + 1) None;
     (tree_id, tree_end, tree_depth) \<leftarrow>
       tree_loop bpe last_tok tree_size [1..<length text + 1] (blank[0 := Some 0], blank[0 := Some 1], blank[0 := Some 0]);
     Some \<lparr>ie_bpe = bpe, ie_text = text, ie_last_token = last_tok, ie_tree_id = tree_id, ie_tree_end = tree_end,
           ie_tree_depth = tree_depth\<rparr>
   }"

subsection \<open>The encoder of the count\<close>

text \<open>\<^verbatim>\<open>MiniEnc\<close> has the fields of \<^verbatim>\<open>BtEnc\<close>.\<close>

type_synonym mini_enc = bt_enc

definition mini_bf_init :: "nat \<Rightarrow> bitfield" where
  "mini_bf_init len = (let nwords = (len + 64) div 64 in \<lparr>bf_words = replicate nwords (NOT 0)\<rparr>)"

definition mini_bf_is_set :: "bitfield \<Rightarrow> nat \<Rightarrow> bool option" where
  "mini_bf_is_set bf i = do { w \<leftarrow> rd (bf_words bf) (i div 64); Some (drop_bit (i mod 64) w AND 1 \<noteq> 0) }"

definition mini_bf_clear :: "bitfield \<Rightarrow> nat \<Rightarrow> bitfield option" where
  "mini_bf_clear bf i = do {
     w \<leftarrow> rd (bf_words bf) (i div 64);
     ws \<leftarrow> wr (bf_words bf) (i div 64) (w AND NOT (push_bit (i mod 64) 1));
     Some (bf\<lparr>bf_words := ws\<rparr>)
   }"

definition mini_enc_new :: "bpe \<Rightarrow> bytes \<Rightarrow> nat \<Rightarrow> mini_enc option" where
  "mini_enc_new bpe text cap = do {
     next \<leftarrow> bpe_next_match bpe text;
     Some \<lparr>bt_text = text, bt_tokens = [], bt_token_cap = (if 8 < cap then cap else 8),
           bt_next_token = next, bt_pos = 0, bt_bitfield = mini_bf_init (length text)\<rparr>
   }"

partial_function (option) mini_loop :: "bpe \<Rightarrow> mini_enc \<Rightarrow> nat \<Rightarrow> nat \<Rightarrow> mini_enc option" where
  "mini_loop bpe e last_tok token = do {
     tlen \<leftarrow> token_len bpe token;
     let end_pos = bt_pos e + tlen;
     pair_ok \<leftarrow> (if last_tok = UINT32_MAX then Some True else bpe_is_valid_token_pair bpe last_tok token);
     free \<leftarrow> mini_bf_is_set (bt_bitfield e) end_pos;
     if free \<and> pair_ok then do {
       let cap = (if length (bt_tokens e) = bt_token_cap e then bt_token_cap e * 2 else bt_token_cap e);
       if length (bt_tokens e) < cap then do {
         next \<leftarrow> bpe_next_match bpe (drop end_pos (bt_text e));
         Some (e\<lparr>bt_tokens := bt_tokens e @ [token], bt_token_cap := cap, bt_pos := end_pos, bt_next_token := next\<rparr>)
       } else None
     } else do {
       shorter \<leftarrow> bpe_next_prefix bpe token;
       if shorter \<noteq> UINT32_MAX then mini_loop bpe e last_tok shorter
       else do {
         bf \<leftarrow> mini_bf_clear (bt_bitfield e) (bt_pos e);
         if bt_tokens e = [] then Some (e\<lparr>bt_bitfield := bf, bt_next_token := UINT32_MAX\<rparr>)
         else do {
           let popped = last (bt_tokens e);
           len \<leftarrow> token_len bpe popped;
           Some (e\<lparr>bt_bitfield := bf, bt_tokens := butlast (bt_tokens e), bt_pos := usub (bt_pos e) len,
                   bt_next_token := popped\<rparr>)
         }
       }
     }
   }"

definition mini_step :: "bpe \<Rightarrow> mini_enc \<Rightarrow> mini_enc option" where
  "mini_step bpe e =
     (if bt_next_token e = UINT32_MAX then Some e
      else mini_loop bpe e (if bt_tokens e \<noteq> [] then last (bt_tokens e) else UINT32_MAX) (bt_next_token e))"

subsection \<open>The count\<close>

text \<open>Whether the position is an ancestor of the leaf with the same last token, and the token to try next the
  last token at its end.\<close>

definition tree_match :: "interval_encoding \<Rightarrow> nat \<Rightarrow> nat \<Rightarrow> nat \<Rightarrow> nat \<Rightarrow> nat \<Rightarrow> bool option" where
  "tree_match ie leaf pos prev_token nxt_end next_tok = do {
     tid \<leftarrow> rd_written (ie_tree_id ie) pos;
     if leaf < tid then Some False else do {
       tend \<leftarrow> rd_written (ie_tree_end ie) pos;
       if tend \<le> leaf then Some False else do {
         prev \<leftarrow> rd_written (ie_last_token ie) (pos - 1);
         if prev \<noteq> prev_token then Some False else do {
           nxt \<leftarrow> rd_written (ie_last_token ie) (sub32 nxt_end 1);
           Some (nxt = next_tok)
         }
       }
     }
   }"

text \<open>The body of the loop after a step that leaves a token to try: \<open>None\<close> to go on, or the result.\<close>

definition try_tree :: "interval_encoding \<Rightarrow> nat \<Rightarrow> nat \<Rightarrow> nat \<Rightarrow> mini_enc \<Rightarrow> nat option option" where
  "try_tree ie start stop leaf e =
     (let pos = bt_pos e + start in
      if bt_tokens e = [] \<or> \<not> (0 < pos \<and> pos \<le> length (ie_text ie)) then Some None
      else do {
        len \<leftarrow> token_len (ie_bpe ie) (bt_next_token e);
        let nxt_end = (pos + len) mod 2 ^ 32;
        if length (ie_text ie) < nxt_end then Some (Some (length (bt_tokens e)))
        else do {
          found \<leftarrow> tree_match ie leaf pos (last (bt_tokens e)) nxt_end (bt_next_token e);
          if found then do {
            d1 \<leftarrow> rd_written (ie_tree_depth ie) stop;
            d2 \<leftarrow> rd_written (ie_tree_depth ie) pos;
            Some (Some (length (bt_tokens e) + sub32 d1 d2))
          } else Some None
        }
      })"

partial_function (option) count_loop :: "interval_encoding \<Rightarrow> nat \<Rightarrow> nat \<Rightarrow> nat \<Rightarrow> mini_enc \<Rightarrow> nat option" where
  "count_loop ie start stop leaf e = do {
     e \<leftarrow> mini_step (ie_bpe ie) e;
     if bt_next_token e = UINT32_MAX then Some (length (bt_tokens e))
     else do {
       r \<leftarrow> try_tree ie start stop leaf e;
       case r of Some result \<Rightarrow> Some result | None \<Rightarrow> count_loop ie start stop leaf e
     }
   }"

definition interval_encoding_count :: "interval_encoding \<Rightarrow> nat \<Rightarrow> nat \<Rightarrow> nat option" where
  "interval_encoding_count ie start stop = do {
     leaf \<leftarrow> rd_written (ie_tree_id ie) stop;
     slice \<leftarrow> rd_slice (ie_text ie) start (usub stop start);
     e \<leftarrow> mini_enc_new (ie_bpe ie) slice 8;
     count_loop ie start stop leaf e
   }"


subsection \<open>The tree of the prefixes\<close>

definition path :: "bytes list \<Rightarrow> bytes \<Rightarrow> nat \<Rightarrow> nat list" where
  "path D t i = bpe_ids D (take i t)"

definition prefix_parent :: "bytes list \<Rightarrow> bytes \<Rightarrow> nat \<Rightarrow> nat" where
  "prefix_parent D t i = (if wf_dict D \<and> covers D t then i - length (D ! last (path D t i)) else 0)"

lemma path_step:
  assumes "wf_dict D" and "covers D t" and "0 < i" and "i \<le> length t"
  shows "last (path D t i) < length D" and "length (D ! last (path D t i)) \<le> i" and "0 < length (D ! last (path D t i))"
    and "path D t i = path D t (prefix_parent D t i) @ [last (path D t i)]"
proof -
  have c: "covers D (take i t)" by (rule covers_take [OF assms(2)])
  have n: "take i t \<noteq> []" using assms(3,4) by auto
  note l = bpe_ids_last [OF assms(1) c n]
  show less: "last (path D t i) < length D" using l(1) by (simp add: path_def)
  show le: "length (D ! last (path D t i)) \<le> i"
    using suffix_length_le [OF l(2)] assms(4) by (simp add: path_def)
  show "0 < length (D ! last (path D t i))" using wf_dict_nonempty [OF assms(1) less] by simp
  show "path D t i = path D t (prefix_parent D t i) @ [last (path D t i)]"
  proof -
    let ?l = "length (D ! last (bpe_ids D (take i t)))"
    have "take (length (take i t) - ?l) (take i t) = take (i - ?l) t"
      using assms(4) by (simp add: min_def)
    then show ?thesis using l(3) assms(1,2) by (simp add: path_def prefix_parent_def)
  qed
qed

interpretation prefix_tree: parent_tree "prefix_parent D t" "length t" for D t
proof
  fix i
  assume i: "0 < i" "i \<le> length t"
  then show "prefix_parent D t i < i"
    using path_step(3) [of D t i] by (auto simp: prefix_parent_def)
qed

abbreviation "tree_tid D t \<equiv> parent_tree.tid (prefix_parent D t) (length t)"
abbreviation "tree_tsize D t \<equiv> parent_tree.tsize (prefix_parent D t) (length t)"
abbreviation "tree_taken D t \<equiv> parent_tree.taken (prefix_parent D t) (length t)"
abbreviation "tree_kids D t \<equiv> parent_tree.kids (prefix_parent D t) (length t)"

lemma path_text: "covers D t \<Longrightarrow> concat (map (\<lambda>i. D ! i) (path D t i)) = take i t"
  unfolding path_def by (rule bpe_ids_decode [OF covers_take])

lemma path_less: "covers D t \<Longrightarrow> \<forall>j \<in> set (path D t i). j < length D"
  unfolding path_def using bpe_ids_less [OF covers_take] by blast


lemma length_path: "wf_dict D \<Longrightarrow> covers D t \<Longrightarrow> i \<le> length t \<Longrightarrow> length (path D t i) \<le> i"
proof (induction i rule: less_induct)
  case (less i)
  show ?case
  proof (cases "i = 0")
    case False
    then have p: "prefix_parent D t i < i" using prefix_tree.par_less [of i t D] less.prems by simp
    have "path D t i = path D t (prefix_parent D t i) @ [last (path D t i)]"
      using path_step(4) [OF less.prems(1,2)] False less.prems(3) by simp
    then have "length (path D t i) = Suc (length (path D t (prefix_parent D t i)))" by (metis length_append_singleton)
    then show ?thesis using less.IH [OF p] less.prems p by simp
  qed (simp add: path_def)
qed

text \<open>Down from an ancestor the encoding goes on.\<close>

lemma anc_path:
  assumes wf: "wf_dict D" and cov: "covers D t" and "parent_tree.anc (prefix_parent D t) (length t) p e"
  shows "\<exists>W. path D t e = path D t p @ W"
  using assms(3)
proof (induction rule: prefix_tree.anc.induct)
  case (anc_step e)
  then obtain W where "path D t (prefix_parent D t e) = path D t p @ W" by blast
  then show ?case using path_step(4) [OF wf cov anc_step(1,2)] by (metis append.assoc)
qed simp

subsection \<open>Construction\<close>

lemma rd_written_Some [simp]: "i < length xs \<Longrightarrow> rd_written xs i = xs ! i"
  by (simp add: rd_written_def)

definition last_toks :: "bytes list \<Rightarrow> bytes \<Rightarrow> nat option list" where
  "last_toks D t = map (\<lambda>j. Some (last (path D t (Suc j)))) [0..<length t]"

lemma last_toks_nth: "0 < p \<Longrightarrow> p \<le> length t \<Longrightarrow> rd_written (last_toks D t) (p - 1) = Some (last (path D t p))"
proof -
  assume "0 < p" "p \<le> length t"
  then have "p - 1 < length t" "Suc (p - 1) = p" by simp_all
  then show ?thesis by (simp add: last_toks_def)
qed

lemma last_toks_ok: "bpe_ok bpe D \<Longrightarrow> covers D t \<Longrightarrow> bpe_encode_all_prefixes bpe t = Some (last_toks D t)"
  using encode_all_prefixes_ok by (simp add: last_toks_def path_def)

lemma ie_parent_ok:
  assumes "bpe_ok bpe D" and "covers D t" and "0 < i" and "i \<le> length t"
  shows "ie_parent bpe (last_toks D t) i = Some (prefix_parent D t i)"
proof -
  note wf = bpe_okD(1) [OF assms(1)]
  note p = path_step [OF wf assms(2-4)]
  show ?thesis
    using last_toks_nth [OF assms(3,4), of D] bpe_token_len [OF assms(1) p(1)] p(2) wf assms(2) by (simp add: ie_parent_def prefix_parent_def)
qed

definition sizes_from :: "bytes list \<Rightarrow> bytes \<Rightarrow> nat \<Rightarrow> nat list" where
  "sizes_from D t i = map (\<lambda>p. tree_tsize D t p - tree_taken D t p (Suc i)) [0..<length t + 1]"

lemma size_loop_ok:
  assumes ok: "bpe_ok bpe D" and cov: "covers D t" and n: "length t + 1 < 2 ^ 32"
  shows "i \<le> length t \<Longrightarrow> size_loop bpe (last_toks D t) i (sizes_from D t i) = Some (sizes_from D t 0)"
proof (induction i)
  case (Suc i)
  let ?p = "prefix_parent D t (Suc i)"
  have p: "?p \<le> i" using prefix_tree.par_less [of "Suc i" t D] Suc.prems by simp
  have kid: "Suc i \<in> tree_kids D t q \<longleftrightarrow> q = ?p" for q using Suc.prems by (auto simp: prefix_tree.kids_def)
  have step: "tree_taken D t q (Suc (Suc i)) = tree_taken D t q (Suc i) + (if q = ?p then tree_tsize D t (Suc i) else 0)" for q
    using prefix_tree.taken_Suc [of D t q "Suc i"] kid by simp
  have le: "tree_taken D t q (Suc (Suc i)) + 1 \<le> tree_tsize D t q" if "q \<le> length t" for q
    using prefix_tree.taken_mono [of "Suc (Suc i)" "Suc (length t)" D t q] prefix_tree.taken_all [OF that, of D] Suc.prems by simp
  have own: "sizes_from D t (Suc i) ! Suc i = tree_tsize D t (Suc i)"
    using Suc.prems prefix_tree.taken_start [of "Suc (Suc i)" "Suc i" D t] by (simp add: sizes_from_def del: upt_Suc)
  have par: "sizes_from D t (Suc i) ! ?p = tree_tsize D t ?p - tree_taken D t ?p (Suc (Suc i))"
    using Suc.prems p by (simp add: sizes_from_def del: upt_Suc)
  have sum: "tree_tsize D t ?p - tree_taken D t ?p (Suc (Suc i)) + tree_tsize D t (Suc i) =
      tree_tsize D t ?p - tree_taken D t ?p (Suc i)"
    using le [of ?p] step [of ?p] p Suc.prems by simp
  also have "\<dots> < 2 ^ 32" using prefix_tree.tsize_le [of D t ?p] n by linarith
  finally have "add32 (sizes_from D t (Suc i) ! ?p) (sizes_from D t (Suc i) ! Suc i) =
      tree_tsize D t ?p - tree_taken D t ?p (Suc i)"
    using sum unfolding own par by simp
  moreover have "(sizes_from D t (Suc i))[?p := tree_tsize D t ?p - tree_taken D t ?p (Suc i)] = sizes_from D t i"
  proof (rule nth_equalityI)
    fix q
    assume "q < length ((sizes_from D t (Suc i))[?p := tree_tsize D t ?p - tree_taken D t ?p (Suc i)])"
    then have q: "q < length t + 1" by (simp add: sizes_from_def)
    then show "(sizes_from D t (Suc i))[?p := tree_tsize D t ?p - tree_taken D t ?p (Suc i)] ! q = sizes_from D t i ! q"
      using step [of q] by (cases "q = ?p") (simp_all add: sizes_from_def del: upt_Suc)
  qed (simp add: sizes_from_def)
  moreover have "?p < length (sizes_from D t (Suc i))" "Suc i < length (sizes_from D t (Suc i))"
    using p Suc.prems by (simp_all add: sizes_from_def)
  ultimately show ?case using Suc ie_parent_ok [OF ok cov, of "Suc i"] by simp
qed simp

lemma sizes_start: "sizes_from D t (length t) = replicate (length t + 1) 1"
proof (rule nth_equalityI)
  fix p
  assume "p < length (sizes_from D t (length t))"
  then have p: "p \<le> length t" by (simp add: sizes_from_def)
  have "tree_tsize D t p - tree_taken D t p (Suc (length t)) = 1"
    using prefix_tree.taken_all [OF p, of D] by linarith
  then show "sizes_from D t (length t) ! p = replicate (length t + 1) 1 ! p"
    using p by (simp add: sizes_from_def del: replicate_Suc upt_Suc)
qed (simp add: sizes_from_def)

lemma sizes_end: "sizes_from D t 0 = map (tree_tsize D t) [0..<length t + 1]"
  using prefix_tree.taken_start [of 1 _ D t] by (simp add: sizes_from_def)


text \<open>The arrays when the nodes below \<open>i\<close> are done.\<close>

definition tree_upto :: "bytes list \<Rightarrow> bytes \<Rightarrow> nat \<Rightarrow> (nat \<Rightarrow> nat) \<Rightarrow> nat option list" where
  "tree_upto D t i f = map (\<lambda>k. if k < i then Some (f k) else None) [0..<length t + 1]"

lemma tree_upto_simps [simp]:
  "length (tree_upto D t i f) = length t + 1"
  "k \<le> length t \<Longrightarrow> k < i \<Longrightarrow> tree_upto D t i f ! k = Some (f k)"
  by (simp_all add: tree_upto_def del: upt_Suc)

lemma tree_upto_cong: "(\<And>k. k < i \<Longrightarrow> k \<le> length t \<Longrightarrow> f k = g k) \<Longrightarrow> tree_upto D t i f = tree_upto D t i g"
  by (simp add: tree_upto_def)

lemma tree_upto_Suc: "i \<le> length t \<Longrightarrow> (tree_upto D t i f)[i := Some (f i)] = tree_upto D t (Suc i) f"
  by (intro nth_equalityI) (auto simp: tree_upto_def nth_list_update less_Suc_eq simp del: upt_Suc)

lemma tree_upto_update:
  assumes "k < i" and "k \<le> length t" and "\<And>j. j \<noteq> k \<Longrightarrow> g j = f j"
  shows "(tree_upto D t i f)[k := Some (g k)] = tree_upto D t i g"
  using assms by (intro nth_equalityI) (auto simp: tree_upto_def nth_list_update simp del: upt_Suc)

definition tree_arrays_upto :: "bytes list \<Rightarrow> bytes \<Rightarrow> nat \<Rightarrow> tree_arrays" where
  "tree_arrays_upto D t i =
     (tree_upto D t i (tree_tid D t), tree_upto D t i (\<lambda>k. tree_tid D t k + 1 + tree_taken D t k i),
      tree_upto D t i (\<lambda>k. length (path D t k)))"

lemma tree_node_ok:
  assumes ok: "bpe_ok bpe D" and cov: "covers D t" and n: "length t + 1 < 2 ^ 32" and i: "0 < i" "i \<le> length t"
  shows "tree_node bpe (last_toks D t) (sizes_from D t 0) i (tree_arrays_upto D t i) = Some (tree_arrays_upto D t (Suc i))"
proof -
  note wf = bpe_okD(1) [OF ok]
  let ?p = "prefix_parent D t i"
  let ?ends = "\<lambda>i k. tree_tid D t k + 1 + tree_taken D t k i"
  have p: "?p < i" by (rule prefix_tree.par_less [OF i])
  have kid: "i \<in> tree_kids D t q \<longleftrightarrow> q = ?p" for q using i by (auto simp: prefix_tree.kids_def)
  have tid: "?ends i ?p = tree_tid D t i" using prefix_tree.tid_kid [of i D t ?p] kid by simp
  have taken: "tree_taken D t q (Suc i) = tree_taken D t q i + (if q = ?p then tree_tsize D t i else 0)" for q
    using prefix_tree.taken_Suc [of D t q i] kid by simp
  have depth: "length (path D t i) = length (path D t ?p) + 1"
    using path_step(4) [OF wf cov i] by (metis length_append_singleton Suc_eq_plus1)
  have "tree_tid D t i + tree_tsize D t i \<le> length t + 1" by (rule prefix_tree.tid_end [OF i(2)])
  moreover have "0 < tree_tsize D t i" by (rule prefix_tree.tsize_pos [OF i(2)])
  ultimately have b1: "tree_tid D t i + 1 < 2 ^ 32" and b2: "tree_tid D t i + tree_tsize D t i < 2 ^ 32" using n by linarith+
  have b3: "length (path D t ?p) + 1 < 2 ^ 32" using length_path [OF wf cov, of ?p] p i(2) n by linarith
  have size: "rd (sizes_from D t 0) i = Some (tree_tsize D t i)" using i by (simp add: sizes_end del: upt_Suc)
  let ?e1 = "(tree_upto D t i (?ends i))[i := Some (tree_tid D t i + 1)]"
  have "(\<lambda>k. ?ends i k) i = tree_tid D t i + 1" using prefix_tree.taken_start [of i i D t] by simp
  then have e1: "?e1 = tree_upto D t (Suc i) (?ends i)" using tree_upto_Suc [OF i(2), of D "?ends i"] by simp
  have v: "?ends (Suc i) ?p = tree_tid D t i + tree_tsize D t i" using taken [of ?p] tid by simp
  have "(tree_upto D t (Suc i) (?ends i))[?p := Some (?ends (Suc i) ?p)] = tree_upto D t (Suc i) (?ends (Suc i))"
  proof (rule tree_upto_update)
    show "?ends (Suc i) j = ?ends i j" if "j \<noteq> ?p" for j using taken [of j] that by simp
  qed (use p i(2) in simp_all)
  then have e2: "(tree_upto D t (Suc i) (?ends i))[?p := Some (tree_tid D t i + tree_tsize D t i)] = tree_upto D t (Suc i) (?ends (Suc i))"
    unfolding v .
  moreover have "?p \<le> length t" "?p < Suc i" using p i(2) by simp_all
  ultimately show ?thesis
    using p i e1 e2 tid b1 b2 b3 size depth ie_parent_ok [OF ok cov i]
      tree_upto_Suc [OF i(2), of D "tree_tid D t"] tree_upto_Suc [OF i(2), of D "\<lambda>k. length (path D t k)"]
    by (simp add: tree_node_def tree_arrays_upto_def)
qed

lemma tree_loop_ok:
  assumes ok: "bpe_ok bpe D" and cov: "covers D t" and n: "length t + 1 < 2 ^ 32"
  shows "0 < i \<Longrightarrow> i + m = length t + 1 \<Longrightarrow>
    tree_loop bpe (last_toks D t) (sizes_from D t 0) [i..<length t + 1] (tree_arrays_upto D t i) =
      Some (tree_arrays_upto D t (length t + 1))"
proof (induction m arbitrary: i)
  case (Suc m)
  then have "[i..<length t + 1] = i # [Suc i..<length t + 1]" by (simp add: upt_conv_Cons del: upt_Suc)
  then show ?case using Suc tree_node_ok [OF ok cov n, of i] by simp
qed simp

definition ie_for :: "bpe \<Rightarrow> bytes list \<Rightarrow> bytes \<Rightarrow> interval_encoding" where
  "ie_for bpe D t = \<lparr>ie_bpe = bpe, ie_text = t, ie_last_token = last_toks D t,
     ie_tree_id = map (\<lambda>k. Some (tree_tid D t k)) [0..<length t + 1],
     ie_tree_end = map (\<lambda>k. Some (tree_tid D t k + tree_tsize D t k)) [0..<length t + 1],
     ie_tree_depth = map (\<lambda>k. Some (length (path D t k))) [0..<length t + 1]\<rparr>"

lemma interval_encoding_new_ok:
  assumes ok: "bpe_ok bpe D" and cov: "covers D t" and n: "length t + 1 < 2 ^ 32"
  shows "interval_encoding_new bpe t = Some (ie_for bpe D t)"
proof -
  have start: "(tree_upto D t 1 f) = (replicate (length t + 1) None)[0 := Some (f 0)]" for f
    by (intro nth_equalityI) (auto simp: tree_upto_def nth_list_update simp del: upt_Suc replicate_Suc)
  have "tree_taken D t 0 1 = 0" by (rule prefix_tree.taken_start) simp
  then have s: "tree_arrays_upto D t 1 = ((replicate (length t + 1) None)[0 := Some 0],
      (replicate (length t + 1) None)[0 := Some 1], (replicate (length t + 1) None)[0 := Some 0])"
    unfolding tree_arrays_upto_def start by (simp add: path_def)
  have all: "tree_upto D t (length t + 1) f = map (\<lambda>k. Some (f k)) [0..<length t + 1]" for f
    by (simp add: tree_upto_def del: upt_Suc)
  have e: "tree_tid D t k + 1 + tree_taken D t k (length t + 1) = tree_tid D t k + tree_tsize D t k" if "k \<le> length t" for k
    using prefix_tree.taken_all [OF that, of D] by simp
  have "tree_loop bpe (last_toks D t) (sizes_from D t 0) [1..<length t + 1] (tree_arrays_upto D t 1) =
      Some (tree_arrays_upto D t (length t + 1))"
    using tree_loop_ok [OF ok cov n, of 1 "length t"] by simp
  moreover have "size_loop bpe (last_toks D t) (length t) (replicate (length t + 1) 1) = Some (sizes_from D t 0)"
    using size_loop_ok [OF ok cov n, of "length t"] by (simp add: sizes_start del: replicate_Suc)
  moreover have "tree_arrays_upto D t (length t + 1) =
      (ie_tree_id (ie_for bpe D t), ie_tree_end (ie_for bpe D t), ie_tree_depth (ie_for bpe D t))"
    unfolding tree_arrays_upto_def all using e by (simp add: ie_for_def)
  moreover have "ie_for bpe D t = \<lparr>ie_bpe = bpe, ie_text = t, ie_last_token = last_toks D t,
      ie_tree_id = ie_tree_id (ie_for bpe D t), ie_tree_end = ie_tree_end (ie_for bpe D t),
      ie_tree_depth = ie_tree_depth (ie_for bpe D t)\<rparr>" by (simp add: ie_for_def)
  ultimately show ?thesis
    unfolding interval_encoding_new_def last_toks_ok [OF ok cov] Let_def s [symmetric] by simp
qed


subsection \<open>The copy of the encoder\<close>

lemma mini_bf_same: "mini_bf_is_set = bitfield_is_set" "mini_bf_clear = bitfield_clear" "mini_bf_init n = bitfield_new (n + 1)"
  by (auto simp: fun_eq_iff mini_bf_is_set_def bitfield_is_set_def mini_bf_clear_def bitfield_clear_def mini_bf_init_def
      bitfield_new_def Let_def)

lemma mini_loop_unfold: "mini_loop bpe e l tok = do {
     tlen \<leftarrow> token_len bpe tok;
     let end_pos = bt_pos e + tlen;
     pair_ok \<leftarrow> (if l = UINT32_MAX then Some True else bpe_is_valid_token_pair bpe l tok);
     free \<leftarrow> bitfield_is_set (bt_bitfield e) end_pos;
     if free \<and> pair_ok then btenc_accept bpe e tok end_pos
     else do {
       shorter \<leftarrow> bpe_next_prefix bpe tok;
       if shorter \<noteq> UINT32_MAX then mini_loop bpe e l shorter
       else btenc_back bpe e
     }
   }"
  by (subst mini_loop.simps) (simp only: mini_bf_same btenc_accept_def btenc_back_def)

lemma mini_loop_same: "btenc_loop bpe e l tok = Some e' \<Longrightarrow> mini_loop bpe e l tok = Some e'"
proof (rule btenc_loop.raw_induct [where P = "\<lambda>bpe e l tok e'. mini_loop bpe e l tok = Some e'", rotated])
  fix f bpe e l tok e'
  assume IH: "\<And>bpe e l tok e'. f bpe e l tok = Some e' \<Longrightarrow> mini_loop bpe e l tok = Some e'"
    and body: "do {
     tlen \<leftarrow> token_len bpe tok;
     let end_pos = bt_pos e + tlen;
     pair_ok \<leftarrow> (if l = UINT32_MAX then Some True else bpe_is_valid_token_pair bpe l tok);
     free \<leftarrow> bitfield_is_set (bt_bitfield e) end_pos;
     if free \<and> pair_ok then btenc_accept bpe e tok end_pos
     else do {
       shorter \<leftarrow> bpe_next_prefix bpe tok;
       if shorter \<noteq> UINT32_MAX then f bpe e l shorter
       else btenc_back bpe e
     }
   } = Some e'"
  then obtain tlen pair_ok free where *: "token_len bpe tok = Some tlen"
      "(if l = UINT32_MAX then Some True else bpe_is_valid_token_pair bpe l tok) = Some pair_ok"
      "bitfield_is_set (bt_bitfield e) (bt_pos e + tlen) = Some free"
    by (auto simp: Let_def bind_eq_Some_conv simp del: not_None_eq split: if_splits)
  show "mini_loop bpe e l tok = Some e'"
  proof (cases "free \<and> pair_ok")
    case True
    then show ?thesis using body * by (subst mini_loop_unfold) simp
  next
    case False
    then show ?thesis using body * IH by (subst mini_loop_unfold) (auto simp: bind_eq_Some_conv split: if_splits)
  qed
qed

lemma mini_step_same: "btenc_step bpe e = Some e' \<Longrightarrow> mini_step bpe e = Some e'"
  using mini_loop_same [of bpe e "bt_last e" "bt_next_token e" e']
  by (simp add: btenc_step_def mini_step_def bt_last_def split: if_splits)

lemma mini_step_ok:
  assumes "bpe_ok bpe D" and "covers D t" and "bt_inv D t e" and "bt_next_token e \<noteq> UINT32_MAX"
  shows "\<exists>e'. mini_step bpe e = Some e' \<and> bt_inv D t e' \<and> bt_measure t e' < bt_measure t e"
  using btenc_step_ok [OF assms] mini_step_same by blast

lemma mini_enc_new_ok:
  assumes ok: "bpe_ok bpe D" and cov: "covers D t"
  shows "\<exists>e. mini_enc_new bpe t c = Some e \<and> bt_inv D t e"
proof -
  obtain r where r: "bpe_next_match bpe t = Some r" "is_longest D t r"
    using bpe_next_match_longest [OF ok cov] by blast
  have k: "keeps D t (bitfield_new (length t + 1))"
    by (rule keeps_full [OF cov]) (rule word_bits.new_room, rule word_bits.new_member)
  have "0 < (if 8 < c then c else 8)" by simp
  from bt_inv_start [OF ok cov r(2) k this] show ?thesis
    using r(1) by (simp add: mini_enc_new_def mini_bf_same)
qed

subsection \<open>The count\<close>

text \<open>Two encodings that meet in a token: the tokens of a slice up to there, and the tokens of the prefix
  from there on.\<close>

lemma encodings_meet:
  assumes wf: "wf_dict D" and "covers D u" and "covers D v"
    and u: "bpe_ids D u = A @ [k]" and v: "bpe_ids D v = B @ [k] @ W"
  shows "bpe_ids D (u @ concat (map (\<lambda>i. D ! i) W)) = A @ [k] @ W"
proof -
  have less: "\<forall>i \<in> set (A @ [k] @ W). i < length D"
    using bpe_ids_less [OF assms(2)] bpe_ids_less [OF assms(3)] unfolding u v by auto
  have "adj (ok_pair D) (A @ [k])" and "adj (ok_pair D) (B @ [k] @ W)"
    using bpe_ids_iff [OF wf, of "bpe_ids D u"] bpe_ids_iff [OF wf, of "bpe_ids D v"]
      bpe_ids_decode [OF assms(2)] bpe_ids_decode [OF assms(3)] bpe_ids_less [OF assms(2)] bpe_ids_less [OF assms(3)]
    by (auto simp: u v)
  then have "adj (ok_pair D) (A @ [k] @ W)" by (auto simp: adj_append)
  moreover have "concat (map (\<lambda>i. D ! i) (A @ [k] @ W)) = u @ concat (map (\<lambda>i. D ! i) W)"
    using bpe_ids_decode [OF assms(2)] by (simp flip: append_assoc add: u)
  ultimately show ?thesis using bpe_ids_iff [OF wf less] by (simp del: map_append concat_append)
qed

lemma covers_slice: "covers D t \<Longrightarrow> covers D (slice t i j)"
  by (auto simp: covers_def slice_def dest: in_set_takeD in_set_dropD)

text \<open>The rest of the count, when the position is an ancestor of the end of the slice.\<close>

lemma tree_join:
  assumes wf: "wf_dict D" and cov: "covers D t" and le: "start \<le> stop" "stop \<le> length t"
    and pos: "0 < q + start" "q + start \<le> stop"
    and anc: "parent_tree.anc (prefix_parent D t) (length t) (q + start) stop"
    and toks: "bpe_ids D (take q (slice t start stop)) = A @ [k]" and k: "last (path D t (q + start)) = k"
  shows "length (path D t (q + start)) \<le> length (path D t stop)"
    and "length (bpe_ids D (slice t start stop)) =
      length (A @ [k]) + (length (path D t stop) - length (path D t (q + start)))"
proof -
  let ?p = "q + start" and ?sl = "slice t start stop"
  obtain W where W: "path D t stop = path D t ?p @ W" using anc_path [OF wf cov anc] by blast
  have "path D t ?p \<noteq> []" using path_step(4) [OF wf cov, of ?p] pos le by auto
  then obtain B where B: "path D t ?p = B @ [k]" using k by (metis append_butlast_last_id)
  have "take stop t = take ?p t @ concat (map (\<lambda>i. D ! i) W)"
    using path_text [OF cov, of stop] path_text [OF cov, of ?p] W by simp
  moreover have "take stop t = take ?p t @ drop ?p (take stop t)"
    using append_take_drop_id [of ?p "take stop t"] pos by (simp add: min_def)
  ultimately have "concat (map (\<lambda>i. D ! i) W) = drop ?p (take stop t)" by simp
  moreover have "?sl = take q ?sl @ drop ?p (take stop t)"
    using append_take_drop_id [of q ?sl] by (simp add: slice_def drop_take add.commute)
  ultimately have sl: "?sl = take q ?sl @ concat (map (\<lambda>i. D ! i) W)" by simp
  have "covers D (take q ?sl)" by (rule covers_take [OF covers_slice [OF cov]])
  from encodings_meet [OF wf this covers_take [OF cov] toks, of stop B W]
  have "bpe_ids D ?sl = A @ [k] @ W" using W B sl by (simp add: path_def)
  then show "length (path D t ?p) \<le> length (path D t stop)"
    and "length (bpe_ids D ?sl) = length (A @ [k]) + (length (path D t stop) - length (path D t ?p))"
    using W by simp_all
qed

lemma ie_for_sel [simp]: "ie_bpe (ie_for bpe D t) = bpe" "ie_text (ie_for bpe D t) = t"
  "ie_last_token (ie_for bpe D t) = last_toks D t"
  by (simp_all add: ie_for_def)

lemma ie_for_nth [simp]:
  assumes "i \<le> length t"
  shows "rd_written (ie_tree_id (ie_for bpe D t)) i = Some (tree_tid D t i)"
    and "rd_written (ie_tree_end (ie_for bpe D t)) i = Some (tree_tid D t i + tree_tsize D t i)"
    and "rd_written (ie_tree_depth (ie_for bpe D t)) i = Some (length (path D t i))"
  using assms by (simp_all add: ie_for_def del: upt_Suc)

lemma tree_match_ok:
  assumes "0 < pos" and "pos \<le> length t" and "stop \<le> length t" and "0 < nxt" and "nxt \<le> length t" and "nxt < 2 ^ 32"
  shows "\<exists>r. tree_match (ie_for bpe D t) (tree_tid D t stop) pos k nxt x = Some r \<and>
    (r \<longrightarrow> parent_tree.anc (prefix_parent D t) (length t) pos stop \<and> last (path D t pos) = k)"
proof -
  have "rd_written (last_toks D t) (pos - 1) = Some (last (path D t pos))"
    and "rd_written (last_toks D t) (sub32 nxt 1) = Some (last (path D t nxt))"
    using assms last_toks_nth [of pos t D] last_toks_nth [of nxt t D] by simp_all
  then show ?thesis
    using prefix_tree.interval_anc [of pos t stop D] assms(2,3)
    by (auto simp: tree_match_def)
qed

lemma try_tree_ok:
  assumes ok: "bpe_ok bpe D" and cov: "covers D t" and n: "length t + 1 < 2 ^ 32"
    and le: "start \<le> stop" "stop \<le> length t"
    and inv: "bt_inv D (slice t start stop) e" and nx: "bt_next_token e \<noteq> UINT32_MAX"
  shows "\<exists>r. try_tree (ie_for bpe D t) start stop (tree_tid D t stop) e = Some r \<and>
    (\<forall>c. r = Some c \<longrightarrow> c = length (bpe_ids D (slice t start stop)))"
proof (cases "bt_tokens e = [] \<or> \<not> (0 < bt_pos e + start \<and> bt_pos e + start \<le> length t)")
  case True
  then show ?thesis by (auto simp: try_tree_def)
next
  case False
  let ?sl = "slice t start stop" and ?q = "bt_pos e" and ?k = "last (bt_tokens e)" and ?x = "bt_next_token e"
  let ?ie = "ie_for bpe D t" and ?l = "length (D ! bt_next_token e)"
  note wf = bpe_okD(1) [OF ok]
  have st: "stack_ok D ?sl (bt_bitfield e) ?q (rev (bt_tokens e))" and c: "cand D ?sl ?q ?x"
    using inv nx by (simp_all add: bt_inv_def)
  have x: "?x < length D" using c by (simp add: cand_def)
  have "?q + ?l \<le> stop - start" using cand_le [OF c bpe_pos_len [OF ok x]] le by simp
  then have q: "?q + start + ?l \<le> stop" using le by simp
  define nxt where "nxt = ?q + start + ?l"
  have b: "0 < ?q + start" "?q + start \<le> length t" "0 < nxt" "nxt \<le> length t" "nxt < 2 ^ 32"
    using False q n le(2) by (simp_all add: nxt_def)
  have m: "(?q + start + ?l) mod 2 ^ 32 = nxt" using b(5) by (simp add: nxt_def)
  obtain found where f: "tree_match ?ie (tree_tid D t stop) (?q + start) ?k nxt ?x = Some found"
      "found \<Longrightarrow> parent_tree.anc (prefix_parent D t) (length t) (?q + start) stop \<and> last (path D t (?q + start)) = ?k"
    using tree_match_ok [OF b(1,2) le(2) b(3-5), of bpe D ?k ?x] by blast
  have step: "try_tree ?ie start stop (tree_tid D t stop) e =
      (if found then do {
         d1 \<leftarrow> rd_written (ie_tree_depth ?ie) stop;
         d2 \<leftarrow> rd_written (ie_tree_depth ?ie) (?q + start);
         Some (Some (length (bt_tokens e) + sub32 d1 d2))
       } else Some None)"
    unfolding try_tree_def Let_def ie_for_sel if_not_P [OF False] using f(1) m b(4) bpe_token_len [OF ok x] by simp
  show ?thesis
  proof (cases found)
    case True
    have toks: "bpe_ids D (take ?q ?sl) = butlast (bt_tokens e) @ [?k]"
      using stack_ok_ids [OF wf st] False by simp
    have len: "length (bt_tokens e) = length (butlast (bt_tokens e) @ [?k])" using False by simp
    note j = tree_join [OF wf cov le b(1) _ _ toks]
    have "length (path D t (?q + start)) \<le> length (path D t stop)"
      and "length (bpe_ids D ?sl) = length (bt_tokens e) + (length (path D t stop) - length (path D t (?q + start)))"
      unfolding len using j f(2) True q by simp_all
    moreover have "length (path D t stop) < 2 ^ 32" using length_path [OF wf cov le(2)] le(2) n by linarith
    ultimately show ?thesis using step True b le by simp
  qed (use step in simp)
qed

lemma count_loop_ok:
  assumes ok: "bpe_ok bpe D" and cov: "covers D t" and n: "length t + 1 < 2 ^ 32"
    and le: "start \<le> stop" "stop \<le> length t"
  shows "bt_inv D (slice t start stop) e \<Longrightarrow>
    count_loop (ie_for bpe D t) start stop (tree_tid D t stop) e = Some (length (bpe_ids D (slice t start stop)))"
proof (induction "bt_measure (slice t start stop) e" arbitrary: e rule: less_induct)
  case less
  let ?sl = "slice t start stop"
  have cs: "covers D ?sl" by (rule covers_slice [OF cov])
  show ?case
  proof (cases "bt_next_token e = UINT32_MAX")
    case True
    then show ?thesis using bt_inv_final [OF ok cs less.prems True]
      by (subst count_loop.simps) (simp add: mini_step_def)
  next
    case False
    obtain e1 where e1: "mini_step bpe e = Some e1" "bt_inv D ?sl e1" "bt_measure ?sl e1 < bt_measure ?sl e"
      using mini_step_ok [OF ok cs less.prems False] by blast
    show ?thesis
    proof (cases "bt_next_token e1 = UINT32_MAX")
      case True
      then show ?thesis using bt_inv_final [OF ok cs e1(2) True] e1(1)
        by (subst count_loop.simps) simp
    next
      case go: False
      obtain r where "try_tree (ie_for bpe D t) start stop (tree_tid D t stop) e1 = Some r"
          "\<forall>c. r = Some c \<longrightarrow> c = length (bpe_ids D ?sl)"
        using try_tree_ok [OF ok cov n le e1(2) go] by blast
      then show ?thesis using less.hyps [OF e1(3,2)] e1(1) go
        by (subst count_loop.simps) (simp split: option.split)
    qed
  qed
qed

lemma interval_encoding_count_ok:
  assumes ok: "bpe_ok bpe D" and cov: "covers D t" and n: "length t + 1 < 2 ^ 32"
    and le: "start \<le> stop" "stop \<le> length t"
  shows "interval_encoding_count (ie_for bpe D t) start stop = Some (length (bpe_ids D (slice t start stop)))"
proof -
  have cs: "covers D (slice t start stop)" by (rule covers_slice [OF cov])
  obtain e where "mini_enc_new bpe (slice t start stop) 8 = Some e" "bt_inv D (slice t start stop) e"
    using mini_enc_new_ok [OF ok cs] by blast
  moreover have "rd_slice (ie_text (ie_for bpe D t)) start (usub stop start) = Some (slice t start stop)"
    using le by simp
  ultimately show ?thesis using le(2) count_loop_ok [OF ok cov n le] by (simp add: interval_encoding_count_def)
qed

end
