(* ===== verification/Bpe_Blob.thy ===== *)
theory Bpe_Blob
  imports Bpe_Build
begin

text \<open>
  Precomputed objects: the generator \<^verbatim>\<open>codegen/gen_precomputed.c\<close> writes the tables of a
  constructed object as little-endian bytes, and \<^verbatim>\<open>bpe_from_blob\<close> of \<^verbatim>\<open>src/bpe_core.c\<close> copies
  them back. Reading past the end of the blob is \<open>None\<close>: the code does not look at
  \<^verbatim>\<open>blob_len\<close>. The locale \<open>codec\<close> states what a pair of a writer and a reader promises.
\<close>

subsection \<open>Numbers\<close>

fun le_bytes :: "nat \<Rightarrow> nat \<Rightarrow> bytes" where
  "le_bytes 0 n = []"
| "le_bytes (Suc k) n = of_nat (n mod 256) # le_bytes k (n div 256)"

fun le_value :: "bytes \<Rightarrow> nat" where
  "le_value [] = 0"
| "le_value (b # bs) = unat b + 256 * le_value bs"

text \<open>\<^verbatim>\<open>memcpy(dst, p, n); p += n\<close>.\<close>

definition take_bytes :: "nat \<Rightarrow> bytes \<Rightarrow> (bytes \<times> bytes) option" where
  "take_bytes n p = (if n \<le> length p then Some (take n p, drop n p) else None)"

definition get_u32 :: "bytes \<Rightarrow> (nat \<times> bytes) option" where
  "get_u32 p = map_option (\<lambda>(bs, p). (le_value bs, p)) (take_bytes 4 p)"

definition put_u32 :: "nat \<Rightarrow> bytes" where
  "put_u32 n = le_bytes 4 n"

definition get_u64 :: "bytes \<Rightarrow> (u64 \<times> bytes) option" where
  "get_u64 p = map_option (\<lambda>(bs, p). (of_nat (le_value bs), p)) (take_bytes 8 p)"

definition put_u64 :: "u64 \<Rightarrow> bytes" where
  "put_u64 w = le_bytes 8 (unat w)"

subsection \<open>Structures\<close>

definition put_cell :: "ac_cell \<Rightarrow> bytes" where
  "put_cell c = put_u32 (cell_fail c) @ put_u32 (cell_output c) @ put_u32 (cell_token c) @ put_u32 (cell_depth c)"

definition get_cell :: "bytes \<Rightarrow> (ac_cell \<times> bytes) option" where
  "get_cell p = do {
     (f, p) \<leftarrow> get_u32 p; (ou, p) \<leftarrow> get_u32 p; (t, p) \<leftarrow> get_u32 p; (d, p) \<leftarrow> get_u32 p;
     Some (\<lparr>cell_fail = f, cell_output = ou, cell_token = t, cell_depth = d\<rparr>, p)
   }"

definition put_output :: "ac_output \<Rightarrow> bytes" where
  "put_output x = put_u32 (out_token x) @ put_u32 (out_start_offset x) @ put_u32 (out_next x)"

definition get_output :: "bytes \<Rightarrow> (ac_output \<times> bytes) option" where
  "get_output p = do {
     (t, p) \<leftarrow> get_u32 p; (s, p) \<leftarrow> get_u32 p; (n, p) \<leftarrow> get_u32 p;
     Some (\<lparr>out_token = t, out_start_offset = s, out_next = n\<rparr>, p)
   }"

text \<open>\<^verbatim>\<open>da_check\<close>: \<open>None\<close> stands for \<open>-1\<close>.\<close>

definition put_check :: "nat option \<Rightarrow> bytes" where
  "put_check x = put_u32 (case x of None \<Rightarrow> UINT32_MAX | Some n \<Rightarrow> n)"

definition get_check :: "bytes \<Rightarrow> (nat option \<times> bytes) option" where
  "get_check p = map_option (\<lambda>(n, p). (if n = UINT32_MAX then None else Some n, p)) (get_u32 p)"

definition put_bytes_slot :: "bytes_map_slot \<Rightarrow> bytes" where
  "put_bytes_slot s = put_u32 (unat (bslot_hash s)) @ put_u32 (bslot_token s)"

definition get_bytes_slot :: "bytes \<Rightarrow> (bytes_map_slot \<times> bytes) option" where
  "get_bytes_slot p = do {
     (h, p) \<leftarrow> get_u32 p; (t, p) \<leftarrow> get_u32 p;
     Some (\<lparr>bslot_hash = of_nat h, bslot_token = t\<rparr>, p)
   }"

definition put_pair_slot :: "pair_map_slot \<Rightarrow> bytes" where
  "put_pair_slot s = put_u32 (pslot_t1 s) @ put_u32 (pslot_t2 s) @ put_u32 (pslot_merged s)"

definition get_pair_slot :: "bytes \<Rightarrow> (pair_map_slot \<times> bytes) option" where
  "get_pair_slot p = do {
     (a, p) \<leftarrow> get_u32 p; (b, p) \<leftarrow> get_u32 p; (c, p) \<leftarrow> get_u32 p;
     Some (\<lparr>pslot_t1 = a, pslot_t2 = b, pslot_merged = c\<rparr>, p)
   }"

fun kind_code :: "ac_kind \<Rightarrow> nat" where
  "kind_code AC_KIND_LEFTMOST_LONGEST = 0"
| "kind_code AC_KIND_OVERLAPPING_FWD = 1"
| "kind_code AC_KIND_OVERLAPPING_REV = 2"

definition kind_of :: "nat \<Rightarrow> ac_kind option" where
  "kind_of n = (if n = 0 then Some AC_KIND_LEFTMOST_LONGEST else if n = 1 then Some AC_KIND_OVERLAPPING_FWD
     else if n = 2 then Some AC_KIND_OVERLAPPING_REV else None)"

text \<open>\<open>n\<close> elements of an array: \<^verbatim>\<open>write_bytes(xs, n * sizeof(*xs))\<close> and \<^verbatim>\<open>BLOB_COPY\<close>.\<close>

definition put_array :: "('a \<Rightarrow> bytes) \<Rightarrow> nat \<Rightarrow> 'a list \<Rightarrow> bytes option" where
  "put_array put n xs = map_option (\<lambda>ys. concat (map put ys)) (rd_slice xs 0 n)"

fun get_array :: "(bytes \<Rightarrow> ('a \<times> bytes) option) \<Rightarrow> nat \<Rightarrow> bytes \<Rightarrow> ('a list \<times> bytes) option" where
  "get_array get 0 p = Some ([], p)"
| "get_array get (Suc n) p = do { (x, p) \<leftarrow> get p; (xs, p) \<leftarrow> get_array get n p; Some (x # xs, p) }"

subsection \<open>The generator\<close>

definition serialize_automaton :: "ac_automaton \<Rightarrow> bytes option" where
  "serialize_automaton a = do {
     cells \<leftarrow> put_array put_cell (da_size a) (ac_cells a);
     outs \<leftarrow> put_array put_output (ac_noutputs a) (ac_outputs a);
     base \<leftarrow> put_array put_u32 (da_size a) (da_base a);
     check \<leftarrow> put_array put_check (da_size a) (da_check a);
     Some (cells @ outs @ base @ check)
   }"

definition put_ac_header :: "ac_automaton \<Rightarrow> bytes" where
  "put_ac_header a = put_u32 (da_size a) @ put_u32 (ac_noutputs a) @ put_u32 (kind_code (ac_kind a))"

definition serialize_bpe :: "bpe \<Rightarrow> nat \<Rightarrow> bytes option" where
  "serialize_bpe bpe num_tok = do {
     let autos = [longest_searcher bpe, overlapping_searcher bpe, overlapping_searcher_rev bpe];
     let header = put_u32 (num_tokens bpe) @ put_u64 (hash_factor bpe) @
       put_u32 (bm_capacity (hash_to_token bpe)) @ put_u32 (bm_count (hash_to_token bpe)) @
       put_u32 (pm_capacity (pair_lookup bpe)) @ put_u32 (pm_count (pair_lookup bpe)) @
       concat (map put_ac_header autos);
     left \<leftarrow> put_array put_u32 num_tok (split_left bpe);
     right \<leftarrow> put_array put_u32 num_tok (split_right bpe);
     nexts \<leftarrow> put_array put_u32 num_tok (next_prefix_match bpe);
     bslots \<leftarrow> put_array put_bytes_slot (bm_capacity (hash_to_token bpe)) (bm_slots (hash_to_token bpe));
     pslots \<leftarrow> put_array put_pair_slot (pm_capacity (pair_lookup bpe)) (pm_slots (pair_lookup bpe));
     a1 \<leftarrow> serialize_automaton (longest_searcher bpe);
     a2 \<leftarrow> serialize_automaton (overlapping_searcher bpe);
     a3 \<leftarrow> serialize_automaton (overlapping_searcher_rev bpe);
     Some (header @ left @ right @ nexts @ bslots @ pslots @ a1 @ a2 @ a3)
   }"

definition gen_precomputed :: "bytes \<Rightarrow> nat list \<Rightarrow> nat \<Rightarrow> u64 \<Rightarrow> bytes option" where
  "gen_precomputed all_tok tok_starts num_tok hf = do {
     bpe \<leftarrow> bpe_from_dictionary all_tok tok_starts num_tok hf;
     serialize_bpe bpe num_tok
   }"

subsection \<open>The loader\<close>

text \<open>The sizes of an automaton are \<^verbatim>\<open>int32_t\<close>; a negative one becomes a copy of almost \<open>2\<^sup>6\<^sup>4\<close> bytes.\<close>

definition get_i32_size :: "bytes \<Rightarrow> (nat \<times> bytes) option" where
  "get_i32_size p = do { (n, p) \<leftarrow> get_u32 p; if n < 2 ^ 31 then Some (n, p) else None }"

definition get_ac_header :: "bytes \<Rightarrow> ((nat \<times> nat \<times> ac_kind) \<times> bytes) option" where
  "get_ac_header p = do {
     (sz, p) \<leftarrow> get_i32_size p; (nout, p) \<leftarrow> get_i32_size p; (k, p) \<leftarrow> get_u32 p;
     kind \<leftarrow> kind_of k;
     Some ((sz, nout, kind), p)
   }"

definition get_automaton :: "nat \<times> nat \<times> ac_kind \<Rightarrow> bytes \<Rightarrow> (ac_automaton \<times> bytes) option" where
  "get_automaton h p = (case h of (sz, nout, kind) \<Rightarrow> do {
     (cells, p) \<leftarrow> get_array get_cell sz p;
     (outs, p) \<leftarrow> get_array get_output nout p;
     (base, p) \<leftarrow> get_array get_u32 sz p;
     (check, p) \<leftarrow> get_array get_check sz p;
     Some (\<lparr>ac_cells = cells, ac_ncells = sz, ac_outputs = outs, ac_noutputs = nout, ac_kind = kind,
            da_base = base, da_check = check, da_size = sz\<rparr>, p)
   })"

definition bpe_from_blob :: "bytes \<Rightarrow> nat list \<Rightarrow> bytes \<Rightarrow> bpe option" where
  "bpe_from_blob all_toks tok_starts blob = do {
     (nt, p) \<leftarrow> get_u32 blob;
     (hf, p) \<leftarrow> get_u64 p;
     (bm_cap, p) \<leftarrow> get_u32 p;
     (bm_cnt, p) \<leftarrow> get_u32 p;
     (pm_cap, p) \<leftarrow> get_u32 p;
     (pm_cnt, p) \<leftarrow> get_u32 p;
     (h1, p) \<leftarrow> get_ac_header p;
     (h2, p) \<leftarrow> get_ac_header p;
     (h3, p) \<leftarrow> get_ac_header p;
     total_bytes \<leftarrow> rd tok_starts nt;
     toks \<leftarrow> rd_slice all_toks 0 total_bytes;
     sts \<leftarrow> rd_slice tok_starts 0 (add32 nt 1);
     (left, p) \<leftarrow> get_array get_u32 nt p;
     (right, p) \<leftarrow> get_array get_u32 nt p;
     (nexts, p) \<leftarrow> get_array get_u32 nt p;
     (bslots, p) \<leftarrow> get_array get_bytes_slot bm_cap p;
     (pslots, p) \<leftarrow> get_array get_pair_slot pm_cap p;
     (a1, p) \<leftarrow> get_automaton h1 p;
     (a2, p) \<leftarrow> get_automaton h2 p;
     (a3, p) \<leftarrow> get_automaton h3 p;
     Some \<lparr>all_tokens = toks, token_starts = sts, num_tokens = nt,
       hash_to_token = \<lparr>bm_slots = bslots, bm_capacity = bm_cap, bm_count = bm_cnt\<rparr>, hash_factor = hf,
       split_left = left, split_right = right,
       pair_lookup = \<lparr>pm_slots = pslots, pm_capacity = pm_cap, pm_count = pm_cnt\<rparr>,
       longest_searcher = a1, overlapping_searcher = a2, overlapping_searcher_rev = a3,
       next_prefix_match = nexts\<rparr>
   }"

subsection \<open>Writers and readers\<close>

locale codec =
  fixes put :: "'a \<Rightarrow> bytes" and get :: "bytes \<Rightarrow> ('a \<times> bytes) option" and fits :: "'a \<Rightarrow> bool"
  assumes get_put: "fits x \<Longrightarrow> get (put x @ r) = Some (x, r)"
begin

lemma get_puts: "\<forall>x \<in> set xs. fits x \<Longrightarrow> get_array get (length xs) (concat (map put xs) @ r) = Some (xs, r)"
  by (induction xs) (simp_all add: get_put)

lemma array_roundtrip:
  assumes "n = length xs" and "\<forall>x \<in> set xs. fits x"
  shows "put_array put n xs = Some (concat (map put xs))"
    and "get_array get n (concat (map put xs) @ r) = Some (xs, r)"
  using get_puts [OF assms(2)] assms(1) by (simp_all add: put_array_def)

end

lemma length_le_bytes [simp]: "length (le_bytes k n) = k"
  by (induction k arbitrary: n) simp_all

lemma le_value_bytes: "n < 256 ^ k \<Longrightarrow> le_value (le_bytes k n) = n"
proof (induction k arbitrary: n)
  case (Suc k)
  then have "n div 256 < 256 ^ k" by (simp add: div_less_iff_less_mult mult.commute)
  moreover have "unat (of_nat (n mod 256) :: byte) = n mod 256" by (simp add: unat_of_nat)
  ultimately show ?case using Suc.IH by simp
qed simp

definition u32_fits :: "nat \<Rightarrow> bool" where
  "u32_fits n \<longleftrightarrow> n < 2 ^ 32"

interpretation u32: codec put_u32 get_u32 u32_fits
  by unfold_locales (simp add: put_u32_def get_u32_def take_bytes_def le_value_bytes u32_fits_def)

interpretation u64: codec put_u64 get_u64 "\<lambda>_. True"
proof unfold_locales
  fix w :: u64 and r
  have "unat w < 256 ^ 8" using unsigned_less [where 'a = nat and w = w] by simp
  then show "get_u64 (put_u64 w @ r) = Some (w, r)"
    by (simp add: put_u64_def get_u64_def take_bytes_def le_value_bytes)
qed

definition cell_fits :: "ac_cell \<Rightarrow> bool" where
  "cell_fits c \<longleftrightarrow> u32_fits (cell_fail c) \<and> u32_fits (cell_output c) \<and> u32_fits (cell_token c) \<and> u32_fits (cell_depth c)"

definition output_fits :: "ac_output \<Rightarrow> bool" where
  "output_fits x \<longleftrightarrow> u32_fits (out_token x) \<and> u32_fits (out_start_offset x) \<and> u32_fits (out_next x)"

definition check_fits :: "nat option \<Rightarrow> bool" where
  "check_fits x \<longleftrightarrow> (case x of None \<Rightarrow> True | Some n \<Rightarrow> n < UINT32_MAX)"

definition bslot_fits :: "bytes_map_slot \<Rightarrow> bool" where
  "bslot_fits s \<longleftrightarrow> u32_fits (bslot_token s)"

definition pslot_fits :: "pair_map_slot \<Rightarrow> bool" where
  "pslot_fits s \<longleftrightarrow> u32_fits (pslot_t1 s) \<and> u32_fits (pslot_t2 s) \<and> u32_fits (pslot_merged s)"

interpretation cell: codec put_cell get_cell cell_fits
  by unfold_locales (simp add: put_cell_def get_cell_def cell_fits_def u32.get_put)

interpretation outp: codec put_output get_output output_fits
  by unfold_locales (simp add: put_output_def get_output_def output_fits_def u32.get_put)

interpretation check: codec put_check get_check check_fits
proof unfold_locales
  fix x r
  assume x: "check_fits x"
  let ?n = "case x of None \<Rightarrow> UINT32_MAX | Some n \<Rightarrow> n"
  have "u32_fits ?n" using x by (auto simp: check_fits_def u32_fits_def UINT32_MAX_def split: option.splits)
  from u32.get_put [OF this] x show "get_check (put_check x @ r) = Some (x, r)"
    by (auto simp: put_check_def get_check_def check_fits_def split: option.splits)
qed

lemma u32_word_fits [simp]: "u32_fits (unat (w :: u32))"
  using unsigned_less [where 'a = nat and w = w] by (simp add: u32_fits_def)

interpretation bslot: codec put_bytes_slot get_bytes_slot bslot_fits
  by unfold_locales (simp add: put_bytes_slot_def get_bytes_slot_def bslot_fits_def u32.get_put)

interpretation pslot: codec put_pair_slot get_pair_slot pslot_fits
  by unfold_locales (simp add: put_pair_slot_def get_pair_slot_def pslot_fits_def u32.get_put)

subsection \<open>Automata and objects\<close>

definition automaton_fits :: "ac_automaton \<Rightarrow> bool" where
  "automaton_fits a \<longleftrightarrow> da_size a < 2 ^ 31 \<and> ac_noutputs a < 2 ^ 31 \<and> ac_ncells a = da_size a \<and>
     da_size a = length (ac_cells a) \<and> ac_noutputs a = length (ac_outputs a) \<and>
     da_size a = length (da_base a) \<and> da_size a = length (da_check a) \<and>
     (\<forall>c \<in> set (ac_cells a). cell_fits c) \<and> (\<forall>x \<in> set (ac_outputs a). output_fits x) \<and>
     (\<forall>n \<in> set (da_base a). u32_fits n) \<and> (\<forall>x \<in> set (da_check a). check_fits x)"

lemma ac_header_roundtrip:
  assumes "automaton_fits a"
  shows "get_ac_header (put_ac_header a @ r) = Some ((da_size a, ac_noutputs a, ac_kind a), r)"
proof -
  have "u32_fits (da_size a)" "u32_fits (ac_noutputs a)" using assms by (auto simp: automaton_fits_def u32_fits_def)
  moreover have "u32_fits (kind_code (ac_kind a))" "kind_of (kind_code (ac_kind a)) = Some (ac_kind a)"
    by (cases "ac_kind a"; simp add: u32_fits_def kind_of_def)+
  ultimately show ?thesis using assms
    by (simp add: put_ac_header_def get_ac_header_def get_i32_size_def u32.get_put automaton_fits_def)
qed

lemma automaton_roundtrip:
  assumes "automaton_fits a"
  shows "\<exists>bs. serialize_automaton a = Some bs \<and>
    (\<forall>r. get_automaton (da_size a, ac_noutputs a, ac_kind a) (bs @ r) = Some (a, r))"
proof -
  have f: "da_size a = length (ac_cells a)" "\<forall>c \<in> set (ac_cells a). cell_fits c"
    "ac_noutputs a = length (ac_outputs a)" "\<forall>x \<in> set (ac_outputs a). output_fits x"
    "da_size a = length (da_base a)" "\<forall>n \<in> set (da_base a). u32_fits n"
    "da_size a = length (da_check a)" "\<forall>x \<in> set (da_check a). check_fits x" "ac_ncells a = da_size a"
    using assms by (auto simp: automaton_fits_def)
  note rt = cell.array_roundtrip [OF f(1,2)] outp.array_roundtrip [OF f(3,4)] u32.array_roundtrip [OF f(5,6)]
    check.array_roundtrip [OF f(7,8)]
  show ?thesis
    by (rule exI, rule conjI, simp add: serialize_automaton_def rt, simp add: get_automaton_def rt)
      (simp add: f(9) [symmetric])
qed

definition blob_fits :: "bpe \<Rightarrow> bool" where
  "blob_fits bpe \<longleftrightarrow> num_tokens bpe < UINT32_MAX \<and>
     length (token_starts bpe) = Suc (num_tokens bpe) \<and> last (token_starts bpe) = length (all_tokens bpe) \<and>
     num_tokens bpe = length (split_left bpe) \<and> (\<forall>n \<in> set (split_left bpe). u32_fits n) \<and>
     num_tokens bpe = length (split_right bpe) \<and> (\<forall>n \<in> set (split_right bpe). u32_fits n) \<and>
     num_tokens bpe = length (next_prefix_match bpe) \<and> (\<forall>n \<in> set (next_prefix_match bpe). u32_fits n) \<and>
     bm_capacity (hash_to_token bpe) = length (bm_slots (hash_to_token bpe)) \<and>
     u32_fits (bm_capacity (hash_to_token bpe)) \<and> u32_fits (bm_count (hash_to_token bpe)) \<and>
     (\<forall>s \<in> set (bm_slots (hash_to_token bpe)). bslot_fits s) \<and>
     pm_capacity (pair_lookup bpe) = length (pm_slots (pair_lookup bpe)) \<and>
     u32_fits (pm_capacity (pair_lookup bpe)) \<and> u32_fits (pm_count (pair_lookup bpe)) \<and>
     (\<forall>s \<in> set (pm_slots (pair_lookup bpe)). pslot_fits s) \<and>
     automaton_fits (longest_searcher bpe) \<and> automaton_fits (overlapping_searcher bpe) \<and>
     automaton_fits (overlapping_searcher_rev bpe)"

lemma blob_roundtrip:
  assumes "blob_fits bpe"
  shows "\<exists>blob. serialize_bpe bpe (num_tokens bpe) = Some blob \<and>
    (\<forall>r. bpe_from_blob (all_tokens bpe) (token_starts bpe) (blob @ r) = Some bpe)"
proof -
  note b = assms [unfolded blob_fits_def]
  obtain a1 where a1: "serialize_automaton (longest_searcher bpe) = Some a1"
    "\<And>r. get_automaton (da_size (longest_searcher bpe), ac_noutputs (longest_searcher bpe), ac_kind (longest_searcher bpe)) (a1 @ r) =
       Some (longest_searcher bpe, r)"
    using automaton_roundtrip [of "longest_searcher bpe"] b by blast
  obtain a2 where a2: "serialize_automaton (overlapping_searcher bpe) = Some a2"
    "\<And>r. get_automaton (da_size (overlapping_searcher bpe), ac_noutputs (overlapping_searcher bpe), ac_kind (overlapping_searcher bpe)) (a2 @ r) =
       Some (overlapping_searcher bpe, r)"
    using automaton_roundtrip [of "overlapping_searcher bpe"] b by blast
  obtain a3 where a3: "serialize_automaton (overlapping_searcher_rev bpe) = Some a3"
    "\<And>r. get_automaton (da_size (overlapping_searcher_rev bpe), ac_noutputs (overlapping_searcher_rev bpe), ac_kind (overlapping_searcher_rev bpe)) (a3 @ r) =
       Some (overlapping_searcher_rev bpe, r)"
    using automaton_roundtrip [of "overlapping_searcher_rev bpe"] b by blast
  have f: "num_tokens bpe = length (split_left bpe)" "\<forall>n \<in> set (split_left bpe). u32_fits n"
    "num_tokens bpe = length (split_right bpe)" "\<forall>n \<in> set (split_right bpe). u32_fits n"
    "num_tokens bpe = length (next_prefix_match bpe)" "\<forall>n \<in> set (next_prefix_match bpe). u32_fits n"
    "bm_capacity (hash_to_token bpe) = length (bm_slots (hash_to_token bpe))"
    "\<forall>s \<in> set (bm_slots (hash_to_token bpe)). bslot_fits s"
    "pm_capacity (pair_lookup bpe) = length (pm_slots (pair_lookup bpe))"
    "\<forall>s \<in> set (pm_slots (pair_lookup bpe)). pslot_fits s"
    using b by blast+
  note rt = u32.array_roundtrip [OF f(1,2)] u32.array_roundtrip [OF f(3,4)] u32.array_roundtrip [OF f(5,6)]
    bslot.array_roundtrip [OF f(7,8)] pslot.array_roundtrip [OF f(9,10)] a1 a2 a3
  have s: "u32_fits (num_tokens bpe)" "u32_fits (bm_capacity (hash_to_token bpe))"
    "u32_fits (bm_count (hash_to_token bpe))" "u32_fits (pm_capacity (pair_lookup bpe))"
    "u32_fits (pm_count (pair_lookup bpe))"
    using b by (auto simp: u32_fits_def UINT32_MAX_def)
  have h: "get_ac_header (put_ac_header (longest_searcher bpe) @ r) =
      Some ((da_size (longest_searcher bpe), ac_noutputs (longest_searcher bpe), ac_kind (longest_searcher bpe)), r)"
    "get_ac_header (put_ac_header (overlapping_searcher bpe) @ r) =
      Some ((da_size (overlapping_searcher bpe), ac_noutputs (overlapping_searcher bpe), ac_kind (overlapping_searcher bpe)), r)"
    "get_ac_header (put_ac_header (overlapping_searcher_rev bpe) @ r) =
      Some ((da_size (overlapping_searcher_rev bpe), ac_noutputs (overlapping_searcher_rev bpe), ac_kind (overlapping_searcher_rev bpe)), r)"
    for r using b by (auto intro: ac_header_roundtrip)
  have l: "length (token_starts bpe) = Suc (num_tokens bpe)" "last (token_starts bpe) = length (all_tokens bpe)"
    using b by blast+
  then have "token_starts bpe \<noteq> []" by auto
  then have "token_starts bpe ! num_tokens bpe = length (all_tokens bpe)" using l by (simp add: last_conv_nth)
  then have ts: "rd (token_starts bpe) (num_tokens bpe) = Some (length (all_tokens bpe))"
    "rd_slice (token_starts bpe) 0 (add32 (num_tokens bpe) 1) = Some (token_starts bpe)"
    "rd_slice (all_tokens bpe) 0 (length (all_tokens bpe)) = Some (all_tokens bpe)"
    using b by (auto simp: rd_def rd_slice_def UINT32_MAX_def)
  show ?thesis
    by (rule exI, rule conjI, simp add: serialize_bpe_def Let_def rt)
      (simp add: bpe_from_blob_def u32.get_put u64.get_put s h ts ts(2) [unfolded One_nat_def] rt)
qed

subsection \<open>A small object\<close>

definition small_automaton :: ac_automaton where
  "small_automaton = \<lparr>ac_cells = [\<lparr>cell_fail = 0, cell_output = 0, cell_token = UINT32_MAX, cell_depth = 0\<rparr>,
       \<lparr>cell_fail = 0, cell_output = 1, cell_token = 0, cell_depth = 1\<rparr>],
     ac_ncells = 2, ac_outputs = [\<lparr>out_token = 0, out_start_offset = 0, out_next = 0\<rparr>,
       \<lparr>out_token = 0, out_start_offset = 1, out_next = 0\<rparr>],
     ac_noutputs = 2, ac_kind = AC_KIND_OVERLAPPING_FWD, da_base = [1, 0], da_check = [Some 0, None], da_size = 2\<rparr>"

definition small_bpe :: bpe where
  "small_bpe = (bpe_alloc [97] [0, 1] 1 5)
     \<lparr>hash_to_token := \<lparr>bm_slots = [\<lparr>bslot_hash = 7, bslot_token = 0\<rparr>], bm_capacity = 1, bm_count = 1\<rparr>,
      split_left := [0], split_right := [0],
      pair_lookup := \<lparr>pm_slots = [pslot_none], pm_capacity = 1, pm_count = 0\<rparr>,
      longest_searcher := small_automaton, overlapping_searcher := small_automaton,
      overlapping_searcher_rev := small_automaton, next_prefix_match := [UINT32_MAX]\<rparr>"

lemma small_fits: "blob_fits small_bpe" "num_tokens small_bpe = 1"
  by (simp_all add: small_bpe_def bpe_alloc_def blob_fits_def automaton_fits_def small_automaton_def u32_fits_def
      cell_fits_def output_fits_def check_fits_def bslot_fits_def pslot_fits_def pslot_none_def UINT32_MAX_def)

end
