(* ===== verification/Work_Queue.thy ===== *)
theory Work_Queue
  imports Tokenizer "HOL-Library.Multiset"
begin

text \<open>
  The bounded queue of \<^verbatim>\<open>src/threadpool.c\<close>: work items, the function that carries one out and
  the ring buffer of \<^verbatim>\<open>QUEUE_CAPACITY\<close> items. The locale \<open>bounded_queue\<close> is what the
  pool relies on; the ring buffer is its interpretation.
\<close>

subsection \<open>Work items\<close>

datatype work_type = WORK_ENCODE | WORK_COUNT | WORK_COUNT_LIMIT

text \<open>What an item writes into the arrays of its caller: tokens with their number, or a count.\<close>

datatype result = Tokens "nat list" | Count nat

text \<open>The pointers into the output arrays of the caller and the pointer to its tracker are the number
  of the caller and an index.\<close>

record work_item =
  wi_tok :: tokenizer
  wi_text :: bytes
  wi_type :: work_type
  wi_limit :: nat
  wi_index :: nat
  wi_tracker :: nat

definition execute_work_item :: "work_item \<Rightarrow> result option" where
  "execute_work_item wi = (case wi_type wi of
       WORK_ENCODE \<Rightarrow> map_option Tokens (tokenizer_encode (wi_tok wi) (wi_text wi))
     | WORK_COUNT \<Rightarrow> map_option Count (tokenizer_count (wi_tok wi) (wi_text wi))
     | WORK_COUNT_LIMIT \<Rightarrow> map_option Count (tokenizer_count_till_limit (wi_tok wi) (wi_text wi) (wi_limit wi)))"

subsection \<open>Ring buffer\<close>

definition QUEUE_CAPACITY :: nat where
  "QUEUE_CAPACITY = 4096"

record work_queue =
  q_items :: "work_item option list"
  q_head :: nat
  q_tail :: nat
  q_count :: nat
  q_shutdown :: bool

definition queue_init :: work_queue where
  "queue_init = \<lparr>q_items = replicate QUEUE_CAPACITY None, q_head = 0, q_tail = 0, q_count = 0, q_shutdown = False\<rparr>"

text \<open>The critical sections of \<^verbatim>\<open>queue_push\<close> and of \<^verbatim>\<open>worker_fn\<close>. A slot that was never written
  holds null pointers: reading it is \<open>None\<close>.\<close>

definition queue_put :: "work_queue \<Rightarrow> work_item \<Rightarrow> work_queue option" where
  "queue_put q wi = do {
     items \<leftarrow> wr (q_items q) (q_tail q) (Some wi);
     Some (q\<lparr>q_items := items, q_tail := (q_tail q + 1) mod QUEUE_CAPACITY, q_count := q_count q + 1\<rparr>)
   }"

definition queue_take :: "work_queue \<Rightarrow> (work_item \<times> work_queue) option" where
  "queue_take q = do {
     slot \<leftarrow> rd (q_items q) (q_head q);
     wi \<leftarrow> slot;
     Some (wi, q\<lparr>q_head := (q_head q + 1) mod QUEUE_CAPACITY, q_count := q_count q - 1\<rparr>)
   }"

subsection \<open>Bounded queues\<close>

locale bounded_queue =
  fixes put :: "'q \<Rightarrow> 'a \<Rightarrow> 'q option"
    and take_one :: "'q \<Rightarrow> ('a \<times> 'q) option"
    and items :: "'q \<Rightarrow> 'a list"
    and inv :: "'q \<Rightarrow> bool"
    and cap :: nat
  assumes put_law: "inv q \<Longrightarrow> length (items q) < cap \<Longrightarrow>
      \<exists>q'. put q x = Some q' \<and> inv q' \<and> items q' = items q @ [x]"
    and take_law: "inv q \<Longrightarrow> items q \<noteq> [] \<Longrightarrow>
      \<exists>q'. take_one q = Some (hd (items q), q') \<and> inv q' \<and> items q' = tl (items q)"
begin

lemma put_elim:
  assumes "inv q" and "length (items q) < cap" and "put q x = Some q'"
  shows "inv q'" and "items q' = items q @ [x]"
  using put_law [OF assms(1,2), of x] assms(3) by auto

lemma take_elim:
  assumes "inv q" and "items q \<noteq> []" and "take_one q = Some (x, q')"
  shows "inv q'" and "items q = x # items q'"
  using take_law [OF assms(1,2)] assms(3) list.collapse [OF assms(2)] by auto

text \<open>First in, first out: what is put after the items of \<open>q\<close> comes out after them.\<close>

fun put_all :: "'q \<Rightarrow> 'a list \<Rightarrow> 'q option" where
  "put_all q [] = Some q"
| "put_all q (x # xs) = do { q \<leftarrow> put q x; put_all q xs }"

fun take_all :: "nat \<Rightarrow> 'q \<Rightarrow> ('a list \<times> 'q) option" where
  "take_all 0 q = Some ([], q)"
| "take_all (Suc n) q = do { (x, q) \<leftarrow> take_one q; (xs, q) \<leftarrow> take_all n q; Some (x # xs, q) }"

lemma put_all_ok: "inv q \<Longrightarrow> length (items q) + length xs \<le> cap \<Longrightarrow>
  \<exists>q'. put_all q xs = Some q' \<and> inv q' \<and> items q' = items q @ xs"
proof (induction xs arbitrary: q)
  case (Cons x xs)
  obtain q1 where q1: "put q x = Some q1" "inv q1" "items q1 = items q @ [x]"
    using put_law [of q x] Cons.prems by auto
  show ?case using Cons.IH [of q1] Cons.prems q1 by auto
qed simp

lemma take_all_ok: "inv q \<Longrightarrow> n \<le> length (items q) \<Longrightarrow>
  \<exists>q'. take_all n q = Some (take n (items q), q') \<and> inv q' \<and> items q' = drop n (items q)"
proof (induction n arbitrary: q)
  case (Suc n)
  from Suc.prems have ne: "items q \<noteq> []" by auto
  obtain q1 where q1: "take_one q = Some (hd (items q), q1)" "inv q1" "items q1 = tl (items q)"
    using take_law [OF Suc.prems(1) ne] by blast
  have le: "n \<le> length (items q1)" using Suc.prems(2) q1(3) by simp
  obtain q2 where q2: "take_all n q1 = Some (take n (items q1), q2)" "inv q2" "items q2 = drop n (items q1)"
    using Suc.IH [OF q1(2) le] by blast
  have "take (Suc n) (items q) = hd (items q) # take n (items q1)" and "drop (Suc n) (items q) = drop n (items q1)"
    using ne q1(3) by (cases "items q"; simp)+
  then show ?case using q1(1) q2 by simp
qed simp

lemma fifo:
  assumes "inv q" and "items q = []" and "length xs \<le> cap"
  shows "\<exists>q1 q2. put_all q xs = Some q1 \<and> take_all (length xs) q1 = Some (xs, q2) \<and> items q2 = []"
proof -
  obtain q1 where q1: "put_all q xs = Some q1" "inv q1" "items q1 = xs"
    using put_all_ok [of q xs] assms by auto
  then show ?thesis using take_all_ok [of q1 "length xs"] by auto
qed

end

subsection \<open>The ring buffer is a bounded queue\<close>

definition queue_slot :: "work_queue \<Rightarrow> nat \<Rightarrow> work_item option" where
  "queue_slot q k = q_items q ! ((q_head q + k) mod QUEUE_CAPACITY)"

definition queue_items :: "work_queue \<Rightarrow> work_item list" where
  "queue_items q = map (\<lambda>k. the (queue_slot q k)) [0..<q_count q]"

definition queue_inv :: "work_queue \<Rightarrow> bool" where
  "queue_inv q \<longleftrightarrow>
     length (q_items q) = QUEUE_CAPACITY \<and> q_head q < QUEUE_CAPACITY \<and> q_count q \<le> QUEUE_CAPACITY \<and>
     q_tail q = (q_head q + q_count q) mod QUEUE_CAPACITY \<and> (\<forall>k < q_count q. queue_slot q k \<noteq> None)"

lemma cap_pos [simp]: "0 < QUEUE_CAPACITY"
  by (simp add: QUEUE_CAPACITY_def)

lemma length_queue_items [simp]: "length (queue_items q) = q_count q"
  by (simp add: queue_items_def)

lemma mod_shift_le: "(h + i) mod m = (h + j) mod m \<Longrightarrow> i \<le> j \<Longrightarrow> j < m \<Longrightarrow> i = (j :: nat)"
  using mod_eq_dvd_iff_nat [of "h + i" "h + j" m] by (auto dest: dvd_imp_le)

lemma mod_shift_inj: "(h + i) mod m = (h + j) mod m \<Longrightarrow> i < m \<Longrightarrow> j < m \<Longrightarrow> i = (j :: nat)"
  using mod_shift_le [of h i m j] mod_shift_le [of h j m i] by linarith

lemma queue_init_ok [simp]: "queue_inv queue_init" "queue_items queue_init = []" "q_shutdown queue_init = False"
  by (simp_all add: queue_init_def queue_inv_def queue_items_def)

lemma queue_put_ok:
  assumes "queue_inv q" and "q_count q < QUEUE_CAPACITY"
  shows "\<exists>q'. queue_put q x = Some q' \<and> queue_inv q' \<and> queue_items q' = queue_items q @ [x]"
proof -
  define t where "t = (q_head q + q_count q) mod QUEUE_CAPACITY"
  define q' where "q' = q\<lparr>q_items := (q_items q)[t := Some x], q_tail := (t + 1) mod QUEUE_CAPACITY, q_count := q_count q + 1\<rparr>"
  have t: "t < QUEUE_CAPACITY" "q_tail q = t" "length (q_items q) = QUEUE_CAPACITY"
    using assms by (auto simp: t_def queue_inv_def)
  have old: "queue_slot q' k = queue_slot q k" if "k < q_count q" for k
  proof -
    have "t \<noteq> (q_head q + k) mod QUEUE_CAPACITY"
      using mod_shift_inj [of "q_head q" k QUEUE_CAPACITY "q_count q"] that assms(2) by (auto simp: t_def)
    then show ?thesis by (simp add: queue_slot_def q'_def)
  qed
  have new: "queue_slot q' (q_count q) = Some x"
    using t by (simp add: queue_slot_def q'_def flip: t_def)
  have "queue_put q x = Some q'" using t by (simp add: queue_put_def q'_def)
  moreover have "\<forall>k < q_count q'. queue_slot q' k \<noteq> None"
    using old new assms(1) by (auto simp: queue_inv_def q'_def less_Suc_eq)
  then have "queue_inv q'" using assms t by (auto simp: queue_inv_def q'_def t_def mod_Suc_eq)
  moreover have "queue_items q' = queue_items q @ [x]"
  proof -
    have "q_count q' = Suc (q_count q)" by (simp add: q'_def)
    then show ?thesis using old new by (simp add: queue_items_def)
  qed
  ultimately show ?thesis by blast
qed

lemma queue_take_ok:
  assumes "queue_inv q" and "queue_items q \<noteq> []"
  shows "\<exists>q'. queue_take q = Some (hd (queue_items q), q') \<and> queue_inv q' \<and> queue_items q' = tl (queue_items q)"
proof -
  define q' where "q' = q\<lparr>q_head := (q_head q + 1) mod QUEUE_CAPACITY, q_count := q_count q - 1\<rparr>"
  have pos: "0 < q_count q" using assms(2) by (auto simp flip: length_queue_items)
  have h: "q_head q < QUEUE_CAPACITY" "length (q_items q) = QUEUE_CAPACITY" using assms(1) by (auto simp: queue_inv_def)
  have slots: "queue_slot q' k = queue_slot q (Suc k)" for k
    by (simp add: queue_slot_def q'_def mod_add_left_eq)
  have "queue_slot q 0 \<noteq> None" using assms(1) pos by (auto simp: queue_inv_def)
  then obtain wi where wi: "q_items q ! q_head q = Some wi" using h by (auto simp: queue_slot_def)
  have split: "[0..<q_count q] = 0 # map Suc [0..<q_count q - 1]"
    using pos by (cases "q_count q") (simp_all add: upt_conv_Cons map_Suc_upt del: upt_Suc)
  then have hd: "hd (queue_items q) = wi" and tl: "tl (queue_items q) = queue_items q'"
    using wi h slots by (simp_all add: queue_items_def queue_slot_def q'_def)
  have "queue_take q = Some (wi, q')" using wi h by (simp add: queue_take_def q'_def)
  moreover have "q_tail q' = (q_head q' + q_count q') mod QUEUE_CAPACITY"
  proof -
    have "q_tail q' = (q_head q + 1 + (q_count q - 1)) mod QUEUE_CAPACITY"
      using assms(1) pos by (simp add: queue_inv_def q'_def)
    then show ?thesis by (simp add: q'_def mod_add_left_eq)
  qed
  then have "queue_inv q'" using assms(1) pos slots h by (auto simp: queue_inv_def q'_def)
  ultimately show ?thesis using hd tl by auto
qed

interpretation ring: bounded_queue queue_put queue_take queue_items queue_inv QUEUE_CAPACITY
  by unfold_locales (use queue_put_ok queue_take_ok in auto)

text \<open>The flag is left alone by both.\<close>

lemma queue_put_shutdown: "queue_put q x = Some q' \<Longrightarrow> q_shutdown q' = q_shutdown q"
  by (auto simp: queue_put_def split: Option.bind_splits)

lemma queue_take_shutdown: "queue_take q = Some (x, q') \<Longrightarrow> q_shutdown q' = q_shutdown q"
  by (auto simp: queue_take_def split: Option.bind_splits)

end
