(* ===== verification/Threadpool.thy ===== *)
theory Threadpool
  imports Work_Queue
begin

text \<open>
  The thread pool of \<^verbatim>\<open>src/threadpool.c\<close> and its wrapper \<^verbatim>\<open>src/parallel.c\<close>: worker threads
  and any number of callers of \<^verbatim>\<open>pool_run\<close>, interleaved by \<open>pool_step\<close>. A step is
  what a thread does between two points where others can interfere: a critical section of
  \<^verbatim>\<open>q->mtx\<close> or \<^verbatim>\<open>tracker.mtx\<close> up to the next unlock or wait, the execution of an item, or the
  atomic decrement of \<^verbatim>\<open>remaining\<close>. Undefined behaviour is a step to \<open>None\<close>; so is the execution
  of an item that has no result, be it undefined (a read outside the tables) or without end, which the
  model of the tokenizer does not tell apart.
\<close>

subsection \<open>State\<close>

text \<open>Where a worker is: before \<^verbatim>\<open>mtx_lock(&q->mtx)\<close>, at the start of the loop or woken in
  \<^verbatim>\<open>cnd_wait\<close>; waiting for \<^verbatim>\<open>not_empty\<close>; with an item to execute; with an item executed whose
  batch is not yet decremented; after a decrement to 0, before \<^verbatim>\<open>mtx_lock(&wi.tracker->mtx)\<close>; or
  returned.\<close>

datatype worker = W_Lock | W_Wait | W_Exec work_item | W_Finish work_item | W_Signal nat | W_Exit

text \<open>Where a caller of \<^verbatim>\<open>pool_run\<close> is: before \<^verbatim>\<open>mtx_lock\<close> in \<^verbatim>\<open>queue_push\<close> of its item \<open>i\<close>;
  waiting there for \<^verbatim>\<open>not_full\<close>; before \<^verbatim>\<open>mtx_lock(&tracker.mtx)\<close>; waiting for its tracker; or
  returned, its tracker destroyed.\<close>

datatype caller_pc = P_Push nat | P_WaitFull nat | P_Check | P_WaitDone | P_Return

text \<open>A call of \<^verbatim>\<open>pool_run\<close>: its arguments, the counter of its tracker, and its output arrays, whose
  slots are empty until they are written.\<close>

record batch =
  b_tok :: tokenizer
  b_texts :: "bytes list"
  b_type :: work_type
  b_limit :: nat
  b_n :: int
  b_pc :: caller_pc
  b_remaining :: int
  b_outs :: "result option list"

record pool =
  workers :: "worker list"
  queue :: work_queue
  batches :: "batch list"
  freed :: bool

subsection \<open>Creation\<close>

definition MAX_POOL_THREADS :: int where
  "MAX_POOL_THREADS = 256"

text \<open>\<open>hw\<close> is the result of \<^verbatim>\<open>hw_concurrency\<close>, \<open>ok i\<close> whether the \<open>i\<close>th call of
  \<^verbatim>\<open>thrd_create\<close> succeeds.\<close>

function spawn_workers :: "(nat \<Rightarrow> bool) \<Rightarrow> int \<Rightarrow> nat \<Rightarrow> worker list \<Rightarrow> worker list" where
  "spawn_workers ok nthreads i ws =
     (if int i < nthreads \<and> ok i then spawn_workers ok nthreads (i + 1) (ws @ [W_Lock]) else ws)"
  by pat_completeness auto
termination
  by (relation "measure (\<lambda>(ok, n, i, ws). nat n - i)") auto

declare spawn_workers.simps [simp del]

definition bpe_pool_create :: "int \<Rightarrow> (nat \<Rightarrow> bool) \<Rightarrow> int \<Rightarrow> pool" where
  "bpe_pool_create hw ok nthreads =
     (let n = (if nthreads \<le> 0 then hw else nthreads);
          n = (if MAX_POOL_THREADS < n then MAX_POOL_THREADS else n)
      in \<lparr>workers = spawn_workers ok n 0 [], queue = queue_init, batches = [], freed = False\<rparr>)"

definition bpe_pool_nthreads :: "pool option \<Rightarrow> nat" where
  "bpe_pool_nthreads pool = (case pool of None \<Rightarrow> 1 | Some p \<Rightarrow> length (workers p))"

subsection \<open>A call of pool_run\<close>

text \<open>\<^verbatim>\<open>(int)n\<close>.\<close>

definition int_cast :: "nat \<Rightarrow> int" where
  "int_cast n = sint (word_of_nat n :: 32 word)"

text \<open>The head of the loop over the items.\<close>

definition push_or_check :: "int \<Rightarrow> nat \<Rightarrow> caller_pc" where
  "push_or_check n i = (if int i < n then P_Push i else P_Check)"

definition pool_run :: "tokenizer \<Rightarrow> bytes list \<Rightarrow> int \<Rightarrow> work_type \<Rightarrow> nat \<Rightarrow> batch" where
  "pool_run tok texts n type token_limit =
     \<lparr>b_tok = tok, b_texts = texts, b_type = type, b_limit = token_limit, b_n = n,
      b_pc = push_or_check n 0, b_remaining = n, b_outs = replicate (length texts) None\<rparr>"

definition make_item :: "batch \<Rightarrow> nat \<Rightarrow> nat \<Rightarrow> work_item option" where
  "make_item b c i = do {
     text \<leftarrow> rd (b_texts b) i;
     Some \<lparr>wi_tok = b_tok b, wi_text = text, wi_type = b_type b, wi_limit = b_limit b,
           wi_index = i, wi_tracker = c\<rparr>
   }"

definition enqueue_item :: "batch \<Rightarrow> nat \<Rightarrow> nat \<Rightarrow> work_queue \<Rightarrow> work_queue option" where
  "enqueue_item b c i q = do { wi \<leftarrow> make_item b c i; queue_put q wi }"

definition bpe_pool_encode_batch :: "tokenizer \<Rightarrow> bytes list \<Rightarrow> batch" where
  "bpe_pool_encode_batch tok texts = pool_run tok texts (int_cast (length texts)) WORK_ENCODE 0"

definition bpe_pool_count_batch :: "tokenizer \<Rightarrow> bytes list \<Rightarrow> batch" where
  "bpe_pool_count_batch tok texts = pool_run tok texts (int_cast (length texts)) WORK_COUNT 0"

definition bpe_pool_count_till_limit_batch :: "tokenizer \<Rightarrow> bytes list \<Rightarrow> nat \<Rightarrow> batch" where
  "bpe_pool_count_till_limit_batch tok texts token_limit =
     pool_run tok texts (int_cast (length texts)) WORK_COUNT_LIMIT token_limit"

subsection \<open>Signals\<close>

text \<open>\<^verbatim>\<open>cnd_signal\<close> wakes one of the waiting threads, any of them, and none when none waits.\<close>

inductive signal_worker :: "worker list \<Rightarrow> worker list \<Rightarrow> bool" where
  none_waits: "W_Wait \<notin> set ws \<Longrightarrow> signal_worker ws ws"
| wakes: "k < length ws \<Longrightarrow> ws ! k = W_Wait \<Longrightarrow> signal_worker ws (ws[k := W_Lock])"

definition waits_full :: "batch \<Rightarrow> bool" where
  "waits_full b = (case b_pc b of P_WaitFull i \<Rightarrow> True | _ \<Rightarrow> False)"

definition wake_full :: "batch \<Rightarrow> batch" where
  "wake_full b = (case b_pc b of P_WaitFull i \<Rightarrow> b\<lparr>b_pc := P_Push i\<rparr> | _ \<Rightarrow> b)"

inductive signal_caller :: "batch list \<Rightarrow> batch list \<Rightarrow> bool" where
  no_caller_waits: "\<forall>b \<in> set bs. \<not> waits_full b \<Longrightarrow> signal_caller bs bs"
| wakes_caller: "c < length bs \<Longrightarrow> waits_full (bs ! c) \<Longrightarrow> signal_caller bs (bs[c := wake_full (bs ! c)])"

subsection \<open>Steps\<close>

text \<open>Writing an output slot, decrementing the counter and signalling the tracker go through pointers
  into the frame of the caller: after it has returned they are undefined.\<close>

definition write_out :: "batch \<Rightarrow> nat \<Rightarrow> result \<Rightarrow> batch option" where
  "write_out b i r = (if b_pc b = P_Return then None
     else do { outs \<leftarrow> wr (b_outs b) i (Some r); Some (b\<lparr>b_outs := outs\<rparr>) })"

definition decrement :: "batch \<Rightarrow> (int \<times> batch) option" where
  "decrement b = (if b_pc b = P_Return then None
     else Some (b_remaining b, b\<lparr>b_remaining := b_remaining b - 1\<rparr>))"

definition signal_done :: "batch \<Rightarrow> batch option" where
  "signal_done b = (if b_pc b = P_Return then None
     else Some (if b_pc b = P_WaitDone then b\<lparr>b_pc := P_Check\<rparr> else b))"

abbreviation put_worker :: "nat \<Rightarrow> worker \<Rightarrow> pool \<Rightarrow> pool" where
  "put_worker k w s \<equiv> s\<lparr>workers := (workers s)[k := w]\<rparr>"

abbreviation put_batch :: "nat \<Rightarrow> batch \<Rightarrow> pool \<Rightarrow> pool" where
  "put_batch c b s \<equiv> s\<lparr>batches := (batches s)[c := b]\<rparr>"

abbreviation goto :: "nat \<Rightarrow> caller_pc \<Rightarrow> pool \<Rightarrow> pool" where
  "goto c pc s \<equiv> put_batch c ((batches s ! c)\<lparr>b_pc := pc\<rparr>) s"

text \<open>What worker \<open>k\<close> does next, with the caller that a signal wakes left open.\<close>

inductive worker_step :: "nat \<Rightarrow> pool \<Rightarrow> pool option \<Rightarrow> bool" for k s where
  wait: "\<lbrakk>workers s ! k = W_Lock; q_count (queue s) = 0; \<not> q_shutdown (queue s)\<rbrakk>
    \<Longrightarrow> worker_step k s (Some (put_worker k W_Wait s))"
| exit: "\<lbrakk>workers s ! k = W_Lock; q_count (queue s) = 0; q_shutdown (queue s)\<rbrakk>
    \<Longrightarrow> worker_step k s (Some (put_worker k W_Exit s))"
| dequeue: "\<lbrakk>workers s ! k = W_Lock; 0 < q_count (queue s); queue_take (queue s) = Some (wi, q);
      signal_caller (batches s) bs\<rbrakk>
    \<Longrightarrow> worker_step k s (Some (put_worker k (W_Exec wi) (s\<lparr>queue := q, batches := bs\<rparr>)))"
| dequeue_null: "\<lbrakk>workers s ! k = W_Lock; 0 < q_count (queue s); queue_take (queue s) = None\<rbrakk>
    \<Longrightarrow> worker_step k s None"
| execute: "\<lbrakk>workers s ! k = W_Exec wi; execute_work_item wi = Some r; rd (batches s) (wi_tracker wi) = Some b\<rbrakk>
    \<Longrightarrow> worker_step k s (map_option (\<lambda>b. put_worker k (W_Finish wi) (put_batch (wi_tracker wi) b s))
                            (write_out b (wi_index wi) r))"
| execute_none: "\<lbrakk>workers s ! k = W_Exec wi; execute_work_item wi = None\<rbrakk>
    \<Longrightarrow> worker_step k s None"
| finish: "\<lbrakk>workers s ! k = W_Finish wi; rd (batches s) (wi_tracker wi) = Some b\<rbrakk>
    \<Longrightarrow> worker_step k s (map_option (\<lambda>(old, b).
           put_worker k (if old = 1 then W_Signal (wi_tracker wi) else W_Lock) (put_batch (wi_tracker wi) b s))
         (decrement b))"
| signal: "\<lbrakk>workers s ! k = W_Signal c; rd (batches s) c = Some b\<rbrakk>
    \<Longrightarrow> worker_step k s (map_option (\<lambda>b. put_worker k W_Lock (put_batch c b s)) (signal_done b))"

inductive caller_step :: "nat \<Rightarrow> pool \<Rightarrow> pool option \<Rightarrow> bool" for c s where
  full: "\<lbrakk>b_pc (batches s ! c) = P_Push i; \<not> freed s; q_count (queue s) = QUEUE_CAPACITY\<rbrakk>
    \<Longrightarrow> caller_step c s (Some (goto c (P_WaitFull i) s))"
| enqueue: "\<lbrakk>b_pc (batches s ! c) = P_Push i; \<not> freed s; q_count (queue s) \<noteq> QUEUE_CAPACITY;
      enqueue_item (batches s ! c) c i (queue s) = Some q; signal_worker (workers s) ws\<rbrakk>
    \<Longrightarrow> caller_step c s (Some (goto c (push_or_check (b_n (batches s ! c)) (i + 1))
           (s\<lparr>queue := q, workers := ws\<rparr>)))"
| enqueue_outside: "\<lbrakk>b_pc (batches s ! c) = P_Push i; \<not> freed s; q_count (queue s) \<noteq> QUEUE_CAPACITY;
      enqueue_item (batches s ! c) c i (queue s) = None\<rbrakk>
    \<Longrightarrow> caller_step c s None"
| push_freed: "\<lbrakk>b_pc (batches s ! c) = P_Push i; freed s\<rbrakk> \<Longrightarrow> caller_step c s None"
| check_wait: "\<lbrakk>b_pc (batches s ! c) = P_Check; 0 < b_remaining (batches s ! c)\<rbrakk>
    \<Longrightarrow> caller_step c s (Some (goto c (P_WaitDone) s))"
| check_done: "\<lbrakk>b_pc (batches s ! c) = P_Check; \<not> 0 < b_remaining (batches s ! c)\<rbrakk>
    \<Longrightarrow> caller_step c s (Some (goto c (P_Return) s))"

text \<open>\<^verbatim>\<open>bpe_pool_destroy\<close>: the critical section with its broadcast, then the release once every
  worker has been joined.\<close>

inductive destroy_step :: "pool \<Rightarrow> pool option \<Rightarrow> bool" for s where
  shutdown: "\<lbrakk>\<not> q_shutdown (queue s)\<rbrakk>
    \<Longrightarrow> destroy_step s (Some (s\<lparr>queue := queue s\<lparr>q_shutdown := True\<rparr>,
           workers := map (\<lambda>w. if w = W_Wait then W_Lock else w) (workers s)\<rparr>))"
| free: "\<lbrakk>q_shutdown (queue s); \<not> freed s; set (workers s) \<subseteq> {W_Exit}; \<forall>b \<in> set (batches s). \<not> waits_full b\<rbrakk>
    \<Longrightarrow> destroy_step s (Some (s\<lparr>freed := True\<rparr>))"
| free_waited: "\<lbrakk>q_shutdown (queue s); \<not> freed s; set (workers s) \<subseteq> {W_Exit}; b \<in> set (batches s); waits_full b\<rbrakk>
    \<Longrightarrow> destroy_step s None"

text \<open>A thread may also wake without a signal.\<close>

inductive spurious_step :: "pool \<Rightarrow> pool option \<Rightarrow> bool" for s where
  wake_worker: "\<lbrakk>k < length (workers s); workers s ! k = W_Wait\<rbrakk> \<Longrightarrow> spurious_step s (Some (put_worker k W_Lock s))"
| wake_pusher: "\<lbrakk>c < length (batches s); waits_full (batches s ! c)\<rbrakk>
    \<Longrightarrow> spurious_step s (Some (put_batch c (wake_full (batches s ! c)) s))"
| wake_waiter: "\<lbrakk>c < length (batches s); b_pc (batches s ! c) = P_WaitDone\<rbrakk>
    \<Longrightarrow> spurious_step s (Some (goto c (P_Check) s))"

text \<open>What the threads do of their own accord, and everything that can happen.\<close>

inductive thread_step :: "pool \<Rightarrow> pool option \<Rightarrow> bool" for s where
  of_worker: "k < length (workers s) \<Longrightarrow> worker_step k s r \<Longrightarrow> thread_step s r"
| of_caller: "c < length (batches s) \<Longrightarrow> caller_step c s r \<Longrightarrow> thread_step s r"

inductive pool_step :: "pool \<Rightarrow> pool option \<Rightarrow> bool" for s where
  by_thread: "thread_step s r \<Longrightarrow> pool_step s r"
| by_destroy: "destroy_step s r \<Longrightarrow> pool_step s r"
| by_spurious: "spurious_step s r \<Longrightarrow> pool_step s r"

text \<open>The states reachable from a new pool on which the calls \<open>bs\<close> are made, by threads that
  start them when they are scheduled.\<close>

inductive pool_reach :: "pool \<Rightarrow> batch list \<Rightarrow> pool \<Rightarrow> bool" for p bs where
  start: "pool_reach p bs (p\<lparr>batches := bs\<rparr>)"
| step: "pool_reach p bs s \<Longrightarrow> pool_step s (Some s') \<Longrightarrow> pool_reach p bs s'"

subsection \<open>The wrapper\<close>

text \<open>Without a pool \<^verbatim>\<open>parallel.c\<close> computes the batch in a loop.\<close>

definition run_text :: "work_type \<Rightarrow> tokenizer \<Rightarrow> nat \<Rightarrow> bytes \<Rightarrow> result option" where
  "run_text type tok token_limit text = (case type of
       WORK_ENCODE \<Rightarrow> map_option Tokens (tokenizer_encode tok text)
     | WORK_COUNT \<Rightarrow> map_option Count (tokenizer_count tok text)
     | WORK_COUNT_LIMIT \<Rightarrow> map_option Count (tokenizer_count_till_limit tok text token_limit))"

fun sequential_batch :: "work_type \<Rightarrow> tokenizer \<Rightarrow> nat \<Rightarrow> bytes list \<Rightarrow> result list option" where
  "sequential_batch type tok token_limit [] = Some []"
| "sequential_batch type tok token_limit (t # ts) = do {
     r \<leftarrow> run_text type tok token_limit t;
     rs \<leftarrow> sequential_batch type tok token_limit ts;
     Some (r # rs)
   }"

record parallel =
  g_pool :: "pool option"
  g_pool_init_flag :: bool

text \<open>\<open>alloc\<close>: whether \<^verbatim>\<open>calloc\<close> returns memory for the pool.\<close>

definition get_pool :: "int \<Rightarrow> (nat \<Rightarrow> bool) \<Rightarrow> bool \<Rightarrow> parallel \<Rightarrow> parallel" where
  "get_pool hw ok alloc st =
     (if g_pool_init_flag st then st
      else \<lparr>g_pool = (if alloc then Some (bpe_pool_create hw ok 0) else None), g_pool_init_flag = True\<rparr>)"

definition parallel_num_threads :: "parallel \<Rightarrow> nat" where
  "parallel_num_threads st = bpe_pool_nthreads (g_pool st)"

text \<open>The call made on the pool, or the result of the loop.\<close>

definition parallel_encode_batch :: "parallel \<Rightarrow> tokenizer \<Rightarrow> bytes list \<Rightarrow> batch + result list option" where
  "parallel_encode_batch st tok texts = (case g_pool st of
       Some p \<Rightarrow> Inl (bpe_pool_encode_batch tok texts)
     | None \<Rightarrow> Inr (sequential_batch WORK_ENCODE tok 0 texts))"

definition parallel_count_batch :: "parallel \<Rightarrow> tokenizer \<Rightarrow> bytes list \<Rightarrow> batch + result list option" where
  "parallel_count_batch st tok texts = (case g_pool st of
       Some p \<Rightarrow> Inl (bpe_pool_count_batch tok texts)
     | None \<Rightarrow> Inr (sequential_batch WORK_COUNT tok 0 texts))"

definition parallel_count_till_limit_batch ::
    "parallel \<Rightarrow> tokenizer \<Rightarrow> bytes list \<Rightarrow> nat \<Rightarrow> batch + result list option" where
  "parallel_count_till_limit_batch st tok texts token_limit = (case g_pool st of
       Some p \<Rightarrow> Inl (bpe_pool_count_till_limit_batch tok texts token_limit)
     | None \<Rightarrow> Inr (sequential_batch WORK_COUNT_LIMIT tok token_limit texts))"

end
