(* ===== verification/Threadpool_Inv.thy ===== *)
theory Threadpool_Inv
  imports Threadpool
begin

text \<open>
  What holds in every reachable state of the pool. The items that are somewhere between a caller and
  its results form a multiset; most steps leave it alone, and the four that do not are
  \<open>enqueue\<close>, \<open>execute\<close> and \<open>finish\<close> of one item, and the step to the next
  item of a caller. The invariant of a batch is stated over that multiset, so that it is proved for
  these effects and not for every step.
\<close>

subsection \<open>Items in flight\<close>

fun holding :: "worker \<Rightarrow> work_item multiset" where
  "holding (W_Exec wi) = {#wi#}"
| "holding (W_Finish wi) = {#wi#}"
| "holding _ = {#}"

fun executing :: "worker \<Rightarrow> work_item multiset" where
  "executing (W_Exec wi) = {#wi#}"
| "executing _ = {#}"

definition in_flight :: "work_item list \<Rightarrow> worker list \<Rightarrow> work_item multiset" where
  "in_flight qi ws = mset qi + sum_list (map holding ws)"

definition unexecuted :: "work_item list \<Rightarrow> worker list \<Rightarrow> work_item multiset" where
  "unexecuted qi ws = mset qi + sum_list (map executing ws)"

lemma sum_list_map_update:
  fixes f :: "'a \<Rightarrow> 'b :: comm_monoid_add"
  shows "k < length ws \<Longrightarrow> sum_list (map f (ws[k := w])) + f (ws ! k) = sum_list (map f ws) + f w"
proof (induction ws arbitrary: k)
  case (Cons v ws)
  then show ?case by (cases k) (simp_all add: ac_simps)
qed simp

lemma sum_list_map_same:
  fixes f :: "'a \<Rightarrow> 'b :: cancel_comm_monoid_add"
  assumes "k < length ws" and "f w = f (ws ! k)"
  shows "sum_list (map f (ws[k := w])) = sum_list (map f ws)"
  using sum_list_map_update [OF assms(1), of f w] assms(2) by simp

definition key :: "work_item \<Rightarrow> nat \<times> nat" where
  "key wi = (wi_tracker wi, wi_index wi)"

definition keys_distinct :: "work_item multiset \<Rightarrow> bool" where
  "keys_distinct M \<longleftrightarrow> (\<forall>x. count (image_mset key M) x \<le> 1)"

lemma keys_distinct_sub: "keys_distinct M \<Longrightarrow> T \<subseteq># M \<Longrightarrow> keys_distinct T"
  unfolding keys_distinct_def by (meson image_mset_subseteq_mono le_trans mset_subset_eq_count)

lemma count_le_1_add: "(\<forall>x. count (add_mset a N) x \<le> 1) \<longleftrightarrow> (\<forall>x. count N x \<le> 1) \<and> a \<notin># N"
proof (intro iffI conjI allI)
  fix x
  assume h: "\<forall>x. count (add_mset a N) x \<le> 1"
  show "count N x \<le> 1" using spec [OF h, of x] by (simp split: if_splits)
next
  assume h: "\<forall>x. count (add_mset a N) x \<le> 1"
  show "a \<notin># N" using spec [OF h, of a] by (simp add: not_in_iff)
next
  fix x
  assume h: "(\<forall>x. count N x \<le> 1) \<and> a \<notin># N"
  then show "count (add_mset a N) x \<le> 1" by (cases "x = a") (auto simp: not_in_iff)
qed

lemma keys_distinct_add: "keys_distinct (add_mset wi M) \<longleftrightarrow> keys_distinct M \<and> key wi \<notin> key ` set_mset M"
  using count_le_1_add [of "key wi" "image_mset key M"] by (simp add: keys_distinct_def)

lemma keys_remove:
  assumes "keys_distinct T" and "wi \<in># T"
  shows "key ` set_mset (T - {#wi#}) = key ` set_mset T - {key wi}"
  using multi_member_split [OF assms(2)] assms(1) by (auto simp: keys_distinct_add)

subsection \<open>Batches\<close>

text \<open>The number of items a caller has pushed.\<close>

definition pushed :: "batch \<Rightarrow> nat" where
  "pushed b = (case b_pc b of P_Push i \<Rightarrow> i | P_WaitFull i \<Rightarrow> i | _ \<Rightarrow> nat (b_n b))"

text \<open>Two batches with the same core differ only in where their caller waits.\<close>

definition same_core :: "batch \<Rightarrow> batch \<Rightarrow> bool" where
  "same_core b b' \<longleftrightarrow> b\<lparr>b_pc := P_Check\<rparr> = b'\<lparr>b_pc := P_Check\<rparr> \<and> pushed b = pushed b'"

lemma same_coreD:
  assumes "same_core b b'"
  shows "pushed b = pushed b'" "b_tok b = b_tok b'" "b_texts b = b_texts b'" "b_type b = b_type b'"
    "b_limit b = b_limit b'" "b_n b = b_n b'" "b_remaining b = b_remaining b'" "b_outs b = b_outs b'"
  using assms by (cases b; cases b'; simp add: same_core_def)+

lemma same_core_refl [simp]: "same_core b b"
  by (simp add: same_core_def)

lemma same_core_pc: "pushed (b\<lparr>b_pc := pc\<rparr>) = pushed b \<Longrightarrow> same_core b (b\<lparr>b_pc := pc\<rparr>)"
  by (simp add: same_core_def)

definition item_result :: "batch \<Rightarrow> nat \<Rightarrow> nat \<Rightarrow> result option" where
  "item_result b c i = Option.bind (make_item b c i) execute_work_item"

definition item_ok :: "batch list \<Rightarrow> work_item \<Rightarrow> bool" where
  "item_ok bs wi \<longleftrightarrow> wi_tracker wi < length bs \<and> wi_index wi < pushed (bs ! wi_tracker wi) \<and>
     make_item (bs ! wi_tracker wi) (wi_tracker wi) (wi_index wi) = Some wi"

definition executed :: "nat \<Rightarrow> batch \<Rightarrow> work_item multiset \<Rightarrow> nat \<Rightarrow> bool" where
  "executed c b T i \<longleftrightarrow> i < pushed b \<and> (c, i) \<notin> key ` set_mset T"

definition open_items :: "nat \<Rightarrow> work_item multiset \<Rightarrow> nat" where
  "open_items c M = size {#wi \<in># M. wi_tracker wi = c#}"

text \<open>Of the items of a batch, \<open>M\<close> are in flight and \<open>T\<close> not executed: the counter is the
  number of items not pushed or in flight, and the output slots hold the results of the others.\<close>

definition batch_inv :: "nat \<Rightarrow> batch \<Rightarrow> work_item multiset \<Rightarrow> work_item multiset \<Rightarrow> bool" where
  "batch_inv c b M T \<longleftrightarrow>
     length (b_outs b) = length (b_texts b) \<and> pushed b \<le> nat (b_n b) \<and> nat (b_n b) \<le> length (b_texts b) \<and>
     b_remaining b = b_n b - int (pushed b) + int (open_items c M) \<and>
     (\<forall>i < length (b_texts b). b_outs b ! i = (if executed c b T i then item_result b c i else None)) \<and>
     (\<forall>i. executed c b T i \<longrightarrow> item_result b c i \<noteq> None)"

definition data_inv :: "batch list \<Rightarrow> work_item multiset \<Rightarrow> work_item multiset \<Rightarrow> bool" where
  "data_inv bs M T \<longleftrightarrow> (\<forall>wi \<in># M. item_ok bs wi) \<and> keys_distinct M \<and> T \<subseteq># M \<and>
     (\<forall>c < length bs. batch_inv c (bs ! c) M T)"

lemma make_item_core: "same_core b b' \<Longrightarrow> make_item b' c i = make_item b c i"
  using same_coreD [of b b'] by (simp add: make_item_def)

lemma make_item_simps [simp]:
  "make_item (b\<lparr>b_pc := pc\<rparr>) c i = make_item b c i" "make_item (b\<lparr>b_outs := os\<rparr>) c i = make_item b c i"
  "make_item (b\<lparr>b_remaining := n\<rparr>) c i = make_item b c i"
  by (simp_all add: make_item_def)

lemma make_item_SomeD: "make_item b c i = Some wi \<Longrightarrow> wi_tracker wi = c \<and> wi_index wi = i \<and> i < length (b_texts b)"
  by (auto simp: make_item_def rd_Some_iff split: Option.bind_splits)

lemma pushed_simps [simp]: "pushed (b\<lparr>b_outs := os\<rparr>) = pushed b" "pushed (b\<lparr>b_remaining := n\<rparr>) = pushed b"
  by (simp_all add: pushed_def split: caller_pc.split)

lemma data_inv_core:
  assumes "data_inv bs M T" and "list_all2 same_core bs bs'"
  shows "data_inv bs' M T"
proof -
  have len: "length bs' = length bs" using list_all2_lengthD [OF assms(2)] by simp
  have core: "same_core (bs ! c) (bs' ! c)" if "c < length bs" for c
    using list_all2_nthD [OF assms(2) that] .
  have "item_ok bs' wi" if "item_ok bs wi" for wi
    using that core [of "wi_tracker wi"] len
    by (auto simp: item_ok_def make_item_core dest: same_coreD)
  moreover have "batch_inv c (bs' ! c) M T" if "c < length bs" and "batch_inv c (bs ! c) M T" for c
    using that(2) same_coreD [OF core [OF that(1)]] make_item_core [OF core [OF that(1)]]
    by (simp add: batch_inv_def executed_def item_result_def)
  ultimately show ?thesis using assms(1) len by (simp add: data_inv_def)
qed

lemma core_update:
  assumes "c < length bs" and "same_core (bs ! c) b"
  shows "list_all2 same_core bs (bs[c := b])"
  using assms by (auto simp: list_all2_conv_all_nth nth_list_update)


lemma item_ok_update:
  assumes "item_ok bs x" and "pushed (bs ! c) \<le> pushed b" and "\<And>d i. make_item b d i = make_item (bs ! c) d i"
  shows "item_ok (bs[c := b]) x"
  using assms by (cases "c < length bs"; cases "wi_tracker x = c") (auto simp: item_ok_def)

lemma data_inv_update:
  assumes "\<And>wi. wi \<in># M \<Longrightarrow> item_ok (bs[c := b]) wi" and "keys_distinct M" and "T \<subseteq># M"
    and "c < length bs \<Longrightarrow> batch_inv c b M T" and "\<And>d. d < length bs \<Longrightarrow> d \<noteq> c \<Longrightarrow> batch_inv d (bs ! d) M T"
  shows "data_inv (bs[c := b]) M T"
proof -
  have "batch_inv d (bs[c := b] ! d) M T" if "d < length bs" for d
    using assms(4,5) that by (cases "d = c") auto
  then show ?thesis using assms(1-3) by (simp add: data_inv_def)
qed

text \<open>The three effects.\<close>

lemma batch_inv_other:
  assumes "batch_inv c b M T" and "open_items c M' = open_items c M"
    and "\<And>i. (c, i) \<in> key ` set_mset T' \<longleftrightarrow> (c, i) \<in> key ` set_mset T"
  shows "batch_inv c b M' T'"
  using assms by (simp add: batch_inv_def executed_def)

lemma data_inv_execute:
  assumes inv: "data_inv bs M T" and wi: "wi \<in># T" "wi_tracker wi = c" and r: "execute_work_item wi = Some r"
  shows "data_inv (bs[c := (bs ! c)\<lparr>b_outs := (b_outs (bs ! c))[wi_index wi := Some r]\<rparr>]) M (T - {#wi#})"
    (is "data_inv ?bs M ?T")
proof -
  let ?b = "(bs ! c)\<lparr>b_outs := (b_outs (bs ! c))[wi_index wi := Some r]\<rparr>"
  have T: "keys_distinct T" "T \<subseteq># M" using inv keys_distinct_sub by (auto simp: data_inv_def)
  note keys = keys_remove [OF T(1) wi(1)]
  have ok: "item_ok bs wi" using inv wi(1) T(2) by (auto simp: data_inv_def dest: mset_subset_eqD)
  then have c: "c < length bs" and idx: "wi_index wi < pushed (bs ! c)" and mk: "make_item (bs ! c) c (wi_index wi) = Some wi"
    using wi(2) by (auto simp: item_ok_def)
  have res: "item_result (bs ! c) c (wi_index wi) = Some r" using mk r by (simp add: item_result_def)
  have ex: "executed c ?b ?T i \<longleftrightarrow> i = wi_index wi \<or> executed c (bs ! c) T i" for i
    using keys idx wi(2) by (auto simp: executed_def key_def)
  have item: "item_result ?b c i = item_result (bs ! c) c i" for i by (simp add: item_result_def)
  have bc: "batch_inv c (bs ! c) M T" using inv c by (simp add: data_inv_def)
  have "batch_inv c ?b M ?T"
  proof -
    have "wi_index wi < length (b_outs (bs ! c))" using bc idx by (simp add: batch_inv_def)
    then show ?thesis using bc res ex item by (simp add: batch_inv_def nth_list_update)
  qed
  moreover have "batch_inv d (bs ! d) M ?T" if "d < length bs" "d \<noteq> c" for d
  proof -
    have "batch_inv d (bs ! d) M T" using inv that by (simp add: data_inv_def)
    then show ?thesis by (rule batch_inv_other) (use keys wi(2) that in \<open>auto simp: key_def\<close>)
  qed
  moreover have "item_ok ?bs x" if "item_ok bs x" for x
    using that by (rule item_ok_update) simp_all
  moreover have "?T \<subseteq># M" using T(2) by (meson diff_subset_eq_self subset_mset.trans)
  ultimately show ?thesis using inv by (intro data_inv_update) (auto simp: data_inv_def)
qed

lemma data_inv_finish:
  assumes inv: "data_inv bs M T" and wi: "wi \<in># M" "wi_tracker wi = c" and T: "T \<subseteq># M - {#wi#}"
  shows "data_inv (bs[c := (bs ! c)\<lparr>b_remaining := b_remaining (bs ! c) - 1\<rparr>]) (M - {#wi#}) T"
    (is "data_inv ?bs ?M T")
proof -
  let ?b = "(bs ! c)\<lparr>b_remaining := b_remaining (bs ! c) - 1\<rparr>"
  obtain N where M: "M = add_mset wi N" using wi(1) by (auto dest: multi_member_split)
  have "batch_inv c (bs ! c) M T \<Longrightarrow> batch_inv c ?b N T"
    using wi(2) by (simp add: batch_inv_def M open_items_def executed_def item_result_def)
  moreover have "batch_inv d (bs ! d) N T" if "batch_inv d (bs ! d) M T" "d \<noteq> c" for d
    using that(1) by (rule batch_inv_other) (use that(2) wi(2) in \<open>auto simp: open_items_def M\<close>)
  moreover have "item_ok ?bs x" if "item_ok bs x" for x
    using that by (rule item_ok_update) simp_all
  ultimately have "data_inv ?bs N T"
    using inv T by (intro data_inv_update) (auto simp: data_inv_def M keys_distinct_add)
  then show ?thesis by (simp add: M)
qed

lemma data_inv_enqueue:
  assumes inv: "data_inv bs M T" and c: "c < length bs" and i: "pushed (bs ! c) = i" "int i < b_n (bs ! c)"
    and mk: "make_item (bs ! c) c i = Some wi"
    and b: "b\<lparr>b_pc := P_Check\<rparr> = (bs ! c)\<lparr>b_pc := P_Check\<rparr>" "pushed b = Suc i"
  shows "data_inv (bs[c := b]) (add_mset wi M) (add_mset wi T)"
proof -
  have wi: "wi_tracker wi = c" "wi_index wi = i" using make_item_SomeD [OF mk] by auto
  have new: "(c, i) \<notin> key ` set_mset M"
  proof
    assume "(c, i) \<in> key ` set_mset M"
    then obtain x where x: "x \<in># M" "wi_tracker x = c" "wi_index x = i" by (auto simp: key_def)
    then have "item_ok bs x" using inv by (simp add: data_inv_def)
    with x i(1) show False by (simp add: item_ok_def)
  qed
  have "T \<subseteq># M" using inv by (simp add: data_inv_def)
  then have newT: "(c, i) \<notin> key ` set_mset T" using new by (auto dest: mset_subset_eqD)
  have f: "b_tok b = b_tok (bs ! c)" "b_texts b = b_texts (bs ! c)" "b_type b = b_type (bs ! c)"
    "b_limit b = b_limit (bs ! c)" "b_n b = b_n (bs ! c)" "b_remaining b = b_remaining (bs ! c)"
    "b_outs b = b_outs (bs ! c)"
    using b(1) by (cases b; cases "bs ! c"; simp)+
  have item: "make_item b d j = make_item (bs ! c) d j" for d j by (simp add: make_item_def f)
  have ex: "executed c b (add_mset wi T) j \<longleftrightarrow> executed c (bs ! c) T j" for j
    using b(2) i(1) newT by (auto simp: executed_def wi key_def less_Suc_eq)
  have bc: "batch_inv c (bs ! c) M T" using inv c by (simp add: data_inv_def)
  have "batch_inv c b (add_mset wi M) (add_mset wi T)"
    using bc b(2) i by (simp add: batch_inv_def f ex item item_result_def open_items_def wi)
  moreover have "batch_inv d (bs ! d) (add_mset wi M) (add_mset wi T)" if "d < length bs" "d \<noteq> c" for d
  proof -
    have "batch_inv d (bs ! d) M T" using inv that by (simp add: data_inv_def)
    then show ?thesis by (rule batch_inv_other) (use that(2) wi in \<open>auto simp: open_items_def key_def\<close>)
  qed
  moreover have "item_ok (bs[c := b]) x" if "item_ok bs x" for x
    using that by (rule item_ok_update) (use b(2) i(1) item in simp_all)
  moreover have "item_ok (bs[c := b]) wi" using wi c b(2) mk by (simp add: item_ok_def item)
  moreover have "key wi \<notin> key ` set_mset M" using new wi by (simp add: key_def)
  ultimately show ?thesis using inv
    by (intro data_inv_update) (auto simp: data_inv_def keys_distinct_add)
qed


subsection \<open>Steps\<close>

lemma thread_step_E [consumes 1, case_names idle dequeue execute finish signal full enqueue check_wait check_done]:
  assumes "thread_step s (Some s')"
  obtains (idle) k where "k < length (workers s)" "workers s ! k = W_Lock" "q_count (queue s) = 0"
      "s' = put_worker k (if q_shutdown (queue s) then W_Exit else W_Wait) s"
  | (dequeue) k wi q bs where "k < length (workers s)" "workers s ! k = W_Lock" "0 < q_count (queue s)"
      "queue_take (queue s) = Some (wi, q)" "signal_caller (batches s) bs"
      "s' = put_worker k (W_Exec wi) (s\<lparr>queue := q, batches := bs\<rparr>)"
  | (execute) k wi r c b where "k < length (workers s)" "workers s ! k = W_Exec wi" "execute_work_item wi = Some r"
      "c = wi_tracker wi" "c < length (batches s)" "b = batches s ! c" "b_pc b \<noteq> P_Return"
      "s' = put_worker k (W_Finish wi) (put_batch c (b\<lparr>b_outs := (b_outs b)[wi_index wi := Some r]\<rparr>) s)"
  | (finish) k wi c b where "k < length (workers s)" "workers s ! k = W_Finish wi"
      "c = wi_tracker wi" "c < length (batches s)" "b = batches s ! c" "b_pc b \<noteq> P_Return"
      "s' = put_worker k (if b_remaining b = 1 then W_Signal c else W_Lock)
              (put_batch c (b\<lparr>b_remaining := b_remaining b - 1\<rparr>) s)"
  | (signal) k c b where "k < length (workers s)" "workers s ! k = W_Signal c"
      "c < length (batches s)" "b = batches s ! c" "b_pc b \<noteq> P_Return"
      "s' = put_worker k W_Lock (put_batch c (if b_pc b = P_WaitDone then b\<lparr>b_pc := P_Check\<rparr> else b) s)"
  | (full) c i where "c < length (batches s)" "b_pc (batches s ! c) = P_Push i" "q_count (queue s) = QUEUE_CAPACITY"
      "s' = goto c (P_WaitFull i) s"
  | (enqueue) c i wi q ws where "c < length (batches s)" "b_pc (batches s ! c) = P_Push i" "\<not> freed s"
      "q_count (queue s) \<noteq> QUEUE_CAPACITY" "make_item (batches s ! c) c i = Some wi" "queue_put (queue s) wi = Some q"
      "signal_worker (workers s) ws"
      "s' = goto c (push_or_check (b_n (batches s ! c)) (i + 1)) (s\<lparr>queue := q, workers := ws\<rparr>)"
  | (check_wait) c where "c < length (batches s)" "b_pc (batches s ! c) = P_Check" "0 < b_remaining (batches s ! c)"
      "s' = goto c P_WaitDone s"
  | (check_done) c where "c < length (batches s)" "b_pc (batches s ! c) = P_Check" "b_remaining (batches s ! c) \<le> 0"
      "s' = goto c P_Return s"
  using assms
proof cases
  case (of_worker k)
  from of_worker(2) show ?thesis
  proof cases
    case wait
    then show ?thesis using idle [of k] of_worker(1) by simp
  next
    case exit
    then show ?thesis using idle [of k] of_worker(1) by simp
  next
    case (dequeue wi q bs)
    then show ?thesis using that(2) of_worker(1) by simp
  next
    case (execute wi r b)
    then show ?thesis using that(3) [of k wi r "wi_tracker wi" b] of_worker(1)
      by (auto simp: write_out_def rd_Some_iff wr_Some_iff split: if_splits Option.bind_splits)
  next
    case (finish wi b)
    then show ?thesis using that(4) [of k wi "wi_tracker wi" b] of_worker(1)
      by (auto simp: decrement_def rd_Some_iff split: if_splits)
  next
    case (signal c b)
    then show ?thesis using that(5) [of k c b] of_worker(1)
      by (auto simp: signal_done_def rd_Some_iff split: if_splits)
  qed
next
  case (of_caller c)
  from of_caller(2) show ?thesis
  proof cases
    case (full i)
    then show ?thesis using that(6) of_caller(1) by simp
  next
    case (enqueue i q ws)
    then show ?thesis using that(7) of_caller(1) by (auto simp: enqueue_item_def split: Option.bind_splits)
  next
    case check_wait
    then show ?thesis using that(8) of_caller(1) by simp
  next
    case check_done
    then show ?thesis using that(9) of_caller(1) by simp
  qed
qed

lemma pool_step_E [consumes 1, case_names idle dequeue execute finish signal full enqueue check_wait check_done
    shutdown free wake_worker wake_pusher wake_waiter]:
  assumes "pool_step s (Some s')"
  obtains (idle) k where "k < length (workers s)" "workers s ! k = W_Lock" "q_count (queue s) = 0"
      "s' = put_worker k (if q_shutdown (queue s) then W_Exit else W_Wait) s"
  | (dequeue) k wi q bs where "k < length (workers s)" "workers s ! k = W_Lock" "0 < q_count (queue s)"
      "queue_take (queue s) = Some (wi, q)" "signal_caller (batches s) bs"
      "s' = put_worker k (W_Exec wi) (s\<lparr>queue := q, batches := bs\<rparr>)"
  | (execute) k wi r c b where "k < length (workers s)" "workers s ! k = W_Exec wi" "execute_work_item wi = Some r"
      "c = wi_tracker wi" "c < length (batches s)" "b = batches s ! c" "b_pc b \<noteq> P_Return"
      "s' = put_worker k (W_Finish wi) (put_batch c (b\<lparr>b_outs := (b_outs b)[wi_index wi := Some r]\<rparr>) s)"
  | (finish) k wi c b where "k < length (workers s)" "workers s ! k = W_Finish wi"
      "c = wi_tracker wi" "c < length (batches s)" "b = batches s ! c" "b_pc b \<noteq> P_Return"
      "s' = put_worker k (if b_remaining b = 1 then W_Signal c else W_Lock)
              (put_batch c (b\<lparr>b_remaining := b_remaining b - 1\<rparr>) s)"
  | (signal) k c b where "k < length (workers s)" "workers s ! k = W_Signal c"
      "c < length (batches s)" "b = batches s ! c" "b_pc b \<noteq> P_Return"
      "s' = put_worker k W_Lock (put_batch c (if b_pc b = P_WaitDone then b\<lparr>b_pc := P_Check\<rparr> else b) s)"
  | (full) c i where "c < length (batches s)" "b_pc (batches s ! c) = P_Push i" "q_count (queue s) = QUEUE_CAPACITY"
      "s' = goto c (P_WaitFull i) s"
  | (enqueue) c i wi q ws where "c < length (batches s)" "b_pc (batches s ! c) = P_Push i" "\<not> freed s"
      "q_count (queue s) \<noteq> QUEUE_CAPACITY" "make_item (batches s ! c) c i = Some wi" "queue_put (queue s) wi = Some q"
      "signal_worker (workers s) ws"
      "s' = goto c (push_or_check (b_n (batches s ! c)) (i + 1)) (s\<lparr>queue := q, workers := ws\<rparr>)"
  | (check_wait) c where "c < length (batches s)" "b_pc (batches s ! c) = P_Check" "0 < b_remaining (batches s ! c)"
      "s' = goto c P_WaitDone s"
  | (check_done) c where "c < length (batches s)" "b_pc (batches s ! c) = P_Check" "b_remaining (batches s ! c) \<le> 0"
      "s' = goto c P_Return s"
  | (shutdown) "s' = s\<lparr>queue := queue s\<lparr>q_shutdown := True\<rparr>,
      workers := map (\<lambda>w. if w = W_Wait then W_Lock else w) (workers s)\<rparr>"
  | (free) "q_shutdown (queue s)" "s' = s\<lparr>freed := True\<rparr>"
  | (wake_worker) k where "k < length (workers s)" "workers s ! k = W_Wait" "s' = put_worker k W_Lock s"
  | (wake_pusher) c where "c < length (batches s)" "waits_full (batches s ! c)"
      "s' = put_batch c (wake_full (batches s ! c)) s"
  | (wake_waiter) c where "c < length (batches s)" "b_pc (batches s ! c) = P_WaitDone" "s' = goto c P_Check s"
  using assms
proof cases
  case by_thread
  then show ?thesis
  proof (cases rule: thread_step_E)
    case idle
    then show ?thesis by (rule that(1))
  next
    case dequeue
    then show ?thesis by (rule that(2))
  next
    case execute
    then show ?thesis by (rule that(3))
  next
    case finish
    then show ?thesis by (rule that(4))
  next
    case signal
    then show ?thesis by (rule that(5))
  next
    case full
    then show ?thesis by (rule that(6))
  next
    case enqueue
    then show ?thesis by (rule that(7))
  next
    case check_wait
    then show ?thesis by (rule that(8))
  next
    case check_done
    then show ?thesis by (rule that(9))
  qed
next
  case by_destroy
  then show ?thesis by cases (use shutdown free in auto)
next
  case by_spurious
  then show ?thesis by cases (use wake_worker wake_pusher wake_waiter in auto)
qed


subsection \<open>Woken threads\<close>

definition woke :: "worker \<Rightarrow> worker \<Rightarrow> bool" where
  "woke w w' \<longleftrightarrow> w' = w \<or> w = W_Wait \<and> w' = W_Lock"

lemma woke_refl [simp]: "woke w w" "list_all2 woke ws ws"
  by (simp_all add: woke_def list.rel_refl)

lemma woke_update: "k < length ws \<Longrightarrow> ws ! k = W_Wait \<Longrightarrow> list_all2 woke ws (ws[k := W_Lock])"
  by (auto simp: list_all2_conv_all_nth nth_list_update woke_def)

lemma signal_worker_woke: "signal_worker ws ws' \<Longrightarrow> list_all2 woke ws ws'"
  by (erule signal_worker.cases) (auto simp: woke_update)

lemma broadcast_woke: "list_all2 woke ws (map (\<lambda>w. if w = W_Wait then W_Lock else w) ws)"
  by (auto simp: list_all2_conv_all_nth woke_def)

lemma same_core_wake: "same_core b (wake_full b)"
  by (auto simp: wake_full_def pushed_def same_core_def split: caller_pc.split)

lemma signal_caller_core: "signal_caller bs bs' \<Longrightarrow> list_all2 same_core bs bs'"
  by (erule signal_caller.cases) (auto simp: list.rel_refl core_update same_core_wake)

lemma woke_in_flight:
  assumes "list_all2 woke ws ws'"
  shows "in_flight qi ws' = in_flight qi ws" and "unexecuted qi ws' = unexecuted qi ws" and "length ws' = length ws"
    and "W_Signal c \<in> set ws' \<longleftrightarrow> W_Signal c \<in> set ws" and "W_Exit \<in> set ws' \<longleftrightarrow> W_Exit \<in> set ws"
proof -
  have "sum_list (map holding ws') = sum_list (map holding ws) \<and>
      sum_list (map executing ws') = sum_list (map executing ws) \<and> length ws' = length ws \<and>
      (W_Signal c \<in> set ws' \<longleftrightarrow> W_Signal c \<in> set ws) \<and> (W_Exit \<in> set ws' \<longleftrightarrow> W_Exit \<in> set ws)"
    using assms by (induction rule: list_all2_induct) (auto simp: woke_def)
  then show "in_flight qi ws' = in_flight qi ws" and "unexecuted qi ws' = unexecuted qi ws" and "length ws' = length ws"
    and "W_Signal c \<in> set ws' \<longleftrightarrow> W_Signal c \<in> set ws" and "W_Exit \<in> set ws' \<longleftrightarrow> W_Exit \<in> set ws"
    by (auto simp: in_flight_def unexecuted_def)
qed

lemma in_flight_update:
  assumes "k < length ws"
  shows "in_flight qi (ws[k := w]) + holding (ws ! k) = in_flight qi ws + holding w"
    and "unexecuted qi (ws[k := w]) + executing (ws ! k) = unexecuted qi ws + executing w"
  using sum_list_map_update [OF assms, of holding w] sum_list_map_update [OF assms, of executing w]
  by (simp_all add: in_flight_def unexecuted_def add.assoc)

lemma held_in_flight: "k < length ws \<Longrightarrow> wi \<in># holding (ws ! k) \<Longrightarrow> wi \<in># in_flight qi ws"
  using in_flight_update(1) [of k ws qi W_Lock] by (metis add_0_right holding.simps(3) union_iff)

lemma in_flight_snoc: "in_flight (qi @ [wi]) ws = add_mset wi (in_flight qi ws)"
  "unexecuted (qi @ [wi]) ws = add_mset wi (unexecuted qi ws)"
  by (simp_all add: in_flight_def unexecuted_def)

lemma in_flight_Cons: "in_flight (wi # qi) ws = add_mset wi (in_flight qi ws)"
  "unexecuted (wi # qi) ws = add_mset wi (unexecuted qi ws)"
  by (simp_all add: in_flight_def unexecuted_def)

lemma unexecuted_sub: "unexecuted qi ws \<subseteq># in_flight qi ws"
proof -
  have "sum_list (map executing ws) \<subseteq># sum_list (map holding ws)"
  proof (induction ws)
    case (Cons w ws)
    then show ?case by (cases w) (auto intro: subset_mset.trans [of _ "sum_list (map holding ws)"])
  qed simp
  then show ?thesis by (simp add: in_flight_def unexecuted_def)
qed

subsection \<open>Data\<close>

text \<open>Where a caller may be, and that it returns with its counter at 0 or below.\<close>

definition pc_ok :: "batch \<Rightarrow> bool" where
  "pc_ok b \<longleftrightarrow> (case b_pc b of P_Push i \<Rightarrow> int i < b_n b | P_WaitFull i \<Rightarrow> int i < b_n b
     | P_Return \<Rightarrow> b_remaining b \<le> 0 | _ \<Rightarrow> True)"

definition pool_data :: "pool \<Rightarrow> bool" where
  "pool_data s \<longleftrightarrow> queue_inv (queue s) \<and> (\<forall>b \<in> set (batches s). pc_ok b) \<and>
     (\<forall>c. W_Signal c \<in> set (workers s) \<longrightarrow> c < length (batches s)) \<and> (freed s \<longrightarrow> q_shutdown (queue s)) \<and>
     data_inv (batches s) (in_flight (queue_items (queue s)) (workers s)) (unexecuted (queue_items (queue s)) (workers s))"

lemma pc_ok_simps [simp]: "pc_ok (b\<lparr>b_outs := os\<rparr>) = pc_ok b"
  "pc_ok (wake_full b) \<longleftrightarrow> pc_ok b"
  by (auto simp: pc_ok_def wake_full_def split: caller_pc.split)

lemma pc_ok_decrement: "pc_ok b \<Longrightarrow> pc_ok (b\<lparr>b_remaining := b_remaining b - 1\<rparr>)"
  by (auto simp: pc_ok_def split: caller_pc.split)

lemma set_update_mem: "(\<forall>x \<in> set xs. P x) \<Longrightarrow> P y \<Longrightarrow> \<forall>x \<in> set (xs[k := y]). P x"
  using set_update_subset_insert [of xs k y] by auto

lemma pushed_next: "int i < b_n b \<Longrightarrow> pushed (b\<lparr>b_pc := push_or_check (b_n b) (i + 1)\<rparr>) = Suc i"
  by (auto simp: pushed_def push_or_check_def)

lemma pc_ok_next: "pc_ok (b\<lparr>b_pc := push_or_check (b_n b) i\<rparr>)"
  by (auto simp: pc_ok_def push_or_check_def)


text \<open>Steps that leave the items and the cores alone.\<close>

lemma in_flight_same:
  assumes "k < length ws" and "holding w = holding (ws ! k)" and "executing w = executing (ws ! k)"
  shows "in_flight qi (ws[k := w]) = in_flight qi ws" and "unexecuted qi (ws[k := w]) = unexecuted qi ws"
  using sum_list_map_same [of k ws holding w] sum_list_map_same [of k ws executing w] assms
  by (simp_all add: in_flight_def unexecuted_def)

lemma set_update_signal: "W_Signal c \<in> set (ws[k := w]) \<Longrightarrow> w = W_Signal c \<or> W_Signal c \<in> set ws"
  using set_update_subset_insert [of ws k w] by auto

lemma pool_data_core:
  assumes "pool_data s" and "list_all2 same_core (batches s) (batches s')" and "\<forall>b \<in> set (batches s'). pc_ok b"
    and "queue_inv (queue s')" and "freed s' \<longrightarrow> q_shutdown (queue s')"
    and "\<And>c. W_Signal c \<in> set (workers s') \<Longrightarrow> W_Signal c \<in> set (workers s)"
    and "in_flight (queue_items (queue s')) (workers s') = in_flight (queue_items (queue s)) (workers s)"
    and "unexecuted (queue_items (queue s')) (workers s') = unexecuted (queue_items (queue s)) (workers s)"
  shows "pool_data s'"
  using assms data_inv_core [OF _ assms(2)] list_all2_lengthD [OF assms(2)] by (auto simp: pool_data_def)

lemma signal_caller_pc_ok:
  assumes "signal_caller bs bs'" and "\<forall>b \<in> set bs. pc_ok b"
  shows "\<forall>b \<in> set bs'. pc_ok b"
  using assms(1)
proof cases
  case (wakes_caller c)
  then have "pc_ok (wake_full (bs ! c))" using assms(2) by auto
  then show ?thesis unfolding wakes_caller(1) by (rule set_update_mem [OF assms(2)])
qed (use assms(2) in simp)

lemma goto_core:
  assumes "pool_data s" and "c < length (batches s)" and "pushed ((batches s ! c)\<lparr>b_pc := pc\<rparr>) = pushed (batches s ! c)"
    and "pc_ok ((batches s ! c)\<lparr>b_pc := pc\<rparr>)"
  shows "pool_data (goto c pc s)"
  using assms(1)
proof (rule pool_data_core)
  show "list_all2 same_core (batches s) (batches (goto c pc s))"
    using assms(2,3) by (simp add: core_update same_core_pc)
  show "\<forall>b \<in> set (batches (goto c pc s)). pc_ok b"
    using set_update_mem [of "batches s" pc_ok, OF _ assms(4)] assms(1) by (simp add: pool_data_def)
qed (use assms(1) in \<open>simp_all add: pool_data_def\<close>)

lemma worker_core:
  assumes "pool_data s" and "k < length (workers s)" and "holding w = holding (workers s ! k)"
    and "executing w = executing (workers s ! k)" and "\<And>c. w \<noteq> W_Signal c"
  shows "pool_data (put_worker k w s)"
  using assms(1)
proof (rule pool_data_core)
  show "W_Signal c \<in> set (workers s)" if "W_Signal c \<in> set (workers (put_worker k w s))" for c
    using that set_update_signal [of c "workers s" k w] assms(5) [of c] by auto
qed (use assms in \<open>simp_all add: pool_data_def in_flight_same list.rel_refl\<close>)

lemma queue_take_in_flight:
  assumes "queue_inv q" and "0 < q_count q" and "queue_take q = Some (wi, q')"
  shows "queue_inv q'" and "in_flight (queue_items q) ws = add_mset wi (in_flight (queue_items q') ws)"
    and "unexecuted (queue_items q) ws = add_mset wi (unexecuted (queue_items q') ws)"
    and "q_count q = Suc (q_count q')"
proof -
  have "queue_items q \<noteq> []" using assms(2) by (metis length_queue_items list.size(3) less_irrefl)
  note t = ring.take_elim [OF assms(1) this assms(3)]
  show "queue_inv q'" by (rule t(1))
  show "in_flight (queue_items q) ws = add_mset wi (in_flight (queue_items q') ws)"
    "unexecuted (queue_items q) ws = add_mset wi (unexecuted (queue_items q') ws)"
    by (simp_all add: t(2) in_flight_Cons)
  show "q_count q = Suc (q_count q')" using arg_cong [OF t(2), of length] by simp
qed

lemma pool_data_step:
  assumes inv: "pool_data s" and "pool_step s (Some s')"
  shows "pool_data s'"
proof -
  let ?q = "queue s" and ?ws = "workers s" and ?bs = "batches s"
  let ?M = "in_flight (queue_items ?q) ?ws" and ?T = "unexecuted (queue_items ?q) ?ws"
  have q: "queue_inv ?q" and pc: "\<forall>b \<in> set ?bs. pc_ok b" and D: "data_inv ?bs ?M ?T"
    and fr: "freed s \<longrightarrow> q_shutdown ?q" and sg: "W_Signal c \<in> set ?ws \<Longrightarrow> c < length ?bs" for c
    using inv by (auto simp: pool_data_def)
  have pcc: "pc_ok (?bs ! c)" if "c < length ?bs" for c using pc that by auto
  from assms(2) show ?thesis
  proof (cases rule: pool_step_E)
    case (idle k)
    then show ?thesis using worker_core [OF inv, of k] by auto
  next
    case (dequeue k wi q' bs)
    note t = queue_take_in_flight [OF q dequeue(3,4)]
    note u = in_flight_update [OF dequeue(1), of "queue_items q'" "W_Exec wi"]
    show ?thesis
    proof (rule pool_data_core [OF inv])
      show "list_all2 same_core (batches s) (batches s')"
        using signal_caller_core [OF dequeue(5)] dequeue(6) by simp
      show "\<forall>b \<in> set (batches s'). pc_ok b" using signal_caller_pc_ok [OF dequeue(5) pc] dequeue(6) by simp
      show "W_Signal c \<in> set (workers s)" if "W_Signal c \<in> set (workers s')" for c
        using that set_update_signal dequeue(6) by fastforce
      show "in_flight (queue_items (queue s')) (workers s') = ?M" and
        "unexecuted (queue_items (queue s')) (workers s') = ?T"
        using u dequeue(2,6) by (simp_all add: t(2,3))
    qed (use t(1) fr queue_take_shutdown [OF dequeue(4)] dequeue(6) in simp_all)
  next
    case (execute k wi r c b)
    note u = in_flight_update [OF execute(1), of "queue_items ?q" "W_Finish wi"]
    have "?T = add_mset wi (unexecuted (queue_items ?q) (?ws[k := W_Finish wi]))" using u(2) execute(2) by simp
    then have "wi \<in># ?T" by simp
    then have "data_inv (?bs[c := b\<lparr>b_outs := (b_outs b)[wi_index wi := Some r]\<rparr>]) ?M (?T - {#wi#})"
      unfolding execute(6) using execute(3,4) by (intro data_inv_execute [OF D]) auto
    moreover have "in_flight (queue_items (queue s')) (workers s') = ?M" using u execute(2,8) by simp
    moreover have "unexecuted (queue_items (queue s')) (workers s') = ?T - {#wi#}"
      using \<open>?T = add_mset wi _\<close> execute(8) by simp
    moreover have "pc_ok (b\<lparr>b_outs := (b_outs b)[wi_index wi := Some r]\<rparr>)" using pcc [of c] execute by simp
    note set_update_mem [OF pc this, of c]
    ultimately show ?thesis
      using q fr sg execute(8) by (auto simp: pool_data_def dest!: set_update_signal)
  next
    case (finish k wi c b)
    let ?w = "if b_remaining b = 1 then W_Signal c else W_Lock"
    note u = in_flight_update [OF finish(1), of "queue_items ?q" ?w]
    have M: "?M = add_mset wi (in_flight (queue_items ?q) (?ws[k := ?w]))" using u(1) finish(2) by (auto split: if_splits)
    have T: "unexecuted (queue_items ?q) (?ws[k := ?w]) = ?T" using u(2) finish(2) by (auto split: if_splits)
    have "?T \<subseteq># ?M - {#wi#}" using unexecuted_sub [of "queue_items ?q" "?ws[k := ?w]"] M T by simp
    then have "data_inv (?bs[c := b\<lparr>b_remaining := b_remaining b - 1\<rparr>]) (?M - {#wi#}) ?T"
      unfolding finish(5) using finish(3) M by (intro data_inv_finish [OF D]) auto
    moreover have "pc_ok (b\<lparr>b_remaining := b_remaining b - 1\<rparr>)"
      using pc_ok_decrement [OF pcc [of c]] finish by simp
    note set_update_mem [OF pc this, of c]
    moreover have "in_flight (queue_items ?q) (?ws[k := ?w]) = ?M - {#wi#}" by (simp add: M)
    ultimately show ?thesis
      using q fr sg finish(4,7) T
      by (auto simp: pool_data_def dest!: set_update_signal split: if_splits)
  next
    case (signal k c b)
    have 1: "pool_data (put_worker k W_Lock s)" using worker_core [OF inv signal(1)] signal(2) by simp
    show ?thesis
    proof (cases "b_pc b = P_WaitDone")
      case True
      have "s' = goto c P_Check (put_worker k W_Lock s)"
        by (rule pool.equality) (use signal True in simp_all)
      then show ?thesis using goto_core [OF 1, of c P_Check] signal True by (simp add: pushed_def pc_ok_def)
    next
      case False
      then show ?thesis using 1 signal by simp
    qed
  next
    case (full c i)
    then show ?thesis using goto_core [OF inv, of c "P_WaitFull i"] pcc [of c] by (simp add: pushed_def pc_ok_def)
  next
    case (enqueue c i wi q' ws)
    let ?b = "(?bs ! c)\<lparr>b_pc := push_or_check (b_n (?bs ! c)) (i + 1)\<rparr>"
    have i: "int i < b_n (?bs ! c)" using pcc [OF enqueue(1)] enqueue(2) by (simp add: pc_ok_def)
    have "q_count ?q < QUEUE_CAPACITY" using q enqueue(4) by (simp add: queue_inv_def)
    then have q': "queue_inv q'" "queue_items q' = queue_items ?q @ [wi]"
      using ring.put_elim [OF q _ enqueue(6)] by auto
    note w = woke_in_flight [OF signal_worker_woke [OF enqueue(7)]]
    have "data_inv (?bs[c := ?b]) (add_mset wi ?M) (add_mset wi ?T)"
      using data_inv_enqueue [OF D enqueue(1) _ i enqueue(5), of ?b] enqueue(2) pushed_next [OF i]
      by (simp add: pushed_def)
    then show ?thesis
      using q' w sg fr enqueue(3,8) set_update_mem [OF pc pc_ok_next] queue_put_shutdown [OF enqueue(6)]
      by (simp add: pool_data_def in_flight_snoc)
  next
    case (check_wait c)
    then show ?thesis using goto_core [OF inv, of c P_WaitDone] by (simp add: pushed_def pc_ok_def)
  next
    case (check_done c)
    then show ?thesis using goto_core [OF inv, of c P_Return] by (simp add: pushed_def pc_ok_def)
  next
    case shutdown
    note w = woke_in_flight [OF broadcast_woke [of ?ws]]
    have "queue_items (?q\<lparr>q_shutdown := True\<rparr>) = queue_items ?q" and "queue_inv (?q\<lparr>q_shutdown := True\<rparr>)"
      using q by (simp_all add: queue_items_def queue_slot_def queue_inv_def)
    then show ?thesis using inv w shutdown by (simp add: pool_data_def)
  next
    case free
    then show ?thesis using inv by (simp add: pool_data_def)
  next
    case (wake_worker k)
    then show ?thesis using worker_core [OF inv, of k W_Lock] by simp
  next
    case (wake_pusher c)
    have "pc_ok (wake_full (?bs ! c))" using pcc wake_pusher(1) by simp
    note set_update_mem [OF pc this, of c]
    with inv show ?thesis
      by (intro pool_data_core [OF inv])
        (use wake_pusher in \<open>simp_all add: pool_data_def core_update same_core_wake\<close>)
  next
    case (wake_waiter c)
    then show ?thesis using goto_core [OF inv, of c P_Check] by (simp add: pushed_def pc_ok_def)
  qed
qed


subsection \<open>Waiting\<close>

text \<open>A caller that waits for its tracker will be signalled.\<close>

definition waits_signalled :: "pool \<Rightarrow> bool" where
  "waits_signalled s \<longleftrightarrow> (\<forall>c < length (batches s). b_pc (batches s ! c) = P_WaitDone \<longrightarrow>
     0 < b_remaining (batches s ! c) \<or> W_Signal c \<in> set (workers s))"

text \<open>Before the shutdown, no worker has left, and when there is an item some worker is awake.\<close>

definition workers_awake :: "pool \<Rightarrow> bool" where
  "workers_awake s \<longleftrightarrow> (\<not> q_shutdown (queue s) \<longrightarrow> W_Exit \<notin> set (workers s) \<and>
     (0 < q_count (queue s) \<longrightarrow> workers s \<noteq> [] \<longrightarrow> (\<exists>w \<in> set (workers s). w \<noteq> W_Wait)))"

text \<open>When a caller waits for a free slot, every free slot has a caller that was woken for it.\<close>

definition pushing :: "batch \<Rightarrow> bool" where
  "pushing b \<longleftrightarrow> (\<exists>i. b_pc b = P_Push i)"

definition num_pushing :: "batch list \<Rightarrow> nat" where
  "num_pushing bs = sum_list (map (\<lambda>b. of_bool (pushing b)) bs)"

definition slots_claimed :: "pool \<Rightarrow> bool" where
  "slots_claimed s \<longleftrightarrow> ((\<exists>b \<in> set (batches s). waits_full b) \<longrightarrow>
     QUEUE_CAPACITY \<le> q_count (queue s) + num_pushing (batches s))"

lemma signal_mem_update: "W_Signal c \<in> set ws \<Longrightarrow> ws ! k \<noteq> W_Signal c \<Longrightarrow> W_Signal c \<in> set (ws[k := w])"
  by (metis in_set_conv_nth length_list_update nth_list_update_neq)

lemma exit_update: "W_Exit \<in> set (ws[k := w]) \<Longrightarrow> w = W_Exit \<or> W_Exit \<in> set ws"
  using set_update_subset_insert [of ws k w] by auto

lemma awake_update: "k < length ws \<Longrightarrow> w \<noteq> W_Wait \<Longrightarrow> \<exists>w \<in> set (ws[k := w]). w \<noteq> W_Wait"
  by (metis set_update_memI)

lemma woke_awake: "list_all2 woke ws ws' \<Longrightarrow> \<exists>w \<in> set ws. w \<noteq> W_Wait \<Longrightarrow> \<exists>w \<in> set ws'. w \<noteq> W_Wait"
  by (induction rule: list_all2_induct) (auto simp: woke_def)

lemma signalled_awake:
  assumes "signal_worker ws ws'" and "ws \<noteq> []"
  shows "\<exists>w \<in> set ws'. w \<noteq> W_Wait"
  using assms(1)
proof cases
  case none_waits
  then show ?thesis using assms(2) by (cases ws) auto
qed (auto intro: awake_update)

lemma wake_full_simps [simp]:
  "b_pc (wake_full b) = P_WaitDone \<longleftrightarrow> b_pc b = P_WaitDone" "b_remaining (wake_full b) = b_remaining b"
  "waits_full (wake_full b) = False" "pushing (wake_full b) \<longleftrightarrow> pushing b \<or> waits_full b"
  by (auto simp: wake_full_def waits_full_def pushing_def split: caller_pc.split)

lemma pending_item:
  assumes "pool_data s" and "wi \<in># in_flight (queue_items (queue s)) (workers s)" and "wi_tracker wi = c"
  shows "0 < b_remaining (batches s ! c)"
proof -
  let ?M = "in_flight (queue_items (queue s)) (workers s)" and ?b = "batches s ! c"
  have "item_ok (batches s) wi" using assms(1,2) by (simp add: pool_data_def data_inv_def)
  then have c: "c < length (batches s)" and idx: "wi_index wi < pushed ?b" using assms(3) by (auto simp: item_ok_def)
  have "batch_inv c ?b ?M (unexecuted (queue_items (queue s)) (workers s))"
    using assms(1) c by (simp add: pool_data_def data_inv_def)
  then have "pushed ?b \<le> nat (b_n ?b)" and "b_remaining ?b = b_n ?b - int (pushed ?b) + int (open_items c ?M)"
    by (auto simp: batch_inv_def)
  moreover have "0 < open_items c ?M"
    using multi_member_split [OF assms(2)] assms(3) by (auto simp: open_items_def)
  ultimately show ?thesis using idx by linarith
qed

lemma waits_signalled_step:
  assumes "pool_data s" and inv: "waits_signalled s" and "pool_step s (Some s')"
  shows "waits_signalled s'"
  using assms(3)
proof (cases rule: pool_step_E)
  case (dequeue k wi q bs)
  have len: "length bs = length (batches s)" using dequeue(5) by (auto elim: signal_caller.cases)
  have "b_pc (bs ! c) = P_WaitDone \<longrightarrow> b_pc (batches s ! c) = P_WaitDone" and
    "b_remaining (bs ! c) = b_remaining (batches s ! c)" if "c < length bs" for c
    using dequeue(5) that
    by (auto elim!: signal_caller.cases simp: nth_list_update split: if_splits)
  then show ?thesis using inv len dequeue(2,6) signal_mem_update [of _ "workers s" k]
    by (auto simp: waits_signalled_def)
next
  case (finish k wi c b)
  have "wi \<in># in_flight (queue_items (queue s)) (workers s)"
    by (rule held_in_flight [OF finish(1)]) (simp add: finish(2))
  then have "0 < b_remaining b" using pending_item [OF assms(1)] finish(3,5) by simp
  then show ?thesis
    using inv finish signal_mem_update [of _ "workers s" k] set_update_memI [OF finish(1)]
    by (auto simp: waits_signalled_def nth_list_update)
qed (use inv signal_mem_update in \<open>auto simp: waits_signalled_def nth_list_update wake_full_def waits_full_def woke_in_flight [OF signal_worker_woke]
       woke_in_flight [OF broadcast_woke] push_or_check_def split: caller_pc.splits if_splits\<close>)


lemma workers_awake_step:
  assumes "pool_data s" and inv: "workers_awake s" and "pool_step s (Some s')"
  shows "workers_awake s'"
  using assms(3)
proof (cases rule: pool_step_E)
  case (idle k)
  then show ?thesis using inv by (auto simp: workers_awake_def dest: exit_update)
next
  case (dequeue k wi q bs)
  then show ?thesis using inv awake_update [OF dequeue(1)] queue_take_shutdown [OF dequeue(4)]
    by (auto simp: workers_awake_def dest: exit_update)
next
  case (enqueue c i wi q ws)
  have "ws \<noteq> [] \<Longrightarrow> \<exists>w \<in> set ws. w \<noteq> W_Wait"
    using signalled_awake [OF enqueue(7)] enqueue(7) by (auto elim: signal_worker.cases)
  then show ?thesis
    using inv enqueue(8) queue_put_shutdown [OF enqueue(6)] woke_in_flight(5) [OF signal_worker_woke [OF enqueue(7)]]
    by (auto simp: workers_awake_def)
qed (use inv awake_update in \<open>auto simp: workers_awake_def dest: exit_update split: if_splits\<close>)

lemma num_pushing_update:
  "c < length bs \<Longrightarrow> num_pushing (bs[c := b]) + of_bool (pushing (bs ! c)) = num_pushing bs + of_bool (pushing b)"
  unfolding num_pushing_def by (rule sum_list_map_update)

lemma waits_update: "\<exists>b \<in> set (bs[c := b']). waits_full b \<Longrightarrow> waits_full b' \<or> (\<exists>b \<in> set bs. waits_full b)"
  using set_update_subset_insert [of bs c b'] by auto

lemma waits_not_pushing: "waits_full b \<Longrightarrow> \<not> pushing b"
  by (auto simp: waits_full_def pushing_def split: caller_pc.splits)

text \<open>A step of one caller: the slots and the callers pushing do not become fewer.\<close>

lemma slots_claimed_update:
  assumes "slots_claimed s" and "c < length (batches s)" and "batches s' = (batches s)[c := b]"
    and "waits_full b \<Longrightarrow> waits_full (batches s ! c) \<or> QUEUE_CAPACITY \<le> q_count (queue s')"
    and "q_count (queue s) + of_bool (pushing (batches s ! c)) \<le> q_count (queue s') + of_bool (pushing b)"
  shows "slots_claimed s'"
proof -
  have "waits_full b \<or> (\<exists>b \<in> set (batches s). waits_full b)" if "\<exists>b \<in> set (batches s'). waits_full b"
    using that waits_update assms(3) by simp
  moreover have "\<exists>b \<in> set (batches s). waits_full b" if "waits_full (batches s ! c)"
    using that assms(2) by auto
  ultimately show ?thesis
    using assms(1,3,4,5) num_pushing_update [OF assms(2), of b] by (fastforce simp: slots_claimed_def)
qed

lemma slots_claimed_step:
  assumes "pool_data s" and inv: "slots_claimed s" and "pool_step s (Some s')"
  shows "slots_claimed s'"
  using assms(3)
proof (cases rule: pool_step_E)
  case (dequeue k wi q bs)
  have q: "queue_inv (queue s)" using assms(1) by (simp add: pool_data_def)
  note t = queue_take_in_flight(4) [OF q dequeue(3,4)]
  from dequeue(5) show ?thesis
  proof cases
    case no_caller_waits
    then show ?thesis using dequeue(6) by (simp add: slots_claimed_def)
  next
    case (wakes_caller c)
    show ?thesis
      by (rule slots_claimed_update [OF inv wakes_caller(2), of _ "wake_full (batches s ! c)"])
        (use wakes_caller dequeue(6) t waits_not_pushing in simp_all)
  qed
next
  case (execute k wi r c b)
  show ?thesis
    by (rule slots_claimed_update [OF inv execute(5), of _ "b\<lparr>b_outs := (b_outs b)[wi_index wi := Some r]\<rparr>"])
      (use execute in \<open>simp_all add: waits_full_def pushing_def\<close>)
next
  case (finish k wi c b)
  show ?thesis
    by (rule slots_claimed_update [OF inv finish(4), of _ "b\<lparr>b_remaining := b_remaining b - 1\<rparr>"])
      (use finish in \<open>simp_all add: waits_full_def pushing_def\<close>)
next
  case (signal k c b)
  show ?thesis
    by (rule slots_claimed_update [OF inv signal(3), of _ "if b_pc b = P_WaitDone then b\<lparr>b_pc := P_Check\<rparr> else b"])
      (use signal in \<open>auto simp: waits_full_def pushing_def split: if_splits\<close>)
next
  case (full c i)
  show ?thesis
    using inv full by (simp add: slots_claimed_def)
next
  case (enqueue c i wi q ws)
  have "q_count q = Suc (q_count (queue s))"
    using enqueue(6) by (auto simp: queue_put_def split: Option.bind_splits)
  then show ?thesis
    by (intro slots_claimed_update [OF inv enqueue(1), of _ "(batches s ! c)\<lparr>b_pc := push_or_check (b_n (batches s ! c)) (i + 1)\<rparr>"])
      (use enqueue in \<open>auto simp: waits_full_def pushing_def push_or_check_def split: if_splits\<close>)
next
  case (check_wait c)
  show ?thesis
    by (rule slots_claimed_update [OF inv check_wait(1), of _ "(batches s ! c)\<lparr>b_pc := P_WaitDone\<rparr>"])
      (use check_wait in \<open>simp_all add: waits_full_def pushing_def\<close>)
next
  case (check_done c)
  show ?thesis
    by (rule slots_claimed_update [OF inv check_done(1), of _ "(batches s ! c)\<lparr>b_pc := P_Return\<rparr>"])
      (use check_done in \<open>simp_all add: waits_full_def pushing_def\<close>)
next
  case (wake_pusher c)
  show ?thesis
    by (rule slots_claimed_update [OF inv wake_pusher(1), of _ "wake_full (batches s ! c)"])
      (use wake_pusher waits_not_pushing in simp_all)
next
  case (wake_waiter c)
  show ?thesis
    by (rule slots_claimed_update [OF inv wake_waiter(1), of _ "(batches s ! c)\<lparr>b_pc := P_Check\<rparr>"])
      (use wake_waiter in \<open>simp_all add: waits_full_def pushing_def\<close>)
qed (use inv in \<open>simp_all add: slots_claimed_def\<close>)

end
