(* ===== verification/Threadpool_Run.thy ===== *)
theory Threadpool_Run
  imports Threadpool_Inv
begin

text \<open>
  Runs of the pool from its creation: what a call of \<^verbatim>\<open>pool_run\<close> has computed when it returns,
  that the threads neither stop short nor run forever, and the one kind of undefined behaviour that
  they can run into without \<^verbatim>\<open>bpe_pool_destroy\<close>.
\<close>

subsection \<open>Creation\<close>

lemma spawn_workers_lock: "set (spawn_workers ok n i ws) \<subseteq> set ws \<union> {W_Lock}"
proof (induction ok n i ws rule: spawn_workers.induct)
  case (1 ok n i ws)
  show ?case
  proof (cases "int i < n \<and> ok i")
    case True
    then show ?thesis using 1 by (subst spawn_workers.simps) auto
  qed (subst spawn_workers.simps, auto)
qed

lemma pool_create_fields:
  "set (workers (bpe_pool_create hw ok n)) \<subseteq> {W_Lock}" "queue (bpe_pool_create hw ok n) = queue_init"
  "freed (bpe_pool_create hw ok n) = False"
  using spawn_workers_lock [of _ _ _ "[]"] by (simp_all add: bpe_pool_create_def Let_def)

lemma int_cast_small: "n < 2147483648 \<Longrightarrow> int_cast n = int n"
proof -
  assume n: "n < 2147483648"
  have "int_cast n = sint (word_of_int (int n) :: 32 word)" by (simp add: int_cast_def)
  also have "\<dots> = signed_take_bit 31 (int n)" unfolding sint_sbintrunc' by simp
  finally show ?thesis using n by (simp add: signed_take_bit_int_eq_self)
qed

lemma int_cast_le: "int_cast n \<le> int n"
proof (cases "n < 2147483648")
  case False
  have "int_cast n < 2147483648" unfolding int_cast_def using sint_lt [of "word_of_nat n :: 32 word"] by simp
  then show ?thesis using False by linarith
qed (simp add: int_cast_small)

text \<open>A call that has just been made.\<close>

definition fresh :: "batch \<Rightarrow> bool" where
  "fresh b \<longleftrightarrow> (\<exists>tok texts type limit. b = pool_run tok texts (int_cast (length texts)) type limit)"

lemma fresh_batches:
  "fresh (bpe_pool_encode_batch tok texts)" "fresh (bpe_pool_count_batch tok texts)"
  "fresh (bpe_pool_count_till_limit_batch tok texts token_limit)"
  unfolding fresh_def bpe_pool_encode_batch_def bpe_pool_count_batch_def bpe_pool_count_till_limit_batch_def by blast+

lemma fresh_facts:
  assumes "fresh b"
  shows "pc_ok b" "pushed b = 0" "\<not> waits_full b" "b_pc b \<noteq> P_WaitDone" "batch_inv c b {#} {#}"
proof -
  obtain tok texts type limit where b: "b = pool_run tok texts (int_cast (length texts)) type limit"
    using assms by (auto simp: fresh_def)
  show "pushed b = 0" by (auto simp: b pool_run_def pushed_def push_or_check_def)
  then show "batch_inv c b {#} {#}" using int_cast_le [of "length texts"]
    by (auto simp: batch_inv_def executed_def open_items_def) (auto simp: b pool_run_def)
qed (use assms in \<open>auto simp: fresh_def pool_run_def push_or_check_def pc_ok_def waits_full_def split: if_splits\<close>)

subsection \<open>Reachable states\<close>

text \<open>What a step leaves alone: the number of workers and the arguments of the calls.\<close>

definition same_call :: "batch \<Rightarrow> batch \<Rightarrow> bool" where
  "same_call b b' \<longleftrightarrow> b_tok b' = b_tok b \<and> b_texts b' = b_texts b \<and> b_type b' = b_type b \<and>
     b_limit b' = b_limit b \<and> b_n b' = b_n b"

lemma same_call_refl: "same_call b b"
  by (simp add: same_call_def)

lemma same_call_trans: "same_call a b \<Longrightarrow> same_call b c \<Longrightarrow> same_call a c"
  by (simp add: same_call_def)

lemma same_call_update: "c < length bs \<Longrightarrow> same_call (bs ! c) b \<Longrightarrow> list_all2 same_call bs (bs[c := b])"
  by (auto simp: list_all2_conv_all_nth nth_list_update same_call_refl)

lemma same_call_wake: "same_call b (wake_full b)"
  by (auto simp: same_call_def wake_full_def split: caller_pc.split)

lemma pool_step_frame:
  assumes "pool_step s (Some s')"
  shows "list_all2 same_call (batches s) (batches s') \<and> length (workers s') = length (workers s)"
  using assms
proof (cases rule: pool_step_E)
  case (dequeue k wi q bs)
  from dequeue(5) have "list_all2 same_call (batches s) bs"
    by cases (auto simp: same_call_update same_call_wake same_call_refl list.rel_refl)
  then show ?thesis using dequeue(6) by simp
next
  case (enqueue c i wi q ws)
  then show ?thesis using woke_in_flight(3) [OF signal_worker_woke [OF enqueue(7)]]
    by (auto intro!: same_call_update simp: same_call_def)
qed (auto intro!: same_call_update simp: same_call_refl same_call_wake list.rel_refl, simp_all add: same_call_def)

definition pool_inv :: "pool \<Rightarrow> bool" where
  "pool_inv s \<longleftrightarrow> pool_data s \<and> waits_signalled s \<and> workers_awake s \<and> slots_claimed s"

lemma pool_inv_step: "pool_inv s \<Longrightarrow> pool_step s (Some s') \<Longrightarrow> pool_inv s'"
  unfolding pool_inv_def
  using pool_data_step waits_signalled_step workers_awake_step slots_claimed_step by blast

lemma pool_inv_new:
  assumes "\<forall>b \<in> set (batches s). fresh b" and ws: "set (workers s) \<subseteq> {W_Lock}" and q: "queue s = queue_init"
    and fr: "freed s = False"
  shows "pool_inv s"
proof -
  have "sum_list (map holding ws) = {#} \<and> sum_list (map executing ws) = {#}" if "set ws \<subseteq> {W_Lock}" for ws
    using that by (induction ws) auto
  from this [OF ws] have e: "in_flight [] (workers s) = {#}" "unexecuted [] (workers s) = {#}"
    by (simp_all add: in_flight_def unexecuted_def)
  have b: "fresh (batches s ! c)" if "c < length (batches s)" for c using assms(1) that by auto
  have w: "w = W_Lock" if "w \<in> set (workers s)" for w using ws that by auto
  have "data_inv (batches s) {#} {#}" using b fresh_facts(5) by (simp add: data_inv_def keys_distinct_def)
  moreover have "\<forall>b \<in> set (batches s). pc_ok b" using assms(1) fresh_facts(1) by auto
  moreover have "W_Signal c \<notin> set (workers s)" for c using w by blast
  ultimately have "pool_data s" unfolding pool_data_def q fr queue_init_ok e by simp
  moreover have "waits_signalled s"
    unfolding waits_signalled_def using b fresh_facts(4) by blast
  moreover have "q_count queue_init = 0" by (simp add: queue_init_def)
  then have "workers_awake s"
    unfolding workers_awake_def q using w by auto
  moreover have "slots_claimed s"
    unfolding slots_claimed_def using assms(1) fresh_facts(3) by blast
  ultimately show ?thesis by (simp add: pool_inv_def)
qed

lemma pool_inv_start:
  assumes "\<forall>b \<in> set bs. fresh b"
  shows "pool_inv ((bpe_pool_create hw ok n)\<lparr>batches := bs\<rparr>)"
proof (rule pool_inv_new)
  show "set (workers ((bpe_pool_create hw ok n)\<lparr>batches := bs\<rparr>)) \<subseteq> {W_Lock}"
    using pool_create_fields(1) by simp
  show "queue ((bpe_pool_create hw ok n)\<lparr>batches := bs\<rparr>) = queue_init"
    using pool_create_fields(2) by simp
  show "freed ((bpe_pool_create hw ok n)\<lparr>batches := bs\<rparr>) = False"
    using pool_create_fields(3) by simp
qed (use assms in simp)

lemma reach_inv:
  assumes "pool_reach (bpe_pool_create hw ok n) bs s" and "\<forall>b \<in> set bs. fresh b"
  shows "pool_inv s" and "list_all2 same_call bs (batches s)"
    and "length (workers s) = length (workers (bpe_pool_create hw ok n))"
proof -
  from assms(1) have "pool_inv s \<and> list_all2 same_call bs (batches s) \<and>
      length (workers s) = length (workers (bpe_pool_create hw ok n))"
  proof induction
    case start
    then show ?case using pool_inv_start [OF assms(2)] by (simp add: list.rel_refl same_call_refl)
  next
    case (step s s')
    have "list_all2 same_call bs (batches s')"
      using list_all2_trans [of same_call same_call same_call bs "batches s" "batches s'"] same_call_trans
        step.IH pool_step_frame [OF step(2)] by blast
    then show ?case using pool_inv_step [OF _ step(2)] step.IH pool_step_frame [OF step(2)] by simp
  qed
  then show "pool_inv s" and "list_all2 same_call bs (batches s)"
    and "length (workers s) = length (workers (bpe_pool_create hw ok n))" by auto
qed


subsection \<open>Results\<close>

lemma sequential_all:
  assumes "\<And>i. i < length texts \<Longrightarrow> outs ! i = run_text type tok limit (texts ! i) \<and> outs ! i \<noteq> None"
    and "length outs = length texts"
  shows "\<exists>rs. sequential_batch type tok limit texts = Some rs \<and> outs = map Some rs"
  using assms
proof (induction texts arbitrary: outs)
  case (Cons t ts)
  obtain out outs' where o: "outs = out # outs'" using Cons.prems(2) by (cases outs) auto
  have "\<exists>rs. sequential_batch type tok limit ts = Some rs \<and> outs' = map Some rs"
  proof (rule Cons.IH)
    show "length outs' = length ts" using Cons.prems(2) by (simp add: o)
    show "outs' ! i = run_text type tok limit (ts ! i) \<and> outs' ! i \<noteq> None" if "i < length ts" for i
      using Cons.prems(1) [of "Suc i"] that by (simp add: o del: not_None_eq) metis
  qed
  then obtain rs where rs: "sequential_batch type tok limit ts = Some rs" "outs' = map Some rs" by blast
  have e: "out = run_text type tok limit t" using Cons.prems(1) [of 0] by (simp add: o)
  obtain r where r: "out = Some r" using Cons.prems(1) [of 0] by (auto simp: o)
  then have "run_text type tok limit t = Some r" using e by simp
  then show ?case using rs r by (intro exI [of _ "r # rs"]) (simp add: o)
qed simp

lemma item_result_eq:
  "i < length (b_texts b) \<Longrightarrow> item_result b c i = run_text (b_type b) (b_tok b) (b_limit b) (b_texts b ! i)"
  by (cases "b_type b") (simp_all add: item_result_def make_item_def execute_work_item_def run_text_def)

lemma batch_result:
  assumes inv: "pool_data s" and c: "c < length (batches s)" and ret: "b_pc (batches s ! c) = P_Return"
    and n: "b_n (batches s ! c) = int (length (b_texts (batches s ! c)))"
  shows "\<exists>rs. sequential_batch (b_type (batches s ! c)) (b_tok (batches s ! c)) (b_limit (batches s ! c))
      (b_texts (batches s ! c)) = Some rs \<and> b_outs (batches s ! c) = map Some rs"
proof -
  let ?b = "batches s ! c" and ?M = "in_flight (queue_items (queue s)) (workers s)"
    and ?T = "unexecuted (queue_items (queue s)) (workers s)"
  have "pc_ok ?b" using inv c by (auto simp: pool_data_def)
  then have rem: "b_remaining ?b \<le> 0" using ret by (simp add: pc_ok_def)
  have b: "batch_inv c ?b ?M ?T" using inv c by (simp add: pool_data_def data_inv_def)
  have p: "pushed ?b = length (b_texts ?b)" using ret n by (simp add: pushed_def)
  have "open_items c ?M = 0" using b rem p n by (simp add: batch_inv_def)
  then have "wi_tracker wi \<noteq> c" if "wi \<in># ?M" for wi
    using multi_member_split [OF that] by (auto simp: open_items_def)
  then have "wi_tracker wi \<noteq> c" if "wi \<in># ?T" for wi
    using that mset_subset_eqD [OF unexecuted_sub] by blast
  then have "executed c ?b ?T i" if "i < length (b_texts ?b)" for i
    using that p by (auto simp: executed_def key_def)
  then have "b_outs ?b ! i = item_result ?b c i \<and> item_result ?b c i \<noteq> None" if "i < length (b_texts ?b)" for i
    using b that by (simp add: batch_inv_def)
  moreover have "length (b_outs ?b) = length (b_texts ?b)" using b by (simp add: batch_inv_def)
  ultimately show ?thesis using item_result_eq [of _ ?b c] by (intro sequential_all) simp_all
qed

lemma pool_results:
  assumes reach: "pool_reach (bpe_pool_create hw ok n) bs s" and fresh: "\<forall>b \<in> set bs. fresh b"
    and c: "c < length bs" and call: "bs ! c = pool_run tok texts (int_cast (length texts)) type limit"
    and small: "length texts < 2147483648" and ret: "b_pc (batches s ! c) = P_Return"
  shows "\<exists>rs. sequential_batch type tok limit texts = Some rs \<and> b_outs (batches s ! c) = map Some rs"
proof -
  have same: "same_call (bs ! c) (batches s ! c)" and len: "length (batches s) = length bs"
    using list_all2_nthD [OF reach_inv(2) [OF reach fresh] c] list_all2_lengthD [OF reach_inv(2) [OF reach fresh]] by auto
  show ?thesis
    using batch_result [of s c] reach_inv(1) [OF reach fresh] c len ret same call small
    by (simp add: same_call_def pool_inv_def pool_run_def int_cast_small)
qed

subsection \<open>Progress\<close>

lemma signal_worker_total: "\<exists>ws'. signal_worker ws ws'"
proof (cases "W_Wait \<in> set ws")
  case True
  then show ?thesis by (auto simp: in_set_conv_nth intro: signal_worker.wakes)
qed (auto intro: signal_worker.none_waits)

lemma signal_caller_total: "\<exists>bs'. signal_caller bs bs'"
proof (cases "\<exists>b \<in> set bs. waits_full b")
  case True
  then obtain c where "c < length bs" "waits_full (bs ! c)" by (auto simp: in_set_conv_nth)
  then show ?thesis using signal_caller.wakes_caller by blast
qed (auto intro: signal_caller.no_caller_waits)

text \<open>A worker can go on unless it waits or has left.\<close>

lemma worker_moves:
  assumes inv: "pool_data s" and k: "k < length (workers s)" and w: "workers s ! k \<noteq> W_Wait" "workers s ! k \<noteq> W_Exit"
  shows "\<exists>r. worker_step k s r"
proof (cases "workers s ! k")
  case W_Lock
  obtain bs where bs: "signal_caller (batches s) bs" using signal_caller_total by blast
  show ?thesis
  proof (cases "queue_take (queue s)")
    case None
    then show ?thesis using W_Lock by (cases "q_count (queue s) = 0"; cases "q_shutdown (queue s)")
      (auto intro: worker_step.intros)
  next
    case (Some x)
    then show ?thesis using W_Lock bs
      by (cases "q_count (queue s) = 0"; cases "q_shutdown (queue s)"; cases x) (auto intro: worker_step.intros)
  qed
next
  case (W_Exec wi)
  have "wi \<in># in_flight (queue_items (queue s)) (workers s)"
    by (rule held_in_flight [OF k]) (simp add: W_Exec)
  then have "wi_tracker wi < length (batches s)" using inv by (simp add: pool_data_def data_inv_def item_ok_def)
  then show ?thesis using worker_step.execute [OF W_Exec] worker_step.execute_none [OF W_Exec]
    by (cases "execute_work_item wi") (auto simp: rd_def)
next
  case (W_Finish wi)
  have "wi \<in># in_flight (queue_items (queue s)) (workers s)"
    by (rule held_in_flight [OF k]) (simp add: W_Finish)
  then have "wi_tracker wi < length (batches s)" using inv by (simp add: pool_data_def data_inv_def item_ok_def)
  then show ?thesis using worker_step.finish [OF W_Finish] by (auto simp: rd_def)
next
  case (W_Signal c)
  then have "c < length (batches s)" using inv k nth_mem by (fastforce simp: pool_data_def)
  then show ?thesis using worker_step.signal [OF W_Signal] by (auto simp: rd_def)
qed (use w in simp_all)

lemma caller_moves:
  assumes "b_pc (batches s ! c) = P_Push i \<or> b_pc (batches s ! c) = P_Check"
  shows "\<exists>r. caller_step c s r"
proof -
  obtain ws where ws: "signal_worker (workers s) ws" using signal_worker_total by blast
  show ?thesis
  proof (cases "enqueue_item (batches s ! c) c i (queue s)")
    case None
    then show ?thesis using assms
      by (cases "freed s"; cases "q_count (queue s) = QUEUE_CAPACITY"; cases "0 < b_remaining (batches s ! c)")
        (auto intro: caller_step.intros)
  next
    case (Some q)
    then show ?thesis using assms ws
      by (cases "freed s"; cases "q_count (queue s) = QUEUE_CAPACITY"; cases "0 < b_remaining (batches s ! c)")
        (auto intro: caller_step.intros)
  qed
qed


lemma stuck_returned:
  assumes inv: "pool_inv s" and run: "\<not> q_shutdown (queue s)" "workers s \<noteq> []"
    and stuck: "\<not> (\<exists>r. thread_step s r)" and b: "b \<in> set (batches s)"
  shows "b_pc b = P_Return"
proof (rule ccontr)
  assume nr: "b_pc b \<noteq> P_Return"
  obtain c where c: "c < length (batches s)" "b = batches s ! c" using b by (auto simp: in_set_conv_nth)
  have data: "pool_data s" using inv by (simp add: pool_inv_def)
  have w: "workers s ! k = W_Wait" if k: "k < length (workers s)" for k
  proof (rule ccontr)
    assume nw: "workers s ! k \<noteq> W_Wait"
    have "workers s ! k \<noteq> W_Exit"
      using inv run(1) nth_mem [OF k] by (auto simp: pool_inv_def workers_awake_def)
    then show False using worker_moves [OF data k nw] stuck thread_step.of_worker [OF k] by blast
  qed
  then have none: "w = W_Wait" if "w \<in> set (workers s)" for w using that by (auto simp: in_set_conv_nth)
  have empty: "q_count (queue s) = 0"
    using inv run none by (auto simp: pool_inv_def workers_awake_def)
  have calm: "\<not> (\<exists>i. b_pc (batches s ! d) = P_Push i) \<and> b_pc (batches s ! d) \<noteq> P_Check" if "d < length (batches s)" for d
    using caller_moves [of s d] stuck thread_step.of_caller [OF that] by blast
  then have "\<not> pushing x" if "x \<in> set (batches s)" for x
    using that by (auto simp: in_set_conv_nth pushing_def)
  then have "num_pushing bs = 0" if "set bs \<subseteq> set (batches s)" for bs
    using that by (induction bs) (auto simp: num_pushing_def)
  then have "num_pushing (batches s) = 0" by blast
  then have "\<not> waits_full b" using inv empty b cap_pos by (auto simp: pool_inv_def slots_claimed_def simp del: cap_pos)
  then have pc: "b_pc b = P_WaitDone" using calm [OF c(1)] nr by (cases "b_pc b") (auto simp: c(2) waits_full_def)
  then have pos: "0 < b_remaining b"
    using inv c none by (auto simp: pool_inv_def waits_signalled_def)
  have "sum_list (map holding ws) = {#}" if "set ws \<subseteq> {W_Wait}" for ws
    using that by (induction ws) auto
  then have "sum_list (map holding (workers s)) = {#}" using none by blast
  moreover have "queue_items (queue s) = []" using empty by (simp add: queue_items_def)
  ultimately have "in_flight (queue_items (queue s)) (workers s) = {#}" by (simp add: in_flight_def)
  moreover have "batch_inv c b (in_flight (queue_items (queue s)) (workers s)) (unexecuted (queue_items (queue s)) (workers s))"
    using data c by (simp add: pool_data_def data_inv_def)
  ultimately show False using pos pc by (auto simp: batch_inv_def open_items_def pushed_def split: if_splits)
qed

text \<open>Work left: it becomes less with every step of a thread.\<close>

fun worker_work :: "worker \<Rightarrow> nat" where
  "worker_work W_Lock = 1"
| "worker_work (W_Exec wi) = 5"
| "worker_work (W_Finish wi) = 4"
| "worker_work (W_Signal c) = 3"
| "worker_work _ = 0"

definition batch_work :: "batch \<Rightarrow> nat" where
  "batch_work b = 8 * (nat (b_n b) - pushed b) +
     (case b_pc b of P_Push i \<Rightarrow> 2 | P_WaitFull i \<Rightarrow> 1 | P_Check \<Rightarrow> 1 | _ \<Rightarrow> 0)"

definition pool_work :: "pool \<Rightarrow> nat" where
  "pool_work s = sum_list (map worker_work (workers s)) + 6 * q_count (queue s) + sum_list (map batch_work (batches s))"

lemma worker_work_update:
  "k < length ws \<Longrightarrow> sum_list (map worker_work (ws[k := w])) + worker_work (ws ! k) = sum_list (map worker_work ws) + worker_work w"
  by (rule sum_list_map_update)

lemma batch_work_update:
  "c < length bs \<Longrightarrow> sum_list (map batch_work (bs[c := b])) + batch_work (bs ! c) = sum_list (map batch_work bs) + batch_work b"
  by (rule sum_list_map_update)

lemma batch_work_simps [simp]:
  "batch_work (b\<lparr>b_outs := os\<rparr>) = batch_work b" "batch_work (b\<lparr>b_remaining := n\<rparr>) = batch_work b"
  by (simp_all add: batch_work_def)

lemma wake_full_work: "batch_work (wake_full b) \<le> batch_work b + 1"
  by (auto simp: batch_work_def wake_full_def pushed_def split: caller_pc.split)

lemma signal_caller_work: "signal_caller bs bs' \<Longrightarrow> sum_list (map batch_work bs') \<le> sum_list (map batch_work bs) + 1"
proof (induction rule: signal_caller.induct)
  case (wakes_caller c bs)
  then show ?case using batch_work_update [OF wakes_caller(1), of "wake_full (bs ! c)"] wake_full_work [of "bs ! c"]
    by linarith
qed simp

lemma signal_worker_work: "signal_worker ws ws' \<Longrightarrow> sum_list (map worker_work ws') \<le> sum_list (map worker_work ws) + 1"
proof (induction rule: signal_worker.induct)
  case (wakes k ws)
  then show ?case using worker_work_update [OF wakes(1), of W_Lock] by simp
qed simp


lemma thread_step_work:
  assumes "pool_data s" and "thread_step s (Some s')"
  shows "pool_work s' < pool_work s"
  using assms(2)
proof (cases rule: thread_step_E)
  case (idle k)
  then show ?thesis using worker_work_update [OF idle(1), of "if q_shutdown (queue s) then W_Exit else W_Wait"]
    by (auto simp: pool_work_def)
next
  case (dequeue k wi q bs)
  have "queue_inv (queue s)" using assms(1) by (simp add: pool_data_def)
  note t = queue_take_in_flight(4) [OF this dequeue(3,4)]
  show ?thesis
    using worker_work_update [OF dequeue(1), of "W_Exec wi"] signal_caller_work [OF dequeue(5)] t dequeue(2,6)
    by (simp add: pool_work_def)
next
  case (execute k wi r c b)
  then show ?thesis
    using worker_work_update [OF execute(1), of "W_Finish wi"]
      batch_work_update [OF execute(5), of "b\<lparr>b_outs := (b_outs b)[wi_index wi := Some r]\<rparr>"]
    by (simp add: pool_work_def)
next
  case (finish k wi c b)
  let ?w = "if b_remaining b = 1 then W_Signal c else W_Lock"
  have "worker_work ?w \<le> 3" by simp
  then show ?thesis
    using worker_work_update [OF finish(1), of ?w] finish(2,5,7)
      batch_work_update [OF finish(4), of "b\<lparr>b_remaining := b_remaining b - 1\<rparr>"]
    by (simp add: pool_work_def)
next
  case (signal k c b)
  let ?b = "if b_pc b = P_WaitDone then b\<lparr>b_pc := P_Check\<rparr> else b"
  have "batch_work ?b \<le> batch_work b + 1" by (simp add: batch_work_def pushed_def)
  then show ?thesis
    using worker_work_update [OF signal(1), of W_Lock] batch_work_update [OF signal(3), of ?b] signal(2,4,6)
    by (simp add: pool_work_def)
next
  case (full c i)
  have "batch_work ((batches s ! c)\<lparr>b_pc := P_WaitFull i\<rparr>) < batch_work (batches s ! c)"
    using full(2) by (simp add: batch_work_def pushed_def)
  then show ?thesis
    using batch_work_update [OF full(1), of "(batches s ! c)\<lparr>b_pc := P_WaitFull i\<rparr>"] full(4)
    by (simp add: pool_work_def)
next
  case (enqueue c i wi q ws)
  let ?b = "(batches s ! c)\<lparr>b_pc := push_or_check (b_n (batches s ! c)) (i + 1)\<rparr>"
  have "pc_ok (batches s ! c)" using assms(1) nth_mem [OF enqueue(1)] by (simp add: pool_data_def)
  then have "int i < b_n (batches s ! c)" using enqueue(2) by (simp add: pc_ok_def)
  then have i: "i < nat (b_n (batches s ! c))" and "pushed ?b = Suc i" using pushed_next [of i "batches s ! c"] by linarith+
  then have "batch_work ?b \<le> 8 * (nat (b_n (batches s ! c)) - Suc i) + 2"
    by (simp add: batch_work_def push_or_check_def)
  moreover have "batch_work (batches s ! c) = 8 * (nat (b_n (batches s ! c)) - i) + 2"
    using enqueue(2) by (simp add: batch_work_def pushed_def)
  ultimately have "batch_work ?b + 8 \<le> batch_work (batches s ! c)" using i by linarith
  moreover have "q_count q = Suc (q_count (queue s))"
    using enqueue(6) by (auto simp: queue_put_def split: Option.bind_splits)
  ultimately show ?thesis
    using batch_work_update [OF enqueue(1), of ?b] signal_worker_work [OF enqueue(7)] enqueue(8)
    by (simp add: pool_work_def)
next
  case (check_wait c)
  then show ?thesis using batch_work_update [OF check_wait(1), of "(batches s ! c)\<lparr>b_pc := P_WaitDone\<rparr>"]
    by (simp add: pool_work_def batch_work_def pushed_def)
next
  case (check_done c)
  then show ?thesis using batch_work_update [OF check_done(1), of "(batches s ! c)\<lparr>b_pc := P_Return\<rparr>"]
    by (simp add: pool_work_def batch_work_def pushed_def)
qed


text \<open>Runs of the threads, without shutdown and spurious wake-ups.\<close>

inductive thread_run :: "pool \<Rightarrow> nat \<Rightarrow> pool \<Rightarrow> bool" for s where
  run_0: "thread_run s 0 s"
| run_Suc: "thread_run s m s' \<Longrightarrow> thread_step s' (Some s'') \<Longrightarrow> thread_run s (Suc m) s''"

lemma thread_step_shutdown: "thread_step s (Some s') \<Longrightarrow> q_shutdown (queue s') = q_shutdown (queue s)"
  by (erule thread_step_E) (auto simp: queue_take_shutdown queue_put_shutdown)

lemma thread_run_inv:
  assumes "thread_run s m s'" and "pool_inv s"
  shows "pool_inv s' \<and> q_shutdown (queue s') = q_shutdown (queue s) \<and> length (workers s') = length (workers s) \<and>
    list_all2 same_call (batches s) (batches s') \<and> m + pool_work s' \<le> pool_work s"
  using assms(1)
proof induction
  case run_0
  then show ?case using assms(2) by (simp add: list.rel_refl same_call_refl)
next
  case (run_Suc m s' s'')
  note p = pool_step.by_thread [OF run_Suc(2)]
  have "list_all2 same_call (batches s) (batches s'')"
    using list_all2_trans [of same_call same_call same_call "batches s" "batches s'" "batches s''"] same_call_trans
      run_Suc.IH pool_step_frame [OF p] by blast
  moreover have "pool_data s'" using run_Suc.IH by (simp add: pool_inv_def)
  note thread_step_work [OF this run_Suc(2)]
  ultimately show ?case
    using pool_inv_step [OF _ p] pool_step_frame [OF p] thread_step_shutdown [OF run_Suc(2)] run_Suc.IH by simp
qed

lemma unexecuted_text:
  assumes inv: "pool_data s" and wi: "wi \<in># unexecuted [] (workers s)"
  shows "\<exists>b \<in> set (batches s). \<exists>t \<in> set (b_texts b).
    execute_work_item wi = run_text (b_type b) (b_tok b) (b_limit b) t"
proof -
  have "wi \<in># in_flight (queue_items (queue s)) (workers s)"
    using wi mset_subset_eqD [OF unexecuted_sub [of "[]" "workers s"]] by (auto simp: in_flight_def)
  then have "item_ok (batches s) wi" using inv by (simp add: pool_data_def data_inv_def)
  then have c: "wi_tracker wi < length (batches s)"
    and mk: "make_item (batches s ! wi_tracker wi) (wi_tracker wi) (wi_index wi) = Some wi" by (auto simp: item_ok_def)
  let ?b = "batches s ! wi_tracker wi"
  have i: "wi_index wi < length (b_texts ?b)" using make_item_SomeD [OF mk] by simp
  have "execute_work_item wi = run_text (b_type ?b) (b_tok ?b) (b_limit ?b) (b_texts ?b ! wi_index wi)"
    using item_result_eq [OF i, of "wi_tracker wi"] mk by (simp add: item_result_def)
  moreover have "?b \<in> set (batches s)" and "b_texts ?b ! wi_index wi \<in> set (b_texts ?b)" using c i by simp_all
  ultimately show ?thesis by (intro bexI)
qed

subsection \<open>Undefined behaviour\<close>

lemma in_flight_caller:
  assumes "pool_data s" and "wi \<in># in_flight (queue_items (queue s)) (workers s)" and "wi_tracker wi = c"
  shows "b_pc (batches s ! c) \<noteq> P_Return" and "wi_index wi < length (b_outs (batches s ! c))"
proof -
  have ok: "item_ok (batches s) wi" using assms(1,2) by (simp add: pool_data_def data_inv_def)
  then have c: "c < length (batches s)" and mk: "make_item (batches s ! c) c (wi_index wi) = Some wi"
    using assms(3) by (auto simp: item_ok_def)
  have "pc_ok (batches s ! c)" using assms(1) c by (auto simp: pool_data_def)
  then show "b_pc (batches s ! c) \<noteq> P_Return" using pending_item [OF assms] by (auto simp: pc_ok_def)
  have "length (b_outs (batches s ! c)) = length (b_texts (batches s ! c))"
    using assms(1) c by (simp add: pool_data_def data_inv_def batch_inv_def)
  then show "wi_index wi < length (b_outs (batches s ! c))" using make_item_SomeD [OF mk] by simp
qed

text \<open>Before the shutdown the only undefined steps are the signal to a caller that has returned and the
  execution of an item that has no result.\<close>

lemma undefined_late_signal:
  assumes inv: "pool_data s" and up: "\<not> q_shutdown (queue s)" and step: "thread_step s None"
  shows "(\<exists>k c. k < length (workers s) \<and> workers s ! k = W_Signal c \<and> b_pc (batches s ! c) = P_Return) \<or>
    (\<exists>k wi. k < length (workers s) \<and> workers s ! k = W_Exec wi \<and> execute_work_item wi = None)"
  using step
proof cases
  case (of_worker k)
  note held = in_flight_caller [OF inv held_in_flight [OF of_worker(1)]]
  from of_worker(2) show ?thesis
  proof cases
    case dequeue_null
    have "queue_items (queue s) \<noteq> []" using dequeue_null(2) by (metis length_queue_items list.size(3) less_irrefl)
    then have "queue_take (queue s) \<noteq> None" using ring.take_law inv by (fastforce simp: pool_data_def)
    then show ?thesis using dequeue_null(3) by simp
  next
    case (execute wi r b)
    then show ?thesis using held [of wi "wi_tracker wi"] by (simp add: write_out_def rd_Some_iff)
  next
    case (execute_none wi)
    then show ?thesis using of_worker(1) by blast
  next
    case (finish wi b)
    then show ?thesis using held [of wi "wi_tracker wi"] by (simp add: decrement_def rd_Some_iff)
  next
    case (signal c b)
    then show ?thesis using of_worker(1) by (auto simp: signal_done_def rd_Some_iff split: if_splits)
  qed
next
  case (of_caller c)
  have pc: "pc_ok (batches s ! c)" using inv of_caller(1) by (auto simp: pool_data_def)
  have b: "nat (b_n (batches s ! c)) \<le> length (b_texts (batches s ! c))"
    using inv of_caller(1) by (simp add: pool_data_def data_inv_def batch_inv_def)
  from of_caller(2) show ?thesis
  proof cases
    case (enqueue_outside i)
    have "i < length (b_texts (batches s ! c))" using pc b enqueue_outside(1) by (simp add: pc_ok_def)
    then obtain wi where wi: "make_item (batches s ! c) c i = Some wi" by (simp add: make_item_def)
    have q: "queue_inv (queue s)" using inv by (simp add: pool_data_def)
    then have "q_count (queue s) < QUEUE_CAPACITY" using enqueue_outside(3) by (simp add: queue_inv_def)
    then have "queue_put (queue s) wi \<noteq> None" using ring.put_law [OF q, of wi] by auto
    then show ?thesis using enqueue_outside(4) wi by (simp add: enqueue_item_def)
  next
    case (push_freed i)
    then show ?thesis using inv up by (simp add: pool_data_def)
  qed
qed

lemma exec_unexecuted:
  assumes "k < length ws" and "ws ! k = W_Exec wi"
  shows "wi \<in># unexecuted [] ws"
proof -
  have "unexecuted [] ws = add_mset wi (unexecuted [] (ws[k := W_Lock]))"
    using in_flight_update(2) [OF assms(1), of "[]" W_Lock] assms(2) by simp
  then show ?thesis by simp
qed

text \<open>The same for the texts the calls were made with.\<close>

lemma unexecuted_call:
  assumes inv: "pool_data s" and same: "list_all2 same_call bs (batches s)" and wi: "wi \<in># unexecuted [] (workers s)"
  shows "\<exists>b \<in> set bs. \<exists>t \<in> set (b_texts b). execute_work_item wi = run_text (b_type b) (b_tok b) (b_limit b) t"
proof -
  from unexecuted_text [OF inv wi] obtain b t where b: "b \<in> set (batches s)" "t \<in> set (b_texts b)"
    "execute_work_item wi = run_text (b_type b) (b_tok b) (b_limit b) t" by blast
  obtain d where d: "d < length (batches s)" "b = batches s ! d" using b(1) by (auto simp: in_set_conv_nth)
  have "same_call (bs ! d) b" and "bs ! d \<in> set bs"
    using list_all2_nthD2 [OF same d(1)] list_all2_lengthD [OF same] d by auto
  then show ?thesis using b(2,3) by (intro bexI [of _ "bs ! d"] bexI [of _ t]) (simp_all add: same_call_def)
qed

text \<open>When the calls' texts have results, a late signal is the only undefined step.\<close>

definition late_signal :: "pool \<Rightarrow> bool" where
  "late_signal s \<longleftrightarrow> (\<exists>k c. k < length (workers s) \<and> workers s ! k = W_Signal c \<and> b_pc (batches s ! c) = P_Return)"

lemma undefined_step:
  assumes inv: "pool_data s" and same: "list_all2 same_call bs (batches s)" and up: "\<not> q_shutdown (queue s)"
    and step: "thread_step s None"
  shows "late_signal s \<or> (\<exists>k wi. k < length (workers s) \<and> workers s ! k = W_Exec wi \<and> execute_work_item wi = None \<and>
    (\<exists>b \<in> set bs. \<exists>t \<in> set (b_texts b). run_text (b_type b) (b_tok b) (b_limit b) t = None))"
  using undefined_late_signal [OF inv up step]
proof
  assume "\<exists>k wi. k < length (workers s) \<and> workers s ! k = W_Exec wi \<and> execute_work_item wi = None"
  then obtain k wi where k: "k < length (workers s)" "workers s ! k = W_Exec wi" "execute_work_item wi = None" by blast
  show ?thesis using unexecuted_call [OF inv same exec_unexecuted [OF k(1,2)]] k by metis
qed (simp add: late_signal_def)

lemma threads_finish:
  assumes reach: "pool_reach (bpe_pool_create hw ok n) bs s" and fresh: "\<forall>b \<in> set bs. fresh b"
    and up: "\<not> q_shutdown (queue s)" "workers (bpe_pool_create hw ok n) \<noteq> []"
    and runs: "\<forall>b \<in> set bs. \<forall>t \<in> set (b_texts b). run_text (b_type b) (b_tok b) (b_limit b) t \<noteq> None"
    and run: "thread_run s m s'"
  shows "m \<le> pool_work s"
    and "\<not> (\<exists>s''. thread_step s' (Some s'')) \<Longrightarrow> \<not> late_signal s' \<Longrightarrow> \<forall>b \<in> set (batches s'). b_pc b = P_Return"
proof -
  note inv = reach_inv [OF reach fresh]
  note r = thread_run_inv [OF run inv(1)]
  show "m \<le> pool_work s" using r by simp
  have same: "list_all2 same_call bs (batches s')"
    using list_all2_trans [of same_call same_call same_call bs "batches s" "batches s'"] same_call_trans inv(2) r by blast
  assume stuck: "\<not> (\<exists>s''. thread_step s' (Some s''))" and calm: "\<not> late_signal s'"
  have "pool_data s'" and up': "\<not> q_shutdown (queue s')" using r up(1) by (simp_all add: pool_inv_def)
  then have "\<not> thread_step s' None" using undefined_step [OF _ same up'] calm runs by blast
  then have "\<not> (\<exists>x. thread_step s' x)" using stuck by (metis not_Some_eq)
  moreover have "workers s' \<noteq> []" using r inv(3) up(2) by (metis length_0_conv)
  ultimately show "\<forall>b \<in> set (batches s'). b_pc b = P_Return"
    using stuck_returned [of s'] r up' by blast
qed

text \<open>And it happens: the worker decrements the counter to 0, the caller finds it 0 before it waits,
  and returns; then the worker locks the mutex in the frame of the caller.\<close>

lemma late_signal_reached:
  assumes p: "workers p = W_Lock # ws" "W_Wait \<notin> set ws" "queue p = queue_init" "\<not> freed p"
    and r: "run_text type tok limit t = Some r"
  shows "\<exists>s. pool_reach p [pool_run tok [t] 1 type limit] s \<and> thread_step s None \<and> late_signal s \<and>
    b_pc (batches s ! 0) = P_Return"
proof -
  define b0 where "b0 = pool_run tok [t] 1 type limit"
  define s0 where "s0 = \<lparr>workers = W_Lock # ws, queue = queue_init, batches = [b0], freed = False\<rparr>"
  have b0: "b_pc b0 = P_Push 0" "b_n b0 = 1" "b_remaining b0 = 1" "b_outs b0 = [None]"
    by (simp_all add: b0_def pool_run_def push_or_check_def)
  obtain wi where wi: "make_item b0 0 0 = Some wi" by (simp add: make_item_def b0_def pool_run_def)
  have idx: "wi_tracker wi = 0" "wi_index wi = 0" using make_item_SomeD [OF wi] by auto
  have ex: "execute_work_item wi = Some r"
    using item_result_eq [of 0 b0 0] wi r by (simp add: item_result_def) (simp add: b0_def pool_run_def)
  obtain q1 where q1: "queue_put queue_init wi = Some q1" "queue_inv q1" "queue_items q1 = [wi]"
    using ring.put_law [of queue_init wi] by auto
  then obtain q2 where q2: "queue_take q1 = Some (wi, q2)" using ring.take_law [of q1] by auto
  have cnt: "0 < q_count q1" and e: "q_count queue_init \<noteq> QUEUE_CAPACITY"
    using arg_cong [OF q1(3), of length] cap_pos by (simp_all add: queue_init_def del: cap_pos)
  define b1 where "b1 = b0\<lparr>b_pc := P_Check\<rparr>"
  define s1 where "s1 = \<lparr>workers = W_Lock # ws, queue = q1, batches = [b1], freed = False\<rparr>"
  define s2 where "s2 = \<lparr>workers = W_Exec wi # ws, queue = q2, batches = [b1], freed = False\<rparr>"
  define b3 where "b3 = b1\<lparr>b_outs := [Some r]\<rparr>"
  define s3 where "s3 = \<lparr>workers = W_Finish wi # ws, queue = q2, batches = [b3], freed = False\<rparr>"
  define b4 where "b4 = b3\<lparr>b_remaining := 0\<rparr>"
  define s4 where "s4 = \<lparr>workers = W_Signal 0 # ws, queue = q2, batches = [b4], freed = False\<rparr>"
  define s5 where "s5 = \<lparr>workers = W_Signal 0 # ws, queue = q2, batches = [b4\<lparr>b_pc := P_Return\<rparr>], freed = False\<rparr>"
  note defs = s0_def s1_def s2_def s3_def s4_def s5_def b1_def b3_def b4_def
  have 1: "caller_step 0 s0 (Some s1)"
    using caller_step.enqueue [of s0 0 0 q1 "W_Lock # ws"] p b0 wi q1(1) e
    by (simp add: defs enqueue_item_def push_or_check_def none_waits)
  have "signal_caller [b1] [b1]" by (rule no_caller_waits) (simp add: b1_def waits_full_def)
  then have 2: "worker_step 0 s1 (Some s2)"
    using worker_step.dequeue [of s1 0 wi q2 "[b1]"] p q2 cnt by (simp add: defs)
  have 3: "worker_step 0 s2 (Some s3)"
    using worker_step.execute [of s2 0 wi r b1] ex idx b0 by (simp add: defs write_out_def)
  have 4: "worker_step 0 s3 (Some s4)"
    using worker_step.finish [of s3 0 wi b3] idx b0 by (simp add: defs decrement_def)
  have 5: "caller_step 0 s4 (Some s5)"
    using caller_step.check_done [of s4 0] by (simp add: defs)
  have 6: "worker_step 0 s5 None"
    using worker_step.signal [of s5 0 0] by (simp add: defs signal_done_def)
  have w: "pool_step s (Some s')" if "worker_step 0 s (Some s')" "workers s \<noteq> []" for s s'
    using that by (auto intro: by_thread of_worker)
  have c: "pool_step s (Some s')" if "caller_step 0 s (Some s')" "batches s \<noteq> []" for s s'
    using that by (auto intro: by_thread of_caller)
  have "s0 = p\<lparr>batches := [b0]\<rparr>" by (rule pool.equality) (use p in \<open>simp_all add: s0_def\<close>)
  then have "pool_reach p [b0] s0" using pool_reach.start [of p "[b0]"] by simp
  then have "pool_reach p [b0] s1" by (rule pool_reach.step) (rule c [OF 1], simp add: s0_def)
  then have "pool_reach p [b0] s2" by (rule pool_reach.step) (rule w [OF 2], simp add: s1_def s0_def p)
  then have "pool_reach p [b0] s3" by (rule pool_reach.step) (rule w [OF 3], simp add: s2_def)
  then have "pool_reach p [b0] s4" by (rule pool_reach.step) (rule w [OF 4], simp add: s3_def)
  then have "pool_reach p [b0] s5" by (rule pool_reach.step) (rule c [OF 5], simp add: s4_def)
  moreover have "thread_step s5 None" by (rule of_worker [OF _ 6]) (simp add: s5_def s4_def)
  moreover have "b_pc (batches s5 ! 0) = P_Return" by (simp add: s5_def)
  moreover have "late_signal s5"
    unfolding late_signal_def by (rule exI [of _ 0], rule exI [of _ 0]) (simp add: s5_def)
  ultimately show ?thesis unfolding b0_def by blast
qed

lemma one_worker:
  "workers (bpe_pool_create 8 (\<lambda>i. True) 1) = W_Lock # []" "W_Wait \<notin> set []"
  "queue (bpe_pool_create 8 (\<lambda>i. True) 1) = queue_init" "\<not> freed (bpe_pool_create 8 (\<lambda>i. True) 1)"
  by (simp_all add: bpe_pool_create_def MAX_POOL_THREADS_def spawn_workers.simps)

subsection \<open>Batches too large and pools without workers\<close>

lemma int_cast_large:
  assumes "2147483648 \<le> n" and "n < 4294967296"
  shows "int_cast n = int n - 4294967296"
proof -
  have "int_cast n = sint (word_of_int (int n) :: 32 word)" by (simp add: int_cast_def)
  also have "\<dots> = signed_take_bit 31 (int n)" unfolding sint_sbintrunc' by simp
  also have "\<dots> = (int n + 2147483648) mod 4294967296 - 2147483648"
    by (simp add: signed_take_bit_eq_take_bit_shift take_bit_eq_mod)
  also have "\<dots> = int n - 4294967296"
    using assms mod_add_self2 [of "int n - 2147483648" 4294967296] by (simp add: algebra_simps)
  finally show ?thesis .
qed

text \<open>Such a call pushes nothing, finds its counter below 0 and returns.\<close>

lemma large_batch_returns:
  assumes "2147483648 \<le> length texts" and "length texts < 4294967296"
  shows "b_pc (pool_run tok texts (int_cast (length texts)) type limit) = P_Check \<and>
    b_remaining (pool_run tok texts (int_cast (length texts)) type limit) < 0 \<and>
    b_outs (pool_run tok texts (int_cast (length texts)) type limit) = replicate (length texts) None"
  using int_cast_large [OF assms] assms by (simp add: pool_run_def push_or_check_def)

lemma no_workers_step:
  assumes "pool_step s (Some s')" and "workers s = []" and "b_pc (batches s ! c) \<noteq> P_Return"
    and "0 < b_remaining (batches s ! c)" and "c < length (batches s)"
  shows "workers s' = [] \<and> b_pc (batches s' ! c) \<noteq> P_Return \<and> 0 < b_remaining (batches s' ! c) \<and> c < length (batches s')"
  using assms(1)
proof (cases rule: pool_step_E)
  case (enqueue d i wi q ws)
  then show ?thesis using assms woke_in_flight(3) [OF signal_worker_woke [OF enqueue(7)]]
    by (auto simp: nth_list_update push_or_check_def)
qed (use assms in \<open>auto simp: nth_list_update wake_full_def split: caller_pc.split\<close>)

text \<open>When no thread could be created the pool exists, and no call on it returns.\<close>

lemma no_workers_never_return:
  assumes "pool_reach p bs s" and "workers p = []" and "c < length bs" and "b_pc (bs ! c) \<noteq> P_Return"
    and "0 < b_remaining (bs ! c)"
  shows "b_pc (batches s ! c) \<noteq> P_Return"
proof -
  from assms(1) have "workers s = [] \<and> b_pc (batches s ! c) \<noteq> P_Return \<and> 0 < b_remaining (batches s ! c) \<and> c < length (batches s)"
    by induction (use assms no_workers_step in auto)
  then show ?thesis by simp
qed

end
