(* ===== verification/Forgetful_Cache.thy ===== *)
theory Forgetful_Cache
  imports Main
begin

text \<open>
  The contract of a cache: it may forget an entry at any time, but a key it finds has the value that was
  put last. The entries are listed from the most to the least recently used; a key may stand in the list
  more than once, and then only its first entry counts.
\<close>

datatype ('k, 'v) cache_op = Put 'k 'v | Get 'k

text \<open>The results of a sequence of operations: nothing for a put.\<close>

fun run_cache ::
  "('s \<Rightarrow> 'k \<Rightarrow> 'v \<Rightarrow> 's option) \<Rightarrow> ('s \<Rightarrow> 'k \<Rightarrow> ('r \<times> 's) option) \<Rightarrow> 's \<Rightarrow> ('k, 'v) cache_op list \<Rightarrow>
   ('r option list \<times> 's) option" where
  "run_cache put get s [] = Some ([], s)"
| "run_cache put get s (Put k v # ops) =
     Option.bind (put s k v) (\<lambda>s. map_option (\<lambda>(rs, s). (None # rs, s)) (run_cache put get s ops))"
| "run_cache put get s (Get k # ops) =
     Option.bind (get s k) (\<lambda>(r, s). map_option (\<lambda>(rs, s). (Some r # rs, s)) (run_cache put get s ops))"

text \<open>The last values put by a sequence of operations, over a map of those put before.\<close>

fun puts :: "('k \<rightharpoonup> 'v) \<Rightarrow> ('k, 'v) cache_op list \<Rightarrow> 'k \<rightharpoonup> 'v" where
  "puts m [] = m"
| "puts m (Put k v # ops) = puts (m(k \<mapsto> v)) ops"
| "puts m (Get k # ops) = puts m ops"

text \<open>The key is found: its first entry moves to the front.\<close>

definition moves :: "('k \<times> 'v) list \<Rightarrow> 'k \<Rightarrow> 'v \<Rightarrow> 'v \<Rightarrow> ('k \<times> 'v) list \<Rightarrow> bool" where
  "moves es k v w es' \<longleftrightarrow> (\<exists>xs ys. es = xs @ (k, v) # ys \<and> k \<notin> fst ` set xs \<and> es' = (k, w) # xs @ ys)"

text \<open>The key is not found: a new entry, and perhaps the last one dropped.\<close>

definition adds :: "('k \<times> 'v) list \<Rightarrow> 'k \<Rightarrow> 'v \<Rightarrow> ('k \<times> 'v) list \<Rightarrow> bool" where
  "adds es k w es' \<longleftrightarrow> (\<exists>xs ys. es = xs @ ys \<and> es' = (k, w) # xs)"

lemma movesI: "k \<notin> fst ` set xs \<Longrightarrow> moves (xs @ (k, v) # ys) k v w ((k, w) # xs @ ys)"
  unfolding moves_def by blast

lemma map_of_moves: "moves es k v w es' \<Longrightarrow> map_of es k = Some v \<and> map_of es' = (map_of es)(k \<mapsto> w)"
proof -
  assume "moves es k v w es'"
  then obtain xs ys where *: "es = xs @ (k, v) # ys" "k \<notin> fst ` set xs" "es' = (k, w) # xs @ ys"
    by (auto simp: moves_def)
  then have "map_of xs k = None" by (simp add: map_of_eq_None_iff)
  then show ?thesis using * by (auto simp: fun_eq_iff map_add_def split: option.split)
qed

lemma map_of_adds: "adds es k w es' \<Longrightarrow> map_of es' \<subseteq>\<^sub>m (map_of es)(k \<mapsto> w)"
  by (auto simp: adds_def map_le_def)

locale forgetful_cache =
  fixes rep :: "'s \<Rightarrow> ('k \<times> 'v) list \<Rightarrow> bool"
    and put :: "'s \<Rightarrow> 'k \<Rightarrow> 'v \<Rightarrow> 's option"
    and get :: "'s \<Rightarrow> 'k \<Rightarrow> ('r \<times> 's) option"
    and miss :: 'r and shown :: "'v \<Rightarrow> 'r"
  assumes put_law: "rep s es \<Longrightarrow>
      \<exists>s' es'. put s k w = Some s' \<and> rep s' es' \<and> ((\<exists>v. moves es k v w es') \<or> adds es k w es')"
    and get_law: "rep s es \<Longrightarrow>
      \<exists>r s' es'. get s k = Some (r, s') \<and> rep s' es' \<and>
        (r = miss \<and> es' = es \<or> (\<exists>v. r = shown v \<and> moves es k v v es'))"
begin

definition last_or_miss :: "('k \<rightharpoonup> 'v) \<Rightarrow> 'k \<Rightarrow> 'r option \<Rightarrow> bool" where
  "last_or_miss m k r \<longleftrightarrow> r = Some miss \<or> (\<exists>v. m k = Some v \<and> r = Some (shown v))"

lemma run_step_result:
  assumes "\<And>k. ops ! 0 = Get k \<Longrightarrow> last_or_miss m k r"
    and "\<forall>i < length ops'. \<forall>k. ops' ! i = Get k \<longrightarrow> last_or_miss (puts m' (take i ops')) k (rs ! i)"
    and "ops = x # ops'" and "m' = puts m [x]"
  shows "\<forall>i < length ops. \<forall>k. ops ! i = Get k \<longrightarrow> last_or_miss (puts m (take i ops)) k ((r # rs) ! i)"
proof (intro allI impI)
  fix i k
  assume "i < length ops" "ops ! i = Get k"
  then show "last_or_miss (puts m (take i ops)) k ((r # rs) ! i)"
    using assms by (cases i; cases x) auto
qed

theorem run_ok:
  "rep s es \<Longrightarrow> map_of es \<subseteq>\<^sub>m m \<Longrightarrow>
    \<exists>rs s' es'. run_cache put get s ops = Some (rs, s') \<and> rep s' es' \<and> length rs = length ops \<and>
      (\<forall>i < length ops. \<forall>k. ops ! i = Get k \<longrightarrow> last_or_miss (puts m (take i ops)) k (rs ! i))"
proof (induction ops arbitrary: s es m)
  case (Cons x ops)
  show ?case
  proof (cases x)
    case (Put k w)
    obtain s1 es1 where s1: "put s k w = Some s1" "rep s1 es1" "(\<exists>v. moves es k v w es1) \<or> adds es k w es1"
      using put_law [OF Cons.prems(1)] by blast
    have "map_of es1 \<subseteq>\<^sub>m (map_of es)(k \<mapsto> w)" using s1(3)
    proof
      assume "\<exists>v. moves es k v w es1"
      then show ?thesis using map_of_moves by fastforce
    qed (rule map_of_adds)
    then have m1: "map_of es1 \<subseteq>\<^sub>m m(k \<mapsto> w)" using Cons.prems(2) by (meson map_le_trans map_le_upd)
    obtain rs s' es' where r: "run_cache put get s1 ops = Some (rs, s')" "rep s' es'" "length rs = length ops"
      "\<forall>i < length ops. \<forall>j. ops ! i = Get j \<longrightarrow> last_or_miss (puts (m(k \<mapsto> w)) (take i ops)) j (rs ! i)"
      using Cons.IH [OF s1(2) m1] by blast
    have "\<forall>i < length (x # ops). \<forall>j. (x # ops) ! i = Get j \<longrightarrow> last_or_miss (puts m (take i (x # ops))) j ((None # rs) ! i)"
      by (rule run_step_result [where x = x, OF _ r(4)]) (simp_all add: Put)
    then show ?thesis using s1(1) r Put by auto
  next
    case (Get k)
    obtain r s1 es1 where s1: "get s k = Some (r, s1)" "rep s1 es1"
      "r = miss \<and> es1 = es \<or> (\<exists>v. r = shown v \<and> moves es k v v es1)"
      using get_law [OF Cons.prems(1)] by blast
    have "last_or_miss m k (Some r) \<and> map_of es1 \<subseteq>\<^sub>m m"
    proof (cases "r = miss \<and> es1 = es")
      case True
      then show ?thesis using Cons.prems(2) by (simp add: last_or_miss_def)
    next
      case False
      then obtain v where v: "r = shown v" "moves es k v v es1" using s1(3) by blast
      then have m: "map_of es k = Some v" "map_of es1 = map_of es"
        using map_of_moves [OF v(2)] by (simp_all add: fun_upd_idem)
      have "m k = Some v" using Cons.prems(2) m(1) unfolding map_le_def by (metis domI)
      then show ?thesis using v(1) m(2) Cons.prems(2) by (simp add: last_or_miss_def)
    qed
    then have res: "last_or_miss m k (Some r)" and m1: "map_of es1 \<subseteq>\<^sub>m m" by simp_all
    obtain rs s' es' where q: "run_cache put get s1 ops = Some (rs, s')" "rep s' es'" "length rs = length ops"
      "\<forall>i < length ops. \<forall>j. ops ! i = Get j \<longrightarrow> last_or_miss (puts m (take i ops)) j (rs ! i)"
      using Cons.IH [OF s1(2) m1] by blast
    have "\<forall>i < length (x # ops). \<forall>j. (x # ops) ! i = Get j \<longrightarrow> last_or_miss (puts m (take i (x # ops))) j ((Some r # rs) ! i)"
      by (rule run_step_result [where x = x, OF _ q(4)]) (simp_all add: Get res)
    then show ?thesis using s1(1) q Get by auto
  qed
qed auto

end

end
