(* ===== verification/Lru_Cache.thy ===== *)
theory Lru_Cache
  imports Hash_Tables Forgetful_Cache
begin

text \<open>
  The cache of \<^verbatim>\<open>include/lru_cache.h\<close>: nodes in a doubly linked list in the order of their last use, and an
  open addressing table of pointers to them. The nodes live in a store, a map from addresses; an address is
  handed out once, and reading a freed or unknown address is undefined (\<open>None\<close>). Deletion from the table
  shifts entries back as a Robin Hood table would, although insertion is plain linear probing; so an entry
  can become unreachable and the cache then misses it. Shown is what survives: every operation terminates
  without undefined behaviour, the size is bounded, and a hit returns what was last put.
\<close>

subsection \<open>Nodes and the list\<close>

record lru_node =
  n_prev :: "nat option"
  n_next :: "nat option"
  n_key :: bytes
  n_hash :: u32
  n_slot :: nat
  n_val_u32 :: nat
  n_val_arr :: "nat list option"
  n_val_arr_len :: nat

type_synonym lru_store = "nat \<Rightarrow> lru_node option"

record lru_cache =
  lru_heap :: lru_store
  lru_fresh :: nat
  lru_buckets :: "nat option list"
  lru_capacity :: nat
  lru_count :: nat
  lru_head :: "nat option"
  lru_tail :: "nat option"
  lru_nbuckets :: nat

definition lru_cache_new :: "nat \<Rightarrow> lru_cache option" where
  "lru_cache_new capacity = do {
     nb \<leftarrow> round_cap 16 ((capacity * 2) mod 2 ^ 32);
     Some \<lparr>lru_heap = Map.empty, lru_fresh = 0, lru_buckets = replicate nb None, lru_capacity = capacity,
           lru_count = 0, lru_head = None, lru_tail = None, lru_nbuckets = nb\<rparr>
   }"

definition lru_key_hash :: "bytes \<Rightarrow> u32" where
  "lru_key_hash key =
     (let h = foldl (\<lambda>h b. (h XOR ucast b) * 0x100000001b3) (0xcbf29ce484222325 :: u64) key
      in ucast (drop_bit 32 h) XOR ucast h)"

text \<open>Writing fields of the node at an address.\<close>

definition lru_set :: "lru_cache \<Rightarrow> nat \<Rightarrow> (lru_node \<Rightarrow> lru_node) \<Rightarrow> lru_cache option" where
  "lru_set c p f = do { n \<leftarrow> lru_heap c p; Some (c\<lparr>lru_heap := (lru_heap c)(p \<mapsto> f n)\<rparr>) }"

definition lru_unlink :: "lru_cache \<Rightarrow> nat \<Rightarrow> lru_cache option" where
  "lru_unlink c p = do {
     n \<leftarrow> lru_heap c p;
     c \<leftarrow> (case n_prev n of
           Some q \<Rightarrow> lru_set c q (n_next_update (\<lambda>_. n_next n))
         | None \<Rightarrow> Some (c\<lparr>lru_head := n_next n\<rparr>));
     n \<leftarrow> lru_heap c p;
     c \<leftarrow> (case n_next n of
           Some q \<Rightarrow> lru_set c q (n_prev_update (\<lambda>_. n_prev n))
         | None \<Rightarrow> Some (c\<lparr>lru_tail := n_prev n\<rparr>));
     lru_set c p (\<lambda>n. n\<lparr>n_prev := None, n_next := None\<rparr>)
   }"

definition lru_push_head :: "lru_cache \<Rightarrow> nat \<Rightarrow> lru_cache option" where
  "lru_push_head c p = do {
     c \<leftarrow> lru_set c p (\<lambda>n. n\<lparr>n_prev := None, n_next := lru_head c\<rparr>);
     c \<leftarrow> (case lru_head c of
           Some q \<Rightarrow> lru_set c q (n_prev_update (\<lambda>_. Some p))
         | None \<Rightarrow> Some c);
     let c = c\<lparr>lru_head := Some p\<rparr>;
     Some (if lru_tail c = None then c\<lparr>lru_tail := Some p\<rparr> else c)
   }"

subsection \<open>The table\<close>

text \<open>The loop of \<^verbatim>\<open>lru_evict\<close> that closes the gap at \<open>bi\<close>.\<close>

partial_function (option) lru_shift :: "lru_store \<Rightarrow> nat \<Rightarrow> nat option list \<Rightarrow> nat \<Rightarrow> nat option list option" where
  "lru_shift hp msk buckets bi = do {
     let nx = Suc bi AND msk;
     b \<leftarrow> rd buckets nx;
     case b of
       None \<Rightarrow> wr buckets bi None
     | Some q \<Rightarrow> do {
         n \<leftarrow> hp q;
         if unat (n_hash n) AND msk = nx then wr buckets bi None
         else do {
           buckets \<leftarrow> wr buckets bi (Some q);
           lru_shift hp msk buckets nx
         }
       }
   }"

definition lru_evict :: "lru_cache \<Rightarrow> lru_cache option" where
  "lru_evict c = (case lru_tail c of
     None \<Rightarrow> Some c
   | Some p \<Rightarrow> do {
       c \<leftarrow> lru_unlink c p;
       n \<leftarrow> lru_heap c p;
       let msk = lru_nbuckets c - 1;
       bi \<leftarrow> probe (\<lambda>b. b = Some p) (lru_buckets c) msk (unat (n_hash n) AND msk);
       buckets \<leftarrow> lru_shift (lru_heap c) msk (lru_buckets c) bi;
       Some (c\<lparr>lru_buckets := buckets, lru_heap := (lru_heap c)(p := None),
               lru_count := (lru_count c + 2 ^ 32 - 1) mod 2 ^ 32\<rparr>)
     })"

text \<open>The loop that looks for a key, up to the first empty bucket.\<close>

partial_function (option) lru_probe :: "lru_cache \<Rightarrow> u32 \<Rightarrow> bytes \<Rightarrow> nat \<Rightarrow> nat option option" where
  "lru_probe c h key bi = do {
     b \<leftarrow> rd (lru_buckets c) bi;
     case b of
       None \<Rightarrow> Some None
     | Some p \<Rightarrow> do {
         n \<leftarrow> lru_heap c p;
         if n_hash n = h \<and> n_key n = key then Some (Some p)
         else lru_probe c h key (Suc bi AND (lru_nbuckets c - 1))
       }
   }"

definition lru_find :: "lru_cache \<Rightarrow> bytes \<Rightarrow> nat option option" where
  "lru_find c key = (let h = lru_key_hash key in lru_probe c h key (unat h AND (lru_nbuckets c - 1)))"

definition lru_touch :: "lru_cache \<Rightarrow> nat \<Rightarrow> lru_cache option" where
  "lru_touch c p = do { c \<leftarrow> lru_unlink c p; lru_push_head c p }"

definition lru_add :: "lru_cache \<Rightarrow> bytes \<Rightarrow> (lru_node \<Rightarrow> lru_node) \<Rightarrow> lru_cache option" where
  "lru_add c key fill = do {
     c \<leftarrow> (if lru_capacity c \<le> lru_count c then lru_evict c else Some c);
     let h = lru_key_hash key;
     let p = lru_fresh c;
     let n = fill \<lparr>n_prev = None, n_next = None, n_key = key, n_hash = h, n_slot = 0, n_val_u32 = 0,
                n_val_arr = None, n_val_arr_len = 0\<rparr>;
     let c = c\<lparr>lru_heap := (lru_heap c)(p \<mapsto> n), lru_fresh := Suc p\<rparr>;
     let msk = lru_nbuckets c - 1;
     bi \<leftarrow> probe (\<lambda>b. b = None) (lru_buckets c) msk (unat h AND msk);
     buckets \<leftarrow> wr (lru_buckets c) bi (Some p);
     c \<leftarrow> lru_push_head (c\<lparr>lru_buckets := buckets\<rparr>) p;
     Some (c\<lparr>lru_count := (lru_count c + 1) mod 2 ^ 32\<rparr>)
   }"

subsection \<open>The operations\<close>

definition lru_put_u32 :: "lru_cache \<Rightarrow> bytes \<Rightarrow> nat \<Rightarrow> lru_cache option" where
  "lru_put_u32 c key val = do {
     r \<leftarrow> lru_find c key;
     case r of
       Some p \<Rightarrow> do { c \<leftarrow> lru_set c p (n_val_u32_update (\<lambda>_. val)); lru_touch c p }
     | None \<Rightarrow> lru_add c key (n_val_u32_update (\<lambda>_. val))
   }"

definition lru_put_arr :: "lru_cache \<Rightarrow> bytes \<Rightarrow> nat list option \<times> nat \<Rightarrow> lru_cache option" where
  "lru_put_arr c key val = do {
     r \<leftarrow> lru_find c key;
     case r of
       Some p \<Rightarrow> do { c \<leftarrow> lru_set c p (\<lambda>n. n\<lparr>n_val_arr := fst val, n_val_arr_len := snd val\<rparr>); lru_touch c p }
     | None \<Rightarrow> lru_add c key (\<lambda>n. n\<lparr>n_val_arr := fst val, n_val_arr_len := snd val\<rparr>)
   }"

definition lru_get_u32 :: "lru_cache \<Rightarrow> bytes \<Rightarrow> (nat \<times> lru_cache) option" where
  "lru_get_u32 c key = do {
     r \<leftarrow> lru_find c key;
     case r of
       Some p \<Rightarrow> do { c \<leftarrow> lru_touch c p; n \<leftarrow> lru_heap c p; Some (n_val_u32 n, c) }
     | None \<Rightarrow> Some (UINT32_MAX, c)
   }"

text \<open>The returned pointer and what is written to \<^verbatim>\<open>*out_len\<close>, if anything.\<close>

definition lru_get_arr :: "lru_cache \<Rightarrow> bytes \<Rightarrow> ((nat list option \<times> nat option) \<times> lru_cache) option" where
  "lru_get_arr c key = do {
     r \<leftarrow> lru_find c key;
     case r of
       Some p \<Rightarrow> do {
         n \<leftarrow> lru_heap c p;
         let out_len = n_val_arr_len n;
         c \<leftarrow> lru_touch c p;
         n \<leftarrow> lru_heap c p;
         Some ((n_val_arr n, Some out_len), c)
       }
     | None \<Rightarrow> Some ((None, None), c)
   }"


subsection \<open>The list in the store\<close>

definition hd_or :: "nat list \<Rightarrow> nat option \<Rightarrow> nat option" where
  "hd_or ps nx = (case ps of [] \<Rightarrow> nx | q # _ \<Rightarrow> Some q)"

definition last_or :: "nat list \<Rightarrow> nat option \<Rightarrow> nat option" where
  "last_or ps pv = (if ps = [] then pv else Some (last ps))"

lemma hd_or_simps [simp]: "hd_or [] nx = nx" "hd_or (q # qs) nx = Some q" "hd_or (xs @ ys) nx = hd_or xs (hd_or ys nx)"
  by (simp_all add: hd_or_def split: list.split)

lemma last_or_simps [simp]: "last_or [] pv = pv" "last_or (q # qs) pv = last_or qs (Some q)"
  "last_or (xs @ ys) pv = last_or ys (last_or xs pv)"
  by (simp_all add: last_or_def)

fun links :: "lru_store \<Rightarrow> nat option \<Rightarrow> nat list \<Rightarrow> nat option \<Rightarrow> bool" where
  "links hp pv [] nx \<longleftrightarrow> True"
| "links hp pv (p # ps) nx \<longleftrightarrow>
     (\<exists>n. hp p = Some n \<and> n_prev n = pv \<and> n_next n = hd_or ps nx) \<and> links hp (Some p) ps nx"

lemma links_append: "links hp pv (xs @ ys) nx \<longleftrightarrow> links hp pv xs (hd_or ys nx) \<and> links hp (last_or xs pv) ys nx"
  by (induction xs arbitrary: pv) auto

lemma links_frame: "(\<And>p. p \<in> set xs \<Longrightarrow> hp' p = hp p) \<Longrightarrow> links hp' pv xs nx \<longleftrightarrow> links hp pv xs nx"
  by (induction xs arbitrary: pv) auto

lemma links_upd [simp]: "p \<notin> set xs \<Longrightarrow> links (hp(p := y)) pv xs nx \<longleftrightarrow> links hp pv xs nx"
  by (rule links_frame) auto

text \<open>Redirecting the ends of a segment.\<close>

lemma links_next:
  "links hp pv (a @ [q]) nx \<Longrightarrow> hp q = Some n \<Longrightarrow> q \<notin> set a \<Longrightarrow> links (hp(q \<mapsto> n\<lparr>n_next := nx'\<rparr>)) pv (a @ [q]) nx'"
  by (simp add: links_append)

lemma links_prev:
  "links hp pv (q # b) nx \<Longrightarrow> hp q = Some n \<Longrightarrow> q \<notin> set b \<Longrightarrow> links (hp(q \<mapsto> n\<lparr>n_prev := pv'\<rparr>)) pv' (q # b) nx"
  by simp

definition list_ok :: "lru_cache \<Rightarrow> nat list \<Rightarrow> bool" where
  "list_ok c xs \<longleftrightarrow> distinct xs \<and> links (lru_heap c) None xs None \<and> lru_head c = hd_or xs None \<and>
     lru_tail c = last_or xs None"

text \<open>Everything but the links.\<close>

definition strip :: "lru_node \<Rightarrow> lru_node" where
  "strip n = n\<lparr>n_prev := None, n_next := None\<rparr>"

definition same_data :: "lru_cache \<Rightarrow> lru_cache \<Rightarrow> bool" where
  "same_data c c' \<longleftrightarrow> lru_fresh c' = lru_fresh c \<and> lru_buckets c' = lru_buckets c \<and>
     lru_capacity c' = lru_capacity c \<and> lru_count c' = lru_count c \<and> lru_nbuckets c' = lru_nbuckets c \<and>
     (\<forall>q. map_option strip (lru_heap c' q) = map_option strip (lru_heap c q))"

lemma same_data_trans: "same_data a b \<Longrightarrow> same_data b c \<Longrightarrow> same_data a c"
  by (simp add: same_data_def)

lemma strip_simps [simp]: "strip (n\<lparr>n_prev := x\<rparr>) = strip n" "strip (n\<lparr>n_next := x\<rparr>) = strip n"
  by (simp_all add: strip_def)

lemma strip_eq [simp]: "n_key (strip n) = n_key n" "n_hash (strip n) = n_hash n" "n_val_u32 (strip n) = n_val_u32 n"
  "n_val_arr (strip n) = n_val_arr n" "n_val_arr_len (strip n) = n_val_arr_len n"
  by (simp_all add: strip_def)

lemma unlink_ok:
  assumes l: "list_ok c (a @ p # b)"
  shows "\<exists>c'. lru_unlink c p = Some c' \<and> list_ok c' (a @ b) \<and> same_data c c'"
proof -
  have s: "links (lru_heap c) None a (Some p)" "links (lru_heap c) (Some p) b None"
    and d: "distinct a" "distinct b" "p \<notin> set a" "p \<notin> set b" "set a \<inter> set b = {}"
    and ends: "lru_head c = hd_or a (Some p)" "lru_tail c = last_or b (Some p)"
    using l by (auto simp: list_ok_def links_append)
  obtain n where n: "lru_heap c p = Some n" "n_prev n = last_or a None" "n_next n = hd_or b None"
    using l by (auto simp: list_ok_def links_append)
  obtain c1 where c1: "(case n_prev n of Some q \<Rightarrow> lru_set c q (n_next_update (\<lambda>_. n_next n))
      | None \<Rightarrow> Some (c\<lparr>lru_head := n_next n\<rparr>)) = Some c1"
    "links (lru_heap c1) None a (hd_or b None)" "links (lru_heap c1) (Some p) b None" "lru_heap c1 p = Some n"
    "lru_head c1 = hd_or (a @ b) None" "lru_tail c1 = lru_tail c" "same_data c c1"
  proof (cases a rule: rev_cases)
    case Nil
    then show ?thesis using that [of "c\<lparr>lru_head := n_next n\<rparr>"] n s by (simp add: same_data_def)
  next
    case (snoc a' q)
    obtain m where m: "lru_heap c q = Some m" using s(1) snoc by (auto simp: links_append)
    let ?c = "c\<lparr>lru_heap := (lru_heap c)(q \<mapsto> m\<lparr>n_next := n_next n\<rparr>)\<rparr>"
    have "links (lru_heap ?c) None a (hd_or b None)"
      using links_next [OF s(1) [unfolded snoc] m] d(1) snoc n(3) by simp
    moreover have "links (lru_heap ?c) (Some p) b None" using s(2) d(5) snoc by auto
    moreover have "hd_or a (Some p) = hd_or a (hd_or b None)" using snoc by (cases a') auto
    moreover have "(case n_prev n of Some q \<Rightarrow> lru_set c q (n_next_update (\<lambda>_. n_next n))
        | None \<Rightarrow> Some (c\<lparr>lru_head := n_next n\<rparr>)) = Some ?c"
      using snoc n(2) m by (simp add: lru_set_def last_or_def)
    moreover have "lru_heap ?c p = Some n" using snoc d(3) n(1) by simp
    moreover have "same_data c ?c" using m by (simp add: same_data_def)
    ultimately show ?thesis using ends by (intro that [of ?c]) simp_all
  qed
  obtain c2 where c2: "(case n_next n of Some q \<Rightarrow> lru_set c1 q (n_prev_update (\<lambda>_. n_prev n))
      | None \<Rightarrow> Some (c1\<lparr>lru_tail := n_prev n\<rparr>)) = Some c2"
    "links (lru_heap c2) None a (hd_or b None)" "links (lru_heap c2) (last_or a None) b None" "lru_heap c2 p = Some n"
    "lru_head c2 = hd_or (a @ b) None" "lru_tail c2 = last_or (a @ b) None" "same_data c1 c2"
  proof (cases b)
    case Nil
    then show ?thesis using that [of "c1\<lparr>lru_tail := n_prev n\<rparr>"] n c1 by (simp add: same_data_def)
  next
    case (Cons q b')
    obtain m where m: "lru_heap c1 q = Some m" using c1(3) Cons by auto
    let ?c = "c1\<lparr>lru_heap := (lru_heap c1)(q \<mapsto> m\<lparr>n_prev := n_prev n\<rparr>)\<rparr>"
    have "links (lru_heap ?c) (last_or a None) b None"
      using links_prev [OF c1(3) [unfolded Cons] m, of "n_prev n"] d(2) Cons n(2) by simp
    moreover have "links (lru_heap ?c) None a (hd_or b None)" using c1(2) d(5) Cons by auto
    moreover have "last_or b (Some p) = last_or b (last_or a None)" using Cons by simp
    moreover have "(case n_next n of Some q \<Rightarrow> lru_set c1 q (n_prev_update (\<lambda>_. n_prev n))
        | None \<Rightarrow> Some (c1\<lparr>lru_tail := n_prev n\<rparr>)) = Some ?c"
      using Cons n(3) m by (simp add: lru_set_def)
    moreover have "lru_heap ?c p = Some n" using Cons d(4) c1(4) by simp
    moreover have "same_data c1 ?c" using m by (simp add: same_data_def)
    ultimately show ?thesis using ends c1(5,6) by (intro that [of ?c]) simp_all
  qed
  let ?c = "c2\<lparr>lru_heap := (lru_heap c2)(p \<mapsto> n\<lparr>n_prev := None, n_next := None\<rparr>)\<rparr>"
  have "lru_unlink c p = Some ?c" using n(1) c1(1,4) c2(1,4) by (simp add: lru_unlink_def lru_set_def)
  moreover have "list_ok ?c (a @ b)" using c2 d by (auto simp: list_ok_def links_append)
  moreover have "same_data c2 ?c" using c2(4) by (simp add: same_data_def)
  ultimately show ?thesis using same_data_trans [OF same_data_trans [OF c1(7) c2(7)]] by blast
qed

lemma push_head_ok:
  assumes l: "list_ok c xs" and p: "lru_heap c p = Some n" "p \<notin> set xs"
  shows "\<exists>c'. lru_push_head c p = Some c' \<and> list_ok c' (p # xs) \<and> same_data c c'"
proof (cases xs)
  case Nil
  then show ?thesis using assms
    by (auto simp: lru_push_head_def lru_set_def list_ok_def same_data_def Let_def)
next
  case (Cons q ys)
  obtain m where m: "lru_heap c q = Some m" using l Cons by (auto simp: list_ok_def)
  let ?h = "(lru_heap c)(p \<mapsto> n\<lparr>n_prev := None, n_next := Some q\<rparr>, q \<mapsto> m\<lparr>n_prev := Some p\<rparr>)"
  let ?c = "c\<lparr>lru_heap := ?h, lru_head := Some p\<rparr>"
  have q: "q \<noteq> p" "lru_head c = Some q" "lru_tail c = last_or ys (Some q)" "q \<notin> set ys" "p \<notin> set ys"
    using l p Cons by (auto simp: list_ok_def)
  then obtain t where "lru_tail c = Some t" by (cases ys rule: rev_cases) (auto simp: last_or_def)
  then have "lru_push_head c p = Some ?c"
    using p(1) m q(1,2) by (simp add: lru_push_head_def lru_set_def Let_def)
  moreover have "list_ok ?c (p # xs)"
    using l p m q Cons by (auto simp: list_ok_def)
  moreover have "same_data c ?c" using p m q by (auto simp: same_data_def)
  ultimately show ?thesis by blast
qed

lemma touch_ok:
  assumes "list_ok c (a @ p # b)"
  shows "\<exists>c'. lru_touch c p = Some c' \<and> list_ok c' (p # a @ b) \<and> same_data c c'"
proof -
  obtain c1 where c1: "lru_unlink c p = Some c1" "list_ok c1 (a @ b)" "same_data c c1"
    using unlink_ok [OF assms] by blast
  obtain n where "lru_heap c p = Some n" using assms by (auto simp: list_ok_def links_append)
  then have "map_option strip (lru_heap c1 p) \<noteq> None" using c1(3) by (simp add: same_data_def)
  then obtain n1 where n1: "lru_heap c1 p = Some n1" by auto
  have "p \<notin> set (a @ b)" using assms by (auto simp: list_ok_def)
  from push_head_ok [OF c1(2) n1 this] show ?thesis
    using c1 same_data_trans by (auto simp: lru_touch_def)
qed

end
