(* ===== verification/Lru_Table.thy ===== *)
theory Lru_Table
  imports Lru_Cache
begin

text \<open>
  The table of the cache: every node in one bucket, and of two nodes with the same key the one used last
  first in the order of the probe. The loop that closes a gap keeps this, although it may leave entries that
  no probe reaches.
\<close>

subsection \<open>The buckets\<close>

definition before :: "nat \<Rightarrow> nat option list \<Rightarrow> nat \<Rightarrow> nat \<Rightarrow> nat \<Rightarrow> bool" where
  "before e bs h p q \<longleftrightarrow> (\<forall>jp < 2 ^ e. \<forall>jq < 2 ^ e.
     bs ! slot_at (2 ^ e) h jp = Some p \<longrightarrow> bs ! slot_at (2 ^ e) h jq = Some q \<longrightarrow> jp < jq)"

definition key_home :: "nat \<Rightarrow> bytes \<Rightarrow> nat" where
  "key_home e k = unat (lru_key_hash k) mod 2 ^ e"

lemma key_home_less [simp]: "key_home e k < 2 ^ e"
  by (simp add: key_home_def)

definition one_bucket :: "nat \<Rightarrow> nat option list \<Rightarrow> nat set \<Rightarrow> bool" where
  "one_bucket e bs X \<longleftrightarrow> length bs = 2 ^ e \<and> (\<forall>i < 2 ^ e. \<forall>p. bs ! i = Some p \<longrightarrow> p \<in> X) \<and>
     (\<forall>p \<in> X. \<exists>i < 2 ^ e. bs ! i = Some p) \<and>
     (\<forall>i < 2 ^ e. \<forall>j < 2 ^ e. \<forall>p. bs ! i = Some p \<longrightarrow> bs ! j = Some p \<longrightarrow> i = j)"

definition in_order :: "nat \<Rightarrow> (nat \<Rightarrow> bytes) \<Rightarrow> nat option list \<Rightarrow> nat list \<Rightarrow> bool" where
  "in_order e K bs xs \<longleftrightarrow> sorted_wrt (\<lambda>p q. K p = K q \<longrightarrow> before e bs (key_home e (K p)) p q) xs"

lemma one_bucket_slot:
  assumes "one_bucket e bs X" and "p \<in> X" and "h < 2 ^ e"
  obtains j where "j < 2 ^ e" "bs ! slot_at (2 ^ e) h j = Some p"
proof -
  obtain i where i: "i < 2 ^ e" "bs ! i = Some p" using assms(1,2) by (auto simp: one_bucket_def)
  from slot_at_onto [OF assms(3) i(1)] show thesis using that i(2) by metis
qed

lemma one_bucket_inj:
  assumes "one_bucket e bs X" and "i < 2 ^ e" "j < 2 ^ e" and "bs ! slot_at (2 ^ e) h i = Some p"
    and "bs ! slot_at (2 ^ e) h j = Some p"
  shows "i = j"
proof -
  have "slot_at (2 ^ e) h i = slot_at (2 ^ e) h j"
    using assms unfolding one_bucket_def by (metis slot_at_less zero_less_numeral zero_less_power)
  then show ?thesis using slot_at_inj assms(2,3) by blast
qed

lemma one_bucket_mem: "one_bucket e bs X \<Longrightarrow> bs ! slot_at (2 ^ e) b i = Some p \<Longrightarrow> p \<in> X"
proof -
  assume *: "one_bucket e bs X" "bs ! slot_at (2 ^ e) b i = Some p"
  have "slot_at (2 ^ e) b i < 2 ^ e" by simp
  then show ?thesis using * unfolding one_bucket_def by blast
qed

lemma one_bucket_empty:
  assumes "one_bucket e bs X" and "finite X" and "card X < 2 ^ e"
  shows "\<exists>i < 2 ^ e. bs ! i = None"
proof (rule ccontr)
  assume "\<not> (\<exists>i < 2 ^ e. bs ! i = None)"
  then have full: "\<forall>i < 2 ^ e. \<exists>p. bs ! i = Some p" by auto
  have "inj_on (\<lambda>i. the (bs ! i)) {..< 2 ^ e}"
  proof (rule inj_onI)
    fix i j
    assume "i \<in> {..< 2 ^ e}" "j \<in> {..< 2 ^ e}" "the (bs ! i) = the (bs ! j)"
    then show "i = j" using full assms(1) unfolding one_bucket_def by (metis lessThan_iff option.sel)
  qed
  moreover have "(\<lambda>i. the (bs ! i)) ` {..< 2 ^ e} \<subseteq> X"
    using full assms(1) by (force simp: one_bucket_def)
  ultimately have "card {..< (2::nat) ^ e} \<le> card X" using card_inj_on_le assms(2) by blast
  then show False using assms(3) by simp
qed

text \<open>Looking for a key.\<close>

lemma probe_node:
  assumes "length (lru_buckets c) = 2 ^ e" and "lru_nbuckets c = 2 ^ e" and "h < 2 ^ e"
    and "\<forall>i < j. \<exists>q n. lru_buckets c ! slot_at (2 ^ e) h i = Some q \<and> lru_heap c q = Some n \<and>
      \<not> (n_hash n = hs \<and> n_key n = key)"
    and "case lru_buckets c ! slot_at (2 ^ e) h j of None \<Rightarrow> True
      | Some q \<Rightarrow> \<exists>n. lru_heap c q = Some n \<and> n_hash n = hs \<and> n_key n = key"
  shows "lru_probe c hs key h = Some (lru_buckets c ! slot_at (2 ^ e) h j)"
  using assms(3-5)
proof (induction j arbitrary: h)
  case 0
  then have "slot_at (2 ^ e) h 0 = h" by (simp add: slot_at_def)
  with 0 assms(1) show ?case by (subst lru_probe.simps) (auto split: option.splits)
next
  case (Suc j)
  have h0: "slot_at (2 ^ e) h 0 = h" using Suc.prems(1) by (simp add: slot_at_def)
  obtain q n where q: "lru_buckets c ! h = Some q" "lru_heap c q = Some n" "\<not> (n_hash n = hs \<and> n_key n = key)"
    using Suc.prems(2) h0 by (metis zero_less_Suc)
  have "lru_probe c hs key (Suc h mod 2 ^ e) = Some (lru_buckets c ! slot_at (2 ^ e) (Suc h mod 2 ^ e) j)"
  proof (rule Suc.IH)
    show "\<forall>i < j. \<exists>q n. lru_buckets c ! slot_at (2 ^ e) (Suc h mod 2 ^ e) i = Some q \<and> lru_heap c q = Some n \<and>
        \<not> (n_hash n = hs \<and> n_key n = key)"
      using Suc.prems(2) by (simp add: slot_at_Suc)
  qed (use Suc.prems(3) in \<open>simp_all add: slot_at_Suc\<close>)
  then show ?case
    using q assms(1,2) Suc.prems(1) by (subst lru_probe.simps) (auto simp: and_mask slot_at_Suc)
qed

subsection \<open>Closing a gap\<close>

text \<open>The buckets after the loop: the \<open>m\<close> buckets behind \<open>bi\<close> are moved back by one.\<close>

definition shifted :: "nat \<Rightarrow> nat option list \<Rightarrow> nat \<Rightarrow> nat \<Rightarrow> nat option list \<Rightarrow> bool" where
  "shifted e bs bi m bs' \<longleftrightarrow> length bs' = 2 ^ e \<and>
     (\<forall>i < 2 ^ e. bs' ! slot_at (2 ^ e) bi i =
        (if i < m then bs ! slot_at (2 ^ e) bi (Suc i) else if i = m then None else bs ! slot_at (2 ^ e) bi i))"

definition away :: "nat \<Rightarrow> lru_store \<Rightarrow> nat option list \<Rightarrow> nat \<Rightarrow> nat \<Rightarrow> bool" where
  "away e hp bs bi i \<longleftrightarrow> (\<exists>q n. bs ! slot_at (2 ^ e) bi i = Some q \<and> hp q = Some n \<and>
     unat (n_hash n) mod 2 ^ e \<noteq> slot_at (2 ^ e) bi i)"

lemma shift_stop: 
  assumes "length bs = 2 ^ e" and "bi < 2 ^ e"
  shows "shifted e bs bi 0 (bs[bi := None])"
proof -
  have "slot_at (2 ^ e) bi i \<noteq> bi" if "i < 2 ^ e" "i \<noteq> 0" for i
    using slot_at_inj [of "2 ^ e" bi i 0] that assms(2) by (auto simp: slot_at_def)
  moreover from this have "bi \<noteq> slot_at (2 ^ e) bi i" if "i < 2 ^ e" "i \<noteq> 0" for i using that by metis
  moreover have "slot_at (2 ^ e) bi 0 = bi" using assms(2) by (simp add: slot_at_def)
  ultimately show ?thesis using assms by (auto simp: shifted_def nth_list_update)
qed

lemma shift_more:
  assumes "length bs = 2 ^ e" and "bi < 2 ^ e" and "Suc m < 2 ^ e"
    and "shifted e (bs[bi := bs ! (Suc bi mod 2 ^ e)]) (Suc bi mod 2 ^ e) m bs'"
  shows "shifted e bs bi (Suc m) bs'"
proof -
  let ?n = "(2::nat) ^ e" and ?bs = "bs[bi := bs ! (Suc bi mod 2 ^ e)]"
  have other: "?bs ! slot_at ?n bi i = bs ! slot_at ?n bi i" if "i < ?n" "i \<noteq> 0" for i
    using slot_at_inj [of ?n bi i 0] that assms(1,2) by (auto simp: slot_at_def nth_list_update)
  have s: "bs' ! slot_at ?n bi (Suc i) = (if i < m then ?bs ! slot_at ?n bi (Suc (Suc i)) else if i = m then None
      else ?bs ! slot_at ?n bi (Suc i))" if "i < ?n" for i
    using assms(4) that by (simp add: shifted_def slot_at_Suc)
  have zero: "slot_at ?n bi ?n = bi" "slot_at ?n bi 0 = bi" using assms(2) by (simp_all add: slot_at_def)
  have one: "slot_at ?n bi (Suc 0) = Suc bi mod ?n" by (simp add: slot_at_def)
  show ?thesis unfolding shifted_def
  proof (intro conjI allI impI)
    fix i
    assume i: "i < ?n"
    show "bs' ! slot_at ?n bi i = (if i < Suc m then bs ! slot_at ?n bi (Suc i) else if i = Suc m then None
        else bs ! slot_at ?n bi i)"
    proof (cases i)
      case 0
      have "\<not> ?n - 1 < m" "?n - 1 \<noteq> m" "?n - 1 < ?n" "Suc (?n - 1) = ?n" using assms(3) by simp_all
      then have "bs' ! slot_at ?n bi ?n = ?bs ! slot_at ?n bi ?n" using s [of "?n - 1"] by simp
      then show ?thesis using 0 zero one assms(1,2) by simp
    next
      case (Suc k)
      then show ?thesis using s [of k] i other [of "Suc k"] other [of "Suc (Suc k)"] assms(3) by auto
    qed
  qed (use assms(4) in \<open>simp add: shifted_def\<close>)
qed

lemma shift_ok:
  assumes "length bs = 2 ^ e" and "bi < 2 ^ e" and "0 < j" "j < 2 ^ e" and "bs ! slot_at (2 ^ e) bi j = None"
    and "\<forall>i < 2 ^ e. \<forall>q. bs ! i = Some q \<longrightarrow> hp q \<noteq> None"
  shows "\<exists>bs' m. lru_shift hp (2 ^ e - 1) bs bi = Some bs' \<and> m < j \<and> shifted e bs bi m bs' \<and>
    (\<forall>i. 0 < i \<and> i \<le> m \<longrightarrow> away e hp bs bi i)"
  using assms
proof (induction j arbitrary: bs bi)
  case (Suc j)
  let ?n = "(2::nat) ^ e" and ?nx = "Suc bi mod 2 ^ e"
  have one: "slot_at ?n bi (Suc 0) = ?nx" by (simp add: slot_at_def)
  have nx: "?nx < ?n" by simp
  note stop = shift_stop [OF Suc.prems(1,2)]
  show ?case
  proof (cases "bs ! ?nx")
    case None
    then have "lru_shift hp (?n - 1) bs bi = Some (bs[bi := None])"
      using Suc.prems(1,2) nx by (subst lru_shift.simps) (simp add: and_mask)
    then show ?thesis using stop by (intro exI [of _ "bs[bi := None]"] exI [of _ 0]) simp
  next
    case (Some q)
    obtain n where n: "hp q = Some n" using Suc.prems(6) Some nx by blast
    show ?thesis
    proof (cases "unat (n_hash n) mod ?n = ?nx")
      case True
      then have "lru_shift hp (?n - 1) bs bi = Some (bs[bi := None])"
        using Suc.prems(1,2) nx Some n by (subst lru_shift.simps) (simp add: and_mask)
      then show ?thesis using stop by (intro exI [of _ "bs[bi := None]"] exI [of _ 0]) simp
    next
      case False
      let ?bs = "bs[bi := Some q]"
      have step: "lru_shift hp (?n - 1) bs bi = lru_shift hp (?n - 1) ?bs ?nx"
        using Suc.prems(1,2) nx Some n False by (subst lru_shift.simps) (simp add: and_mask)
      have j: "j \<noteq> 0" using Suc.prems(5) Some one by (cases j) auto
      have other: "?bs ! slot_at ?n bi i = bs ! slot_at ?n bi i" if "i < ?n" "i \<noteq> 0" for i
        using slot_at_inj [of ?n bi i 0] that Suc.prems(1,2) by (auto simp: slot_at_def nth_list_update)
      have "?bs ! slot_at ?n ?nx j = None"
        using other [of "Suc j"] Suc.prems(4,5) by (simp add: slot_at_Suc)
      moreover have "\<forall>i < ?n. \<forall>r. ?bs ! i = Some r \<longrightarrow> hp r \<noteq> None"
        using Suc.prems(1,2,6) n by (auto simp: nth_list_update)
      ultimately obtain bs' m where m: "lru_shift hp (?n - 1) ?bs ?nx = Some bs'" "m < j" "shifted e ?bs ?nx m bs'"
        "\<forall>i. 0 < i \<and> i \<le> m \<longrightarrow> away e hp ?bs ?nx i"
        using Suc.IH [of ?bs ?nx] Suc.prems(1,4) j nx by auto
      have "shifted e bs bi (Suc m) bs'"
        by (rule shift_more [OF Suc.prems(1,2)]) (use m(2,3) Suc.prems(4) Some in auto)
      moreover have "away e hp bs bi i" if i: "0 < i" "i \<le> Suc m" for i
      proof (cases "i = 1")
        case True
        then show ?thesis using Some n False one by (simp add: away_def)
      next
        case False
        then obtain k where k: "i = Suc k" "0 < k" "k \<le> m" using i by (cases i) auto
        then have "away e hp ?bs ?nx k" using m(4) by blast
        moreover have "i < ?n" using k m(2) Suc.prems(4) by simp
        ultimately show ?thesis using other [of i] k by (simp add: away_def slot_at_Suc)
      qed
      ultimately show ?thesis using step m(1,2) by (intro exI [of _ bs'] exI [of _ "Suc m"]) auto
    qed
  qed
qed simp

lemma slot_at_back: "slot_at n h (Suc j) = slot_at n b (Suc i) \<Longrightarrow> slot_at n h j = slot_at n b i"
  by (auto simp: slot_at_def nat_mod_eq_iff)

definition gap_closed ::
  "nat \<Rightarrow> (nat \<Rightarrow> bytes) \<Rightarrow> nat set \<Rightarrow> nat option list \<Rightarrow> nat \<Rightarrow> nat \<Rightarrow> nat \<Rightarrow> nat option list \<Rightarrow> bool" where
  "gap_closed e K X bs bi p m bs' \<longleftrightarrow> one_bucket e bs X \<and> bi < 2 ^ e \<and> bs ! bi = Some p \<and> m < 2 ^ e \<and>
     shifted e bs bi m bs' \<and>
     (\<forall>i. 0 < i \<and> i \<le> m \<longrightarrow> (\<exists>q. bs ! slot_at (2 ^ e) bi i = Some q \<and> key_home e (K q) \<noteq> slot_at (2 ^ e) bi i))"

lemma gap_closedD:
  assumes "gap_closed e K X bs bi p m bs'"
  shows "one_bucket e bs X" and "bi < 2 ^ e" and "bs ! slot_at (2 ^ e) bi 0 = Some p" and "m < 2 ^ e"
    and "shifted e bs bi m bs'"
    and "0 < i \<Longrightarrow> i \<le> m \<Longrightarrow> \<exists>q. bs ! slot_at (2 ^ e) bi i = Some q \<and> key_home e (K q) \<noteq> slot_at (2 ^ e) bi i"
  using assms by (simp_all add: gap_closed_def slot_at_def)

lemma origin:
  assumes g: "gap_closed e K X bs bi p m bs'"
    and "i < 2 ^ e" and "bs' ! slot_at (2 ^ e) bi i = Some q"
  shows "i \<noteq> m \<and> q \<noteq> p \<and> (if i < m then Suc i else i) < 2 ^ e \<and>
    bs ! slot_at (2 ^ e) bi (if i < m then Suc i else i) = Some q"
proof -
  note one = gap_closedD(1) [OF g] and start = gap_closedD(3) [OF g] and m = gap_closedD(4) [OF g] and shifted = gap_closedD(5) [OF g]
  have i: "i \<noteq> m" "(if i < m then Suc i else i) < 2 ^ e" "(if i < m then Suc i else i) \<noteq> 0"
    "bs ! slot_at (2 ^ e) bi (if i < m then Suc i else i) = Some q"
    using shifted assms m by (auto simp: shifted_def split: if_splits)
  moreover have "q \<noteq> p" using one_bucket_inj [OF one i(2) _ i(4), of 0] start i(3) by auto
  ultimately show ?thesis by simp
qed

lemma moved:
  assumes g: "gap_closed e K X bs bi p m bs'"
    and "q \<in> X" and "q \<noteq> p" and "j < 2 ^ e" and "bs ! slot_at (2 ^ e) (key_home e (K q)) j = Some q"
  shows "bs' ! slot_at (2 ^ e) (key_home e (K q)) j = Some q \<or>
    0 < j \<and> bs' ! slot_at (2 ^ e) (key_home e (K q)) (j - 1) = Some q"
proof -
  note bi = gap_closedD(2) [OF g] and start = gap_closedD(3) [OF g] and shifted = gap_closedD(5) [OF g] and away = gap_closedD(6) [OF g]
  let ?s = "slot_at (2 ^ e) (key_home e (K q)) j"
  obtain i where i: "i < 2 ^ e" "slot_at (2 ^ e) bi i = ?s" using slot_at_onto [OF bi(1), of ?s] by auto
  have "i \<noteq> 0" using i start assms(3,5) by (intro notI) simp
  show ?thesis
  proof (cases "i \<le> m")
    case True
    then have "key_home e (K q) \<noteq> ?s" using away [of i] \<open>i \<noteq> 0\<close> i assms(5) by auto
    then obtain k where k: "j = Suc k" by (cases j) (simp_all add: slot_at_def)
    obtain i' where i': "i = Suc i'" using \<open>i \<noteq> 0\<close> by (cases i) auto
    have "bs' ! slot_at (2 ^ e) bi i' = bs ! slot_at (2 ^ e) bi i"
      using shifted True i(1) i' by (simp add: shifted_def)
    then show ?thesis using slot_at_back [of "2 ^ e" "key_home e (K q)" k bi i'] i k i' assms(5) by simp
  next
    case False
    then show ?thesis using shifted i assms(5) by (auto simp: shifted_def)
  qed
qed

lemma still_empty: "gap_closed e K X bs bi p m bs' \<Longrightarrow> i < 2 ^ e \<Longrightarrow> bs ! i = None \<Longrightarrow> bs' ! i = None"
proof -
  assume g: "gap_closed e K X bs bi p m bs'" and i: "i < 2 ^ e" "bs ! i = None"
  note bi = gap_closedD(2) [OF g] and start = gap_closedD(3) [OF g] and shifted = gap_closedD(5) [OF g] and away = gap_closedD(6) [OF g]
  obtain k where k: "k < 2 ^ e" "slot_at (2 ^ e) bi k = i" using slot_at_onto [OF bi(1) i(1)] .
  have "k \<noteq> 0" using k start i(2) by (intro notI) simp
  then have "m < k" using away [of k] k i(2) by (cases "k \<le> m") auto
  then show ?thesis using shifted k i(2) by (auto simp: shifted_def)
qed

lemma one_bucket_closed:
  assumes g: "gap_closed e K X bs bi p m bs'"
  shows "one_bucket e bs' (X - {p})"
proof -
  note one = gap_closedD(1) [OF g] and bi = gap_closedD(2) [OF g] and shifted = gap_closedD(5) [OF g]
  show ?thesis
    unfolding one_bucket_def
  proof (intro conjI allI impI ballI)
    show "length bs' = 2 ^ e" using shifted by (simp add: shifted_def)
  next
    fix i q
    assume i: "i < 2 ^ e" "bs' ! i = Some q"
    obtain k where k: "k < 2 ^ e" "slot_at (2 ^ e) bi k = i" using slot_at_onto [OF bi(1) i(1)] .
    show "q \<in> X - {p}" using origin [OF g k(1), of q] k(2) i(2) one_bucket_mem [OF one] by blast
  next
    fix q
    assume q: "q \<in> X - {p}"
    obtain j where j: "j < 2 ^ e" "bs ! slot_at (2 ^ e) (key_home e (K q)) j = Some q"
      using one_bucket_slot [OF one _ key_home_less] q by blast
    show "\<exists>i < 2 ^ e. bs' ! i = Some q" using moved [OF g _ _ j] q by (metis DiffE insertI1 slot_at_less zero_less_numeral zero_less_power)
  next
    fix i j q
    assume i: "i < 2 ^ e" "bs' ! i = Some q" and j: "j < 2 ^ e" "bs' ! j = Some q"
    obtain k l where k: "k < 2 ^ e" "slot_at (2 ^ e) bi k = i" and l: "l < 2 ^ e" "slot_at (2 ^ e) bi l = j"
      using slot_at_onto [OF bi(1) i(1)] slot_at_onto [OF bi(1) j(1)] by metis
    have "(if k < m then Suc k else k) = (if l < m then Suc l else l)"
      using origin [OF g k(1), of q] origin [OF g l(1), of q] k(2) l(2) i(2) j(2)
      by (intro one_bucket_inj [OF one, of _ _ bi q]) auto
    then have "k = l" using origin [OF g k(1), of q] origin [OF g l(1), of q] k(2) l(2) i(2) j(2) by (auto split: if_splits)
    then show "i = j" using k l by simp
  qed
qed

lemma new_place:
  assumes g: "gap_closed e K X bs bi p m bs'"
    and "q \<in> X - {p}" and "j < 2 ^ e" and "bs' ! slot_at (2 ^ e) (key_home e (K q)) j = Some q"
    and "j0 < 2 ^ e" and "bs ! slot_at (2 ^ e) (key_home e (K q)) j0 = Some q"
  shows "j = j0 \<or> Suc j = j0"
proof -
  have q: "q \<in> X" "q \<noteq> p" using assms(2) by auto
  from moved [OF g q assms(5,6)] show ?thesis
  proof
    assume "0 < j0 \<and> bs' ! slot_at (2 ^ e) (key_home e (K q)) (j0 - 1) = Some q"
    then have "0 < j0" "j = j0 - 1"
      using one_bucket_inj [OF one_bucket_closed [OF g] assms(3) _ assms(4), of "j0 - 1"] assms(5) by auto
    then show ?thesis by simp
  next
    assume "bs' ! slot_at (2 ^ e) (key_home e (K q)) j0 = Some q"
    then show ?thesis using one_bucket_inj [OF one_bucket_closed [OF g] assms(3,5,4)] by simp
  qed
qed

lemma before_closed:
  assumes g: "gap_closed e K X bs bi p m bs'"
    and "x \<in> X - {p}" and "y \<in> X - {p}" and "x \<noteq> y" and "K x = K y" and "before e bs (key_home e (K x)) x y"
  shows "before e bs' (key_home e (K x)) x y"
proof -
  note one = gap_closedD(1) [OF g]
  show ?thesis
    unfolding before_def
  proof (intro allI impI)
    let ?h = "key_home e (K x)"
    fix jx jy
    assume j: "jx < 2 ^ e" "jy < 2 ^ e" "bs' ! slot_at (2 ^ e) ?h jx = Some x" "bs' ! slot_at (2 ^ e) ?h jy = Some y"
    obtain ix iy where i: "ix < 2 ^ e" "bs ! slot_at (2 ^ e) ?h ix = Some x" "iy < 2 ^ e" "bs ! slot_at (2 ^ e) ?h iy = Some y"
      using one_bucket_slot [OF one _ key_home_less] assms(2,3) by (metis DiffE)
    then have "ix < iy" using assms(6) by (auto simp: before_def)
    moreover have "jx = ix \<or> Suc jx = ix" using new_place [OF g assms(2) j(1,3) i(1,2)] .
    moreover have "jy = iy \<or> Suc jy = iy" using new_place [OF g assms(3) j(2) _ i(3)] j(4) i(4) assms(5) by simp
    moreover have "jx \<noteq> jy" using j(3,4) assms(4) by auto
    ultimately show "jx < jy" by linarith
  qed
qed

text \<open>A node that a probe for its key does not reach.\<close>

definition unreached :: "nat \<Rightarrow> nat option list \<Rightarrow> nat \<Rightarrow> nat \<Rightarrow> bool" where
  "unreached e bs h q \<longleftrightarrow> (\<forall>j < 2 ^ e. bs ! slot_at (2 ^ e) h j = Some q \<longrightarrow> (\<exists>i < j. bs ! slot_at (2 ^ e) h i = None))"

lemma unreached_closed:
  assumes g: "gap_closed e K X bs bi p m bs'"
    and "q \<in> X - {p}" and "unreached e bs (key_home e (K q)) q"
  shows "unreached e bs' (key_home e (K q)) q"
proof -
  note one = gap_closedD(1) [OF g]
  show ?thesis
    unfolding unreached_def
  proof (intro allI impI)
    let ?h = "key_home e (K q)"
    fix j
    assume j: "j < 2 ^ e" "bs' ! slot_at (2 ^ e) ?h j = Some q"
    obtain j0 where j0: "j0 < 2 ^ e" "bs ! slot_at (2 ^ e) ?h j0 = Some q"
      using one_bucket_slot [OF one _ key_home_less] assms(2) by blast
    then obtain i where i: "i < j0" "bs ! slot_at (2 ^ e) ?h i = None" using assms(3) by (auto simp: unreached_def)
    have "bs' ! slot_at (2 ^ e) ?h i = None" by (rule still_empty [OF g]) (simp_all add: i(2))
    moreover from this have "i \<noteq> j" using j(2) by auto
    ultimately show "\<exists>i < j. bs' ! slot_at (2 ^ e) ?h i = None"
      using new_place [OF g assms(2) j j0] i(1) by (intro exI [of _ i]) linarith
  qed
qed

lemma in_order_closed:
  assumes g: "gap_closed e K X bs bi p m bs'"
    and "in_order e K bs xs" and "set xs \<subseteq> X - {p}" and "distinct xs"
  shows "in_order e K bs' xs"
proof -
  show ?thesis
    unfolding in_order_def sorted_wrt_iff_nth_less
  proof (intro allI impI)
    fix i j
    assume ij: "i < j" "j < length xs" "K (xs ! i) = K (xs ! j)"
    then have "xs ! i \<in> X - {p}" "xs ! j \<in> X - {p}" "xs ! i \<noteq> xs ! j"
      using subsetD [OF assms(3) nth_mem, of i] subsetD [OF assms(3) nth_mem, of j] assms(4)
      by (simp_all add: nth_eq_iff_index_eq)
    then show "before e bs' (key_home e (K (xs ! i))) (xs ! i) (xs ! j)"
      using ij assms(2) before_closed [OF g] by (simp add: in_order_def sorted_wrt_iff_nth_less)
  qed
qed

subsection \<open>A new node\<close>

lemma one_bucket_insert:
  assumes "one_bucket e bs X" and "i < 2 ^ e" and "bs ! i = None" and "p \<notin> X"
  shows "one_bucket e (bs[i := Some p]) (insert p X)"
  unfolding one_bucket_def
proof (intro conjI allI impI ballI)
  fix q
  assume "q \<in> insert p X"
  then show "\<exists>j < 2 ^ e. bs[i := Some p] ! j = Some q"
    using assms unfolding one_bucket_def by (metis insertE nth_list_update nth_list_update_neq option.discI)
qed (use assms in \<open>auto simp: one_bucket_def nth_list_update split: if_splits\<close>)

lemma in_order_insert:
  assumes one: "one_bucket e bs X" and ord: "in_order e K bs xs" and X: "set xs = X" and p: "p \<notin> X"
    and j: "j < 2 ^ e" "bs ! slot_at (2 ^ e) (key_home e (K p)) j = None"
      "\<forall>i < j. bs ! slot_at (2 ^ e) (key_home e (K p)) i \<noteq> None"
    and un: "\<forall>q \<in> X. K q = K p \<longrightarrow> unreached e bs (key_home e (K p)) q"
  shows "in_order e K (bs[slot_at (2 ^ e) (key_home e (K p)) j := Some p]) (p # xs)"
proof -
  let ?h = "key_home e (K p)" and ?bs = "bs[slot_at (2 ^ e) (key_home e (K p)) j := Some p]"
  have len: "length bs = 2 ^ e" using one by (simp add: one_bucket_def)
  have old: "?bs ! i = Some q \<longleftrightarrow> bs ! i = Some q" if "i < 2 ^ e" "q \<in> X" for i q
    using that p len j(2) by (auto simp: nth_list_update)
  have "before e ?bs h x y" if "before e bs h x y" "x \<in> X" "y \<in> X" for h x y
    using that old by (simp add: before_def)
  then have "sorted_wrt (\<lambda>p q. K p = K q \<longrightarrow> before e ?bs (key_home e (K p)) p q) xs"
    using ord X unfolding in_order_def by (auto intro: sorted_wrt_mono_rel [rotated])
  moreover have "before e ?bs ?h p q" if q: "q \<in> X" "K q = K p" for q
    unfolding before_def
  proof (intro allI impI)
    fix jp jq
    assume a: "jp < 2 ^ e" "jq < 2 ^ e" "?bs ! slot_at (2 ^ e) ?h jp = Some p" "?bs ! slot_at (2 ^ e) ?h jq = Some q"
    have "bs ! slot_at (2 ^ e) ?h jq = Some q" using a(4) old q(1) by simp
    then obtain i where i: "i < jq" "bs ! slot_at (2 ^ e) ?h i = None" using un q a(2) by (auto simp: unreached_def)
    then have "j \<le> i" using j(3) by (meson not_le)
    moreover have "jp = j"
    proof (rule one_bucket_inj [OF one_bucket_insert [OF one _ j(2) p] a(1) j(1) a(3)])
      show "?bs ! slot_at (2 ^ e) ?h j = Some p" using len by simp
    qed simp
    ultimately show "jp < jq" using i(1) by simp
  qed
  ultimately show ?thesis using X by (auto simp: in_order_def)
qed

end
