(* ===== verification/Lru_Ops.thy ===== *)
theory Lru_Ops
  imports Lru_Table
begin

text \<open>
  The operations of the cache keep its invariant, and the token cache and the merge cache are forgetful
  caches.
\<close>

subsection \<open>The invariant\<close>

definition key_of :: "lru_cache \<Rightarrow> nat \<Rightarrow> bytes" where
  "key_of c p = n_key (the (lru_heap c p))"

definition table_ok :: "nat \<Rightarrow> lru_cache \<Rightarrow> nat set \<Rightarrow> bool" where
  "table_ok e c X \<longleftrightarrow> lru_nbuckets c = 2 ^ e \<and> e \<le> 31 \<and> 2 * max 1 (lru_capacity c) \<le> 2 ^ e \<and>
     one_bucket e (lru_buckets c) X \<and> dom (lru_heap c) = X \<and> (\<forall>p \<in> X. p < lru_fresh c) \<and>
     (\<forall>p n. lru_heap c p = Some n \<longrightarrow> n_hash n = lru_key_hash (n_key n))"

definition lru_inv :: "nat \<Rightarrow> lru_cache \<Rightarrow> nat list \<Rightarrow> bool" where
  "lru_inv e c xs \<longleftrightarrow> list_ok c xs \<and> lru_count c = length xs \<and> length xs \<le> max 1 (lru_capacity c) \<and>
     table_ok e c (set xs) \<and> in_order e (key_of c) (lru_buckets c) xs"

text \<open>What two states agree on at some addresses.\<close>

definition agree :: "lru_cache \<Rightarrow> lru_cache \<Rightarrow> nat set \<Rightarrow> bool" where
  "agree c c' X \<longleftrightarrow> (\<forall>q \<in> X. map_option strip (lru_heap c' q) = map_option strip (lru_heap c q))"

lemma strip_cong:
  assumes "map_option strip x = map_option strip y"
  shows "x = None \<longleftrightarrow> y = None" and "n_key (the x) = n_key (the y)" and "n_hash (the x) = n_hash (the y)"
    and "(\<And>n. V (strip n) = V n) \<Longrightarrow> V (the x) = V (the y)"
proof -
  show "x = None \<longleftrightarrow> y = None" using assms by (cases x; cases y) auto
  have *: "V (the x) = V (the y)" if "\<And>n. V (strip n) = V n" for V :: "lru_node \<Rightarrow> 'z"
    using assms that by (cases x; cases y) (auto dest: arg_cong [where f = V])
  show "(\<And>n. V (strip n) = V n) \<Longrightarrow> V (the x) = V (the y)" using assms 
    by (cases x; cases y) (auto dest: arg_cong [where f = V])
  show "n_key (the x) = n_key (the y)" "n_hash (the x) = n_hash (the y)"
    using assms by (cases x; cases y; auto dest: arg_cong [where f = n_key] arg_cong [where f = n_hash])+
qed

lemma agree_key: "agree c c' X \<Longrightarrow> q \<in> X \<Longrightarrow> key_of c' q = key_of c q"
  unfolding agree_def key_of_def by (meson strip_cong(2))

lemma same_data_agree: "same_data c c' \<Longrightarrow> agree c c' X"
  by (simp add: same_data_def agree_def)

lemma same_data_key: "same_data c c' \<Longrightarrow> key_of c' = key_of c"
  using agree_key [OF same_data_agree [where X = UNIV]] by auto

lemma same_data_table:
  assumes s: "same_data c c'" and t: "table_ok e c X"
  shows "table_ok e c' X"
proof -
  have sd: "map_option strip (lru_heap c' q) = map_option strip (lru_heap c q)" for q using s by (simp add: same_data_def)
  have "dom (lru_heap c') = dom (lru_heap c)" using strip_cong(1) [OF sd] by (auto simp: dom_def)
  moreover have "n_hash n = lru_key_hash (n_key n)" if n: "lru_heap c' p = Some n" for p n
  proof -
    obtain m where "lru_heap c p = Some m" using strip_cong(1) [OF sd, of p] n by (cases "lru_heap c p") auto
    then show ?thesis using strip_cong(2,3) [OF sd, of p] n t by (simp add: table_ok_def)
  qed
  ultimately show ?thesis using s t by (simp add: table_ok_def same_data_def)
qed

lemma in_order_key: "(\<And>p. p \<in> set xs \<Longrightarrow> K' p = K p) \<Longrightarrow> in_order e K' bs xs \<longleftrightarrow> in_order e K bs xs"
  by (simp add: in_order_def sorted_wrt_iff_nth_less)

lemma lru_invD:
  assumes "lru_inv e c xs"
  shows "list_ok c xs" and "distinct xs" and "lru_count c = length xs" and "length xs \<le> max 1 (lru_capacity c)"
    and "table_ok e c (set xs)" and "in_order e (key_of c) (lru_buckets c) xs"
    and "one_bucket e (lru_buckets c) (set xs)" and "length (lru_buckets c) = 2 ^ e" and "lru_nbuckets c = 2 ^ e"
    and "length xs < 2 ^ e" and "\<exists>i < 2 ^ e. lru_buckets c ! i = None"
proof -
  show l: "list_ok c xs" "lru_count c = length xs" "length xs \<le> max 1 (lru_capacity c)" "table_ok e c (set xs)"
    "in_order e (key_of c) (lru_buckets c) xs"
    using assms by (simp_all add: lru_inv_def)
  show d: "distinct xs" using l(1) by (simp add: list_ok_def)
  show o: "one_bucket e (lru_buckets c) (set xs)" and "lru_nbuckets c = 2 ^ e" using l(4) by (simp_all add: table_ok_def)
  then show "length (lru_buckets c) = 2 ^ e" by (simp add: one_bucket_def)
  have "2 * max 1 (lru_capacity c) \<le> 2 ^ e" using l(4) by (simp add: table_ok_def)
  then show less: "length xs < 2 ^ e" using l(3) by linarith
  show "\<exists>i < 2 ^ e. lru_buckets c ! i = None"
    by (rule one_bucket_empty [OF o]) (use less distinct_card [OF d] in simp_all)
qed

lemma inv_node:
  assumes "lru_inv e c xs" and "p \<in> set xs"
  obtains n where "lru_heap c p = Some n" "n_key n = key_of c p" "n_hash n = lru_key_hash (key_of c p)" "p < lru_fresh c"
proof -
  have "p \<in> dom (lru_heap c)" using assms by (auto simp: lru_inv_def table_ok_def)
  then obtain n where "lru_heap c p = Some n" by blast
  then show thesis using that assms by (auto simp: lru_inv_def table_ok_def key_of_def)
qed

subsection \<open>Finding a key\<close>

lemma lru_find_ok:
  assumes inv: "lru_inv e c xs"
  shows "\<exists>r. lru_find c key = Some r \<and> (case r of
      Some p \<Rightarrow> \<exists>a b. xs = a @ p # b \<and> key_of c p = key \<and> (\<forall>q \<in> set a. key_of c q \<noteq> key)
    | None \<Rightarrow> \<forall>q \<in> set xs. key_of c q = key \<longrightarrow> unreached e (lru_buckets c) (key_home e key) q)"
proof -
  let ?h = "key_home e key" and ?bs = "lru_buckets c"
  note one = lru_invD(7) [OF inv]
  define halt where "halt j \<longleftrightarrow> (case ?bs ! slot_at (2 ^ e) ?h j of None \<Rightarrow> True | Some p \<Rightarrow> key_of c p = key)" for j
  obtain i where i: "i < 2 ^ e" "?bs ! i = None" using lru_invD(11) [OF inv] by blast
  obtain j0 where j0: "j0 < 2 ^ e" "slot_at (2 ^ e) ?h j0 = i" using slot_at_onto [OF key_home_less i(1)] .
  define j where "j = (LEAST j. halt j)"
  have "halt j0" using i j0 by (simp add: halt_def)
  then have j: "halt j" "j \<le> j0" "\<And>i. i < j \<Longrightarrow> \<not> halt i"
    unfolding j_def by (auto intro: LeastI Least_le dest: not_less_Least)
  have j1: "j < 2 ^ e" using j(2) j0(1) by simp
  have node: "\<exists>n. lru_heap c q = Some n \<and> n_key n = key_of c q \<and> n_hash n = lru_key_hash (key_of c q)"
    if "?bs ! slot_at (2 ^ e) ?h i = Some q" for i q
    using inv_node [OF inv one_bucket_mem [OF one that]] by metis
  have "lru_probe c (lru_key_hash key) key ?h = Some (?bs ! slot_at (2 ^ e) ?h j)"
  proof (rule probe_node [OF lru_invD(8,9) [OF inv] key_home_less])
    show "\<forall>i < j. \<exists>q n. ?bs ! slot_at (2 ^ e) ?h i = Some q \<and> lru_heap c q = Some n \<and>
        \<not> (n_hash n = lru_key_hash key \<and> n_key n = key)"
      using j(3) node by (fastforce simp: halt_def split: option.splits)
    show "case ?bs ! slot_at (2 ^ e) ?h j of None \<Rightarrow> True
      | Some q \<Rightarrow> \<exists>n. lru_heap c q = Some n \<and> n_hash n = lru_key_hash key \<and> n_key n = key"
      using j(1) node by (fastforce simp: halt_def split: option.splits)
  qed
  then have f: "lru_find c key = Some (?bs ! slot_at (2 ^ e) ?h j)"
    using lru_invD(9) [OF inv] by (simp add: lru_find_def Let_def and_mask key_home_def)
  show ?thesis
  proof (cases "?bs ! slot_at (2 ^ e) ?h j")
    case None
    have "unreached e ?bs ?h q" if "key_of c q = key" for q
      unfolding unreached_def
    proof (intro allI impI)
      fix i
      assume "i < 2 ^ e" "?bs ! slot_at (2 ^ e) ?h i = Some q"
      then have "halt i" "i \<noteq> j" using that None by (auto simp: halt_def)
      then show "\<exists>k < i. ?bs ! slot_at (2 ^ e) ?h k = None" using j(3) None by (metis linorder_neqE_nat)
    qed
    then show ?thesis using f None by simp
  next
    case (Some p)
    have p: "p \<in> set xs" "key_of c p = key" using one_bucket_mem [OF one Some] j(1) Some by (auto simp: halt_def)
    then obtain a b where ab: "xs = a @ p # b" by (meson split_list)
    have "key_of c q \<noteq> key" if q: "q \<in> set a" for q
    proof
      assume k: "key_of c q = key"
      then have b: "before e ?bs ?h q p"
        using lru_invD(6) [OF inv] ab q p(2) by (simp add: in_order_def sorted_wrt_append)
      obtain i where "i < 2 ^ e" "?bs ! slot_at (2 ^ e) ?h i = Some q"
        using one_bucket_slot [OF one _ key_home_less] ab q by (metis in_set_conv_decomp Un_iff set_append)
      then have "i < j" "halt i" using b Some j1 k by (auto simp: before_def halt_def)
      then show False using j(3) by blast
    qed
    then show ?thesis using f Some ab p(2) by auto
  qed
qed

subsection \<open>A hit\<close>

lemma touch_inv:
  assumes inv: "lru_inv e c (a @ p # b)" and a: "\<forall>q \<in> set a. key_of c q \<noteq> key_of c p"
  shows "\<exists>c'. lru_touch c p = Some c' \<and> lru_inv e c' (p # a @ b) \<and> same_data c c'"
proof -
  obtain c' where c': "lru_touch c p = Some c'" "list_ok c' (p # a @ b)" "same_data c c'"
    using touch_ok [OF lru_invD(1) [OF inv]] by blast
  have s: "set (p # a @ b) = set (a @ p # b)" by auto
  have "in_order e (key_of c) (lru_buckets c) (p # a @ b)"
    using lru_invD(6) [OF inv] a unfolding in_order_def by (auto simp: sorted_wrt_append)
  then have "lru_inv e c' (p # a @ b)"
    using c'(2,3) same_data_table [OF c'(3) lru_invD(5) [OF inv]] same_data_key [OF c'(3)] lru_invD(3,4) [OF inv]
    unfolding lru_inv_def s by (simp add: same_data_def)
  then show ?thesis using c' by blast
qed

text \<open>Writing a value.\<close>

definition fills :: "(lru_node \<Rightarrow> lru_node) \<Rightarrow> bool" where
  "fills f \<longleftrightarrow> (\<forall>n. n_key (f n) = n_key n \<and> n_hash (f n) = n_hash n \<and> n_prev (f n) = n_prev n \<and> n_next (f n) = n_next n)"

lemma links_cong:
  "(\<And>p. p \<in> set xs \<Longrightarrow> map_option (\<lambda>n. (n_prev n, n_next n)) (hp' p) = map_option (\<lambda>n. (n_prev n, n_next n)) (hp p)) \<Longrightarrow>
    links hp' pv xs nx \<longleftrightarrow> links hp pv xs nx"
proof (induction xs arbitrary: pv)
  case (Cons x xs)
  have "map_option (\<lambda>n. (n_prev n, n_next n)) (hp' x) = map_option (\<lambda>n. (n_prev n, n_next n)) (hp x)" using Cons.prems by simp
  then have "(\<exists>n. hp' x = Some n \<and> n_prev n = pv \<and> n_next n = hd_or xs nx) \<longleftrightarrow>
      (\<exists>n. hp x = Some n \<and> n_prev n = pv \<and> n_next n = hd_or xs nx)"
    by (cases "hp x"; cases "hp' x") auto
  then show ?case using Cons by simp
qed simp

lemma set_inv:
  assumes inv: "lru_inv e c xs" and f: "fills f" and p: "lru_heap c p = Some n"
  shows "lru_inv e (c\<lparr>lru_heap := (lru_heap c)(p \<mapsto> f n)\<rparr>) xs"
proof -
  let ?c = "c\<lparr>lru_heap := (lru_heap c)(p \<mapsto> f n)\<rparr>"
  have "links (lru_heap ?c) None xs None \<longleftrightarrow> links (lru_heap c) None xs None"
    by (rule links_cong) (use f p in \<open>auto simp: fills_def\<close>)
  then have "list_ok ?c xs" using lru_invD(1) [OF inv] by (simp add: list_ok_def)
  moreover have "key_of ?c = key_of c" using f p by (auto simp: key_of_def fills_def fun_eq_iff)
  moreover have "table_ok e ?c (set xs)" using lru_invD(5) [OF inv] f p by (auto simp: table_ok_def fills_def)
  ultimately show ?thesis using inv by (simp add: lru_inv_def)
qed

subsection \<open>A miss\<close>

lemma evict_inv:
  assumes inv: "lru_inv e c (xs @ [p])"
  shows "\<exists>c'. lru_evict c = Some c' \<and> lru_inv e c' xs \<and> agree c c' (set xs) \<and>
    lru_capacity c' = lru_capacity c \<and> (\<forall>q \<in> set xs. unreached e (lru_buckets c) (key_home e (key_of c q)) q \<longrightarrow>
      unreached e (lru_buckets c') (key_home e (key_of c q)) q)"
proof -
  let ?n = "(2::nat) ^ e" and ?X = "set (xs @ [p])"
  have px: "p \<notin> set xs" "distinct xs" using lru_invD(2) [OF inv] by auto
  obtain c1 where c1: "lru_unlink c p = Some c1" "list_ok c1 xs" "same_data c c1"
    using unlink_ok [of c xs p "[]"] lru_invD(1) [OF inv] by auto
  define bs where "bs = lru_buckets c1"
  note K = same_data_key [OF c1(3)] and t1 = same_data_table [OF c1(3) lru_invD(5) [OF inv]]
  have b: "lru_buckets c = bs" using c1(3) by (simp add: same_data_def bs_def)
  have one: "one_bucket e bs ?X" and nb: "lru_nbuckets c1 = ?n" using t1 by (simp_all add: table_ok_def bs_def)
  have len: "length bs = ?n" using one by (simp add: one_bucket_def)
  have node: "\<exists>n. lru_heap c1 q = Some n \<and> unat (n_hash n) mod ?n = key_home e (key_of c1 q)" if q: "q \<in> ?X" for q
  proof -
    have "dom (lru_heap c1) = ?X" using t1 by (simp add: table_ok_def)
    then obtain n where "lru_heap c1 q = Some n" using q by blast
    then show ?thesis using t1 by (simp add: table_ok_def key_home_def key_of_def)
  qed
  obtain n where n: "lru_heap c1 p = Some n" "unat (n_hash n) mod ?n = key_home e (key_of c1 p)" using node [of p] by auto
  obtain i where i: "i < ?n" "bs ! i = Some p" using one by (auto simp: one_bucket_def)
  obtain j where j: "probe (\<lambda>b. b = Some p) bs (?n - 1) (key_home e (key_of c1 p)) = Some (slot_at ?n (key_home e (key_of c1 p)) j)"
    "bs ! slot_at ?n (key_home e (key_of c1 p)) j = Some p"
    using probe_exists [of bs e _ i "\<lambda>b. b = Some p", OF len key_home_less i] by metis
  define bi where "bi = slot_at ?n (key_home e (key_of c1 p)) j"
  have bi: "bi < ?n" "bs ! bi = Some p" using j(2) by (simp_all add: bi_def)
  obtain i0 where i0: "i0 < ?n" "bs ! i0 = None" using lru_invD(11) [OF inv] unfolding b by blast
  obtain k where k: "k < ?n" "slot_at ?n bi k = i0" using slot_at_onto [OF bi(1) i0(1)] .
  have "k \<noteq> 0" using k i0 bi by (intro notI) (simp add: slot_at_def)
  moreover have "\<forall>i < ?n. \<forall>q. bs ! i = Some q \<longrightarrow> lru_heap c1 q \<noteq> None"
  proof (intro allI impI)
    fix i q
    assume "i < ?n" "bs ! i = Some q"
    then have "q \<in> ?X" using one unfolding one_bucket_def by blast
    from node [OF this] show "lru_heap c1 q \<noteq> None" by auto
  qed
  ultimately obtain bs' m where s: "lru_shift (lru_heap c1) (?n - 1) bs bi = Some bs'" "m < k" "shifted e bs bi m bs'"
    "\<forall>i. 0 < i \<and> i \<le> m \<longrightarrow> away e (lru_heap c1) bs bi i"
    using shift_ok [OF len bi(1) _ k(1)] k(2) i0(2) by blast
  have "\<exists>q. bs ! slot_at ?n bi i = Some q \<and> key_home e (key_of c1 q) \<noteq> slot_at ?n bi i" if i: "0 < i" "i \<le> m" for i
  proof -
    obtain q n where q: "bs ! slot_at ?n bi i = Some q" "lru_heap c1 q = Some n" "unat (n_hash n) mod ?n \<noteq> slot_at ?n bi i"
      using s(4) i unfolding away_def by blast
    from node [OF one_bucket_mem [OF one q(1)]] q(2)
    have "unat (n_hash n) mod ?n = key_home e (key_of c1 q)" by (elim exE conjE) (simp only: option.inject)
    then have "key_home e (key_of c1 q) \<noteq> slot_at ?n bi i" using q(3) by simp
    then show ?thesis using q(1) by blast
  qed
  then have g: "gap_closed e (key_of c1) ?X bs bi p m bs'"
    using one bi s(2,3) k(1) by (simp add: gap_closed_def)
  define c' where "c' = c1\<lparr>lru_buckets := bs', lru_heap := (lru_heap c1)(p := None),
      lru_count := (lru_count c1 + 2 ^ 32 - 1) mod 2 ^ 32\<rparr>"
  have "lru_tail c = Some p" using lru_invD(1) [OF inv] by (simp add: list_ok_def)
  then have ev: "lru_evict c = Some c'"
    using c1(1) n nb j(1) s(1) by (simp add: lru_evict_def Let_def and_mask c'_def bi_def bs_def)
  have X: "?X - {p} = set xs" using px by auto
  have key: "key_of c' q = key_of c1 q" if "q \<in> set xs" for q using that px(1) by (auto simp: key_of_def c'_def)
  have "in_order e (key_of c1) bs xs" using lru_invD(6) [OF inv] b K by (simp add: in_order_def sorted_wrt_append)
  from in_order_closed [OF g this] have ord: "in_order e (key_of c') bs' xs"
    using in_order_key [of xs "key_of c'" "key_of c1"] key px X by simp
  have "length xs + 1 < 2 ^ 32"
  proof -
    have "length (xs @ [p]) < 2 ^ e" "e \<le> 31" using lru_invD(10) [OF inv] t1 by (simp_all add: table_ok_def)
    moreover from this have "(2::nat) ^ e \<le> 2 ^ 31" by (intro power_increasing) simp_all
    ultimately show ?thesis by simp
  qed
  then have "lru_count c' = length xs" using lru_invD(3) [OF inv] c1(3) by (simp add: c'_def same_data_def)
  moreover have "list_ok c' xs" using c1(2) px by (simp add: list_ok_def c'_def)
  moreover have "table_ok e c' (set xs)"
    using t1 one_bucket_closed [OF g] px(1) unfolding X by (auto simp: table_ok_def c'_def)
  moreover have cap: "lru_capacity c' = lru_capacity c" using c1(3) by (simp add: c'_def same_data_def)
  ultimately have "lru_inv e c' xs" using ord lru_invD(4) [OF inv] by (simp add: lru_inv_def c'_def)
  moreover have "agree c c' (set xs)" using c1(3) px(1) by (auto simp: agree_def same_data_def c'_def)
  moreover have "unreached e (lru_buckets c') (key_home e (key_of c q)) q"
    if "q \<in> set xs" "unreached e (lru_buckets c) (key_home e (key_of c q)) q" for q
    using unreached_closed [OF g, of q] that X b K px(1) by (auto simp: c'_def)
  ultimately show ?thesis using ev cap by blast
qed

text \<open>Before a new node is made there is room for it.\<close>

lemma make_room:
  assumes inv: "lru_inv e c xs" and un: "\<forall>q \<in> set xs. key_of c q = key \<longrightarrow> unreached e (lru_buckets c) (key_home e key) q"
  shows "\<exists>c1 ys zs. (if lru_capacity c \<le> lru_count c then lru_evict c else Some c) = Some c1 \<and> xs = ys @ zs \<and>
    lru_inv e c1 ys \<and> length ys < max 1 (lru_capacity c1) \<and> agree c c1 (set ys) \<and> lru_capacity c1 = lru_capacity c \<and>
    (\<forall>q \<in> set ys. key_of c1 q = key \<longrightarrow> unreached e (lru_buckets c1) (key_home e key) q)"
proof (cases "lru_capacity c \<le> lru_count c \<and> xs \<noteq> []")
  case True
  then obtain ys z where xs: "xs = ys @ [z]" by (cases xs rule: rev_cases) auto
  obtain c1 where c1: "lru_evict c = Some c1" "lru_inv e c1 ys" "agree c c1 (set ys)" "lru_capacity c1 = lru_capacity c"
    "\<And>q. q \<in> set ys \<Longrightarrow> unreached e (lru_buckets c) (key_home e (key_of c q)) q \<Longrightarrow>
      unreached e (lru_buckets c1) (key_home e (key_of c q)) q"
    using evict_inv [OF inv [unfolded xs]] by blast
  have "unreached e (lru_buckets c1) (key_home e key) q" if "q \<in> set ys" "key_of c1 q = key" for q
    using c1(5) [OF that(1)] un xs agree_key [OF c1(3) that(1)] that by auto
  moreover have "length ys < max 1 (lru_capacity c1)" using lru_invD(4) [OF inv] xs c1(4) by simp
  ultimately show ?thesis using True c1 xs by auto
next
  case False
  have "lru_evict c = Some c" if "xs = []" using lru_invD(1) [OF inv] that by (simp add: lru_evict_def list_ok_def)
  moreover have "length xs < max 1 (lru_capacity c)" using False lru_invD(3) [OF inv] by auto
  moreover have "agree c c (set xs)" by (simp add: agree_def)
  ultimately show ?thesis using False inv un by (intro exI [of _ c] exI [of _ xs] exI [of _ "[]"]) auto
qed

definition blank :: "bytes \<Rightarrow> lru_node" where
  "blank key = \<lparr>n_prev = None, n_next = None, n_key = key, n_hash = lru_key_hash key, n_slot = 0, n_val_u32 = 0,
     n_val_arr = None, n_val_arr_len = 0\<rparr>"

lemma add_inv:
  assumes inv: "lru_inv e c xs" and un: "\<forall>q \<in> set xs. key_of c q = key \<longrightarrow> unreached e (lru_buckets c) (key_home e key) q"
    and f: "fills f"
  shows "\<exists>c' ys zs p. lru_add c key f = Some c' \<and> xs = ys @ zs \<and> lru_inv e c' (p # ys) \<and> agree c c' (set ys) \<and> lru_capacity c' = lru_capacity c \<and>
    map_option strip (lru_heap c' p) = Some (strip (f (blank key)))"
proof -
  let ?n = "(2::nat) ^ e" and ?h = "key_home e key"
  obtain c1 ys zs where c1: "(if lru_capacity c \<le> lru_count c then lru_evict c else Some c) = Some c1" "xs = ys @ zs"
    "lru_inv e c1 ys" "length ys < max 1 (lru_capacity c1)" "agree c c1 (set ys)"
    "\<forall>q \<in> set ys. key_of c1 q = key \<longrightarrow> unreached e (lru_buckets c1) ?h q"
    and cap: "lru_capacity c1 = lru_capacity c"
    using make_room [OF inv un] by blast
  note len = lru_invD(8) [OF c1(3)] and one = lru_invD(7) [OF c1(3)]
  obtain i where i: "i < ?n" "lru_buckets c1 ! i = None" using lru_invD(11) [OF c1(3)] by blast
  obtain j where j: "j < ?n" "probe (\<lambda>b. b = None) (lru_buckets c1) (?n - 1) ?h = Some (slot_at ?n ?h j)"
    "lru_buckets c1 ! slot_at ?n ?h j = None" "\<forall>i < j. lru_buckets c1 ! slot_at ?n ?h i \<noteq> None"
    using probe_exists [of "lru_buckets c1" e _ i "\<lambda>b. b = None", OF len key_home_less i] by metis
  define p where "p = lru_fresh c1"
  define bs where "bs = (lru_buckets c1)[slot_at ?n ?h j := Some p]"
  define c3 where "c3 = c1\<lparr>lru_heap := (lru_heap c1)(p \<mapsto> f (blank key)), lru_fresh := Suc p, lru_buckets := bs\<rparr>"
  have p: "p \<notin> set ys" using lru_invD(5) [OF c1(3)] by (auto simp: table_ok_def p_def)
  have "list_ok c3 ys" using lru_invD(1) [OF c1(3)] p by (simp add: list_ok_def c3_def)
  then obtain c4 where c4: "lru_push_head c3 p = Some c4" "list_ok c4 (p # ys)" "same_data c3 c4"
    using push_head_ok [of c3 ys p "f (blank key)"] p by (auto simp: c3_def)
  define c' where "c' = c4\<lparr>lru_count := (lru_count c4 + 1) mod 2 ^ 32\<rparr>"
  have wr: "wr (lru_buckets c1) (slot_at ?n ?h j) (Some p) = Some bs" using len by (simp add: bs_def)
  have ?thesis if "lru_add c key f = Some c'"
  proof -
    have key3: "key_of c3 p = key" "\<And>q. q \<in> set ys \<Longrightarrow> key_of c3 q = key_of c1 q"
      using f p by (auto simp: key_of_def c3_def fills_def blank_def)
    have "table_ok e c3 (set (p # ys))"
      using lru_invD(5) [OF c1(3)] one_bucket_insert [OF one _ j(3) p] f
      by (auto simp: table_ok_def c3_def bs_def p_def fills_def blank_def less_Suc_eq)
    from same_data_table [OF c4(3) this] have t: "table_ok e c' (set (p # ys))" by (simp add: c'_def table_ok_def)
    have "in_order e (key_of c3) (lru_buckets c1) ys"
      using lru_invD(6) [OF c1(3)] in_order_key [of ys "key_of c3" "key_of c1"] key3(2) by simp
    then have "in_order e (key_of c3) bs (p # ys)"
      using in_order_insert [OF one _ refl p j(1), of "key_of c3"] j(3,4) c1(6) key3 unfolding bs_def by simp
    moreover have "key_of c' = key_of c3" using same_data_key [OF c4(3)] by (simp add: c'_def key_of_def fun_eq_iff)
    moreover have "lru_buckets c' = bs" using c4(3) by (simp add: c'_def same_data_def c3_def)
    ultimately have ord: "in_order e (key_of c') (lru_buckets c') (p # ys)" by simp
    have "length ys + 1 < 2 ^ 32"
    proof -
      have "length ys < 2 ^ e" "e \<le> 31" using lru_invD(5,10) [OF c1(3)] by (simp_all add: table_ok_def)
      moreover from this have "(2::nat) ^ e \<le> 2 ^ 31" by (intro power_increasing) simp_all
      ultimately show ?thesis by simp
    qed
    then have "lru_count c' = length (p # ys)" "length (p # ys) \<le> max 1 (lru_capacity c')"
      using lru_invD(3) [OF c1(3)] c1(4) c4(3) by (simp_all add: c'_def same_data_def c3_def)
    moreover have "list_ok c' (p # ys)" using c4(2) by (simp add: list_ok_def c'_def)
    ultimately have i': "lru_inv e c' (p # ys)" using t ord by (simp add: lru_inv_def)
    have "agree c c' (set ys)"
      using c1(5) c4(3) p unfolding agree_def same_data_def c3_def c'_def by auto
    moreover have "map_option strip (lru_heap c' p) = Some (strip (f (blank key)))"
      using c4(3) by (simp add: same_data_def c'_def c3_def)
    moreover have "lru_capacity c' = lru_capacity c" using cap c4(3) by (simp add: c'_def same_data_def c3_def)
    ultimately show ?thesis using that c1(2) i' by blast
  qed
  moreover have "lru_add c key f = Some c'"
    unfolding lru_add_def Let_def c1(1)
    using lru_invD(9) [OF c1(3)] j(2) wr c4(1)
    by (simp add: p_def [symmetric] blank_def [symmetric] and_mask key_home_def [symmetric] c3_def c'_def)
  ultimately show ?thesis by blast
qed

subsection \<open>The two caches\<close>

text \<open>The entries of a cache whose values are read by \<open>V\<close>.\<close>

definition entry :: "(lru_node \<Rightarrow> 'v) \<Rightarrow> lru_cache \<Rightarrow> nat \<Rightarrow> bytes \<times> 'v" where
  "entry V c p = (key_of c p, V (the (lru_heap c p)))"

definition lru_rep :: "nat \<Rightarrow> (lru_node \<Rightarrow> 'v) \<Rightarrow> lru_cache \<Rightarrow> (bytes \<times> 'v) list \<Rightarrow> bool" where
  "lru_rep cap V c es \<longleftrightarrow> lru_capacity c = cap \<and> (\<exists>e xs. lru_inv e c xs \<and> es = map (entry V c) xs)"

lemma lru_rep_count: "lru_rep cap V c es \<Longrightarrow> lru_count c = length es \<and> lru_count c \<le> max 1 cap"
  by (auto simp: lru_rep_def lru_inv_def)

definition reads :: "(lru_node \<Rightarrow> 'v) \<Rightarrow> bool" where
  "reads V \<longleftrightarrow> (\<forall>n. V (strip n) = V n)"

lemma agree_entry:
  assumes V: "reads V" and "agree c c' X" and "q \<in> X"
  shows "entry V c' q = entry V c q"
proof -
  have s: "map_option strip (lru_heap c' q) = map_option strip (lru_heap c q)" using assms(2,3) by (simp add: agree_def)
  have "V (the (lru_heap c' q)) = V (the (lru_heap c q))" by (rule strip_cong(4) [OF s]) (use V in \<open>simp add: reads_def\<close>)
  then show ?thesis using strip_cong(2) [OF s] by (simp add: entry_def key_of_def)
qed

lemma agree_entries: "reads V \<Longrightarrow> agree c c' (set xs) \<Longrightarrow> map (entry V c') xs = map (entry V c) xs"
  using agree_entry by (intro map_cong) blast+

lemma moves_entries:
  assumes "\<forall>q \<in> set a. key_of c q \<noteq> key" and "key_of c p = key" and "V (the (lru_heap c p)) = v"
  shows "moves (map (entry V c) (a @ p # b)) key v w ((key, w) # map (entry V c) a @ map (entry V c) b)"
proof -
  have "key \<notin> fst ` set (map (entry V c) a)" using assms(1) by (auto simp: entry_def)
  from movesI [OF this, of v "map (entry V c) b" w] show ?thesis using assms(2,3) by (simp add: entry_def)
qed

lemma touch_entries:
  assumes inv: "lru_inv e c (a @ p # b)" and V: "reads V" and a: "\<forall>q \<in> set a. key_of c q \<noteq> key_of c p"
  shows "\<exists>c' n. lru_touch c p = Some c' \<and> lru_heap c' p = Some n \<and> V n = V (the (lru_heap c p)) \<and> lru_rep (lru_capacity c) V c' (map (entry V c) (p # a @ b))"
proof -
  obtain c' where c': "lru_touch c p = Some c'" "lru_inv e c' (p # a @ b)" "same_data c c'"
    using touch_inv [OF inv a] by blast
  obtain n where n: "lru_heap c' p = Some n" using inv_node [OF c'(2), of p] by auto
  have ag: "agree c c' (set (p # a @ b))" by (rule same_data_agree [OF c'(3)])
  have "map (entry V c) (p # a @ b) = map (entry V c') (p # a @ b)" using agree_entries [OF V ag] by (rule sym)
  moreover have "V n = V (the (lru_heap c p))" using agree_entry [OF V ag, of p] n by (simp add: entry_def)
  moreover have "lru_capacity c' = lru_capacity c" using c'(3) by (simp add: same_data_def)
  ultimately show ?thesis using c'(1,2) n unfolding lru_rep_def by blast
qed

lemma put_law:
  assumes rep: "lru_rep cap V c es" and V: "reads V" and f: "fills f" and w: "\<And>n. V (f n) = w"
  shows "\<exists>c' es'. do { r \<leftarrow> lru_find c key;
      case r of Some p \<Rightarrow> do { c \<leftarrow> lru_set c p f; lru_touch c p } | None \<Rightarrow> lru_add c key f } = Some c' \<and>
    lru_rep cap V c' es' \<and> ((\<exists>v. moves es key v w es') \<or> adds es key w es')"
proof -
  obtain e xs where inv: "lru_inv e c xs" and es: "es = map (entry V c) xs" and cap: "lru_capacity c = cap"
    using rep by (auto simp: lru_rep_def)
  obtain r where r: "lru_find c key = Some r" "case r of
      Some p \<Rightarrow> \<exists>a b. xs = a @ p # b \<and> key_of c p = key \<and> (\<forall>q \<in> set a. key_of c q \<noteq> key)
    | None \<Rightarrow> \<forall>q \<in> set xs. key_of c q = key \<longrightarrow> unreached e (lru_buckets c) (key_home e key) q"
    using lru_find_ok [OF inv] by blast
  show ?thesis
  proof (cases r)
    case None
    then obtain c' ys zs p where c': "lru_add c key f = Some c'" "xs = ys @ zs" "lru_inv e c' (p # ys)"
      "agree c c' (set ys)" "map_option strip (lru_heap c' p) = Some (strip (f (blank key)))"
      "lru_capacity c' = lru_capacity c"
      using add_inv [OF inv _ f] r(2) by fastforce
    have s: "map_option strip (lru_heap c' p) = map_option strip (Some (f (blank key)))" using c'(5) by simp
    from strip_cong(2) [OF s] have "key_of c' p = key" using f by (simp add: key_of_def fills_def blank_def)
    moreover have "V (the (lru_heap c' p)) = V (the (Some (f (blank key))))"
      by (rule strip_cong(4) [OF s]) (use V in \<open>simp add: reads_def\<close>)
    ultimately have "entry V c' p = (key, w)" using w by (simp add: entry_def)
    then have "adds es key w (map (entry V c') (p # ys))"
      using agree_entries [OF V c'(4)] c'(2) es by (simp add: adds_def)
    moreover have "lru_rep cap V c' (map (entry V c') (p # ys))" using c'(3,6) cap unfolding lru_rep_def by blast
    ultimately show ?thesis using r(1) None c'(1) by (intro exI conjI disjI2) simp_all
  next
    case (Some p)
    then obtain a b where ab: "xs = a @ p # b" "key_of c p = key" "\<forall>q \<in> set a. key_of c q \<noteq> key"
      using r(2) by auto
    obtain n where n: "lru_heap c p = Some n" using inv_node [OF inv, of p] ab(1) by auto
    define c1 where "c1 = c\<lparr>lru_heap := (lru_heap c)(p \<mapsto> f n)\<rparr>"
    have inv1: "lru_inv e c1 (a @ p # b)" using set_inv [OF inv f n] ab(1) by (simp add: c1_def)
    have key1: "key_of c1 = key_of c" using f n by (auto simp: c1_def key_of_def fills_def fun_eq_iff)
    have "\<forall>q \<in> set a. key_of c1 q \<noteq> key_of c1 p" using ab key1 by simp
    then obtain c' where c': "lru_touch c1 p = Some c'" "lru_rep (lru_capacity c1) V c' (map (entry V c1) (p # a @ b))"
      using touch_entries [OF inv1 V] by blast
    have "p \<notin> set (a @ b)" using lru_invD(2) [OF inv] ab(1) by auto
    then have "map (entry V c1) (a @ b) = map (entry V c) (a @ b)"
      using key1 by (intro map_cong) (auto simp: entry_def c1_def)
    moreover have "entry V c1 p = (key, w)" using w ab(2) key1 by (simp add: entry_def c1_def)
    ultimately have m: "map (entry V c1) (p # a @ b) = (key, w) # map (entry V c) a @ map (entry V c) b" by simp
    have "moves es key (V n) w (map (entry V c1) (p # a @ b))"
      unfolding m es ab(1) by (rule moves_entries [OF ab(3,2)]) (simp add: n)
    moreover have "lru_capacity c1 = cap" using cap by (simp add: c1_def)
    ultimately show ?thesis using r(1) Some c' n by (auto simp: lru_set_def c1_def)
  qed
qed

lemma get_law:
  assumes rep: "lru_rep cap V c es" and V: "reads V"
  shows "\<exists>r. lru_find c key = Some r \<and> (case r of None \<Rightarrow> True | Some p \<Rightarrow>
    \<exists>n c' n' v es'. lru_heap c p = Some n \<and> lru_touch c p = Some c' \<and> lru_heap c' p = Some n' \<and> V n = v \<and> V n' = v \<and>
      lru_rep cap V c' es' \<and> moves es key v v es')"
proof -
  obtain e xs where inv: "lru_inv e c xs" and es: "es = map (entry V c) xs" and cap: "lru_capacity c = cap"
    using rep by (auto simp: lru_rep_def)
  obtain r where r: "lru_find c key = Some r" "case r of
      Some p \<Rightarrow> \<exists>a b. xs = a @ p # b \<and> key_of c p = key \<and> (\<forall>q \<in> set a. key_of c q \<noteq> key)
    | None \<Rightarrow> \<forall>q \<in> set xs. key_of c q = key \<longrightarrow> unreached e (lru_buckets c) (key_home e key) q"
    using lru_find_ok [OF inv] by blast
  show ?thesis
  proof (cases r)
    case None
    then show ?thesis using r(1) by simp
  next
    case (Some p)
    then obtain a b where ab: "xs = a @ p # b" "key_of c p = key" "\<forall>q \<in> set a. key_of c q \<noteq> key"
      using r(2) by auto
    obtain n where n: "lru_heap c p = Some n" using inv_node [OF inv, of p] ab(1) by auto
    obtain c' n' where c': "lru_touch c p = Some c'" "lru_heap c' p = Some n'" "V n' = V n"
      "lru_rep (lru_capacity c) V c' (map (entry V c) (p # a @ b))"
      using touch_entries [OF inv [unfolded ab(1)] V] ab(2,3) n by auto
    have "entry V c p = (key, V n)" using n ab(2) by (simp add: entry_def)
    then have "moves es key (V n) (V n) (map (entry V c) (p # a @ b))"
      using moves_entries [OF ab(3,2), of V "V n"] n es ab(1) by simp
    then show ?thesis using r(1) Some n c' cap by auto
  qed
qed

lemma get_cases [consumes 2, case_names miss hit]:
  assumes "lru_rep cap V c es" and "reads V"
  obtains (miss) "lru_find c key = Some None"
  | (hit) p n c' n' es' where "lru_find c key = Some (Some p)" "lru_heap c p = Some n" "lru_touch c p = Some c'"
      "lru_heap c' p = Some n'" "V n' = V n" "lru_rep cap V c' es'" "moves es key (V n) (V n) es'"
  using get_law [OF assms, of key] by (fastforce split: option.splits)

definition arr_value :: "lru_node \<Rightarrow> nat list option \<times> nat" where
  "arr_value n = (n_val_arr n, n_val_arr_len n)"

lemma reads_values [simp]: "reads n_val_u32" "reads arr_value"
  by (simp_all add: reads_def arr_value_def)

interpretation token_cache: forgetful_cache "lru_rep cap n_val_u32" lru_put_u32 lru_get_u32 UINT32_MAX "\<lambda>v. v" for cap
proof
  fix c es k w
  assume "lru_rep cap n_val_u32 c es"
  then show "\<exists>s' es'. lru_put_u32 c k w = Some s' \<and> lru_rep cap n_val_u32 s' es' \<and> ((\<exists>v. moves es k v w es') \<or> adds es k w es')"
    unfolding lru_put_u32_def by (rule put_law) (simp_all add: fills_def)
next
  fix c es k
  assume rep: "lru_rep cap n_val_u32 c es"
  show "\<exists>r s' es'. lru_get_u32 c k = Some (r, s') \<and> lru_rep cap n_val_u32 s' es' \<and>
      (r = UINT32_MAX \<and> es' = es \<or> (\<exists>v. r = v \<and> moves es k v v es'))"
    using rep reads_values(1)
  proof (cases rule: get_cases [where key = k])
    case miss
    then show ?thesis using rep by (simp add: lru_get_u32_def) blast
  next
    case (hit p n c' n' es')
    then have "lru_get_u32 c k = Some (n_val_u32 n, c')" by (simp add: lru_get_u32_def)
    then show ?thesis using hit by blast
  qed
qed

interpretation merge_cache: forgetful_cache "lru_rep cap arr_value" lru_put_arr lru_get_arr "(None, None)"
  "\<lambda>v. (fst v, Some (snd v))" for cap
proof
  fix c es k and w :: "nat list option \<times> nat"
  assume "lru_rep cap arr_value c es"
  then show "\<exists>s' es'. lru_put_arr c k w = Some s' \<and> lru_rep cap arr_value s' es' \<and> ((\<exists>v. moves es k v w es') \<or> adds es k w es')"
    unfolding lru_put_arr_def by (rule put_law) (simp_all add: fills_def arr_value_def)
next
  fix c es k
  assume rep: "lru_rep cap arr_value c es"
  show "\<exists>r s' es'. lru_get_arr c k = Some (r, s') \<and> lru_rep cap arr_value s' es' \<and>
      (r = (None, None) \<and> es' = es \<or> (\<exists>v. r = (fst v, Some (snd v)) \<and> moves es k v v es'))"
    using rep reads_values(2)
  proof (cases rule: get_cases [where key = k])
    case miss
    then show ?thesis using rep by (simp add: lru_get_arr_def)
  next
    case (hit p n c' n' es')
    then have "lru_get_arr c k = Some ((fst (arr_value n), Some (snd (arr_value n))), c')"
      by (simp add: lru_get_arr_def arr_value_def)
    then show ?thesis using hit by blast
  qed
qed

lemma cache_new_ok:
  assumes "cap \<le> 2 ^ 30"
  shows "\<exists>c. lru_cache_new cap = Some c \<and> lru_rep cap V c []"
proof -
  have c: "(cap * 2) mod 2 ^ 32 = cap * 2" using assms by simp
  have "cap * 2 \<le> 2 ^ 31" "(4::nat) \<le> 31" using assms by simp_all
  then obtain e where e: "round_cap (2 ^ 4) (cap * 2) = Some (2 ^ e)" "cap * 2 \<le> 2 ^ e" "4 \<le> e" "e \<le> 31"
    using round_cap_spec by blast
  define c0 where "c0 = \<lparr>lru_heap = Map.empty, lru_fresh = 0, lru_buckets = replicate (2 ^ e) None, lru_capacity = cap,
      lru_count = 0, lru_head = None, lru_tail = None, lru_nbuckets = 2 ^ e\<rparr>"
  have "(2::nat) ^ 1 \<le> 2 ^ e" using e(3) by (intro power_increasing) simp_all
  then have "2 * max 1 cap \<le> 2 ^ e" using e(2) by (auto simp: max_def)
  then have "lru_inv e c0 []"
    using e(4) by (simp add: lru_inv_def c0_def list_ok_def table_ok_def one_bucket_def in_order_def)
  moreover have "lru_cache_new cap = Some c0" using e(1) c by (simp add: lru_cache_new_def c0_def)
  ultimately show ?thesis unfolding lru_rep_def by (intro exI [of _ c0]) (auto simp: c0_def)
qed

lemma token_run:
  assumes "lru_rep cap n_val_u32 c []"
  shows "\<exists>rs c'. run_cache lru_put_u32 lru_get_u32 c ops = Some (rs, c') \<and> lru_count c' \<le> max 1 cap \<and> length rs = length ops \<and>
    (\<forall>i < length ops. \<forall>k. ops ! i = Get k \<longrightarrow>
       rs ! i = Some UINT32_MAX \<or> (\<exists>v. puts Map.empty (take i ops) k = Some v \<and> rs ! i = Some v))"
proof -
  obtain rs c' es' where "run_cache lru_put_u32 lru_get_u32 c ops = Some (rs, c')" "lru_rep cap n_val_u32 c' es'"
    "length rs = length ops"
    "\<forall>i < length ops. \<forall>k. ops ! i = Get k \<longrightarrow> token_cache.last_or_miss (puts Map.empty (take i ops)) k (rs ! i)"
    using token_cache.run_ok [OF assms, of Map.empty ops] by auto
  then show ?thesis using lru_rep_count [of cap n_val_u32 c' es']
    by (intro exI [of _ rs] exI [of _ c']) (simp add: token_cache.last_or_miss_def)
qed

lemma merge_run:
  assumes "lru_rep cap arr_value c []"
  shows "\<exists>rs c'. run_cache lru_put_arr lru_get_arr c ops = Some (rs, c') \<and> lru_count c' \<le> max 1 cap \<and> length rs = length ops \<and>
    (\<forall>i < length ops. \<forall>k. ops ! i = Get k \<longrightarrow>
       rs ! i = Some (None, None) \<or> (\<exists>a n. puts Map.empty (take i ops) k = Some (a, n) \<and> rs ! i = Some (a, Some n)))"
proof -
  obtain rs c' es' where "run_cache lru_put_arr lru_get_arr c ops = Some (rs, c')" "lru_rep cap arr_value c' es'"
    "length rs = length ops"
    "\<forall>i < length ops. \<forall>k. ops ! i = Get k \<longrightarrow> merge_cache.last_or_miss (puts Map.empty (take i ops)) k (rs ! i)"
    using merge_cache.run_ok [OF assms, of Map.empty ops] by auto
  then show ?thesis using lru_rep_count [of cap arr_value c' es']
    by (intro exI [of _ rs] exI [of _ c']) (simp add: merge_cache.last_or_miss_def)
qed

subsection \<open>An entry that is lost\<close>

text \<open>Evaluating the operations step by step: no unfolding below the first bind.\<close>

lemma bind_weak: "x = y \<Longrightarrow> Option.bind x f = Option.bind y f"
  by simp

lemma home_bits: "unat (lru_key_hash [97]) AND 15 = 0" "unat (lru_key_hash [106]) AND 15 = 1"
  "unat (lru_key_hash [113]) AND 15 = 0" "unat (lru_key_hash [107]) AND 15 = 6"
  by (simp_all add: lru_key_hash_def)

lemma case_1: "(case (1::nat) of 0 \<Rightarrow> a | Suc j \<Rightarrow> f j) = f 0"
  by simp

lemmas run_lru = lru_put_u32_def lru_get_u32_def lru_find_def Let_def lru_probe.simps probe.simps lru_add_def
  lru_push_head_def lru_set_def rd_def wr_def lru_touch_def lru_unlink_def lru_evict_def lru_shift.simps home_bits case_1

lemma new_3: "lru_cache_new 3 = Some \<lparr>lru_heap = Map.empty, lru_fresh = 0, lru_buckets = replicate 16 None,
    lru_capacity = 3, lru_count = 0, lru_head = None, lru_tail = None, lru_nbuckets = 16\<rparr>"
  by (simp add: lru_cache_new_def round_cap.simps)

lemma replicate_16: "replicate 16 x = [x, x, x, x, x, x, x, x, x, x, x, x, x, x, x, x]"
  by (simp add: eval_nat_numeral)

lemma lost_run:
  "Option.bind (lru_cache_new 3) (\<lambda>c. map_option (\<lambda>r. (fst r, lru_count (snd r))) (run_cache lru_put_u32 lru_get_u32 c
     [Put [97] 1, Put [106] 2, Put [113] 3, Put [107] 4, Get [113]])) =
   Some ([None, None, None, None, Some UINT32_MAX], 3)"
  unfolding new_3
  by (simp add: run_lru replicate_16 One_nat_def [symmetric] del: One_nat_def cong: bind_weak option.case_cong_weak if_weak_cong)

lemma lost_entry:
  "\<exists>c c'. lru_cache_new 3 = Some c \<and>
     run_cache lru_put_u32 lru_get_u32 c [Put [97] 1, Put [106] 2, Put [113] 3, Put [107] 4, Get [113]] =
       Some ([None, None, None, None, Some UINT32_MAX], c') \<and> lru_count c' = 3"
proof -
  obtain c where c: "lru_cache_new 3 = Some c" using new_3 by blast
  from lost_run [unfolded c] show ?thesis using c by (auto simp del: run_cache.simps)
qed

end
