(* ===== verification/Ac_Old.thy ===== *)
theory Ac_Old
  imports Ac_Pack
begin

text \<open>
  The previous automaton, \<^verbatim>\<open>src/ac_bpe_old.c\<close>, which keeps the double array in the cells, numbers states by
  cells and has its root in cell 1; here its phase 2, the placement of the trie in the double array.
  The file is not built, and its cells have fields the header no longer
  has; \<open>old_cell\<close> has the fields the file uses. Its trie builder is that of \<^verbatim>\<open>src/ac_bpe.c\<close>
  (\<open>tb_insert\<close>). A \<^verbatim>\<open>-1\<close> is \<open>None\<close>. Cells and capacities are \<^verbatim>\<open>int32_t\<close>: a sum or a
  capacity beyond \<open>INT32_MAX\<close> has no result.
\<close>

subsection \<open>The double array\<close>

record dat_array =
  dat_base :: "nat list"
  dat_check :: "nat option list"
  dat_cap :: nat
  dat_first_free :: nat

partial_function (option) dat_grow :: "nat \<Rightarrow> nat \<Rightarrow> nat option" where
  "dat_grow nc need =
     (if nc \<le> need then if nc * 2 \<le> INT32_MAX then dat_grow (nc * 2) need else None
      else Some nc)"

definition dat_ensure :: "dat_array \<Rightarrow> nat \<Rightarrow> dat_array option" where
  "dat_ensure dat need =
     (if INT32_MAX < need then None
      else if need < dat_cap dat then Some dat
      else do {
        nc \<leftarrow> dat_grow (dat_cap dat) need;
        Some (dat\<lparr>dat_base := dat_base dat @ replicate (nc - dat_cap dat) 0,
                  dat_check := dat_check dat @ replicate (nc - dat_cap dat) None, dat_cap := nc\<rparr>)
      })"

text \<open>Whether the cells of the other children are free; those beyond the array are taken to be.\<close>

fun xcheck_rest :: "dat_array \<Rightarrow> nat \<Rightarrow> (byte \<times> nat) list \<Rightarrow> bool option" where
  "xcheck_rest dat b [] = Some True"
| "xcheck_rest dat b ((c, m) # es) =
     (if INT32_MAX < b + unat c then None
      else if dat_cap dat \<le> b + unat c then Some True
      else do {
        chk \<leftarrow> rd (dat_check dat) (b + unat c);
        if chk \<noteq> None then Some False else xcheck_rest dat b es
      })"

partial_function (option) xcheck_loop ::
    "dat_array \<Rightarrow> nat \<Rightarrow> (byte \<times> nat) list \<Rightarrow> nat \<Rightarrow> (dat_array \<times> nat) option" where
  "xcheck_loop dat first_byte rest pos = do {
     dat \<leftarrow> (if dat_cap dat \<le> pos then dat_ensure dat (pos + 256) else Some dat);
     chk \<leftarrow> rd (dat_check dat) pos;
     if chk \<noteq> None then xcheck_loop dat first_byte rest (pos + 1)
     else do {
       let b = pos - first_byte;
       free \<leftarrow> xcheck_rest dat b rest;
       if free then Some (dat, b) else xcheck_loop dat first_byte rest (pos + 1)
     }
   }"

definition dat_xcheck :: "dat_array \<Rightarrow> (byte \<times> nat) list \<Rightarrow> (dat_array \<times> nat) option" where
  "dat_xcheck dat edges = (case edges of
       [] \<Rightarrow> Some (dat, 1)
     | (c, m) # rest \<Rightarrow> xcheck_loop dat (unat c) rest (max (dat_first_free dat) (unat c + 1)))"

text \<open>
  The queue has \<^verbatim>\<open>tb->cap * 2\<close> entries, at least twice as many as there are nodes; a push beyond
  that is undefined.
\<close>

record dat_build =
  db_dat :: dat_array
  db_id :: "nat option list"
  db_queue :: "nat list"

fun dat_children :: "nat \<Rightarrow> nat \<Rightarrow> (byte \<times> nat) list \<Rightarrow> dat_build \<Rightarrow> dat_build option" where
  "dat_children di b [] st = Some st"
| "dat_children di b ((c, m) # es) st = do {
     let ci = b + unat c;
     dat \<leftarrow> dat_ensure (db_dat st) (ci + 257);
     check \<leftarrow> wr (dat_check dat) ci (Some di);
     base \<leftarrow> wr (dat_base dat) ci 0;
     ids \<leftarrow> wr (db_id st) m (Some ci);
     if length (db_queue st) < 2 * length (db_id st) then
       dat_children di b es \<lparr>db_dat = dat\<lparr>dat_check := check, dat_base := base\<rparr>, db_id = ids, db_queue = db_queue st @ [m]\<rparr>
     else None
   }"

partial_function (option) dat_advance :: "nat option list \<Rightarrow> nat \<Rightarrow> nat \<Rightarrow> nat option" where
  "dat_advance check cap ff =
     (if ff < cap then do {
        chk \<leftarrow> rd check ff;
        if chk \<noteq> None then dat_advance check cap (ff + 1) else Some ff
      } else Some ff)"

definition dat_node :: "trie_node list \<Rightarrow> nat \<Rightarrow> dat_build \<Rightarrow> dat_build option" where
  "dat_node nodes tn st = do {
     i \<leftarrow> rd (db_id st) tn;
     di \<leftarrow> i;
     n \<leftarrow> rd nodes tn;
     if tn_edges n = [] then do {
       base \<leftarrow> wr (dat_base (db_dat st)) di 1;
       Some (st\<lparr>db_dat := (db_dat st)\<lparr>dat_base := base\<rparr>\<rparr>)
     } else do {
       (dat, b) \<leftarrow> dat_xcheck (db_dat st) (tn_edges n);
       base \<leftarrow> wr (dat_base dat) di b;
       st \<leftarrow> dat_children di b (tn_edges n) (st\<lparr>db_dat := dat\<lparr>dat_base := base\<rparr>\<rparr>);
       ff \<leftarrow> dat_advance (dat_check (db_dat st)) (dat_cap (db_dat st)) (dat_first_free (db_dat st));
       Some (st\<lparr>db_dat := (db_dat st)\<lparr>dat_first_free := ff\<rparr>\<rparr>)
     }
   }"

partial_function (option) dat_loop :: "trie_node list \<Rightarrow> nat \<Rightarrow> dat_build \<Rightarrow> dat_build option" where
  "dat_loop nodes qh st =
     (if qh < length (db_queue st) then do {
        tn \<leftarrow> rd (db_queue st) qh;
        st \<leftarrow> dat_node nodes tn st;
        dat_loop nodes (qh + 1) st
      } else Some st)"

text \<open>
  The placement. \<^verbatim>\<open>tb->cap\<close>, a power of two, is \<open>2 ^ 30\<close> when there are more than \<open>2 ^ 29\<close> nodes, and
  then \<^verbatim>\<open>tb->cap * 2\<close> overflows.
\<close>

definition build_dat :: "trie_node list \<Rightarrow> dat_build option" where
  "build_dat nodes = (if 2 ^ 29 < length nodes then None else do {
     let cap = max (length nodes + 512) 8192;
     let dat = \<lparr>dat_base = replicate cap 0, dat_check = replicate cap None, dat_cap = cap, dat_first_free = 0\<rparr>;
     dat \<leftarrow> dat_ensure dat 1;
     check \<leftarrow> wr (dat_check dat) 1 (Some 1);
     base \<leftarrow> wr (dat_base dat) 1 0;
     ids \<leftarrow> wr (replicate (length nodes) None) 0 (Some 1);
     dat_loop nodes 0 \<lparr>db_dat = dat\<lparr>dat_check := check, dat_base := base\<rparr>, db_id = ids, db_queue = [0]\<rparr>
   })"

text \<open>The node of a cell, a linear search; nothing calls it.\<close>

fun find_trie_node :: "nat option list \<Rightarrow> nat \<Rightarrow> nat option" where
  "find_trie_node [] di = None"
| "find_trie_node (i # ids) di = (if i = Some di then Some 0 else map_option Suc (find_trie_node ids di))"

subsection \<open>Growing and searching\<close>

lemma dat_grow_ok:
  "0 < nc \<Longrightarrow> (\<exists>c. dat_grow nc need = Some c \<and> nc \<le> c \<and> need < c) \<or>
     (dat_grow nc need = None \<and> 2 ^ 30 \<le> need)"
proof (induction "Suc need - nc" arbitrary: nc rule: less_induct)
  case less
  show ?case
  proof (cases "nc \<le> need \<and> nc * 2 \<le> INT32_MAX")
    case True
    then have "Suc need - nc * 2 < Suc need - nc" using less.prems by arith
    from less.hyps [OF this] less.prems True show ?thesis by (subst (1 2) dat_grow.simps) auto
  next
    case False
    then show ?thesis by (subst (1 2) dat_grow.simps) (auto simp: INT32_MAX_def)
  qed
qed

definition dat_wf :: "dat_array \<Rightarrow> bool" where
  "dat_wf dat \<longleftrightarrow> length (dat_base dat) = dat_cap dat \<and> length (dat_check dat) = dat_cap dat \<and> 0 < dat_cap dat"

text \<open>\<open>dat_grown dat dat'\<close>: the array has got more free cells at the end.\<close>

definition dat_grown :: "dat_array \<Rightarrow> dat_array \<Rightarrow> bool" where
  "dat_grown dat dat' \<longleftrightarrow>
     (\<exists>n. dat' = dat\<lparr>dat_base := dat_base dat @ replicate n 0, dat_check := dat_check dat @ replicate n None,
                     dat_cap := dat_cap dat + n\<rparr>)"

lemma dat_grown_refl: "dat_grown dat dat"
  by (auto simp: dat_grown_def intro: exI [of _ 0])

lemma dat_grown_trans: "dat_grown dat dat1 \<Longrightarrow> dat_grown dat1 dat2 \<Longrightarrow> dat_grown dat dat2"
  unfolding dat_grown_def
  by (elim exE, rule_tac x = "n + na" in exI) (simp add: replicate_add add.assoc)

lemma dat_grown_wf: "dat_grown dat dat' \<Longrightarrow> dat_wf dat \<Longrightarrow> dat_wf dat'"
  by (auto simp: dat_grown_def dat_wf_def)

lemma dat_grown_fields:
  assumes "dat_grown dat dat'" and "dat_wf dat"
  shows "dat_first_free dat' = dat_first_free dat" and "dat_cap dat \<le> dat_cap dat'"
    and "t < dat_cap dat \<Longrightarrow> dat_base dat' ! t = dat_base dat ! t"
    and "t < dat_cap dat \<Longrightarrow> dat_check dat' ! t = dat_check dat ! t"
    and "dat_cap dat \<le> t \<Longrightarrow> t < dat_cap dat' \<Longrightarrow> dat_check dat' ! t = None"
  using assms by (auto simp: dat_grown_def dat_wf_def nth_append)

lemma dat_ensure_ok:
  assumes "dat_wf dat"
  shows "(\<exists>dat'. dat_ensure dat need = Some dat' \<and> dat_grown dat dat' \<and> dat_wf dat' \<and> need < dat_cap dat' \<and>
      need \<le> INT32_MAX) \<or>
    (dat_ensure dat need = None \<and> 2 ^ 30 \<le> need)"
proof (cases "INT32_MAX < need \<or> need < dat_cap dat \<or> dat_grow (dat_cap dat) need = None")
  case True
  have "dat_grow (dat_cap dat) need = None \<longrightarrow> 2 ^ 30 \<le> need"
    using dat_grow_ok [of "dat_cap dat" need] assms by (auto simp: dat_wf_def)
  then show ?thesis using True assms by (auto simp: dat_ensure_def dat_grown_refl INT32_MAX_def)
next
  case False
  then obtain c where c: "dat_grow (dat_cap dat) need = Some c" "dat_cap dat \<le> c" "need < c"
    using dat_grow_ok [of "dat_cap dat" need] assms unfolding dat_wf_def by auto
  let ?d = "dat\<lparr>dat_base := dat_base dat @ replicate (c - dat_cap dat) 0,
    dat_check := dat_check dat @ replicate (c - dat_cap dat) None, dat_cap := c\<rparr>"
  have "dat_grown dat ?d" using c(2) by (auto simp: dat_grown_def intro!: exI [of _ "c - dat_cap dat"])
  then show ?thesis using False c dat_grown_wf [OF _ assms] by (simp add: dat_ensure_def)
qed

text \<open>\<open>free_at dat t\<close>: cell \<open>t\<close> is free, or beyond the array.\<close>

definition free_at :: "dat_array \<Rightarrow> nat \<Rightarrow> bool" where
  "free_at dat t \<longleftrightarrow> (t < dat_cap dat \<longrightarrow> dat_check dat ! t = None)"

lemma free_at_grown:
  assumes "dat_grown dat dat'" and "dat_wf dat"
  shows "free_at dat' t \<longleftrightarrow> free_at dat t"
  using dat_grown_fields(2,4,5) [OF assms] unfolding free_at_def
  by (metis le_trans linorder_not_le order_less_le_trans)

text \<open>The test stops at the first child beyond the array; the edges are sorted, so the others are beyond it too.\<close>

lemma xcheck_rest_ok:
  assumes wf: "dat_wf dat"
  shows "sorted_wrt (\<lambda>x y. fst x < fst y) es \<Longrightarrow>
    xcheck_rest dat b es = Some (\<forall>(c, m) \<in> set es. free_at dat (b + unat c)) \<or>
    (xcheck_rest dat b es = None \<and> INT32_MAX < b + 255)"
proof (induction es)
  case (Cons e es)
  obtain c m where e: "e = (c, m)" by (cases e)
  have c255: "unat c \<le> 255" using byte_less [of c] by linarith
  consider "INT32_MAX < b + unat c" | "b + unat c \<le> INT32_MAX" by linarith
  then show ?case
  proof cases
    case 1
    then show ?thesis using c255 e by simp
  next
    case in32: 2
    show ?thesis
    proof (cases "dat_cap dat \<le> b + unat c")
      case True
      have "free_at dat (b + unat c')" if "(c', m') \<in> set es" for c' m'
      proof -
        have "c < c'" using Cons.prems that e by auto
        then have "unat c < unat c'" by (simp add: word_less_nat_alt)
        then show ?thesis using True by (simp add: free_at_def)
      qed
      moreover have "free_at dat (b + unat c)" using True by (simp add: free_at_def)
      ultimately show ?thesis using True e in32 by auto
    next
      case False
      then show ?thesis using Cons wf e in32 by (auto simp: free_at_def dat_wf_def)
    qed
  qed
qed simp

lemma edges_sorted_wrt: "edges_sorted es \<longleftrightarrow> sorted_wrt (\<lambda>x y. fst x < fst y) es"
  by (auto simp: edges_sorted_def sorted_wrt_iff_nth_less)

lemma xcheck_loop_ok:
  assumes "dat_wf dat" and "c0 + 1 \<le> pos" and "sorted_wrt (\<lambda>x y. fst x < fst y) rest"
    and "\<forall>t. L \<le> t \<longrightarrow> free_at dat t"
    and "\<forall>(c, m) \<in> set rest. c0 < unat c"
  shows "(\<exists>dat' b. xcheck_loop dat c0 rest pos = Some (dat', b) \<and> dat_grown dat dat' \<and> dat_wf dat' \<and> 1 \<le> b \<and>
      b + c0 \<le> max pos L \<and> free_at dat (b + c0) \<and> (\<forall>(c, m) \<in> set rest. free_at dat (b + unat c))) \<or>
    (xcheck_loop dat c0 rest pos = None \<and> 2 ^ 30 \<le> max pos L + 256)"
  using assms
proof (induction "L - pos" arbitrary: dat pos rule: less_induct)
  case less
  let ?e = "if dat_cap dat \<le> pos then dat_ensure dat (pos + 256) else Some dat"
  show ?case
  proof (cases ?e)
    case None
    then have "2 ^ 30 \<le> pos + 256" using dat_ensure_ok [OF less.prems(1), of "pos + 256"] by (auto split: if_splits)
    moreover have "xcheck_loop dat c0 rest pos = None" using None by (subst xcheck_loop.simps) simp
    ultimately show ?thesis by auto
  next
    case (Some dat1)
    have d1: "?e = Some dat1" "dat_grown dat dat1" "dat_wf dat1" "pos < dat_cap dat1"
      using Some dat_ensure_ok [OF less.prems(1), of "pos + 256"] less.prems(1) dat_grown_refl
      by (auto split: if_splits)
    note fr = free_at_grown [OF d1(2) less.prems(1)]
    have pos: "dat_check dat1 ! pos = None \<longleftrightarrow> free_at dat pos"
      using d1(4) unfolding fr [symmetric] by (simp add: free_at_def)
    have rd1: "rd (dat_check dat1) pos = Some (dat_check dat1 ! pos)" using d1(3,4) by (simp add: dat_wf_def)
    let ?rest = "\<forall>(c, m) \<in> set rest. free_at dat (pos - c0 + unat c)"
    have rest: "xcheck_rest dat1 (pos - c0) rest = Some ?rest \<or>
        (xcheck_rest dat1 (pos - c0) rest = None \<and> INT32_MAX < pos - c0 + 255)"
      using xcheck_rest_ok [OF d1(3) less.prems(3), of "pos - c0"] fr by simp
    have step: "xcheck_loop dat c0 rest pos =
        (if free_at dat pos then do {
           free \<leftarrow> xcheck_rest dat1 (pos - c0) rest;
           if free then Some (dat1, pos - c0) else xcheck_loop dat1 c0 rest (pos + 1)
         } else xcheck_loop dat1 c0 rest (pos + 1))"
      unfolding xcheck_loop.simps [of dat c0 rest pos] d1(1)
      using rd1 pos by (cases "free_at dat pos") (auto simp: Let_def)
    consider (over) "free_at dat pos" "xcheck_rest dat1 (pos - c0) rest = None" "INT32_MAX < pos - c0 + 255"
      | (good) "free_at dat pos" ?rest "xcheck_rest dat1 (pos - c0) rest = Some True"
      | (bad) "\<not> (free_at dat pos \<and> ?rest)" "xcheck_loop dat c0 rest pos = xcheck_loop dat1 c0 rest (pos + 1)"
      using rest step by (cases "free_at dat pos"; cases ?rest) auto
    then show ?thesis
    proof cases
      case over
      then have "2 ^ 30 \<le> max pos L + 256" by (simp add: INT32_MAX_def)
      then show ?thesis using over step by simp
    next
      case good
      have "pos - c0 + c0 = pos" "1 \<le> pos - c0" using less.prems(2) by simp_all
      then show ?thesis using good step d1(2,3)
        by (intro disjI1 exI [of _ dat1] exI [of _ "pos - c0"]) simp
    next
      case bad
      have "pos < L"
      proof (rule ccontr)
        assume n: "\<not> pos < L"
        have "L \<le> pos - c0 + unat c" if "(c, m) \<in> set rest" for c m
          using n less.prems(2,5) that by fastforce
        then show False using n less.prems(4) bad(1) by auto
      qed
      then have m: "L - (pos + 1) < L - pos" "max (pos + 1) L = L" "max pos L = L" by simp_all
      have "c0 + 1 \<le> pos + 1" "\<forall>t. L \<le> t \<longrightarrow> free_at dat1 t" using less.prems(2,4) fr by simp_all
      from less.hyps [OF m(1) d1(3) this(1) less.prems(3) this(2) less.prems(5)] show ?thesis
        unfolding bad(2) m fr using dat_grown_trans [OF d1(2)] by blast
    qed
  qed
qed

lemma dat_xcheck_ok:
  assumes wf: "dat_wf dat" and srt: "edges_sorted es" and ne: "es \<noteq> []" and ff: "dat_first_free dat = 0"
    and L: "\<forall>t. L \<le> t \<longrightarrow> free_at dat t" "256 \<le> L"
  shows "(\<exists>dat' b. dat_xcheck dat es = Some (dat', b) \<and> dat_grown dat dat' \<and> dat_wf dat' \<and> 1 \<le> b \<and> b \<le> L \<and>
      (\<forall>(c, m) \<in> set es. free_at dat (b + unat c))) \<or>
    (dat_xcheck dat es = None \<and> 2 ^ 30 \<le> L + 256)"
proof -
  obtain c m rest where es: "es = (c, m) # rest" using ne by (metis list.exhaust surj_pair)
  have r: "sorted_wrt (\<lambda>x y. fst x < fst y) rest" "\<forall>(c', m') \<in> set rest. unat c < unat c'"
    using srt unfolding edges_sorted_wrt es by (auto simp: word_less_nat_alt)
  have "max (unat c + 1) L = L" using byte_less [of c] L(2) by linarith
  then show ?thesis
    using xcheck_loop_ok [OF wf order_refl r(1) L(1) r(2)] es ff by (auto simp: dat_xcheck_def)
qed

subsection \<open>The array as a total function\<close>

text \<open>Cells beyond the array count as free.\<close>

definition check_at :: "dat_array \<Rightarrow> nat \<Rightarrow> nat option" where
  "check_at dat t = (if t < dat_cap dat then dat_check dat ! t else None)"

definition base_at :: "dat_array \<Rightarrow> nat \<Rightarrow> nat" where
  "base_at dat t = (if t < dat_cap dat then dat_base dat ! t else 0)"

lemma free_check: "free_at dat t \<longleftrightarrow> check_at dat t = None"
  by (simp add: free_at_def check_at_def)

lemma grown_at:
  assumes "dat_grown dat dat'" and "dat_wf dat"
  shows "check_at dat' = check_at dat" and "base_at dat' = base_at dat"
  using assms by (auto simp: dat_grown_def dat_wf_def check_at_def base_at_def nth_append fun_eq_iff)

lemma base_set:
  fixes dat i v
  assumes "dat_wf dat" and "i < dat_cap dat"
  defines "dat' \<equiv> dat\<lparr>dat_base := (dat_base dat)[i := v]\<rparr>"
  shows "wr (dat_base dat) i v = Some (dat_base dat')" and "dat_wf dat'" and "dat_cap dat' = dat_cap dat"
    and "dat_first_free dat' = dat_first_free dat" and "check_at dat' = check_at dat"
    and "base_at dat' = (base_at dat)(i := v)"
  using assms by (auto simp: dat_wf_def check_at_def base_at_def fun_eq_iff)

lemma cell_set:
  fixes dat i v k
  assumes "dat_wf dat" and "i < dat_cap dat"
  defines "dat' \<equiv> dat\<lparr>dat_check := (dat_check dat)[i := k], dat_base := (dat_base dat)[i := v]\<rparr>"
  shows "wr (dat_check dat) i k = Some (dat_check dat')" and "wr (dat_base dat) i v = Some (dat_base dat')"
    and "dat_wf dat'" and "dat_cap dat' = dat_cap dat" and "dat_first_free dat' = dat_first_free dat"
    and "check_at dat' = (check_at dat)(i := k)" and "base_at dat' = (base_at dat)(i := v)"
  using assms by (auto simp: dat_wf_def check_at_def base_at_def fun_eq_iff)

subsection \<open>The children of a node\<close>

definition did :: "dat_build \<Rightarrow> nat \<Rightarrow> nat" where
  "did st m = (case db_id st ! m of Some t \<Rightarrow> t | None \<Rightarrow> 0)"

definition kids_placed :: "nat \<Rightarrow> nat \<Rightarrow> (byte \<times> nat) list \<Rightarrow> dat_build \<Rightarrow> dat_build \<Rightarrow> bool" where
  "kids_placed di b es st st' \<longleftrightarrow>
     dat_wf (db_dat st') \<and> dat_cap (db_dat st) \<le> dat_cap (db_dat st') \<and>
     dat_first_free (db_dat st') = dat_first_free (db_dat st) \<and>
     db_queue st' = db_queue st @ map snd es \<and> length (db_id st') = length (db_id st) \<and>
     (\<forall>m. m \<notin> snd ` set es \<longrightarrow> db_id st' ! m = db_id st ! m) \<and>
     (\<forall>(c, m) \<in> set es. db_id st' ! m = Some (b + unat c) \<and> b + unat c < dat_cap (db_dat st') \<and>
        check_at (db_dat st') (b + unat c) = Some di) \<and>
     (\<forall>t. t \<notin> (\<lambda>(c, m). b + unat c) ` set es \<longrightarrow>
        check_at (db_dat st') t = check_at (db_dat st) t \<and> base_at (db_dat st') t = base_at (db_dat st) t)"

lemma dat_children_ok:
  assumes "dat_wf (db_dat st)" and "distinct (map fst es)" and "distinct (map snd es)"
    and "\<forall>(c, m) \<in> set es. m < length (db_id st)"
    and "length (db_queue st) + length es \<le> 2 * length (db_id st)"
  shows "(\<exists>st'. dat_children di b es st = Some st' \<and> kids_placed di b es st st' \<and>
      (es \<noteq> [] \<longrightarrow> b + 257 \<le> INT32_MAX)) \<or>
    (dat_children di b es st = None \<and> 2 ^ 30 \<le> b + 255 + 257)"
  using assms
proof (induction es arbitrary: st)
  case Nil
  then show ?case by (simp add: kids_placed_def)
next
  case (Cons e es)
  obtain c m where e: "e = (c, m)" by (cases e)
  let ?ci = "b + unat c"
  show ?case
  proof (cases "dat_ensure (db_dat st) (?ci + 257)")
    case None
    have "unat c \<le> 255" using byte_less [of c] by linarith
    then show ?thesis using dat_ensure_ok [OF Cons.prems(1), of "?ci + 257"] None e by (simp add: Let_def)
  next
    case (Some dat)
    have d: "dat_ensure (db_dat st) (?ci + 257) = Some dat" "dat_grown (db_dat st) dat" "dat_wf dat"
      "?ci + 257 < dat_cap dat" "b + 257 \<le> INT32_MAX"
      using dat_ensure_ok [OF Cons.prems(1), of "?ci + 257"] Some by simp_all
    note g = grown_at [OF d(2) Cons.prems(1)] dat_grown_fields(1,2) [OF d(2) Cons.prems(1)]
    have ci: "?ci < dat_cap dat" using d(4) by simp
    note w = cell_set [OF d(3) ci, where k = "Some di" and v = 0]
    define st1 where "st1 = \<lparr>db_dat = dat\<lparr>dat_check := (dat_check dat)[?ci := Some di], dat_base := (dat_base dat)[?ci := 0]\<rparr>,
      db_id = (db_id st)[m := Some ?ci], db_queue = db_queue st @ [m]\<rparr>"
    have m: "m < length (db_id st)" using Cons.prems(4) e by simp
    have step: "dat_children di b (e # es) st = dat_children di b es st1"
      using d(1) w(1,2) m Cons.prems(5) e by (simp add: Let_def st1_def)
    have IH: "(\<exists>st'. dat_children di b es st1 = Some st' \<and> kids_placed di b es st1 st' \<and>
          (es \<noteq> [] \<longrightarrow> b + 257 \<le> INT32_MAX)) \<or>
        (dat_children di b es st1 = None \<and> 2 ^ 30 \<le> b + 255 + 257)"
      using Cons.prems w(3) by (intro Cons.IH) (auto simp: st1_def)
    have "c \<noteq> c'" if "(c', m') \<in> set es" for c' m' using Cons.prems(2) that e by force
    then have new: "m \<notin> snd ` set es" "?ci \<notin> (\<lambda>(c, m). b + unat c) ` set es"
      using Cons.prems(3) e by (auto simp: word_unat_eq_iff)
    have S: "dat_cap (db_dat st1) = dat_cap dat" "dat_first_free (db_dat st1) = dat_first_free (db_dat st)"
      "db_queue st1 = db_queue st @ [m]" "length (db_id st1) = length (db_id st)"
      "check_at (db_dat st1) = (check_at (db_dat st))(?ci := Some di)"
      "base_at (db_dat st1) = (base_at (db_dat st))(?ci := 0)" "db_id st1 = (db_id st)[m := Some ?ci]"
      using w(4-7) g by (simp_all add: st1_def)
    have "kids_placed di b (e # es) st st'" if "kids_placed di b es st1 st'" for st'
      using that new m g(4) ci e unfolding kids_placed_def S by auto
    then show ?thesis using step IH d(5) by auto
  qed
qed

subsection \<open>The invariant of the placement\<close>

text \<open>
  The queue holds the root and the children of processed nodes, in different cells. An occupied cell is
  that of a node in the queue and names the cell of its parent; the base of a processed node leads to its
  children. Cell 0 stays free, so the hint for the first free cell never moves. After \<open>qh\<close> nodes
  the cells beyond \<open>256 * Suc qh\<close> are free.
\<close>

definition dat_inv :: "trie_node list \<Rightarrow> (nat \<Rightarrow> bytes) \<Rightarrow> nat \<Rightarrow> dat_build \<Rightarrow> bool" where
  "dat_inv nodes lab qh st \<longleftrightarrow>
     dat_wf (db_dat st) \<and> dat_first_free (db_dat st) = 0 \<and> length (db_id st) = length nodes \<and>
     qh \<le> length (db_queue st) \<and> distinct (db_queue st) \<and>
     (\<forall>m. m \<in> set (db_queue st) \<longleftrightarrow> m < length nodes \<and>
        (m = 0 \<or> parent_of nodes lab m \<in> set (take qh (db_queue st)))) \<and>
     (\<forall>m \<in> set (db_queue st). db_id st ! m = Some (did st m) \<and> 0 < did st m \<and> did st m < dat_cap (db_dat st)) \<and>
     inj_on (did st) (set (db_queue st)) \<and> did st 0 = 1 \<and> check_at (db_dat st) 1 = Some 1 \<and>
     (\<forall>m \<in> set (db_queue st). m \<noteq> 0 \<longrightarrow> check_at (db_dat st) (did st m) = Some (did st (parent_of nodes lab m))) \<and>
     (\<forall>t. check_at (db_dat st) t \<noteq> None \<longrightarrow> t \<in> did st ` set (db_queue st)) \<and>
     (\<forall>n \<in> set (take qh (db_queue st)). 1 \<le> base_at (db_dat st) (did st n) \<and>
        base_at (db_dat st) (did st n) + 257 \<le> INT32_MAX \<and>
        (\<forall>(c, m) \<in> set (tn_edges (nodes ! n)). did st m = base_at (db_dat st) (did st n) + unat c)) \<and>
     (\<forall>t. 256 * Suc qh < t \<longrightarrow> check_at (db_dat st) t = None)"

lemma dat_invD:
  assumes "dat_inv nodes lab qh st"
  shows "dat_wf (db_dat st)" and "dat_first_free (db_dat st) = 0" and "length (db_id st) = length nodes"
    and "qh \<le> length (db_queue st)" and "distinct (db_queue st)"
    and "m \<in> set (db_queue st) \<longleftrightarrow> m < length nodes \<and>
        (m = 0 \<or> parent_of nodes lab m \<in> set (take qh (db_queue st)))"
    and "m \<in> set (db_queue st) \<Longrightarrow> db_id st ! m = Some (did st m)" and "m \<in> set (db_queue st) \<Longrightarrow> 0 < did st m"
    and "m \<in> set (db_queue st) \<Longrightarrow> did st m < dat_cap (db_dat st)"
    and "inj_on (did st) (set (db_queue st))" and "did st 0 = 1" and "check_at (db_dat st) 1 = Some 1"
    and "m \<in> set (db_queue st) \<Longrightarrow> m \<noteq> 0 \<Longrightarrow>
        check_at (db_dat st) (did st m) = Some (did st (parent_of nodes lab m))"
    and "check_at (db_dat st) t \<noteq> None \<Longrightarrow> t \<in> did st ` set (db_queue st)"
    and "n \<in> set (take qh (db_queue st)) \<Longrightarrow> 1 \<le> base_at (db_dat st) (did st n)"
    and "n \<in> set (take qh (db_queue st)) \<Longrightarrow> (c, m) \<in> set (tn_edges (nodes ! n)) \<Longrightarrow>
        did st m = base_at (db_dat st) (did st n) + unat c"
    and "256 * Suc qh < t \<Longrightarrow> check_at (db_dat st) t = None"
    and "n \<in> set (take qh (db_queue st)) \<Longrightarrow> base_at (db_dat st) (did st n) + 257 \<le> INT32_MAX"
  using assms unfolding dat_inv_def by blast+


lemma dat_advance_free: "0 < cap \<Longrightarrow> cap \<le> length check \<Longrightarrow> check ! 0 = None \<Longrightarrow> dat_advance check cap 0 = Some 0"
  by (subst dat_advance.simps) (cases check, simp_all)

lemma dat_node_ok:
  assumes inv: "dat_inv nodes lab qh st" and t: "is_trie nodes D lab"
    and qh: "qh < length (db_queue st)" and tn: "tn = db_queue st ! qh"
  shows "(\<exists>st'. dat_node nodes tn st = Some st' \<and> dat_inv nodes lab (Suc qh) st') \<or>
    (dat_node nodes tn st = None \<and> 2 ^ 30 \<le> 256 * Suc qh + 1 + 512)"
proof (cases "tn_edges (nodes ! tn) \<noteq> [] \<and> dat_xcheck (db_dat st) (tn_edges (nodes ! tn)) = None")
  case True
  note I = dat_invD [OF inv]
  have tq: "tn \<in> set (db_queue st)" using qh tn by simp
  then have n: "tn < length nodes" using I(6) by blast
  have "edges_sorted (tn_edges (nodes ! tn))" using trie_repD(7) [OF t n] .
  moreover have "\<forall>u. 256 * Suc qh + 1 \<le> u \<longrightarrow> free_at (db_dat st) u" using I(17) by (simp add: free_check)
  ultimately have "2 ^ 30 \<le> 256 * Suc qh + 1 + 256"
    using dat_xcheck_ok [OF I(1) _ _ I(2), of "tn_edges (nodes ! tn)" "256 * Suc qh + 1"] True by auto
  moreover have "dat_node nodes tn st = None"
    using True I(3) I(7) [OF tq] n by (simp add: dat_node_def)
  ultimately show ?thesis by simp
next
  case found: False
  note I = dat_invD [OF inv]
  define q es p where "q = db_queue st" and "es = tn_edges (nodes ! tn)" and "p = did st tn"
  have tq: "tn \<in> set q" using qh tn by (simp add: q_def)
  have n: "tn < length nodes" using tq I(6) by (simp add: q_def)
  have slot: "rd (db_id st) tn = Some (Some p)" "p < dat_cap (db_dat st)"
    using I(3,7,9) tq n by (simp_all add: p_def q_def)
  have srt: "edges_sorted es" using trie_repD(7) [OF t n] by (simp add: es_def)
  note ch = trie_children [OF t n, folded es_def]
  define ms where "ms = map snd es"
  have lab0: "lab 0 = []" by (rule trie_repD(2) [OF t])
  have root: "lab m = [] \<longleftrightarrow> m = 0" if "m < length nodes" for m
    using trie_rep_inj [OF t that trie_repD(1) [OF t]] lab0 by simp
  have kid: "m \<in> set ms \<longleftrightarrow> m < length nodes \<and> m \<noteq> 0 \<and> parent_of nodes lab m = tn" for m
    using ch(3) [of m] root by (auto simp: ms_def)
  have tk: "set (take qh q) \<subseteq> set q" "tn \<notin> set (take qh q)" "take (Suc qh) (q @ xs) = take qh q @ [tn]" for xs
    using I(5) qh tn set_take_subset [of qh q] distinct_take [of q "Suc qh"]
    by (simp_all add: q_def take_Suc_conv_app_nth)
  have disj: "set q \<inter> set ms = {}"
  proof -
    have False if "m \<in> set q" "m \<in> set ms" for m
      using that kid [of m] I(6) [of m] tk(2) by (simp add: q_def)
    then show ?thesis by blast
  qed
  have dist: "distinct (q @ ms)" using I(5) ch(1) disj by (simp add: q_def ms_def)
  have "\<forall>m \<in> set (q @ ms). m < length nodes" using I(6) kid by (auto simp: q_def)
  then have "length q + length ms \<le> length nodes" using queue_room [OF dist] by simp
  then have room: "length (db_queue st) + length es \<le> 2 * length (db_id st)" using I(3) by (simp add: q_def ms_def)
  obtain dat b where x: "if es = [] then dat = db_dat st \<and> b = 1 else dat_xcheck (db_dat st) es = Some (dat, b)"
    "dat_grown (db_dat st) dat" "dat_wf dat" "1 \<le> b" "\<forall>(c, m) \<in> set es. free_at (db_dat st) (b + unat c)"
    "b \<le> 256 * Suc qh + 1"
  proof (cases "es = []")
    case True
    then show thesis using that [of "db_dat st" 1] dat_grown_refl I(1) by simp
  next
    case False
    have "\<forall>u. 256 * Suc qh + 1 \<le> u \<longrightarrow> free_at (db_dat st) u" using I(17) by (simp add: free_check)
    then show thesis
      using that dat_xcheck_ok [OF I(1) srt False I(2), of "256 * Suc qh + 1"] found False by (auto simp: es_def)
  qed
  note g = grown_at [OF x(2) I(1)] dat_grown_fields(1,2) [OF x(2) I(1)]
  have p: "p < dat_cap dat" using slot(2) g(4) by simp
  note w = base_set [OF x(3) p, of b]
  define st1 where "st1 = st\<lparr>db_dat := dat\<lparr>dat_base := (dat_base dat)[p := b]\<rparr>\<rparr>"
  have S: "dat_wf (db_dat st1)" "dat_cap (db_dat st1) = dat_cap dat" "dat_first_free (db_dat st1) = 0"
    "check_at (db_dat st1) = check_at (db_dat st)" "base_at (db_dat st1) = (base_at (db_dat st))(p := b)"
    "db_id st1 = db_id st" "db_queue st1 = q"
    using w g I(2) by (simp_all add: st1_def q_def)
  have "\<forall>(c, m) \<in> set es. m < length (db_id st1)" using ch(2) I(3) S(6) by auto
  then have kids: "(\<exists>st2. dat_children p b es st1 = Some st2 \<and> kids_placed p b es st1 st2 \<and>
        (es \<noteq> [] \<longrightarrow> b + 257 \<le> INT32_MAX)) \<or>
      (dat_children p b es st1 = None \<and> 2 ^ 30 \<le> b + 255 + 257)"
    using dat_children_ok [OF S(1) edges_distinct [OF srt] ch(1), of p b] room S(6,7) by (simp add: q_def)
  show ?thesis
  proof (cases "dat_children p b es st1")
    case None
    then have "es \<noteq> []" by auto
    then have "dat_node nodes tn st = None"
      using slot x(1) w(1) None n by (simp add: dat_node_def es_def [symmetric] st1_def)
    then show ?thesis using kids None x(6) by auto
  next
    case (Some st2)
    have c: "dat_children p b es st1 = Some st2" "kids_placed p b es st1 st2" "b + 257 \<le> INT32_MAX"
      using kids Some x(1) by (auto simp: INT32_MAX_def)
    have P: "dat_wf (db_dat st2)" "dat_cap dat \<le> dat_cap (db_dat st2)" "dat_first_free (db_dat st2) = 0"
      "db_queue st2 = q @ ms" "length (db_id st2) = length nodes"
      "\<And>m. m \<notin> set ms \<Longrightarrow> db_id st2 ! m = db_id st ! m"
      "\<And>c m. (c, m) \<in> set es \<Longrightarrow> db_id st2 ! m = Some (b + unat c) \<and> b + unat c < dat_cap (db_dat st2) \<and>
         check_at (db_dat st2) (b + unat c) = Some p"
      "\<And>t. t \<notin> (\<lambda>(c, m). b + unat c) ` set es \<Longrightarrow> check_at (db_dat st2) t = check_at (db_dat st) t \<and>
         base_at (db_dat st2) t = ((base_at (db_dat st))(p := b)) t"
      using c(2) S I(3) by (auto simp: kids_placed_def ms_def)
    have old: "did st2 m = did st m" if "m \<in> set q" for m
    proof -
      have "m \<notin> set ms" using that disj by blast
      then show ?thesis using P(6) by (simp add: did_def)
    qed
    have new: "did st2 m = b + unat c" if "(c, m) \<in> set es" for c m
      using P(7) [OF that] by (simp add: did_def)
    have occ: "check_at (db_dat st) (did st m) \<noteq> None" if m: "m \<in> set q" for m
      using I(11,12) I(13) [of m] m by (cases "m = 0") (simp_all add: q_def)
    have free: "b + unat c \<noteq> did st m" if c: "(c, m') \<in> set es" and m: "m \<in> set q" for c m m'
      using x(5) c occ [OF m] by (auto simp: free_check)
    have nofree: "did st m \<notin> (\<lambda>(c, m). b + unat c) ` set es" if "m \<in> set q" for m
      using free that by fastforce
    have edge: "\<exists>c. (c, m) \<in> set es" if "m \<in> set ms" for m using that by (auto simp: ms_def)
    have q0: "0 \<in> set q" using I(6) [of 0] trie_repD(1) [OF t] by (simp add: q_def)
    have c1: "m \<in> set (q @ ms) \<longleftrightarrow> m < length nodes \<and> (m = 0 \<or> parent_of nodes lab m \<in> set (take qh q @ [tn]))" for m
      using kid [of m] I(6) [of m] q0 by (auto simp: q_def)
    have c2: "db_id st2 ! m = Some (did st2 m) \<and> 0 < did st2 m \<and> did st2 m < dat_cap (db_dat st2)"
      if m: "m \<in> set (q @ ms)" for m
    proof (cases "m \<in> set ms")
      case True
      then obtain c where "(c, m) \<in> set es" using edge by blast
      then show ?thesis using P(7) new x(4) by auto
    next
      case False
      then have mq: "m \<in> set q" using m by simp
      then show ?thesis using old P(2) P(6) [OF False] I(7-9) [of m] g(4) by (simp add: q_def)
    qed
    have c3: "inj_on (did st2) (set (q @ ms))"
    proof (rule inj_onI)
      fix x y assume xy: "x \<in> set (q @ ms)" "y \<in> set (q @ ms)" "did st2 x = did st2 y"
      consider "x \<in> set q" "y \<in> set q" | "x \<in> set ms" "y \<in> set ms" | "x \<in> set q" "y \<in> set ms" | "x \<in> set ms" "y \<in> set q"
        using xy by auto
      then show "x = y"
      proof cases
        case 1
        then show ?thesis using old xy(3) I(10) by (auto simp: q_def inj_on_def)
      next
        case 2
        then obtain c d where cd: "(c, x) \<in> set es" "(d, y) \<in> set es" using edge by blast
        then have "c = d" using new xy(3) by (simp add: word_unat_eq_iff)
        then show ?thesis using cd edges_sorted_inj srt by blast
      next
        case 3
        then show ?thesis using edge [of y] new old free xy(3) by metis
      next
        case 4
        then show ?thesis using edge [of x] new old free xy(3) by metis
      qed
    qed
    have c4: "did st2 0 = 1" "check_at (db_dat st2) 1 = Some 1"
      using old [OF q0] I(11,12) P(8) [of 1] nofree [OF q0] by simp_all
    have c5: "check_at (db_dat st2) (did st2 m) = Some (did st2 (parent_of nodes lab m))"
      if m: "m \<in> set (q @ ms)" "m \<noteq> 0" for m
    proof (cases "m \<in> set ms")
      case True
      then obtain c where c: "(c, m) \<in> set es" using edge by blast
      then show ?thesis using new [OF c] P(7) [OF c] kid [of m] True old [OF tq] by (simp add: p_def)
    next
      case False
      then have mq: "m \<in> set q" using m by simp
      have "parent_of nodes lab m \<in> set q" using mq m(2) I(6) [of m] tk(1) by (auto simp: q_def)
      then show ?thesis using old mq I(13) [of m] m(2) P(8) nofree [OF mq] by (simp add: q_def)
    qed
    have c6: "t \<in> did st2 ` set (q @ ms)" if tt: "check_at (db_dat st2) t \<noteq> None" for t
    proof (cases "t \<in> (\<lambda>(c, m). b + unat c) ` set es")
      case True
      then obtain c m where cm: "(c, m) \<in> set es" "t = b + unat c" by auto
      then have "m \<in> set ms" by (force simp: ms_def)
      then show ?thesis using cm(2) new [OF cm(1)] by (intro image_eqI [of _ _ m]) simp_all
    next
      case False
      then obtain m where "m \<in> set q" "did st m = t" using I(14) [of t] tt P(8) by (auto simp: q_def)
      then show ?thesis using old by force
    qed
    have c7: "1 \<le> base_at (db_dat st2) (did st2 k) \<and> base_at (db_dat st2) (did st2 k) + 257 \<le> INT32_MAX \<and>
        (\<forall>(c, m) \<in> set (tn_edges (nodes ! k)). did st2 m = base_at (db_dat st2) (did st2 k) + unat c)"
      if k: "k \<in> set (take qh q @ [tn])" for k
    proof -
      have kq: "k \<in> set q" using k tq tk(1) by auto
      have base: "base_at (db_dat st2) (did st2 k) = ((base_at (db_dat st))(p := b)) (did st k)"
        using P(8) nofree [OF kq] old [OF kq] by simp
      show ?thesis
      proof (cases "k = tn")
        case True
        then show ?thesis using base x(4) c(3) new by (auto simp: p_def es_def)
      next
        case False
        then have kt: "k \<in> set (take qh q)" using k by simp
        have "did st k \<noteq> p" using False kq tq I(10) by (auto simp: p_def q_def inj_on_def)
        then have b1: "base_at (db_dat st2) (did st2 k) = base_at (db_dat st) (did st k)" using base by simp
        have kids: "m \<in> set q" if "(c, m) \<in> set (tn_edges (nodes ! k))" for c m
        proof -
          have "k < length nodes" using kq I(6) by (simp add: q_def)
          from trie_children(3) [OF t this, of m] that have "m < length nodes" "parent_of nodes lab m = k" by force+
          then show ?thesis using I(6) [of m] kt by (simp add: q_def)
        qed
        show ?thesis using b1 I(15,16,18) [of k] kt old kids by (auto simp: q_def)
      qed
    qed
    have "did st2 m \<noteq> 0" if "m \<in> set (q @ ms)" for m using c2 [OF that] by simp
    then have z: "check_at (db_dat st2) 0 = None" using c6 [of 0] by fastforce
    have "0 < dat_cap (db_dat st2)" using P(1) by (simp add: dat_wf_def)
    then have adv: "dat_advance (dat_check (db_dat st2)) (dat_cap (db_dat st2)) (dat_first_free (db_dat st2)) = Some 0"
      using z P(1,3) dat_advance_free by (simp add: check_at_def dat_wf_def)
    have c8: "check_at (db_dat st2) u = None" if u: "256 * Suc (Suc qh) < u" for u
    proof -
      have "256 * qh + 512 < u" using u by simp
      then have "b + unat c < u" for c :: byte using byte_less [of c] x(6) by (simp add: algebra_simps del: byte_less)
      then have "u \<notin> (\<lambda>(c, m). b + unat c) ` set es" by (metis (no_types, lifting) case_prod_beta imageE less_irrefl)
      then show ?thesis using P(8) I(17) u by simp
    qed
    have fin: "dat_inv nodes lab (Suc qh) st2"
      unfolding dat_inv_def P(3-5) tk(3)
      using P(1) qh dist c1 c2 c3 c4 c5 c6 c7 c8 by (intro conjI allI ballI impI) (simp_all add: q_def)
    have "st2\<lparr>db_dat := (db_dat st2)\<lparr>dat_first_free := 0\<rparr>\<rparr> = st2" using P(3) by simp
    then have "dat_node nodes tn st = Some st2"
      using slot x(1) w(1) c(1) adv n
      by (auto simp: dat_node_def es_def [symmetric] st1_def split: if_splits)
    then show ?thesis using fin by blast
  qed
qed


subsection \<open>The whole placement\<close>

definition dat_done :: "trie_node list \<Rightarrow> (nat \<Rightarrow> bytes) \<Rightarrow> dat_build \<Rightarrow> bool" where
  "dat_done nodes lab st \<longleftrightarrow> dat_inv nodes lab (length (db_queue st)) st \<and>
     set (db_queue st) = {..<length nodes}"

lemma dat_inv_done:
  assumes inv: "dat_inv nodes lab (length (db_queue st)) st" and t: "is_trie nodes D lab"
  shows "dat_done nodes lab st"
proof -
  note I = dat_invD [OF inv]
  have all: "m < length nodes \<Longrightarrow> m \<in> set (db_queue st)" for m
  proof (induction "length (lab m)" arbitrary: m rule: less_induct)
    case less
    show ?case
    proof (cases "m = 0")
      case True
      then show ?thesis using I(6) less.prems by blast
    next
      case False
      then have ne: "lab m \<noteq> []"
        using trie_rep_inj [OF t less.prems trie_repD(1) [OF t]] trie_repD(2) [OF t] by metis
      have "trie_str D (butlast (lab m))" using lab_in [OF t less.prems] trie_butlast by simp
      then have "parent_of nodes lab m < length nodes" "length (lab (parent_of nodes lab m)) < length (lab m)"
        using node_of_ok [OF t] ne by auto
      then have "parent_of nodes lab m \<in> set (db_queue st)" using less.hyps by blast
      then show ?thesis using I(6) [of m] less.prems by simp
    qed
  qed
  have "m \<in> set (db_queue st) \<longleftrightarrow> m < length nodes" for m using all [of m] I(6) [of m] by blast
  then have "set (db_queue st) = {..<length nodes}" by (simp add: set_eq_iff)
  then show ?thesis using inv by (simp add: dat_done_def)
qed

lemma dat_loop_ok:
  assumes t: "is_trie nodes D lab"
  shows "dat_inv nodes lab qh st \<Longrightarrow>
    (\<exists>st'. dat_loop nodes qh st = Some st' \<and> dat_done nodes lab st') \<or>
    (dat_loop nodes qh st = None \<and> 2 ^ 30 \<le> 256 * length nodes + 513)"
proof (induction "length nodes - qh" arbitrary: qh st rule: less_induct)
  case less
  note I = dat_invD [OF less.prems]
  show ?case
  proof (cases "qh < length (db_queue st)")
    case False
    then have "qh = length (db_queue st)" using I(4) by simp
    then show ?thesis using dat_inv_done [OF _ t] less.prems False by (subst dat_loop.simps) simp
  next
    case True
    have "length (db_queue st) \<le> length nodes"
      using queue_room [of "db_queue st" "[]" "length nodes"] I(5,6) by auto
    then have m: "length nodes - Suc qh < length nodes - qh" using True by arith
    note N = dat_node_ok [OF less.prems t True refl]
    show ?thesis
    proof (cases "dat_node nodes (db_queue st ! qh) st")
      case None
      then have "2 ^ 30 \<le> 256 * Suc qh + 1 + 512" "dat_loop nodes qh st = None"
        using N True by (simp_all, subst dat_loop.simps, simp)
      moreover have "256 * Suc qh \<le> 256 * length nodes" using m by simp
      ultimately show ?thesis by simp
    next
      case (Some st2)
      have st2: "dat_node nodes (db_queue st ! qh) st = Some st2" "dat_inv nodes lab (Suc qh) st2"
        using N Some by auto
      have "dat_loop nodes qh st = dat_loop nodes (Suc qh) st2"
        using st2(1) True by (subst dat_loop.simps) simp
      then show ?thesis using less.hyps [OF m st2(2)] by simp
    qed
  qed
qed

theorem build_dat_ok:
  assumes t: "is_trie nodes D lab"
  shows "(\<exists>st. build_dat nodes = Some st \<and> dat_done nodes lab st) \<or>
    (build_dat nodes = None \<and> 4100000 < length nodes)"
proof (cases "2 ^ 29 < length nodes")
  case True
  then show ?thesis by (simp add: build_dat_def)
next
  case False
  let ?cap = "max (length nodes + 512) 8192"
  let ?dat = "\<lparr>dat_base = replicate ?cap 0, dat_check = (replicate ?cap None)[1 := Some 1], dat_cap = ?cap, dat_first_free = 0\<rparr>"
  let ?st = "\<lparr>db_dat = ?dat, db_id = (replicate (length nodes) None)[0 := Some 1], db_queue = [0]\<rparr>"
  have n0: "0 < length nodes" by (rule trie_repD(1) [OF t])
  have c: "1 < ?cap" by simp
  have upd: "(replicate ?cap (0 :: nat))[1 := 0] = replicate ?cap 0"
    by (rule nth_equalityI) (simp_all add: nth_list_update del: replicate_Suc)
  have build: "build_dat nodes = dat_loop nodes 0 ?st"
    using n0 c upd False
    by (simp add: build_dat_def INT32_MAX_def dat_ensure_def Let_def wr_def del: replicate_Suc max.commute)
  have wf: "dat_wf ?dat" using c by (simp add: dat_wf_def)
  have ch: "check_at ?dat = (\<lambda>t. if t = 1 then Some 1 else None)"
    using c by (auto simp: check_at_def fun_eq_iff nth_list_update)
  have d0: "did ?st 0 = 1" using n0 by (simp add: did_def)
  have "dat_inv nodes lab 0 ?st"
    unfolding dat_inv_def using wf d0 ch n0 c by (auto split: if_splits)
  from dat_loop_ok [OF t this] show ?thesis unfolding build by auto
qed

text \<open>What the placement leaves, over the cells \<open>did st\<close> of the nodes.\<close>

lemma dat_doneD:
  assumes d: "dat_done nodes lab st" and t: "is_trie nodes D lab"
  shows "length (dat_base (db_dat st)) = dat_cap (db_dat st)" and "length (dat_check (db_dat st)) = dat_cap (db_dat st)"
    and "length (db_id st) = length nodes" and "dat_first_free (db_dat st) = 0"
    and "m < length nodes \<Longrightarrow> db_id st ! m = Some (did st m)" and "m < length nodes \<Longrightarrow> 0 < did st m"
    and "m < length nodes \<Longrightarrow> did st m < dat_cap (db_dat st)"
    and "m < length nodes \<Longrightarrow> n < length nodes \<Longrightarrow> did st m = did st n \<longleftrightarrow> m = n"
    and "did st 0 = 1" and "1 < dat_cap (db_dat st)" and "dat_check (db_dat st) ! 1 = Some 1"
    and "m < length nodes \<Longrightarrow> m \<noteq> 0 \<Longrightarrow> dat_check (db_dat st) ! did st m = Some (did st (parent_of nodes lab m))"
    and "i < dat_cap (db_dat st) \<Longrightarrow> dat_check (db_dat st) ! i \<noteq> None \<Longrightarrow> \<exists>m < length nodes. i = did st m"
    and "m < length nodes \<Longrightarrow> 1 \<le> dat_base (db_dat st) ! did st m"
    and "m < length nodes \<Longrightarrow> (c, k) \<in> set (tn_edges (nodes ! m)) \<Longrightarrow>
       did st k = dat_base (db_dat st) ! did st m + unat c"
    and "m < length nodes \<Longrightarrow> dat_base (db_dat st) ! did st m + 257 \<le> INT32_MAX"
proof -
  have inv: "dat_inv nodes lab (length (db_queue st)) st" and q: "set (db_queue st) = {..<length nodes}"
    using d by (auto simp: dat_done_def)
  note I = dat_invD [OF inv, unfolded take_all [OF order_refl] q lessThan_iff]
  have wf: "length (dat_base (db_dat st)) = dat_cap (db_dat st)" "length (dat_check (db_dat st)) = dat_cap (db_dat st)"
    using I(1) by (simp_all add: dat_wf_def)
  show "length (dat_base (db_dat st)) = dat_cap (db_dat st)" "length (dat_check (db_dat st)) = dat_cap (db_dat st)"
    by (fact wf)+
  show "length (db_id st) = length nodes" "dat_first_free (db_dat st) = 0" "did st 0 = 1" by (fact I(3) I(2) I(11))+
  show c1: "1 < dat_cap (db_dat st)" "dat_check (db_dat st) ! 1 = Some 1"
    using I(12) by (simp_all add: check_at_def split: if_splits)
  show "m < length nodes \<Longrightarrow> db_id st ! m = Some (did st m)" "m < length nodes \<Longrightarrow> 0 < did st m"
    "m < length nodes \<Longrightarrow> did st m < dat_cap (db_dat st)" using I(7-9) by blast+
  show "m < length nodes \<Longrightarrow> n < length nodes \<Longrightarrow> did st m = did st n \<longleftrightarrow> m = n"
    using I(10) by (auto simp: inj_on_def)
  show "m < length nodes \<Longrightarrow> m \<noteq> 0 \<Longrightarrow> dat_check (db_dat st) ! did st m = Some (did st (parent_of nodes lab m))"
    using I(9) [of m] I(13) [of m] by (simp add: check_at_def)
  show "i < dat_cap (db_dat st) \<Longrightarrow> dat_check (db_dat st) ! i \<noteq> None \<Longrightarrow> \<exists>m < length nodes. i = did st m"
    using I(14) [of i] by (auto simp: check_at_def)
  show "m < length nodes \<Longrightarrow> 1 \<le> dat_base (db_dat st) ! did st m"
    using I(9) [of m] I(15) [of m] by (simp add: base_at_def)
  show "m < length nodes \<Longrightarrow> (c, k) \<in> set (tn_edges (nodes ! m)) \<Longrightarrow>
       did st k = dat_base (db_dat st) ! did st m + unat c"
    using I(9) [of m] I(16) [of m] by (simp add: base_at_def)
  show "m < length nodes \<Longrightarrow> dat_base (db_dat st) ! did st m + 257 \<le> INT32_MAX"
    using I(9) [of m] I(18) [of m] by (simp add: base_at_def)
qed

lemma find_trie_node_ok:
  "(\<And>i j. i < length ids \<Longrightarrow> j < length ids \<Longrightarrow> ids ! i = ids ! j \<Longrightarrow> i = j) \<Longrightarrow>
     m < length ids \<Longrightarrow> ids ! m = Some x \<Longrightarrow> find_trie_node ids x = Some m"
proof (induction ids arbitrary: m)
  case (Cons i ids)
  show ?case
  proof (cases m)
    case (Suc k)
    have "i \<noteq> Some x" using Cons.prems(1) [of 0 m] Cons.prems(2,3) Suc by auto
    moreover have "find_trie_node ids x = Some k"
    proof (rule Cons.IH)
      show "i = j" if "i < length ids" "j < length ids" "ids ! i = ids ! j" for i j
        using Cons.prems(1) [of "Suc i" "Suc j"] that by simp
    qed (use Cons.prems Suc in simp_all)
    ultimately show ?thesis using Suc by simp
  qed (use Cons.prems in simp)
qed simp

lemma find_trie_node_done:
  assumes "dat_done nodes lab st" and "is_trie nodes D lab" and "m < length nodes"
  shows "find_trie_node (db_id st) (did st m) = Some m"
  using dat_doneD(3,5,8) [OF assms(1,2)] assms(3) by (intro find_trie_node_ok) auto

text \<open>The hint for the first free cell is 0 to the end: cell 0 is never occupied, so each search starts over.\<close>

lemma first_free_stays_0:
  assumes "trie_of nodes D" and "build_dat nodes = Some st"
  shows "dat_first_free (db_dat st) = 0"
proof -
  obtain lab where t: "is_trie nodes D lab" using assms(1) by (auto simp: trie_of_def)
  show ?thesis using build_dat_ok [OF t] assms(2) dat_doneD(4) [OF _ t] by auto
qed

end
