(* ===== verification/Ac_Old_Bfs.thy ===== *)
theory Ac_Old_Bfs
  imports Ac_Old
begin

text \<open>
  The previous automaton, phase 3 of \<^verbatim>\<open>src/ac_bpe_old.c\<close>: failure links and output chains,
  computed on the cells. The search is simulated by the one of \<^verbatim>\<open>src/ac_bpe.c\<close>
  (\<open>bfs_phase\<close>): both keep the same queue and the same outputs, and the links of a cell are the cells of
  the links of its node. The depth of a token is found by walking up at most 200000 check links.
\<close>

subsection \<open>Failure links and outputs\<close>

record old_cell =
  oc_check :: "nat option"
  oc_base :: nat
  oc_fail :: nat
  oc_output :: nat
  oc_token :: nat

record old_automaton =
  oa_cells :: "old_cell list"
  oa_ncells :: nat
  oa_outputs :: "ac_output list"
  oa_kind :: ac_kind

text \<open>\<open>upd_cell\<close>: writing fields of a cell.\<close>

definition upd_cell :: "old_cell list \<Rightarrow> nat \<Rightarrow> (old_cell \<Rightarrow> old_cell) \<Rightarrow> old_cell list option" where
  "upd_cell cells i f = do { x \<leftarrow> rd cells i; wr cells i (f x) }"

fun copy_tokens :: "trie_node list \<Rightarrow> nat option list \<Rightarrow> old_cell list \<Rightarrow> old_cell list option" where
  "copy_tokens [] ids cells = Some cells"
| "copy_tokens (n # nodes) ids cells = (case ids of
       [] \<Rightarrow> None
     | i # ids \<Rightarrow> do {
         cells \<leftarrow> (case i of
             Some di \<Rightarrow> if 0 < di \<and> di < length cells then upd_cell cells di (oc_token_update (\<lambda>_. tn_token n)) else Some cells
           | None \<Rightarrow> Some cells);
         copy_tokens nodes ids cells
       })"

definition old_cells :: "trie_node list \<Rightarrow> dat_build \<Rightarrow> old_cell list option" where
  "old_cells nodes db = do {
     let dat = db_dat db;
     cells \<leftarrow> copy_tokens nodes (db_id db)
       (map (\<lambda>i. \<lparr>oc_check = dat_check dat ! i, oc_base = dat_base dat ! i, oc_fail = 1, oc_output = 0, oc_token = UINT32_MAX\<rparr>)
          [0..<dat_cap dat]);
     upd_cell cells 1 (\<lambda>x. x\<lparr>oc_fail := 1, oc_check := Some 1\<rparr>)
   }"

record old_bfs =
  ob_cells :: "old_cell list"
  ob_outputs :: "ac_output list"
  ob_queue :: "nat list"

text \<open>A push beyond the end of the queue, of \<open>qsize\<close> entries, is an error.\<close>

definition old_push :: "nat \<Rightarrow> nat \<Rightarrow> old_bfs \<Rightarrow> old_bfs option" where
  "old_push qsize m st = (if length (ob_queue st) < qsize then Some (st\<lparr>ob_queue := ob_queue st @ [m]\<rparr>) else None)"

fun old_seed :: "nat option list \<Rightarrow> nat \<Rightarrow> nat \<Rightarrow> (byte \<times> nat) list \<Rightarrow> old_bfs \<Rightarrow> old_bfs option" where
  "old_seed ids ncells qsize [] st = Some st"
| "old_seed ids ncells qsize ((c, m) # es) st = do {
     i \<leftarrow> rd ids m;
     st \<leftarrow> (case i of
         Some ci \<Rightarrow> if 0 < ci \<and> ci < ncells then do {
             cells \<leftarrow> upd_cell (ob_cells st) ci (oc_fail_update (\<lambda>_. 1));
             old_push qsize m (st\<lparr>ob_cells := cells\<rparr>)
           } else Some st
       | None \<Rightarrow> Some st);
     old_seed ids ncells qsize es st
   }"

text \<open>The depth of a cell, by way of the check links up to the root.\<close>

partial_function (option) old_depth :: "old_cell list \<Rightarrow> nat \<Rightarrow> nat \<Rightarrow> nat option" where
  "old_depth cells s depth =
     (if s \<noteq> 1 \<and> depth < 200000 then do {
        cell \<leftarrow> rd cells s;
        up \<leftarrow> oc_check cell;
        old_depth cells up (depth + 1)
      } else Some depth)"

definition old_output :: "nat \<Rightarrow> old_bfs \<Rightarrow> old_bfs option" where
  "old_output cur st = do {
     cell \<leftarrow> rd (ob_cells st) cur;
     fcell \<leftarrow> rd (ob_cells st) (oc_fail cell);
     if oc_token cell \<noteq> UINT32_MAX then do {
       depth \<leftarrow> old_depth (ob_cells st) cur 0;
       let oidx = length (ob_outputs st);
       cells \<leftarrow> upd_cell (ob_cells st) cur (oc_output_update (\<lambda>_. oidx));
       if 2 ^ 30 \<le> oidx then None
       else Some (st\<lparr>ob_outputs := ob_outputs st @ [\<lparr>out_token = oc_token cell, out_start_offset = depth, out_next = oc_output fcell\<rparr>],
                ob_cells := cells\<rparr>)
     } else do {
       cells \<leftarrow> upd_cell (ob_cells st) cur (oc_output_update (\<lambda>_. oc_output fcell));
       Some (st\<lparr>ob_cells := cells\<rparr>)
     }
   }"

text \<open>The transition test, on \<^verbatim>\<open>int32_t\<close>, the same in the search and at run time.\<close>

definition old_goto :: "old_cell list \<Rightarrow> nat \<Rightarrow> nat \<Rightarrow> byte \<Rightarrow> nat option option" where
  "old_goto cells ncells s c = do {
     cell \<leftarrow> rd cells s;
     let t = oc_base cell + unat c;
     if INT32_MAX < t then None
     else if 0 < t \<and> t < ncells then do {
       tcell \<leftarrow> rd cells t;
       Some (if oc_check tcell = Some s then Some t else None)
     } else Some None
   }"

partial_function (option) old_fail_walk :: "old_cell list \<Rightarrow> nat \<Rightarrow> nat \<Rightarrow> byte \<Rightarrow> nat \<Rightarrow> nat option" where
  "old_fail_walk cells ncells fs c ci = do {
     nxt \<leftarrow> old_goto cells ncells fs c;
     if nxt \<noteq> None \<and> nxt \<noteq> Some ci then nxt
     else if fs = 1 then Some fs
     else do { cell \<leftarrow> rd cells fs; old_fail_walk cells ncells (oc_fail cell) c ci }
   }"

fun old_children :: "nat \<Rightarrow> nat \<Rightarrow> nat \<Rightarrow> (byte \<times> nat) list \<Rightarrow> old_bfs \<Rightarrow> old_bfs option" where
  "old_children cur ncells qsize [] st = Some st"
| "old_children cur ncells qsize ((c, m) # es) st = do {
     t \<leftarrow> old_goto (ob_cells st) ncells cur c;
     st \<leftarrow> (case t of
         None \<Rightarrow> Some st
       | Some ci \<Rightarrow> do {
           cell \<leftarrow> rd (ob_cells st) cur;
           fs \<leftarrow> old_fail_walk (ob_cells st) ncells (oc_fail cell) c ci;
           cells \<leftarrow> upd_cell (ob_cells st) ci (oc_fail_update (\<lambda>_. fs));
           old_push qsize m (st\<lparr>ob_cells := cells\<rparr>)
         });
     old_children cur ncells qsize es st
   }"

partial_function (option) old_bfs_loop ::
    "trie_node list \<Rightarrow> nat option list \<Rightarrow> nat \<Rightarrow> nat \<Rightarrow> old_bfs \<Rightarrow> old_bfs option" where
  "old_bfs_loop nodes ids ncells qh st =
     (if qh < length (ob_queue st) then do {
        tn \<leftarrow> rd (ob_queue st) qh;
        i \<leftarrow> rd ids tn;
        cur \<leftarrow> i;
        st \<leftarrow> old_output cur st;
        n \<leftarrow> rd nodes tn;
        st \<leftarrow> old_children cur ncells (2 * length nodes) (tn_edges n) st;
        old_bfs_loop nodes ids ncells (qh + 1) st
      } else Some st)"

definition build_automaton_from_dat :: "trie_node list \<Rightarrow> dat_build \<Rightarrow> ac_kind \<Rightarrow> old_automaton option" where
  "build_automaton_from_dat nodes db kind = do {
     let ncells = dat_cap (db_dat db);
     cells \<leftarrow> old_cells nodes db;
     root \<leftarrow> rd nodes 0;
     st \<leftarrow> old_seed (db_id db) ncells (2 * length nodes) (tn_edges root)
       \<lparr>ob_cells = cells, ob_outputs = [\<lparr>out_token = 0, out_start_offset = 0, out_next = 0\<rparr>], ob_queue = []\<rparr>;
     st \<leftarrow> old_bfs_loop nodes (db_id db) ncells 0 st;
     Some \<lparr>oa_cells = ob_cells st, oa_ncells = ncells, oa_outputs = ob_outputs st, oa_kind = kind\<rparr>
   }"

definition old_builder_build :: "ac_builder \<Rightarrow> old_automaton option" where
  "old_builder_build b = do {
     db \<leftarrow> build_dat (tb_nodes b);
     build_automaton_from_dat (tb_nodes b) db (tb_kind b)
   }"

definition old_builder_build_two :: "ac_builder \<Rightarrow> ac_kind \<Rightarrow> ac_kind \<Rightarrow> (old_automaton \<times> old_automaton) option" where
  "old_builder_build_two b kind1 kind2 = do {
     db \<leftarrow> build_dat (tb_nodes b);
     out1 \<leftarrow> build_automaton_from_dat (tb_nodes b) db kind1;
     out2 \<leftarrow> build_automaton_from_dat (tb_nodes b) db kind2;
     Some (out1, out2)
   }"

subsection \<open>The cells\<close>

lemma upd_cell_ok: "i < length cells \<Longrightarrow> upd_cell cells i f = Some (cells[i := f (cells ! i)])"
  by (simp add: upd_cell_def)

lemma copy_tokens_ok:
  assumes "distinct ds" and "\<forall>d \<in> set ds. 0 < d \<and> d < length cells" and "length ds = length ns"
  shows "\<exists>cells'. copy_tokens ns (map Some ds) cells = Some cells' \<and> length cells' = length cells \<and>
    (\<forall>i < length cells. \<exists>tk. cells' ! i = (cells ! i)\<lparr>oc_token := tk\<rparr>) \<and>
    (\<forall>i. i \<notin> set ds \<longrightarrow> cells' ! i = cells ! i) \<and>
    (\<forall>k < length ns. oc_token (cells' ! (ds ! k)) = tn_token (ns ! k))"
  using assms
proof (induction ns arbitrary: ds cells)
  case Nil
  have "\<exists>tk. cells ! i = (cells ! i)\<lparr>oc_token := tk\<rparr>" for i by (rule exI [of _ "oc_token (cells ! i)"]) simp
  then show ?case using Nil by simp
next
  case (Cons n ns)
  obtain d ds' where ds: "ds = d # ds'" using Cons.prems(3) by (cases ds) auto
  let ?c = "cells[d := (cells ! d)\<lparr>oc_token := tn_token n\<rparr>]"
  have d: "0 < d" "d < length cells" "d \<notin> set ds'" using Cons.prems ds by auto
  have P: "distinct ds'" "\<forall>d \<in> set ds'. 0 < d \<and> d < length ?c" "length ds' = length ns"
    using Cons.prems ds by auto
  obtain cells' where c: "copy_tokens ns (map Some ds') ?c = Some cells'" "length cells' = length cells"
    "\<And>i. i < length cells \<Longrightarrow> \<exists>tk. cells' ! i = (?c ! i)\<lparr>oc_token := tk\<rparr>"
    "\<And>i. i \<notin> set ds' \<Longrightarrow> cells' ! i = ?c ! i"
    "\<And>k. k < length ns \<Longrightarrow> oc_token (cells' ! (ds' ! k)) = tn_token (ns ! k)"
    using Cons.IH [OF P] by auto
  have "copy_tokens (n # ns) (map Some ds) cells = Some cells'"
    using c(1) d ds by (simp add: upd_cell_ok)
  moreover have "\<exists>tk. cells' ! i = (cells ! i)\<lparr>oc_token := tk\<rparr>" if "i < length cells" for i
    using c(3) [OF that] d(2) by (cases "i = d") auto
  moreover have "cells' ! i = cells ! i" if "i \<notin> set ds" for i
    using c(4) [of i] that ds by simp
  moreover have "oc_token (cells' ! (ds ! k)) = tn_token ((n # ns) ! k)" if "k < length (n # ns)" for k
    using c(4) [OF d(3)] c(5) that d(2) ds by (cases k) auto
  ultimately show ?case using c(2) by blast
qed

text \<open>What the search does not change: the double array and the tokens.\<close>

definition old_static :: "trie_node list \<Rightarrow> dat_build \<Rightarrow> old_cell list \<Rightarrow> bool" where
  "old_static nodes db cells \<longleftrightarrow> length cells = dat_cap (db_dat db) \<and>
     (\<forall>i < dat_cap (db_dat db). oc_check (cells ! i) = dat_check (db_dat db) ! i \<and>
        oc_base (cells ! i) = dat_base (db_dat db) ! i) \<and>
     (\<forall>m < length nodes. oc_token (cells ! did db m) = tn_token (nodes ! m))"

lemma old_static_upd:
  assumes "old_static nodes db cells"
    and "oc_check x = oc_check (cells ! i)" and "oc_base x = oc_base (cells ! i)" and "oc_token x = oc_token (cells ! i)"
  shows "old_static nodes db (cells[i := x])"
  using assms unfolding old_static_def by (cases "i < length cells") (auto simp: nth_list_update list_update_beyond)

lemma old_cells_ok:
  assumes d: "dat_done nodes lab db" and t: "is_trie nodes D lab"
  shows "\<exists>cells. old_cells nodes db = Some cells \<and> old_static nodes db cells \<and>
    (\<forall>i < length cells. oc_fail (cells ! i) = 1 \<and> oc_output (cells ! i) = 0)"
proof -
  note dd = dat_doneD [OF d t]
  let ?dat = "db_dat db"
  let ?ds = "map (did db) [0..<length nodes]"
  let ?c0 = "map (\<lambda>i. \<lparr>oc_check = dat_check ?dat ! i, oc_base = dat_base ?dat ! i, oc_fail = 1, oc_output = 0,
    oc_token = UINT32_MAX\<rparr>) [0..<dat_cap ?dat]"
  have ids: "db_id db = map Some ?ds" using dd(3,5) by (intro nth_equalityI) simp_all
  have dist: "distinct ?ds" using dd(8) by (auto simp: distinct_map inj_on_def)
  have "\<forall>x \<in> set ?ds. 0 < x \<and> x < length ?c0" using dd(6,7) by auto
  with dist obtain cells where c: "copy_tokens nodes (db_id db) ?c0 = Some cells" "length cells = dat_cap ?dat"
    "\<And>i. i < dat_cap ?dat \<Longrightarrow> \<exists>tk. cells ! i = (?c0 ! i)\<lparr>oc_token := tk\<rparr>"
    "\<And>k. k < length nodes \<Longrightarrow> oc_token (cells ! (?ds ! k)) = tn_token (nodes ! k)"
    using copy_tokens_ok [of ?ds ?c0 nodes] unfolding ids by auto
  have F: "oc_check (cells ! i) = dat_check ?dat ! i \<and> oc_base (cells ! i) = dat_base ?dat ! i \<and>
      oc_fail (cells ! i) = 1 \<and> oc_output (cells ! i) = 0" if "i < dat_cap ?dat" for i
    using c(3) [OF that] that by auto
  let ?cells = "cells[1 := (cells ! 1)\<lparr>oc_fail := 1, oc_check := Some 1\<rparr>]"
  have "old_static nodes db cells" using c(2,4) F by (simp add: old_static_def)
  then have "old_static nodes db ?cells" using dd(10,11) F [of 1] by (intro old_static_upd) simp_all
  moreover have "old_cells nodes db = Some ?cells"
    using c(1,2) dd(10) by (simp add: old_cells_def Let_def upd_cell_ok)
  moreover have "\<forall>i < length ?cells. oc_fail (?cells ! i) = 1 \<and> oc_output (?cells ! i) = 0"
    using F c(2) dd(10) by (auto simp: nth_list_update)
  ultimately show ?thesis by blast
qed

subsection \<open>The transition test\<close>

definition trie_child :: "trie_node list \<Rightarrow> bytes list \<Rightarrow> (nat \<Rightarrow> bytes) \<Rightarrow> nat \<Rightarrow> byte \<Rightarrow> nat option" where
  "trie_child nodes D lab m c =
     (if trie_str D (lab m @ [c]) then Some (node_of nodes lab (lab m @ [c])) else None)"

lemma trie_child_Some:
  assumes t: "is_trie nodes D lab" and m: "m < length nodes"
  shows "trie_child nodes D lab m c = Some k \<longleftrightarrow> (c, k) \<in> set (tn_edges (nodes ! m))"
  using trie_repD(8) [OF t m, of c k] node_of_ok [OF t, of "lab m @ [c]"] node_of_lab [OF t, of k] lab_in [OF t, of k]
  by (auto simp: trie_child_def)

text \<open>In the cell of a node the test finds the child; the root may find itself on a byte that has no child.\<close>

lemma old_goto_ok:
  assumes d: "dat_done nodes lab db" and t: "is_trie nodes D lab" and s: "old_static nodes db cells"
    and m: "m < length nodes"
  shows "old_goto cells (dat_cap (db_dat db)) (did db m) c =
    Some (case trie_child nodes D lab m c of Some k \<Rightarrow> Some (did db k)
          | None \<Rightarrow> if m = 0 \<and> dat_base (db_dat db) ! 1 + unat c = 1 then Some 1 else None)"
proof -
  note dd = dat_doneD [OF d t]
  let ?cap = "dat_cap (db_dat db)"
  let ?t = "dat_base (db_dat db) ! did db m + unat c"
  have N: "0 < length nodes" by (rule trie_repD(1) [OF t])
  have S: "length cells = ?cap" "\<And>i. i < ?cap \<Longrightarrow> oc_check (cells ! i) = dat_check (db_dat db) ! i \<and>
      oc_base (cells ! i) = dat_base (db_dat db) ! i"
    using s by (auto simp: old_static_def)
  have go: "old_goto cells ?cap (did db m) c =
      Some (if ?t < ?cap \<and> dat_check (db_dat db) ! ?t = Some (did db m) then Some ?t else None)"
    using S dd(7,14) [OF m] dd(16) [OF m] byte_less [of c] by (simp add: old_goto_def Let_def del: byte_less)
  have par: "parent_of nodes lab k = m \<and> k \<noteq> 0 \<and> k < length nodes" if "(c', k) \<in> set (tn_edges (nodes ! m))" for c' k
    using trie_repD(8) [OF t m, of c' k] that node_of_lab [OF t m] trie_repD(2) [OF t]
    by (auto intro!: gr0I)
  show ?thesis
  proof (cases "trie_child nodes D lab m c")
    case (Some k)
    then have e: "(c, k) \<in> set (tn_edges (nodes ! m))" using trie_child_Some [OF t m] by blast
    have "did db k = ?t" using dd(15) [OF m e] .
    then show ?thesis using go Some par [OF e] dd(7,12) [of k] by simp
  next
    case None
    have self: "m = 0 \<and> ?t = 1" if hit: "?t < ?cap" "dat_check (db_dat db) ! ?t = Some (did db m)"
    proof -
      obtain k where k: "k < length nodes" "?t = did db k" using dd(13) [of ?t] hit by auto
      show ?thesis
      proof (cases "k = 0")
        case True
        then have "did db m = did db 0" using hit(2) k(2) dd(9,11) by simp
        then show ?thesis using dd(8) [OF m N] k(2) True dd(9) by simp
      next
        case False
        then have "lab k \<noteq> []" using trie_rep_inj [OF t k(1) N] trie_repD(2) [OF t] by metis
        then obtain u e where u: "lab k = u @ [e]" by (metis rev_exhaust)
        have "trie_str D u" using lab_in [OF t k(1)] u trie_str_prefix by auto
        then have pk: "parent_of nodes lab k < length nodes" "lab (parent_of nodes lab k) = u"
          using node_of_ok [OF t] u by auto
        have "did db (parent_of nodes lab k) = did db m" using dd(12) [OF k(1) False] hit(2) k(2) by simp
        then have "parent_of nodes lab k = m" using dd(8) [OF pk(1) m] by simp
        then have e: "(e, k) \<in> set (tn_edges (nodes ! m))" using trie_repD(8) [OF t m] k(1) u pk(2) by simp
        then have "e = c" using dd(15) [OF m e] k(2) by (simp add: word_unat_eq_iff)
        then have "trie_child nodes D lab m c = Some k" using e trie_child_Some [OF t m] by simp
        then show ?thesis using None by simp
      qed
    qed
    have "?t < ?cap \<and> dat_check (db_dat db) ! ?t = Some (did db m)" if "m = 0" "?t = 1"
      using that dd(9-11) by simp
    with self have h: "?t < ?cap \<and> dat_check (db_dat db) ! ?t = Some (did db m) \<longleftrightarrow> m = 0 \<and> ?t = 1" by blast
    show ?thesis unfolding go h None using dd(9) by (cases "m = 0") simp_all
  qed
qed


subsection \<open>Simulation of the search\<close>

text \<open>
  \<open>old_sim nodes lab db st o\<close>: the state \<open>o\<close> of this search shows the state \<open>st\<close> of the new one, through
  the cells of the nodes.
\<close>

definition old_sim :: "trie_node list \<Rightarrow> (nat \<Rightarrow> bytes) \<Rightarrow> dat_build \<Rightarrow> bfs_state \<Rightarrow> old_bfs \<Rightarrow> bool" where
  "old_sim nodes lab db st ob \<longleftrightarrow>
     old_static nodes db (ob_cells ob) \<and> ob_queue ob = bs_queue st \<and> ob_outputs ob = bs_outputs st \<and>
     length (bs_fail st) = length nodes \<and> length (bs_output st) = length nodes \<and>
     (\<forall>m < length nodes. bs_fail st ! m < length nodes \<and>
        oc_fail (ob_cells ob ! did db m) = did db (bs_fail st ! m) \<and>
        oc_output (ob_cells ob ! did db m) = bs_output st ! m) \<and>
     (\<forall>m \<in> set (bs_queue st). m < length nodes \<and> bs_depth st ! m = length (lab m))"

lemma old_simD:
  assumes "old_sim nodes lab db st ob"
  shows "old_static nodes db (ob_cells ob)" and "ob_queue ob = bs_queue st" and "ob_outputs ob = bs_outputs st"
    and "length (bs_fail st) = length nodes" and "length (bs_output st) = length nodes"
    and "m < length nodes \<Longrightarrow> bs_fail st ! m < length nodes"
    and "m < length nodes \<Longrightarrow> oc_fail (ob_cells ob ! did db m) = did db (bs_fail st ! m)"
    and "m < length nodes \<Longrightarrow> oc_output (ob_cells ob ! did db m) = bs_output st ! m"
    and "m \<in> set (bs_queue st) \<Longrightarrow> m < length nodes" and "m \<in> set (bs_queue st) \<Longrightarrow> bs_depth st ! m = length (lab m)"
  using assms unfolding old_sim_def by blast+

lemma old_sim_cells:
  "old_sim nodes lab db st ob \<Longrightarrow> length (ob_cells ob) = dat_cap (db_dat db)"
  by (simp add: old_sim_def old_static_def)

lemma old_depth_ok:
  assumes d: "dat_done nodes lab db" and t: "is_trie nodes D lab" and s: "old_static nodes db cells"
  shows "m < length nodes \<Longrightarrow> k + length (lab m) \<le> 200000 \<Longrightarrow>
    old_depth cells (did db m) k = Some (k + length (lab m))"
proof (induction "length (lab m)" arbitrary: m k)
  note dd = dat_doneD [OF d t]
  have N: "0 < length nodes" by (rule trie_repD(1) [OF t])
  case 0
  then have "m = 0" using trie_rep_inj [OF t _ N] trie_repD(2) [OF t] by (metis length_0_conv)
  then show ?case using 0 dd(9) by (subst old_depth.simps) simp
next
  note dd = dat_doneD [OF d t]
  have N: "0 < length nodes" by (rule trie_repD(1) [OF t])
  case (Suc n)
  let ?p = "parent_of nodes lab m"
  have m0: "m \<noteq> 0" using Suc.hyps(2) trie_repD(2) [OF t] by (cases m) auto
  have "trie_str D (butlast (lab m))" using lab_in [OF t Suc.prems(1)] trie_butlast by simp
  then have p: "?p < length nodes" "length (lab ?p) = n" using node_of_ok [OF t] Suc.hyps(2) by auto
  have "did db m \<noteq> 1" using dd(8) [OF Suc.prems(1) N] dd(9) m0 by simp
  moreover have "oc_check (cells ! did db m) = Some (did db ?p)" "did db m < length cells"
    using s dd(7,12) [OF Suc.prems(1)] m0 by (auto simp: old_static_def)
  moreover have "old_depth cells (did db ?p) (k + 1) = Some (k + 1 + length (lab ?p))"
    using Suc.hyps(1) [of ?p "k + 1"] p Suc.hyps(2) Suc.prems(2) by simp
  ultimately show ?case using p(2) Suc.hyps(2) Suc.prems(2) by (subst old_depth.simps) simp
qed

lemma old_output_sim:
  assumes d: "dat_done nodes lab db" and t: "is_trie nodes D lab" and sim: "old_sim nodes lab db st ob"
    and m: "m \<in> set (bs_queue st)" and dep: "length (lab m) \<le> 200000" and o1: "bfs_output nodes m st = Some st'"
  shows "\<exists>ob'. old_output (did db m) ob = Some ob' \<and> old_sim nodes lab db st' ob' \<and> bs_queue st' = bs_queue st \<and>
    bs_depth st' = bs_depth st"
proof -
  note dd = dat_doneD [OF d t]
  note S = old_simD [OF sim]
  have mn: "m < length nodes" by (rule S(9) [OF m])
  let ?f = "bs_fail st ! m" and ?cur = "did db m"
  have f: "?f < length nodes" by (rule S(6) [OF mn])
  have c: "?cur < length (ob_cells ob)" "did db ?f < length (ob_cells ob)"
    using dd(7) [OF mn] dd(7) [OF f] old_sim_cells [OF sim] by simp_all
  have rds: "rd (ob_cells ob) ?cur = Some (ob_cells ob ! ?cur)"
    "rd (ob_cells ob) (oc_fail (ob_cells ob ! ?cur)) = Some (ob_cells ob ! did db ?f)"
    using c S(7) [OF mn] by simp_all
  have tok: "oc_token (ob_cells ob ! ?cur) = tn_token (nodes ! m)" using S(1) mn by (simp add: old_static_def)
  have out: "oc_output (ob_cells ob ! did db ?f) = bs_output st ! ?f" by (rule S(8) [OF f])
  have dp: "old_depth (ob_cells ob) ?cur 0 = Some (bs_depth st ! m)"
    using old_depth_ok [OF d t S(1) mn, of 0] dep S(10) [OF m] by simp
  have st: "\<And>v. old_static nodes db ((ob_cells ob)[?cur := (ob_cells ob ! ?cur)\<lparr>oc_output := v\<rparr>])"
    using S(1) by (intro old_static_upd) simp_all
  have upd: "old_sim nodes lab db (st\<lparr>bs_output := (bs_output st)[m := v], bs_outputs := os\<rparr>)
      (ob\<lparr>ob_outputs := os, ob_cells := (ob_cells ob)[?cur := (ob_cells ob ! ?cur)\<lparr>oc_output := v\<rparr>]\<rparr>)" for v os
    using S st c(1) dd(8) [OF mn] mn unfolding old_sim_def by (auto simp: nth_list_update)
  show ?thesis
  proof (cases "tn_token (nodes ! m) = UINT32_MAX")
    case True
    then have "st' = st\<lparr>bs_output := (bs_output st)[m := bs_output st ! ?f], bs_outputs := bs_outputs st\<rparr>"
      using o1 mn f S(4,5) by (auto simp: bfs_output_def bind_eq_Some_conv rd_Some_iff)
    moreover have "old_output ?cur ob = Some (ob\<lparr>ob_outputs := bs_outputs st,
        ob_cells := (ob_cells ob)[?cur := (ob_cells ob ! ?cur)\<lparr>oc_output := bs_output st ! ?f\<rparr>]\<rparr>)"
      using True rds tok out c(1) S(3) by (simp add: old_output_def upd_cell_ok)
    ultimately show ?thesis using upd [of "bs_outputs st" "bs_output st ! ?f"] by simp
  next
    case False
    let ?os = "bs_outputs st @ [\<lparr>out_token = tn_token (nodes ! m), out_start_offset = bs_depth st ! m, out_next = bs_output st ! ?f\<rparr>]"
    have "st' = st\<lparr>bs_output := (bs_output st)[m := length (bs_outputs st)], bs_outputs := ?os\<rparr>"
      and room: "length (bs_outputs st) < 2 ^ 30"
      using o1 mn f S(4,5) False
      by (auto simp: bfs_output_def bind_eq_Some_conv rd_Some_iff Let_def split: if_splits)
    moreover have "old_output ?cur ob = Some (ob\<lparr>ob_outputs := ?os,
        ob_cells := (ob_cells ob)[?cur := (ob_cells ob ! ?cur)\<lparr>oc_output := length (bs_outputs st)\<rparr>]\<rparr>)"
      using False rds tok out c(1) S(3) dp room by (simp add: old_output_def upd_cell_ok Let_def)
    ultimately show ?thesis using upd [of ?os "length (bs_outputs st)"] by simp
  qed
qed

lemma old_fail_walk_sim:
  assumes d: "dat_done nodes lab db" and t: "is_trie nodes D lab" and s: "old_static nodes db cells"
    and fl: "\<And>m. m < length nodes \<Longrightarrow> fail ! m < length nodes \<and> oc_fail (cells ! did db m) = did db (fail ! m)"
    and ci: "ci < length nodes" "ci \<noteq> 0"
  shows "fail_walk nodes fail fs c ci = Some r \<Longrightarrow> fs < length nodes \<Longrightarrow>
    old_fail_walk cells (dat_cap (db_dat db)) (did db fs) c (did db ci) = Some (did db r) \<and> r < length nodes"
proof -
  note dd = dat_doneD [OF d t]
  have N: "0 < length nodes" by (rule trie_repD(1) [OF t])
  let ?P = "\<lambda>nodes' fail' fs c' ci' r. nodes' = nodes \<longrightarrow> fail' = fail \<longrightarrow> c' = c \<longrightarrow> ci' = ci \<longrightarrow> fs < length nodes \<longrightarrow>
    old_fail_walk cells (dat_cap (db_dat db)) (did db fs) c (did db ci) = Some (did db r) \<and> r < length nodes"
  assume walk: "fail_walk nodes fail fs c ci = Some r" and fs: "fs < length nodes"
  have "?P nodes fail fs c ci r"
  proof (rule fail_walk.raw_induct [where P = ?P, OF _ walk], intro impI)
    fix f nodes' fail' fs c' ci' r
    assume IH: "\<And>nodes' fail' fs c' ci' r. f nodes' fail' fs c' ci' = Some r \<Longrightarrow> ?P nodes' fail' fs c' ci' r"
      and body: "do {
        child \<leftarrow> trie_find_child nodes' fs c';
        case child of
          Some ch \<Rightarrow> if ch \<noteq> ci' then Some ch
                     else if fs = 0 then Some fs
                     else do { fs \<leftarrow> rd fail' fs; f nodes' fail' fs c' ci' }
        | None \<Rightarrow> if fs = 0 then Some fs
                  else do { fs \<leftarrow> rd fail' fs; f nodes' fail' fs c' ci' }
      } = Some r"
      and eqs: "nodes' = nodes" "fail' = fail" "c' = c" "ci' = ci" and fs: "fs < length nodes"
    let ?ch = "trie_child nodes D lab fs c"
    have tf: "trie_find_child nodes fs c = Some ?ch"
      using trie_find_child_ok [OF t fs, of c] by (simp add: trie_child_def)
    note go = old_goto_ok [OF d t s fs, of c]
    have rt: "did db fs = 1 \<longleftrightarrow> fs = 0" using dd(8) [OF fs N] dd(9) by simp
    have cell: "rd cells (did db fs) = Some (cells ! did db fs)"
      using s dd(7) [OF fs] by (simp add: old_static_def)
    have ne: "did db ci \<noteq> 1" using dd(8) [OF ci(1) N] dd(9) ci(2) by simp
    have kd: "k < length nodes \<and> (did db k = did db ci \<longleftrightarrow> k = ci)" if "?ch = Some k" for k
      using that trie_child_Some [OF t fs] trie_repD(8) [OF t fs] dd(8) ci(1) by blast
    consider (hit) k where "?ch = Some k" "k \<noteq> ci" | (root) "?ch = None \<or> ?ch = Some ci" "fs = 0"
      | (up) "?ch = None \<or> ?ch = Some ci" "fs \<noteq> 0" by (cases ?ch) auto
    then show "old_fail_walk cells (dat_cap (db_dat db)) (did db fs) c (did db ci) = Some (did db r) \<and> r < length nodes"
    proof cases
      case hit
      then have "r = k" using body tf eqs by simp
      then show ?thesis using hit kd [OF hit(1)] go by (subst old_fail_walk.simps) simp
    next
      case root
      then have "r = 0" using body tf eqs by auto
      then show ?thesis using root go ne rt dd(9) N by (subst old_fail_walk.simps) auto
    next
      case up
      let ?f = "fail ! fs"
      have fb: "f nodes fail ?f c ci = Some r" if "fs < length fail"
        using body tf eqs up that by auto
      have "fs < length fail" using body tf eqs up by (auto simp: bind_eq_Some_conv rd_Some_iff)
      from fb [OF this] have "old_fail_walk cells (dat_cap (db_dat db)) (did db ?f) c (did db ci) = Some (did db r) \<and>
          r < length nodes"
        using IH fl [OF fs] by blast
      then show ?thesis using up go rt cell fl [OF fs] by (subst old_fail_walk.simps) auto
    qed
  qed
  then show ?thesis using fs by simp
qed

lemma old_enqueue_sim:
  assumes d: "dat_done nodes lab db" and t: "is_trie nodes D lab" and sim: "old_sim nodes lab db st ob"
    and m: "m < length nodes" and f: "f < length nodes" and e: "bfs_enqueue m f (length (lab m)) st = Some st1"
  shows "\<exists>ob1. upd_cell (ob_cells ob) (did db m) (oc_fail_update (\<lambda>_. did db f)) \<bind>
      (\<lambda>cells. old_push (2 * length nodes) m (ob\<lparr>ob_cells := cells\<rparr>)) = Some ob1 \<and> old_sim nodes lab db st1 ob1"
proof -
  note dd = dat_doneD [OF d t]
  note S = old_simD [OF sim]
  let ?cells = "(ob_cells ob)[did db m := (ob_cells ob ! did db m)\<lparr>oc_fail := did db f\<rparr>]"
  have c: "did db m < length (ob_cells ob)" using dd(7) [OF m] old_sim_cells [OF sim] by simp
  have st1: "st1 = st\<lparr>bs_fail := (bs_fail st)[m := f], bs_depth := (bs_depth st)[m := length (lab m)],
      bs_queue := bs_queue st @ [m]\<rparr>" and room: "length (bs_queue st) < length nodes" and dl: "m < length (bs_depth st)"
    using e S(4) by (auto simp: bfs_enqueue_def bind_eq_Some_conv wr_Some_iff split: if_splits)
  have static: "old_static nodes db ?cells" using S(1) by (intro old_static_upd) simp_all
  have "old_sim nodes lab db st1 (ob\<lparr>ob_cells := ?cells, ob_queue := bs_queue st @ [m]\<rparr>)"
    using S static c dd(8) [OF m] m f dl unfolding old_sim_def st1 by (auto simp: nth_list_update)
  then show ?thesis using c room S(2) by (simp add: upd_cell_ok old_push_def)
qed

lemma old_seed_sim:
  assumes d: "dat_done nodes lab db" and t: "is_trie nodes D lab"
  shows "bfs_seed es st = Some st' \<Longrightarrow> \<forall>(c, m) \<in> set es. m < length nodes \<and> length (lab m) = 1 \<Longrightarrow>
    old_sim nodes lab db st ob \<Longrightarrow>
    \<exists>ob'. old_seed (db_id db) (dat_cap (db_dat db)) (2 * length nodes) es ob = Some ob' \<and> old_sim nodes lab db st' ob'"
proof (induction es arbitrary: st ob)
  case (Cons e es)
  note dd = dat_doneD [OF d t]
  obtain c m where e: "e = (c, m)" by (cases e)
  have m: "m < length nodes" "length (lab m) = 1" using Cons.prems(2) e by auto
  have N: "0 < length nodes" by (rule trie_repD(1) [OF t])
  obtain st1 where st1: "bfs_enqueue m 0 (length (lab m)) st = Some st1" "bfs_seed es st1 = Some st'"
    using Cons.prems(1) e m(2) by (auto simp: bind_eq_Some_conv)
  obtain ob1 where ob1: "upd_cell (ob_cells ob) (did db m) (oc_fail_update (\<lambda>_. did db 0)) \<bind>
      (\<lambda>cells. old_push (2 * length nodes) m (ob\<lparr>ob_cells := cells\<rparr>)) = Some ob1" "old_sim nodes lab db st1 ob1"
    using old_enqueue_sim [OF d t Cons.prems(3) m(1) N st1(1)] by blast
  obtain ob' where ob': "old_seed (db_id db) (dat_cap (db_dat db)) (2 * length nodes) es ob1 = Some ob'"
    "old_sim nodes lab db st' ob'"
    using Cons.IH [OF st1(2) _ ob1(2)] Cons.prems(2) by auto
  have "rd (db_id db) m = Some (Some (did db m))" using dd(3,5) m(1) by simp
  then show ?case using ob1(1) ob' dd(6,7) [OF m(1)] dd(9) e by simp
qed simp

lemma old_children_sim:
  assumes d: "dat_done nodes lab db" and t: "is_trie nodes D lab" and nd: "nd < length nodes"
  shows "bfs_children nodes nd (length (lab nd)) es st = Some st' \<Longrightarrow> set es \<subseteq> set (tn_edges (nodes ! nd)) \<Longrightarrow>
    old_sim nodes lab db st ob \<Longrightarrow>
    \<exists>ob'. old_children (did db nd) (dat_cap (db_dat db)) (2 * length nodes) es ob = Some ob' \<and>
      old_sim nodes lab db st' ob'"
proof (induction es arbitrary: st ob)
  case (Cons e es)
  note dd = dat_doneD [OF d t]
  note S = old_simD [OF Cons.prems(3)]
  let ?cap = "dat_cap (db_dat db)" and ?cells = "ob_cells ob" and ?fs = "bs_fail st ! nd"
  obtain c m where e: "e = (c, m)" by (cases e)
  have ed: "(c, m) \<in> set (tn_edges (nodes ! nd))" using Cons.prems(2) e by auto
  have m: "m < length nodes" "lab m = lab nd @ [c]" using trie_repD(8) [OF t nd, of c m] ed by auto
  have m0: "m \<noteq> 0" using m(2) trie_repD(2) [OF t] by (intro notI) simp
  obtain r st1 where st1: "fail_walk nodes (bs_fail st) ?fs c m = Some r"
    "bfs_enqueue m r (length (lab m)) st = Some st1" "bfs_children nodes nd (length (lab nd)) es st1 = Some st'"
    using Cons.prems(1) e m(2) S(4) nd by (auto simp: bind_eq_Some_conv)
  have go: "old_goto ?cells ?cap (did db nd) c = Some (Some (did db m))"
    using old_goto_ok [OF d t S(1) nd, of c] trie_child_Some [OF t nd, of c m] ed by simp
  have "\<And>k. k < length nodes \<Longrightarrow> bs_fail st ! k < length nodes \<and> oc_fail (?cells ! did db k) = did db (bs_fail st ! k)"
    using S(6,7) by blast
  from old_fail_walk_sim [OF d t S(1) this m(1) m0 st1(1) S(6) [OF nd]]
  have walk: "old_fail_walk ?cells ?cap (did db ?fs) c (did db m) = Some (did db r)" and r: "r < length nodes" by blast+
  have cell: "rd ?cells (did db nd) = Some (?cells ! did db nd)" "oc_fail (?cells ! did db nd) = did db ?fs"
    using dd(7) [OF nd] old_sim_cells [OF Cons.prems(3)] S(7) [OF nd] by simp_all
  obtain ob1 where ob1: "upd_cell ?cells (did db m) (oc_fail_update (\<lambda>_. did db r)) \<bind>
      (\<lambda>cells. old_push (2 * length nodes) m (ob\<lparr>ob_cells := cells\<rparr>)) = Some ob1" "old_sim nodes lab db st1 ob1"
    using old_enqueue_sim [OF d t Cons.prems(3) m(1) r st1(2)] by blast
  obtain ob' where ob': "old_children (did db nd) ?cap (2 * length nodes) es ob1 = Some ob'" "old_sim nodes lab db st' ob'"
    using Cons.IH [OF st1(3) _ ob1(2)] Cons.prems(2) by auto
  show ?case using go walk cell ob1(1) ob' e by simp
qed simp

lemma old_bfs_loop_sim:
  assumes d: "dat_done nodes lab db" and t: "is_trie nodes D lab"
    and short: "\<And>m. m < length nodes \<Longrightarrow> length (lab m) \<le> 200000"
    and run: "bfs_loop nodes qh st = Some st'" and sim: "old_sim nodes lab db st ob"
  shows "\<exists>ob'. old_bfs_loop nodes (db_id db) (dat_cap (db_dat db)) qh ob = Some ob' \<and> old_sim nodes lab db st' ob'"
proof -
  note dd = dat_doneD [OF d t]
  let ?P = "\<lambda>nodes' qh st st'. nodes' = nodes \<longrightarrow> (\<forall>ob. old_sim nodes lab db st ob \<longrightarrow>
    (\<exists>ob'. old_bfs_loop nodes (db_id db) (dat_cap (db_dat db)) qh ob = Some ob' \<and> old_sim nodes lab db st' ob'))"
  have "?P nodes qh st st'"
  proof (rule bfs_loop.raw_induct [where P = ?P, OF _ run], intro impI allI)
    fix f nodes' qh st st' ob
    assume IH: "\<And>nodes' qh st st'. f nodes' qh st = Some st' \<Longrightarrow> ?P nodes' qh st st'"
      and body: "(if qh < length (bs_queue st) then do {
        nd \<leftarrow> rd (bs_queue st) qh;
        depth \<leftarrow> rd (bs_depth st) nd;
        st \<leftarrow> bfs_output nodes' nd st;
        n \<leftarrow> rd nodes' nd;
        st \<leftarrow> bfs_children nodes' nd depth (tn_edges n) st;
        f nodes' (qh + 1) st
      } else Some st) = Some st'" and eq: "nodes' = nodes" and sim: "old_sim nodes lab db st ob"
    note S = old_simD [OF sim]
    show "\<exists>ob'. old_bfs_loop nodes (db_id db) (dat_cap (db_dat db)) qh ob = Some ob' \<and> old_sim nodes lab db st' ob'"
    proof (cases "qh < length (bs_queue st)")
      case False
      then show ?thesis using body sim S(2) by (subst old_bfs_loop.simps) simp
    next
      case True
      let ?nd = "bs_queue st ! qh"
      have q: "?nd \<in> set (bs_queue st)" using True by simp
      have nd: "?nd < length nodes" by (rule S(9) [OF q])
      obtain st1 st2 where st1: "bfs_output nodes ?nd st = Some st1"
        "bfs_children nodes ?nd (bs_depth st ! ?nd) (tn_edges (nodes ! ?nd)) st1 = Some st2" "f nodes (qh + 1) st2 = Some st'"
        using body True nd eq by (auto simp: bind_eq_Some_conv rd_Some_iff)
      obtain ob1 where ob1: "old_output (did db ?nd) ob = Some ob1" "old_sim nodes lab db st1 ob1"
        using old_output_sim [OF d t sim q short [OF nd] st1(1)] by blast
      have "bs_depth st ! ?nd = length (lab ?nd)" by (rule S(10) [OF q])
      then obtain ob2 where ob2: "old_children (did db ?nd) (dat_cap (db_dat db)) (2 * length nodes)
          (tn_edges (nodes ! ?nd)) ob1 = Some ob2" "old_sim nodes lab db st2 ob2"
        using old_children_sim [OF d t nd _ subset_refl ob1(2)] st1(2) by auto
      have "\<exists>ob'. old_bfs_loop nodes (db_id db) (dat_cap (db_dat db)) (qh + 1) ob2 = Some ob' \<and> old_sim nodes lab db st' ob'"
        using IH [OF st1(3)] ob2(2) by blast
      moreover have "rd (db_id db) ?nd = Some (Some (did db ?nd))" using dd(3,5) nd by simp
      ultimately show ?thesis
        using True ob1(1) ob2(1) nd S(2) by (subst old_bfs_loop.simps) simp
    qed
  qed
  then show ?thesis using sim by simp
qed

subsection \<open>The automaton\<close>

text \<open>What the construction achieves, over the cells \<open>w s\<close> of the trie strings.\<close>

definition old_ok :: "old_automaton \<Rightarrow> bytes list \<Rightarrow> (bytes \<Rightarrow> nat) \<Rightarrow> bool" where
  "old_ok a D w \<longleftrightarrow> w [] = 1 \<and>
     (\<forall>s. trie_str D s \<longrightarrow> w s < length (oa_cells a) \<and> (w s = 1 \<longleftrightarrow> s = []) \<and>
        (\<forall>c. trie_str D (s @ [c]) \<longrightarrow> old_goto (oa_cells a) (oa_ncells a) (w s) c = Some (Some (w (s @ [c])))) \<and>
        (\<forall>c. \<not> trie_str D (s @ [c]) \<longrightarrow> old_goto (oa_cells a) (oa_ncells a) (w s) c = Some None \<or>
           s = [] \<and> old_goto (oa_cells a) (oa_ncells a) (w s) c = Some (Some 1)) \<and>
        oc_fail (oa_cells a ! w s) = w (fail_str D s) \<and>
        out_chain (oa_outputs a) (oc_output (oa_cells a ! w s)) (smatch D s))"

theorem build_automaton_from_dat_ok:
  assumes tr: "trie_of nodes D" and len: "length D \<le> UINT32_MAX" and short: "\<forall>w \<in> set D. length w \<le> 200000"
    and some: "build_dat nodes = Some db"
  shows "\<exists>a w. build_automaton_from_dat nodes db kind = Some a \<and> old_ok a D w \<and> oa_kind a = kind"
proof -
  obtain lab where t: "is_trie nodes D lab" using tr by (auto simp: trie_of_def)
  have db: "build_dat nodes = Some db" "dat_done nodes lab db" using build_dat_ok [OF t] some by auto
  have small: "length nodes \<le> 2 ^ 30" using some by (simp add: build_dat_def split: if_splits)
  note d = db(2)
  note dd = dat_doneD [OF d t]
  have N: "0 < length nodes" and l0: "lab 0 = []" using trie_repD(1,2) [OF t] by auto
  have sl: "length (lab m) \<le> 200000" if "m < length nodes" for m
  proof -
    have "trie_str D (lab m)" using lab_in [OF t that] by simp
    then show ?thesis using short prefix_length_le unfolding trie_str_def by (metis le_trans list.size(3) zero_le)
  qed
  let ?es = "tn_edges (nodes ! 0)" and ?cap = "dat_cap (db_dat db)"
  obtain st where st: "bfs_phase nodes = Some st" "bfs_done nodes D lab st" using bfs_phase_ok [OF t len small] by blast
  obtain st0 where st0: "bfs_seed ?es (bfs_init (length nodes)) = Some st0" "bfs_loop nodes 0 st0 = Some st"
    using st(1) N by (auto simp: bfs_phase_def bind_eq_Some_conv)
  obtain cells where c: "old_cells nodes db = Some cells" "old_static nodes db cells"
    "\<And>i. i < length cells \<Longrightarrow> oc_fail (cells ! i) = 1 \<and> oc_output (cells ! i) = 0"
    using old_cells_ok [OF d t] by blast
  let ?ob = "\<lparr>ob_cells = cells, ob_outputs = [\<lparr>out_token = 0, out_start_offset = 0, out_next = 0\<rparr>], ob_queue = []\<rparr>"
  have "length cells = ?cap" using c(2) by (simp add: old_static_def)
  then have "old_sim nodes lab db (bfs_init (length nodes)) ?ob"
    using c(2,3) dd(7,9) N by (simp add: old_sim_def bfs_init_def)
  moreover have "\<forall>(c, m) \<in> set ?es. m < length nodes \<and> length (lab m) = 1"
    using trie_children(2) [OF t N] l0 by auto
  ultimately obtain ob0 where ob0: "old_seed (db_id db) ?cap (2 * length nodes) ?es ?ob = Some ob0"
    "old_sim nodes lab db st0 ob0"
    using old_seed_sim [OF d t st0(1)] by blast
  obtain ob where ob: "old_bfs_loop nodes (db_id db) ?cap 0 ob0 = Some ob" "old_sim nodes lab db st ob"
    using old_bfs_loop_sim [OF d t sl st0(2) ob0(2)] by blast
  note S = old_simD [OF ob(2)]
  let ?n = "node_of nodes lab"
  let ?w = "\<lambda>s. did db (?n s)"
  have node: "?n s < length nodes" "lab (?n s) = s" if "trie_str D s" for s
    using node_of_ok [OF t, of s] that by simp_all
  have B: "bs_fail st ! ?n s = ?n (fail_str D s)" "out_chain (bs_outputs st) (bs_output st ! ?n s) (smatch D s)"
    if "trie_str D s" for s
    using st(2) node [OF that] unfolding bfs_done_def by metis+
  let ?a = "\<lparr>oa_cells = ob_cells ob, oa_ncells = ?cap, oa_outputs = ob_outputs ob, oa_kind = kind\<rparr>"
  have ok: "old_ok ?a D ?w"
    unfolding old_ok_def
  proof (intro conjI allI impI)
    show "?w [] = 1" using node_of_Nil [OF t] dd(9) by simp
    fix s assume s: "trie_str D s"
    note n = node [OF s]
    show "?w s < length (oa_cells ?a)"
      using dd(7) [OF n(1)] old_sim_cells [OF ob(2)] by simp
    have "?n s = 0 \<longleftrightarrow> s = []" using n l0 node_of_Nil [OF t] by metis
    then show w1: "?w s = 1 \<longleftrightarrow> s = []" using dd(8) [OF n(1) N] dd(9) by simp
    show "oc_fail (oa_cells ?a ! ?w s) =
        ?w (fail_str D s)"
      using S(7) [OF n(1)] B(1) [OF s] by simp
    show "out_chain (oa_outputs ?a)
        (oc_output (oa_cells ?a ! ?w s))
        (smatch D s)"
      using S(3) S(8) [OF n(1)] B(2) [OF s] by simp
    fix c :: byte
    have ch: "trie_child nodes D lab (?n s) c = (if trie_str D (s @ [c]) then Some (?n (s @ [c])) else None)"
      using n(2) by (simp add: trie_child_def)
    note go = old_goto_ok [OF d t S(1) n(1), of c, unfolded ch]
    show "trie_str D (s @ [c]) \<Longrightarrow> old_goto (oa_cells ?a)
        (oa_ncells ?a) (?w s) c = Some (Some (?w (s @ [c])))"
      using go by simp
    show "\<not> trie_str D (s @ [c]) \<Longrightarrow> old_goto (oa_cells ?a)
        (oa_ncells ?a) (?w s) c = Some None \<or>
        s = [] \<and> old_goto (oa_cells ?a)
        (oa_ncells ?a) (?w s) c = Some (Some 1)"
      using go \<open>?n s = 0 \<longleftrightarrow> s = []\<close> by (simp split: if_splits)
  qed
  have "build_automaton_from_dat nodes db kind = Some ?a"
    using c(1) N ob0(1) ob(1) by (simp add: build_automaton_from_dat_def Let_def)
  then show ?thesis using ok by (metis old_automaton.select_convs(4))
qed

end
