(* ===== verification/Ac_Old_Run.thy ===== *)
theory Ac_Old_Run
  imports Ac_Old_Bfs
begin

text \<open>
  The run time of the previous automaton, \<^verbatim>\<open>src/ac_bpe_old.c\<close>, whose root is state 1.
  On an automaton built by it the search and the iterator go in step with those of
  \<^verbatim>\<open>src/ac_bpe.c\<close>: same results, same matches in the same order.
\<close>

subsection \<open>Code\<close>

partial_function (option) old_step :: "old_automaton \<Rightarrow> nat \<Rightarrow> byte \<Rightarrow> nat option" where
  "old_step a state c = do {
     t \<leftarrow> old_goto (oa_cells a) (oa_ncells a) state c;
     if t \<noteq> None then t
     else if state = 1 then Some 1
     else do {
       cell \<leftarrow> rd (oa_cells a) state;
       old_step a (oc_fail cell) c
     }
   }"

partial_function (option) old_ll_outputs :: "old_automaton \<Rightarrow> nat \<Rightarrow> nat \<Rightarrow> ll_best \<Rightarrow> ll_best option" where
  "old_ll_outputs a i out best =
     (if out = 0 then Some best
      else do {
        o1 \<leftarrow> rd (oa_outputs a) out;
        old_ll_outputs a i (out_next o1) (ll_update i best (out_token o1, out_start_offset o1))
      })"

fun old_ll_scan :: "old_automaton \<Rightarrow> bytes \<Rightarrow> nat \<Rightarrow> nat \<Rightarrow> ll_best \<Rightarrow> ll_best option" where
  "old_ll_scan a [] i state best = Some best"
| "old_ll_scan a (b # bs) i state best = do {
     state \<leftarrow> old_step a state b;
     cell \<leftarrow> rd (oa_cells a) state;
     best \<leftarrow> old_ll_outputs a i (oc_output cell) best;
     if fst (snd best) \<noteq> UINT32_MAX \<and> state = 1 then Some best
     else old_ll_scan a bs (i + 1) state best
   }"

definition old_leftmost_longest :: "old_automaton \<Rightarrow> bytes \<Rightarrow> (nat \<times> nat) option option" where
  "old_leftmost_longest a text = do {
     best \<leftarrow> old_ll_scan a text 0 1 (None, UINT32_MAX, 0);
     Some (if fst (snd best) = UINT32_MAX then None else Some (snd best))
   }"

definition old_start_state :: nat where
  "old_start_state = 1"

definition old_iter_new :: ac_match_iter where
  "old_iter_new = \<lparr>it_state = 1, it_pos = 0, it_pending_out = 0, it_pending_end = 0\<rparr>"

definition old_iter_advance :: "old_automaton \<Rightarrow> ac_match_iter \<Rightarrow> byte \<Rightarrow> nat \<Rightarrow> ac_match_iter option" where
  "old_iter_advance a it b end_pos = do {
     state \<leftarrow> old_step a (it_state it) b;
     cell \<leftarrow> rd (oa_cells a) state;
     Some \<lparr>it_state = state, it_pos = end_pos, it_pending_out = oc_output cell, it_pending_end = end_pos\<rparr>
   }"

definition old_iter_next_match ::
    "old_automaton \<Rightarrow> ac_match_iter \<Rightarrow> (ac_match_iter \<times> (nat \<times> nat) option) option" where
  "old_iter_next_match a it =
     (if it_pending_out it = 0 then Some (it, None)
      else do {
        o1 \<leftarrow> rd (oa_outputs a) (it_pending_out it);
        Some (it\<lparr>it_pending_out := out_next o1\<rparr>,
              Some (out_token o1, usub (it_pending_end it) (out_start_offset o1)))
      })"

subsection \<open>One step\<close>

lemma old_okD:
  assumes "old_ok a D w"
  shows "w [] = 1" and "trie_str D s \<Longrightarrow> w s < length (oa_cells a)" and "trie_str D s \<Longrightarrow> w s = 1 \<longleftrightarrow> s = []"
    and "trie_str D (s @ [c]) \<Longrightarrow> old_goto (oa_cells a) (oa_ncells a) (w s) c = Some (Some (w (s @ [c])))"
    and "trie_str D s \<Longrightarrow> \<not> trie_str D (s @ [c]) \<Longrightarrow> old_goto (oa_cells a) (oa_ncells a) (w s) c = Some None \<or>
           s = [] \<and> old_goto (oa_cells a) (oa_ncells a) (w s) c = Some (Some 1)"
    and "trie_str D s \<Longrightarrow> oc_fail (oa_cells a ! w s) = w (fail_str D s)"
    and "trie_str D s \<Longrightarrow> out_chain (oa_outputs a) (oc_output (oa_cells a ! w s)) (smatch D s)"
  using assms trie_str_prefix [of D s "[c]"] unfolding old_ok_def by blast+

text \<open>The state after a text.\<close>

definition old_state :: "(bytes \<Rightarrow> nat) \<Rightarrow> bytes list \<Rightarrow> bytes \<Rightarrow> nat" where
  "old_state w D t = w (lsuf (trie_str D) t)"

lemma old_step_walk:
  assumes ok: "old_ok a D w" and "trie_str D s"
  shows "old_step a (w s) b = Some (w (lsuf (trie_str D) (s @ [b])))"
  using assms(2)
proof (induction s rule: length_induct)
  case (1 s)
  note d = old_okD(1) [OF ok] old_okD(2-) [OF ok, of s]
  show ?case
  proof (cases "trie_str D (s @ [b])")
    case True
    then show ?thesis using d(4) by (subst old_step.simps) (simp add: lsuf_self)
  next
    case no: False
    show ?thesis
    proof (cases s)
      case Nil
      then have "lsuf (trie_str D) (s @ [b]) = []" using no by simp
      then show ?thesis using d(1) d(5) [OF "1.prems" no] Nil by (subst old_step.simps) auto
    next
      case (Cons x xs)
      let ?f = "fail_str D s"
      have "s \<noteq> []" using Cons by simp
      then have "old_step a (w ?f) b = Some (w (lsuf (trie_str D) (?f @ [b])))"
        using "1.IH" length_fail_str by simp
      moreover have "lsuf (trie_str D) (?f @ [b]) = lsuf (trie_str D) (s @ [b])"
        using no Cons by (simp add: fail_str_def lsuf_trie_snoc)
      moreover have "old_step a (w s) b = old_step a (w ?f) b"
        using d(2,3,6) [OF "1.prems"] d(5) [OF "1.prems" no] Cons by (subst old_step.simps) simp
      ultimately show ?thesis by simp
    qed
  qed
qed

lemma old_step_state: "old_ok a D w \<Longrightarrow> old_step a (old_state w D t) b = Some (old_state w D (t @ [b]))"
  using old_step_walk [of a D w "lsuf (trie_str D) t" b] by (simp add: old_state_def lsuf_trie_snoc)

lemma old_state_facts:
  assumes "old_ok a D w"
  shows "old_state w D t < length (oa_cells a)" and "old_state w D t = 1 \<longleftrightarrow> lsuf (trie_str D) t = []"
    and "out_chain (oa_outputs a) (oc_output (oa_cells a ! old_state w D t)) (smatch D t)"
    and "old_state w D [] = 1"
  using old_okD(2,3,7) [OF assms, of "lsuf (trie_str D) t"] old_okD(1) [OF assms]
  by (simp_all add: old_state_def smatch_lsuf)

subsection \<open>The search\<close>

lemma old_ll_outputs_chain:
  "out_chain (oa_outputs a) out ms \<Longrightarrow> old_ll_outputs a i out best = Some (foldl (ll_update i) best ms)"
proof (induction ms arbitrary: out best)
  case Nil
  then show ?case by (subst old_ll_outputs.simps) simp
next
  case (Cons m ms)
  then show ?case by (cases m; subst old_ll_outputs.simps) simp
qed

lemma old_ll_scan_same:
  assumes old: "old_ok a D w" and new: "ac_ok a' D"
  shows "old_ll_scan a bs i (old_state w D t) best = ll_scan a' bs i (ac_state a' D t) best"
proof (induction bs arbitrary: i t best)
  case (Cons b bs)
  let ?t = "t @ [b]" and ?best = "foldl (ll_update i) best (smatch D (t @ [b]))"
  have "old_ll_scan a (b # bs) i (old_state w D t) best =
      (if fst (snd ?best) \<noteq> UINT32_MAX \<and> lsuf (trie_str D) ?t = [] then Some ?best
       else old_ll_scan a bs (i + 1) (old_state w D ?t) ?best)"
    using old_step_state [OF old, of t b] old_state_facts(1-3) [OF old, of ?t] old_ll_outputs_chain by simp
  moreover have "ll_scan a' (b # bs) i (ac_state a' D t) best =
      (if fst (snd ?best) \<noteq> UINT32_MAX \<and> lsuf (trie_str D) ?t = [] then Some ?best
       else ll_scan a' bs (i + 1) (ac_state a' D ?t) ?best)"
    using ac_step_state [OF new, of t b] ac_state_cell [OF new, of ?t] ac_state_0 [OF new, of ?t]
      ll_outputs_chain [OF ac_state_chain [OF new, of ?t]] by simp
  ultimately show ?case using Cons.IH [of "i + 1" ?t ?best] by simp
qed simp

theorem old_search_same:
  assumes "old_ok a D w" and "ac_ok a' D"
  shows "old_leftmost_longest a t = ac_leftmost_longest a' t"
  using old_ll_scan_same [OF assms, of t 0 "[]"] old_state_facts(4) [OF assms(1)]
  by (simp add: old_leftmost_longest_def ac_leftmost_longest_def)

subsection \<open>The iterator\<close>

text \<open>
  The loop that \<^verbatim>\<open>include/ac_bpe.h\<close> documents for a forward search: after each byte all matches that
  are pending are taken. Both iterators run it with the same result, so it is stated for their interface.
\<close>

partial_function (option) drain :: "('i \<Rightarrow> ('i \<times> (nat \<times> nat) option) option) \<Rightarrow> 'i \<Rightarrow> ('i \<times> (nat \<times> nat) list) option" where
  "drain nxt it = do {
     (it, m) \<leftarrow> nxt it;
     case m of
       None \<Rightarrow> Some (it, [])
     | Some x \<Rightarrow> do { (it, ms) \<leftarrow> drain nxt it; Some (it, x # ms) }
   }"

fun scan_text :: "('i \<Rightarrow> byte \<Rightarrow> nat \<Rightarrow> 'i option) \<Rightarrow> ('i \<Rightarrow> ('i \<times> (nat \<times> nat) option) option) \<Rightarrow> 'i \<Rightarrow> bytes \<Rightarrow> nat \<Rightarrow>
    (nat \<times> nat) list option" where
  "scan_text adv nxt it [] i = Some []"
| "scan_text adv nxt it (b # bs) i = do {
     it \<leftarrow> adv it b (i + 1);
     (it, ms) \<leftarrow> drain nxt it;
     rest \<leftarrow> scan_text adv nxt it bs (i + 1);
     Some (ms @ rest)
   }"

text \<open>The matches a text adds to those of the text before it, with the token and the start of each.\<close>

fun matches_from :: "bytes list \<Rightarrow> bytes \<Rightarrow> bytes \<Rightarrow> (nat \<times> nat) list" where
  "matches_from D t [] = []"
| "matches_from D t (b # bs) =
     map (\<lambda>(k, n). (k, Suc (length t) - n)) (smatch D (t @ [b])) @ matches_from D (t @ [b]) bs"

locale match_iterator =
  fixes adv :: "'i \<Rightarrow> byte \<Rightarrow> nat \<Rightarrow> 'i option" and nxt :: "'i \<Rightarrow> ('i \<times> (nat \<times> nat) option) option"
    and D :: "bytes list" and after :: "bytes \<Rightarrow> 'i \<Rightarrow> bool" and todo :: "'i \<Rightarrow> nat \<Rightarrow> (nat \<times> nat) list \<Rightarrow> bool"
  assumes advance: "after t it \<Longrightarrow> \<exists>it'. adv it b e = Some it' \<and> after (t @ [b]) it' \<and> todo it' e (smatch D (t @ [b]))"
    and no_more: "todo it e [] \<Longrightarrow> nxt it = Some (it, None)"
    and one_more: "todo it e ((k, n) # ms) \<Longrightarrow> n \<le> e \<Longrightarrow> after t it \<Longrightarrow>
      \<exists>it'. nxt it = Some (it', Some (k, e - n)) \<and> todo it' e ms \<and> after t it'"
begin

lemma drain_ok:
  "todo it e ms \<Longrightarrow> \<forall>(k, n) \<in> set ms. n \<le> e \<Longrightarrow> after t it \<Longrightarrow>
     \<exists>it'. drain nxt it = Some (it', map (\<lambda>(k, n). (k, e - n)) ms) \<and> after t it'"
proof (induction ms arbitrary: it)
  case Nil
  then show ?case using no_more by (subst drain.simps) simp
next
  case (Cons m ms)
  obtain k n where m: "m = (k, n)" by (cases m)
  obtain it1 where it1: "nxt it = Some (it1, Some (k, e - n))" "todo it1 e ms" "after t it1"
    using one_more [of it e k n ms t] Cons.prems m by auto
  obtain it' where "drain nxt it1 = Some (it', map (\<lambda>(k, n). (k, e - n)) ms)" "after t it'"
    using Cons.IH [OF it1(2) _ it1(3)] Cons.prems(2) by auto
  then show ?case using it1(1) m by (subst drain.simps) simp
qed

lemma scan_text_ok: "after t it \<Longrightarrow> scan_text adv nxt it bs (length t) = Some (matches_from D t bs)"
proof (induction bs arbitrary: t it)
  case (Cons b bs)
  let ?t = "t @ [b]"
  obtain it1 where it1: "adv it b (length ?t) = Some it1" "after ?t it1" "todo it1 (length ?t) (smatch D ?t)"
    using advance [OF Cons.prems] by blast
  have "\<forall>(k, n) \<in> set (smatch D ?t). n \<le> length ?t" using set_smatch_slice(2) by blast
  then obtain it2 where it2: "drain nxt it1 = Some (it2, map (\<lambda>(k, n). (k, length ?t - n)) (smatch D ?t))" "after ?t it2"
    using drain_ok [OF it1(3) _ it1(2)] by blast
  have "scan_text adv nxt it2 bs (length ?t) = Some (matches_from D ?t bs)" by (rule Cons.IH [OF it2(2)])
  then show ?case using it1(1) it2(1) by simp
qed simp

end

interpretation new_iter: match_iterator "ac_iter_advance a" "ac_iter_next_match a" D
    "\<lambda>t it. ac_ok a D \<and> it_state it = ac_state a D t" "pending a" for a D
proof unfold_locales
  show "\<exists>it'. ac_iter_advance a it b e = Some it' \<and> (ac_ok a D \<and> it_state it' = ac_state a D (t @ [b])) \<and>
      pending a it' e (smatch D (t @ [b]))" if "ac_ok a D \<and> it_state it = ac_state a D t" for t it b e
    using ac_iter_advance_ok [of a D it t b e] that by blast
  show "\<exists>it'. ac_iter_next_match a it = Some (it', Some (k, e - n)) \<and> pending a it' e ms \<and>
      ac_ok a D \<and> it_state it' = ac_state a D t"
    if "pending a it e ((k, n) # ms)" "n \<le> e" "ac_ok a D \<and> it_state it = ac_state a D t" for it e k n ms t
    using ac_iter_next_match_Cons [OF that(1,2)] that(3) by auto
qed (rule ac_iter_next_match_Nil)

definition old_pending :: "old_automaton \<Rightarrow> ac_match_iter \<Rightarrow> nat \<Rightarrow> (nat \<times> nat) list \<Rightarrow> bool" where
  "old_pending a it e ms \<longleftrightarrow> it_pending_end it = e \<and> out_chain (oa_outputs a) (it_pending_out it) ms"

interpretation old_iter: match_iterator "old_iter_advance a" "old_iter_next_match a" D
    "\<lambda>t it. old_ok a D w \<and> it_state it = old_state w D t" "old_pending a" for a D w
proof unfold_locales
  show "\<exists>it'. old_iter_advance a it b e = Some it' \<and> (old_ok a D w \<and> it_state it' = old_state w D (t @ [b])) \<and>
      old_pending a it' e (smatch D (t @ [b]))" if h: "old_ok a D w \<and> it_state it = old_state w D t" for t it b e
    using h old_step_state [of a D w t b] old_state_facts(1,3) [of a D w "t @ [b]"]
    by (simp add: old_iter_advance_def old_pending_def)
  show "old_iter_next_match a it = Some (it, None)" if "old_pending a it e []" for it e
    using that by (simp add: old_pending_def old_iter_next_match_def)
  show "\<exists>it'. old_iter_next_match a it = Some (it', Some (k, e - n)) \<and> old_pending a it' e ms \<and>
      old_ok a D w \<and> it_state it' = old_state w D t"
    if "old_pending a it e ((k, n) # ms)" "n \<le> e" "old_ok a D w \<and> it_state it = old_state w D t" for it e k n ms t
    using that by (auto simp: old_pending_def old_iter_next_match_def)
qed

text \<open>
  Both automata, built from the same trie: right where the construction has a result, and it has
  one for every trie of at most 4,100,000 nodes.
\<close>

lemma build_dat_small:
  assumes "trie_of nodes D" and "length nodes \<le> 4100000"
  shows "\<exists>db. build_dat nodes = Some db"
proof -
  obtain lab where t: "is_trie nodes D lab" using assms(1) by (auto simp: trie_of_def)
  show ?thesis using build_dat_ok [OF t] assms(2) by auto
qed

theorem old_builder_build_ok:
  assumes "trie_of nodes D" and "length D \<le> UINT32_MAX" and "\<forall>w \<in> set D. length w \<le> 200000"
  shows "old_builder_build \<lparr>tb_nodes = nodes, tb_kind = kind\<rparr> = Some a \<Longrightarrow> \<exists>w. old_ok a D w"
    and "length nodes \<le> 4100000 \<Longrightarrow> \<exists>a. old_builder_build \<lparr>tb_nodes = nodes, tb_kind = kind\<rparr> = Some a"
proof -
  show "\<exists>w. old_ok a D w" if "old_builder_build \<lparr>tb_nodes = nodes, tb_kind = kind\<rparr> = Some a"
    using that build_automaton_from_dat_ok [OF assms, of _ kind]
    by (fastforce simp: old_builder_build_def bind_eq_Some_conv)
  show "\<exists>a. old_builder_build \<lparr>tb_nodes = nodes, tb_kind = kind\<rparr> = Some a" if "length nodes \<le> 4100000"
    using build_dat_small [OF assms(1) that] build_automaton_from_dat_ok [OF assms, of _ kind]
    by (fastforce simp: old_builder_build_def)
qed

theorem old_builder_build_two_ok:
  assumes "trie_of nodes D" and "length D \<le> UINT32_MAX" and "\<forall>w \<in> set D. length w \<le> 200000"
    and "length nodes \<le> 4100000"
  shows "\<exists>a1 w1 a2 w2. old_builder_build_two \<lparr>tb_nodes = nodes, tb_kind = kind\<rparr> kind1 kind2 = Some (a1, a2) \<and>
    old_ok a1 D w1 \<and> oa_kind a1 = kind1 \<and> old_ok a2 D w2 \<and> oa_kind a2 = kind2"
proof -
  obtain db where db: "build_dat nodes = Some db" using build_dat_small [OF assms(1,4)] by blast
  obtain a1 w1 where "build_automaton_from_dat nodes db kind1 = Some a1" "old_ok a1 D w1" "oa_kind a1 = kind1"
    using build_automaton_from_dat_ok [OF assms(1-3) db] by blast
  moreover obtain a2 w2 where "build_automaton_from_dat nodes db kind2 = Some a2" "old_ok a2 D w2" "oa_kind a2 = kind2"
    using build_automaton_from_dat_ok [OF assms(1-3) db] by blast
  ultimately show ?thesis using db by (auto simp: old_builder_build_two_def)
qed

end
