(* ===== verification/Pymodule.thy ===== *)
theory Pymodule
  imports Threadpool_Run Bpe_Blob
begin

text \<open>
  The extension module of \<^verbatim>\<open>src/pymodule.c\<close>: the tokenizers it makes and caches, and the methods
  of its types. The C API of the interpreter is the argument \<open>py\<close>; what a method returns is
  \<open>Inl\<close> an exception or \<open>Inr\<close> an object, and \<open>None\<close> when the C code does not
  return or reads through a null pointer. Reference counts and memory are not modelled.
\<close>

subsection \<open>Objects and the interpreter\<close>

datatype pyobj = PyNone | PyBool bool | PyLong int | PyFloat nat | PyUnicode "u32 list" | PyBytes bytes
  | PyList "pyobj list" | PyTuple "pyobj list"

text \<open>\<open>SystemError\<close> is what the interpreter raises when a function returns \<^verbatim>\<open>NULL\<close>
  without having set an exception.\<close>

datatype exn = TypeError | OverflowError | UnicodeEncodeError | SystemError

text \<open>The functions of the C API that can fail: the formats \<^verbatim>\<open>s#\<close>, \<^verbatim>\<open>y*\<close> and \<^verbatim>\<open>n\<close> of
  \<^verbatim>\<open>PyArg_ParseTuple\<close>, \<^verbatim>\<open>PyUnicode_AsUTF8AndSize\<close>, \<^verbatim>\<open>PyLong_AsLong\<close> and
  \<^verbatim>\<open>PyUnicode_DecodeUTF8\<close> with \<^verbatim>\<open>"strict"\<close>.\<close>

record cpython =
  parse_text :: "pyobj \<Rightarrow> exn + bytes"
  parse_buffer :: "pyobj \<Rightarrow> exn + bytes"
  parse_ssize :: "pyobj \<Rightarrow> exn + int"
  as_utf8 :: "pyobj \<Rightarrow> exn + bytes"
  as_long :: "pyobj \<Rightarrow> exn + int"
  decode_utf8 :: "bytes \<Rightarrow> u32 list option"

text \<open>An early return with an exception.\<close>

definition on_ok :: "exn + 'a \<Rightarrow> ('a \<Rightarrow> (exn + 'b) option) \<Rightarrow> (exn + 'b) option" where
  "on_ok r f = (case r of Inl e \<Rightarrow> Some (Inl e) | Inr x \<Rightarrow> f x)"

text \<open>The format \<^verbatim>\<open>O!\<close> with \<^verbatim>\<open>PyList_Type\<close>.\<close>

definition parse_list :: "pyobj \<Rightarrow> exn + pyobj list" where
  "parse_list lst = (case lst of PyList items \<Rightarrow> Inr items | _ \<Rightarrow> Inl TypeError)"

subsection \<open>Conversions\<close>

definition tokens_to_pylist :: "nat list \<Rightarrow> pyobj" where
  "tokens_to_pylist toks = PyList (map (\<lambda>t. PyLong (int t)) toks)"

text \<open>\<^verbatim>\<open>arr[i] = (uint32_t)v\<close>; a negative \<^verbatim>\<open>v\<close> that is not an error of the conversion leaves no exception.\<close>

fun token_loop :: "cpython \<Rightarrow> pyobj list \<Rightarrow> nat list \<Rightarrow> exn + nat list" where
  "token_loop py [] arr = Inr arr"
| "token_loop py (item # items) arr =
     (case as_long py item of Inl e \<Rightarrow> Inl e
      | Inr v \<Rightarrow> if v < 0 then Inl SystemError else token_loop py items (arr @ [nat (v mod 2 ^ 32)]))"

definition pylist_to_tokens :: "cpython \<Rightarrow> pyobj \<Rightarrow> exn + nat list" where
  "pylist_to_tokens py lst = (case lst of PyList items \<Rightarrow> token_loop py items [] | _ \<Rightarrow> Inl TypeError)"

fun text_loop :: "cpython \<Rightarrow> pyobj list \<Rightarrow> bytes list \<Rightarrow> exn + bytes list" where
  "text_loop py [] texts = Inr texts"
| "text_loop py (item # items) texts =
     (case as_utf8 py item of Inl e \<Rightarrow> Inl e | Inr buf \<Rightarrow> text_loop py items (texts @ [buf]))"

subsection \<open>Tokenizers\<close>

text \<open>The dictionary headers are generated at build time.\<close>

record dict_header =
  all_tokens_h :: bytes
  token_starts_h :: "nat list"
  num_tokens_h :: nat
  hash_factor_h :: u64

text \<open>\<open>module_file\<close> is the \<^verbatim>\<open>__file__\<close> of the package, \<open>fs\<close> the contents of files.\<close>

definition dir_length :: "bytes \<Rightarrow> nat" where
  "dir_length path = length path - length (takeWhile (\<lambda>c. c \<noteq> 0x2F \<and> c \<noteq> 0x5C) (rev path))"

definition load_blob_file :: "bytes option \<Rightarrow> (bytes \<Rightarrow> bytes option) \<Rightarrow> bytes \<Rightarrow> bytes option" where
  "load_blob_file module_file fs filename = do {
     init_path \<leftarrow> module_file;
     let sep = dir_length init_path;
     if 4096 \<le> sep + length filename + 1 then None
     else do {
       buf \<leftarrow> fs (take sep init_path @ filename);
       if buf = [] then None else Some buf
     }
   }"

definition build_tokenizer :: "dict_header \<Rightarrow> bytes option \<Rightarrow> pretok_fn \<Rightarrow> tokenizer option" where
  "build_tokenizer d blob pre = do {
     bpe \<leftarrow> (case blob of
         Some b \<Rightarrow> bpe_from_blob (all_tokens_h d) (token_starts_h d) b
       | None \<Rightarrow> bpe_from_dictionary (all_tokens_h d) (token_starts_h d) (num_tokens_h d) (hash_factor_h d));
     Some (tokenizer_new_native bpe (Some pre))
   }"

definition build_cl100k :: "ucd_tables \<Rightarrow> dict_header \<Rightarrow> bytes option \<Rightarrow> tokenizer option" where
  "build_cl100k T d blob = build_tokenizer d blob (pretok_cl100k T)"

definition build_o200k :: "ucd_tables \<Rightarrow> dict_header \<Rightarrow> bytes option \<Rightarrow> tokenizer option" where
  "build_o200k T d blob = build_tokenizer d blob (pretok_o200k T)"

record py_globals =
  g_cl100k :: "tokenizer option"
  g_o200k :: "tokenizer option"

definition py_cl100k_base :: "ucd_tables \<Rightarrow> dict_header \<Rightarrow> bytes option \<Rightarrow> py_globals \<Rightarrow> (tokenizer \<times> py_globals) option" where
  "py_cl100k_base T d blob g = (case g_cl100k g of
       Some tok \<Rightarrow> Some (tok, g)
     | None \<Rightarrow> do { tok \<leftarrow> build_cl100k T d blob; Some (tok, g\<lparr>g_cl100k := Some tok\<rparr>) })"

definition py_o200k_base :: "ucd_tables \<Rightarrow> dict_header \<Rightarrow> bytes option \<Rightarrow> py_globals \<Rightarrow> (tokenizer \<times> py_globals) option" where
  "py_o200k_base T d blob g = (case g_o200k g of
       Some tok \<Rightarrow> Some (tok, g)
     | None \<Rightarrow> do { tok \<leftarrow> build_o200k T d blob; Some (tok, g\<lparr>g_o200k := Some tok\<rparr>) })"

definition py_is_cached_cl100k :: "py_globals \<Rightarrow> pyobj" where
  "py_is_cached_cl100k g = PyBool (g_cl100k g \<noteq> None)"

definition py_is_cached_o200k :: "py_globals \<Rightarrow> pyobj" where
  "py_is_cached_o200k g = PyBool (g_o200k g \<noteq> None)"

definition py_get_num_threads :: "parallel \<Rightarrow> pyobj" where
  "py_get_num_threads st = PyLong (int (parallel_num_threads st))"

subsection \<open>Type BytePairEncoding\<close>

text \<open>The object of a \<^verbatim>\<open>PyBPE\<close> or \<^verbatim>\<open>PyTokenizer\<close> is null when it was made by calling the type from
  Python.\<close>

definition PyBPE_count :: "cpython \<Rightarrow> bpe option \<Rightarrow> pyobj \<Rightarrow> (exn + pyobj) option" where
  "PyBPE_count py self arg = on_ok (parse_buffer py arg) (\<lambda>view. do {
     bpe \<leftarrow> self;
     c \<leftarrow> bpe_count bpe view;
     Some (Inr (PyLong (int c)))
   })"

definition PyBPE_encode_via_backtracking :: "cpython \<Rightarrow> bpe option \<Rightarrow> pyobj \<Rightarrow> (exn + pyobj) option" where
  "PyBPE_encode_via_backtracking py self arg = on_ok (parse_buffer py arg) (\<lambda>view. do {
     bpe \<leftarrow> self;
     toks \<leftarrow> bpe_encode_via_backtracking bpe view;
     Some (Inr (tokens_to_pylist toks))
   })"

text \<open>For an unknown token the buffer is null and its length 0, of which
  \<^verbatim>\<open>PyBytes_FromStringAndSize\<close> makes an empty object.\<close>

definition PyBPE_decode_tokens :: "cpython \<Rightarrow> bpe option \<Rightarrow> pyobj \<Rightarrow> (exn + pyobj) option" where
  "PyBPE_decode_tokens py self arg = on_ok (parse_list arg) (\<lambda>_. on_ok (pylist_to_tokens py arg) (\<lambda>toks. do {
     bpe \<leftarrow> self;
     r \<leftarrow> bpe_decode_tokens bpe toks;
     b \<leftarrow> (case r of None \<Rightarrow> Some [] | Some (buf, out_len) \<Rightarrow> filled buf out_len);
     Some (Inr (PyBytes b))
   }))"

subsection \<open>Type Tokenizer\<close>

definition PyTokenizer_count :: "cpython \<Rightarrow> tokenizer option \<Rightarrow> pyobj \<Rightarrow> (exn + pyobj) option" where
  "PyTokenizer_count py self arg = on_ok (parse_text py arg) (\<lambda>text. do {
     tok \<leftarrow> self;
     c \<leftarrow> tokenizer_count tok text;
     Some (Inr (PyLong (int c)))
   })"

text \<open>The limit is stored in a \<^verbatim>\<open>size_t\<close>.\<close>

definition PyTokenizer_count_till_limit :: "cpython \<Rightarrow> tokenizer option \<Rightarrow> pyobj \<Rightarrow> pyobj \<Rightarrow> (exn + pyobj) option" where
  "PyTokenizer_count_till_limit py self arg limit =
     on_ok (parse_text py arg) (\<lambda>text. on_ok (parse_ssize py limit) (\<lambda>n. do {
       tok \<leftarrow> self;
       c \<leftarrow> tokenizer_count_till_limit tok text (nat (n mod 2 ^ 64));
       Some (Inr (if c = SIZE_MAX then PyNone else PyLong (int c)))
     }))"

definition PyTokenizer_encode :: "cpython \<Rightarrow> tokenizer option \<Rightarrow> pyobj \<Rightarrow> (exn + pyobj) option" where
  "PyTokenizer_encode py self arg = on_ok (parse_text py arg) (\<lambda>text. do {
     tok \<leftarrow> self;
     toks \<leftarrow> tokenizer_encode tok text;
     Some (Inr (tokens_to_pylist toks))
   })"

text \<open>\<open>elapsed\<close>: the difference of two readings of the clock.\<close>

fun encode_loop :: "tokenizer option \<Rightarrow> bytes list \<Rightarrow> nat list list \<Rightarrow> nat list list option" where
  "encode_loop self [] all_toks = Some all_toks"
| "encode_loop self (t # texts) all_toks = do {
     tok \<leftarrow> self;
     toks \<leftarrow> tokenizer_encode tok t;
     encode_loop self texts (all_toks @ [toks])
   }"

definition batch_result_list :: "nat list list \<Rightarrow> pyobj" where
  "batch_result_list all_toks = PyList (map tokens_to_pylist all_toks)"

definition PyTokenizer_encode_batch :: "cpython \<Rightarrow> tokenizer option \<Rightarrow> nat \<Rightarrow> pyobj \<Rightarrow> (exn + pyobj) option" where
  "PyTokenizer_encode_batch py self elapsed arg =
     on_ok (parse_list arg) (\<lambda>items. on_ok (text_loop py items []) (\<lambda>texts. do {
       all_toks \<leftarrow> encode_loop self texts [];
       Some (Inr (PyTuple [batch_result_list all_toks, PyLong (int (sum_list (map length all_toks))), PyFloat elapsed]))
     }))"

text \<open>What the call of \<^verbatim>\<open>parallel_encode_batch\<close> has left in \<^verbatim>\<open>out_toks\<close> and \<^verbatim>\<open>out_ns\<close>, which are
  allocated with zeros: a slot that was not written is an empty list of tokens.\<close>

definition slot_tokens :: "result option \<Rightarrow> nat list" where
  "slot_tokens out = (case out of Some (Tokens ts) \<Rightarrow> ts | _ \<Rightarrow> [])"

text \<open>\<open>run\<close> is that call, \<open>nthreads\<close> the result of \<^verbatim>\<open>parallel_num_threads\<close>; the options are
  parsed and not read.\<close>

definition PyTokenizer_encode_batch_parallel ::
    "cpython \<Rightarrow> (tokenizer option \<Rightarrow> bytes list \<Rightarrow> result option list option) \<Rightarrow> nat \<Rightarrow> tokenizer option \<Rightarrow> nat
       \<Rightarrow> pyobj \<Rightarrow> pyobj \<Rightarrow> (exn + pyobj) option" where
  "PyTokenizer_encode_batch_parallel py run nthreads self elapsed arg opts =
     on_ok (parse_list arg) (\<lambda>items. on_ok (text_loop py items []) (\<lambda>texts. do {
       outs \<leftarrow> run self texts;
       let all_toks = map slot_tokens outs;
       Some (Inr (PyTuple [batch_result_list all_toks, PyLong (int (sum_list (map length all_toks))), PyFloat elapsed,
                           PyLong (int nthreads)]))
     }))"

definition decode_one :: "cpython \<Rightarrow> tokenizer option \<Rightarrow> nat list \<Rightarrow> pyobj option" where
  "decode_one py self toks = do {
     tok \<leftarrow> self;
     r \<leftarrow> bpe_decode_tokens (tok_bpe tok) toks;
     case r of
       None \<Rightarrow> Some PyNone
     | Some (buf, out_len) \<Rightarrow> do {
         b \<leftarrow> filled buf out_len;
         Some (case decode_utf8 py b of None \<Rightarrow> PyNone | Some cs \<Rightarrow> PyUnicode cs)
       }
   }"

definition PyTokenizer_decode :: "cpython \<Rightarrow> tokenizer option \<Rightarrow> pyobj \<Rightarrow> (exn + pyobj) option" where
  "PyTokenizer_decode py self arg =
     on_ok (parse_list arg) (\<lambda>_. on_ok (pylist_to_tokens py arg) (\<lambda>toks.
       map_option Inr (decode_one py self toks)))"

fun decode_loop :: "cpython \<Rightarrow> tokenizer option \<Rightarrow> pyobj list \<Rightarrow> pyobj list \<Rightarrow> (exn + pyobj) option" where
  "decode_loop py self [] results = Some (Inr (PyList results))"
| "decode_loop py self (sub # subs) results =
     on_ok (pylist_to_tokens py sub) (\<lambda>toks. do {
       s \<leftarrow> decode_one py self toks;
       decode_loop py self subs (results @ [s])
     })"

definition PyTokenizer_decode_batch :: "cpython \<Rightarrow> tokenizer option \<Rightarrow> pyobj \<Rightarrow> (exn + pyobj) option" where
  "PyTokenizer_decode_batch py self arg = on_ok (parse_list arg) (\<lambda>subs. decode_loop py self subs [])"

definition PyTokenizer_decode_batch_parallel :: "cpython \<Rightarrow> tokenizer option \<Rightarrow> pyobj \<Rightarrow> pyobj \<Rightarrow> (exn + pyobj) option" where
  "PyTokenizer_decode_batch_parallel py self arg opts =
     on_ok (parse_list arg) (\<lambda>_. PyTokenizer_decode_batch py self arg)"

definition PyTokenizer_bpe :: "tokenizer option \<Rightarrow> bpe option" where
  "PyTokenizer_bpe self = map_option tok_bpe self"

subsection \<open>Type ParallelOptions\<close>

record par_options =
  min_batch_size :: nat
  chunk_size :: nat
  max_threads :: nat

text \<open>The three arguments are optional; they are parsed into \<^verbatim>\<open>size_t\<close> fields.\<close>

definition parse_option :: "cpython \<Rightarrow> nat \<Rightarrow> pyobj option \<Rightarrow> exn + nat" where
  "parse_option py dflt arg = (case arg of None \<Rightarrow> Inr dflt
     | Some o1 \<Rightarrow> (case parse_ssize py o1 of Inl e \<Rightarrow> Inl e | Inr n \<Rightarrow> Inr (nat (n mod 2 ^ 64))))"

definition PyParOpts_init :: "cpython \<Rightarrow> pyobj option \<Rightarrow> pyobj option \<Rightarrow> pyobj option \<Rightarrow> (exn + par_options) option" where
  "PyParOpts_init py mbs cs mt =
     on_ok (parse_option py 20 mbs) (\<lambda>m. on_ok (parse_option py 100 cs) (\<lambda>c. on_ok (parse_option py 0 mt) (\<lambda>t.
       Some (Inr \<lparr>min_batch_size = m, chunk_size = c, max_threads = t\<rparr>))))"

definition PyParOpts_get_mbs :: "par_options \<Rightarrow> pyobj" where
  "PyParOpts_get_mbs s = PyLong (int (min_batch_size s))"

definition PyParOpts_get_cs :: "par_options \<Rightarrow> pyobj" where
  "PyParOpts_get_cs s = PyLong (int (chunk_size s))"

definition PyParOpts_get_mt :: "par_options \<Rightarrow> pyobj" where
  "PyParOpts_get_mt s = PyLong (int (max_threads s))"


subsection \<open>Lists of tokens\<close>

text \<open>What the documentation of the C API says of strings of Unicode scalar values and of integers that fit
  a \<^verbatim>\<open>long\<close>.\<close>

definition py_documented :: "cpython \<Rightarrow> bool" where
  "py_documented py \<longleftrightarrow>
     (\<forall>cs. (\<forall>c \<in> set cs. scalar c) \<longrightarrow> parse_text py (PyUnicode cs) = Inr (utf8 cs) \<and>
        as_utf8 py (PyUnicode cs) = Inr (utf8 cs) \<and> decode_utf8 py (utf8 cs) = Some cs) \<and>
     (\<forall>i. 0 \<le> i \<and> i < 2 ^ 63 \<longrightarrow> as_long py (PyLong i) = Inr i)"

lemma on_ok_simps [simp]: "on_ok (Inl e) f = Some (Inl e)" "on_ok (Inr x) f = f x"
  by (simp_all add: on_ok_def)

lemma parse_list_simps [simp]: "parse_list (PyList items) = Inr items"
  by (simp add: parse_list_def)

lemma token_loop_ok:
  assumes "py_documented py"
  shows "\<forall>t \<in> set ts. t < 2 ^ 32 \<Longrightarrow> token_loop py (map (\<lambda>t. PyLong (int t)) ts) arr = Inr (arr @ ts)"
proof (induction ts arbitrary: arr)
  case (Cons t ts)
  then have "t < 2 ^ 32" by simp
  then have "as_long py (PyLong (int t)) = Inr (int t)" and "int t mod 2 ^ 32 = int t"
    using assms by (auto simp: py_documented_def)
  then show ?case using Cons by simp
qed simp

lemma pylist_roundtrip:
  "py_documented py \<Longrightarrow> \<forall>t \<in> set ts. t < 2 ^ 32 \<Longrightarrow> pylist_to_tokens py (tokens_to_pylist ts) = Inr ts"
  using token_loop_ok [of py ts "[]"] by (simp add: pylist_to_tokens_def tokens_to_pylist_def)

text \<open>Larger integers are not refused: they stand for the token of their last 32 bits.\<close>

lemma pylist_truncates:
  assumes "py_documented py" and "t < 2 ^ 32" and "k < 2 ^ 31"
  shows "pylist_to_tokens py (PyList [PyLong (int (t + k * 2 ^ 32))]) = Inr [t]"
proof -
  have "t + k * 2 ^ 32 < 2 ^ 63" using assms(2,3) by simp
  then have "int (t + k * 2 ^ 32) < 2 ^ 63" by (metis of_nat_less_iff of_nat_numeral of_nat_power)
  then have "as_long py (PyLong (int (t + k * 2 ^ 32))) = Inr (int (t + k * 2 ^ 32))"
    using assms(1) by (simp add: py_documented_def)
  moreover have "int (t + k * 2 ^ 32) mod 2 ^ 32 = int t" using assms(2) by simp
  ultimately show ?thesis by (simp add: pylist_to_tokens_def)
qed

subsection \<open>Singletons\<close>

definition header :: "bytes list \<Rightarrow> u64 \<Rightarrow> dict_header" where
  "header D hf = \<lparr>all_tokens_h = concat D, token_starts_h = starts D, num_tokens_h = length D, hash_factor_h = hf\<rparr>"

lemma build_from_header:
  assumes "built bpe D hf"
  shows "build_tokenizer (header D hf) None pre = Some (tokenizer_new_native bpe (Some pre))"
  using assms by (simp add: build_tokenizer_def header_def built_def)

text \<open>A blob of the generator gives the same tokenizer.\<close>

lemma build_from_blob:
  assumes "built bpe D hf" and "blob_fits bpe" and "gen_precomputed (concat D) (starts D) (length D) hf = Some blob"
  shows "build_tokenizer (header D hf) (Some (blob @ r)) pre = build_tokenizer (header D hf) None pre"
proof -
  have d: "dict_ok bpe D" by (rule bpe_okD(2) [OF built_ok [OF assms(1)]])
  have "serialize_bpe bpe (num_tokens bpe) = Some blob"
    using assms(1,3) d by (simp add: gen_precomputed_def built_def dict_ok_def)
  then have "bpe_from_blob (concat D) (starts D) (blob @ r) = Some bpe"
    using blob_roundtrip [OF assms(2)] d by (auto simp: dict_ok_def)
  then show ?thesis using build_from_header [OF assms(1)] by (simp add: build_tokenizer_def header_def)
qed

lemma base_cached:
  "py_cl100k_base T d blob g = Some (tok, g') \<Longrightarrow> g_cl100k g' = Some tok"
  "py_o200k_base T d blob g = Some (tok, g') \<Longrightarrow> g_o200k g' = Some tok"
  by (auto simp: py_cl100k_base_def py_o200k_base_def split: option.splits Option.bind_splits)

subsection \<open>Methods\<close>

lemma encode_loop_ok:
  "sequential_batch WORK_ENCODE tok limit texts = Some rs \<Longrightarrow>
     \<exists>tss. rs = map Tokens tss \<and> encode_loop (Some tok) texts all_toks = Some (all_toks @ tss)"
proof (induction texts arbitrary: rs all_toks)
  case (Cons t texts)
  then obtain ts rs' where r: "tokenizer_encode tok t = Some ts" "sequential_batch WORK_ENCODE tok limit texts = Some rs'"
    "rs = Tokens ts # rs'"
    by (auto simp: run_text_def split: Option.bind_splits)
  from Cons.IH [OF r(2), of "all_toks @ [ts]"] obtain tss where "rs' = map Tokens tss"
    "encode_loop (Some tok) texts (all_toks @ [ts]) = Some (all_toks @ [ts] @ tss)" by auto
  then show ?case using r by (intro exI [of _ "ts # tss"]) simp
qed simp

lemma slot_tokens_Tokens [simp]: "slot_tokens (Some (Tokens ts)) = ts"
  by (simp add: slot_tokens_def)

lemma batches_agree:
  assumes "text_loop py items [] = Inr texts" and "sequential_batch WORK_ENCODE tok 0 texts = Some rs"
    and "run (Some tok) texts = Some (map Some rs)"
  shows "\<exists>lists total. PyTokenizer_encode_batch py (Some tok) e (PyList items) =
      Some (Inr (PyTuple [PyList lists, total, PyFloat e])) \<and>
    PyTokenizer_encode_batch_parallel py run nthreads (Some tok) e (PyList items) opts =
      Some (Inr (PyTuple [PyList lists, total, PyFloat e, PyLong (int nthreads)]))"
proof -
  obtain tss where t: "rs = map Tokens tss" "encode_loop (Some tok) texts [] = Some tss"
    using encode_loop_ok [OF assms(2), of "[]"] by auto
  show ?thesis
    using assms(1,3) t
    by (simp add: comp_def PyTokenizer_encode_batch_def PyTokenizer_encode_batch_parallel_def batch_result_list_def Let_def)
qed

lemma piece_ids_less: "covers D (utf8 (concat ps)) \<Longrightarrow> \<forall>i \<in> set (piece_ids D ps). i < length D"
proof (induction ps)
  case (Cons p ps)
  have "covers D (utf8 p)" and "covers D (utf8 (concat ps))" using Cons.prems by (auto simp: covers_def)
  then show ?case using Cons.IH bpe_ids_less by auto
qed simp


context pretokenizer
begin

lemma method_roundtrip:
  assumes "built bpe D hf" and "ucd_ok T" and "\<forall>c \<in> set cs. scalar c" and "covers D (utf8 cs)" and "py_documented py"
  shows "\<exists>lst. PyTokenizer_encode py (Some (tokenizer_new_native bpe (Some (pre T)))) (PyUnicode cs) = Some (Inr (PyList lst)) \<and>
    PyTokenizer_decode py (Some (tokenizer_new_native bpe (Some (pre T)))) (PyList lst) = Some (Inr (PyUnicode cs)) \<and>
    PyTokenizer_count py (Some (tokenizer_new_native bpe (Some (pre T)))) (PyUnicode cs) = Some (Inr (PyLong (int (length lst))))"
proof -
  let ?tok = "tokenizer_new_native bpe (Some (pre T))"
  have ok: "bpe_ok bpe D" by (rule built_ok [OF assms(1)])
  obtain ps where ps: "splits (code T) cs ps" using pieces_exist [OF assms(2)] by blast
  have cs: "concat ps = cs" by (rule splits_concat [OF ps])
  have "length D \<le> 2 ^ 29" using assms(1) by (simp add: built_def dict_wf_def)
  then have small: "\<forall>t \<in> set (piece_ids D ps). t < 2 ^ 32"
    using piece_ids_less [of D ps] assms(4) cs by fastforce
  have p: "parse_text py (PyUnicode cs) = Inr (utf8 cs)" "decode_utf8 py (utf8 cs) = Some cs"
    using assms(3,5) by (auto simp: py_documented_def)
  have "PyTokenizer_encode py (Some ?tok) (PyUnicode cs) = Some (Inr (tokens_to_pylist (piece_ids D ps)))"
    using encode_ok [OF ok assms(2-4) ps] p(1) by (simp add: PyTokenizer_encode_def)
  moreover have "PyTokenizer_decode py (Some ?tok) (tokens_to_pylist (piece_ids D ps)) = Some (Inr (PyUnicode cs))"
    using pylist_roundtrip [OF assms(5) small] decode_piece_ids [OF bpe_okD(2) [OF ok], of ps] assms(4) cs p(2)
    by (simp add: PyTokenizer_decode_def decode_one_def tokenizer_new_native_def parse_list_def tokens_to_pylist_def
        filled_map_Some [of "utf8 cs" "[Some 0]", simplified])
  moreover have "PyTokenizer_count py (Some ?tok) (PyUnicode cs) = Some (Inr (PyLong (int (length (piece_ids D ps)))))"
    using count_all_ok [OF ok assms(2-4) ps] p(1) by (simp add: PyTokenizer_count_def)
  ultimately show ?thesis unfolding tokens_to_pylist_def by (intro exI [of _ "map (\<lambda>t. PyLong (int t)) (piece_ids D ps)"]) simp
qed

end

subsection \<open>An interpreter\<close>

function decode_all :: "bytes \<Rightarrow> u32 list" where
  "decode_all s = (case utf8_decode s of None \<Rightarrow> [] | Some (cp, n) \<Rightarrow> cp # decode_all (drop n s))"
  by pat_completeness auto
termination
  by (relation "measure length") (auto dest: utf8_decode_len)

declare decode_all.simps [simp del]

lemma decode_all_utf8: "\<forall>c \<in> set cs. scalar c \<Longrightarrow> decode_all (utf8 cs) = cs"
proof (induction cs)
  case (Cons c cs)
  then show ?case by (subst decode_all.simps) (simp add: utf8_decode_utf8)
qed (simp add: decode_all.simps)

definition utf8_of :: "pyobj \<Rightarrow> exn + bytes" where
  "utf8_of x = (case x of PyUnicode cs \<Rightarrow> (if \<forall>c \<in> set cs. scalar c then Inr (utf8 cs) else Inl UnicodeEncodeError)
     | _ \<Rightarrow> Inl TypeError)"

definition long_of :: "pyobj \<Rightarrow> exn + int" where
  "long_of x = (case x of PyLong i \<Rightarrow> (if - (2 ^ 63) \<le> i \<and> i < 2 ^ 63 then Inr i else Inl OverflowError) | _ \<Rightarrow> Inl TypeError)"

definition buffer_of :: "pyobj \<Rightarrow> exn + bytes" where
  "buffer_of x = (case x of PyBytes b \<Rightarrow> Inr b | _ \<Rightarrow> Inl TypeError)"

definition demo_py :: cpython where
  "demo_py = \<lparr>parse_text = (\<lambda>x. case x of PyBytes b \<Rightarrow> Inr b | _ \<Rightarrow> utf8_of x), parse_buffer = buffer_of,
     parse_ssize = long_of, as_utf8 = utf8_of, as_long = long_of,
     decode_utf8 = (\<lambda>b. let cs = decode_all b in if utf8 cs = b \<and> (\<forall>c \<in> set cs. scalar c) then Some cs else None)\<rparr>"

lemma demo_py_documented: "py_documented demo_py"
  by (simp add: py_documented_def demo_py_def utf8_of_def long_of_def decode_all_utf8)

end
