(* ===== verification/Spec2Isabelle.thy ===== *)
theory Spec2Isabelle
  imports Bpe_Examples Pretok_Examples Bpe_Minimal Bpe_Incremental Bpe_Interval Bpe_Blob Threadpool_Run Lru_Ops Ac_Old_Run Pymodule
begin

text \<open>
  A model of c-bpe, a byte pair encoding tokenizer in C, and what makes it correct.

  The program. A dictionary lists tokens by rank. \<^verbatim>\<open>bpe_from_dictionary\<close> (\<^verbatim>\<open>src/bpe_core.c\<close>) builds an
  object \<^verbatim>\<open>BytePairEncoding\<close> from it: a hash map from token bytes to ids, three double-array
  Aho-Corasick automata (\<^verbatim>\<open>src/ac_bpe.c\<close>), the next shorter prefix of each token, and the split
  tables and pair map that record how each token is merged. \<^verbatim>\<open>bpe_is_valid_token_pair\<close> reads
  these tables to decide whether two tokens may stand side by side; every exact encoder rests on it.
  \<^verbatim>\<open>src/tokenizer.c\<close> splits a text with a hand-coded pretokenizer and encodes the pieces;
  \<^verbatim>\<open>src/parallel.c\<close> and \<^verbatim>\<open>src/threadpool.c\<close> do so for many texts at once, and \<^verbatim>\<open>src/pymodule.c\<close>
  offers all of it to Python.

  Theories and sources.
  \<^item> Bpe_Prelude: array reads and writes (out of range is \<open>None\<close>), slices, adjacent pairs.
  \<^item> Bpe_Reference, Bpe_Merges: byte pair encoding itself, rank by rank, independent of the code
    (\<open>bpe_ids D t\<close>), well-formed dictionaries, and the theory of merges across a seam.
  \<^item> Hash_Tables: \<^verbatim>\<open>include/fnv_hash.h\<close>. One locale for linear probing, two interpretations.
  \<^item> Bitfield: \<^verbatim>\<open>include/bitfield.h\<close>.
  \<^item> Forgetful_Cache: the contract of a cache that may forget (a locale); Lru_Cache, Lru_Table, Lru_Ops:
    \<^verbatim>\<open>include/lru_cache.h\<close> over an explicit store of nodes, for both kinds of values.
  \<^item> Ac_Automaton: the run time of the automaton (\<^verbatim>\<open>ac_step\<close>, the leftmost-longest search, the
    iterator). Ac_Builder, Ac_Bfs, Ac_Pack: trie, breadth-first search and packing. Ac_Old, Ac_Old_Bfs,
    Ac_Old_Run: the automaton that \<^verbatim>\<open>src/ac_bpe_old.c\<close> keeps from before (it is not built), and its
    simulation by the present one; one locale for the iterators of both.
  \<^item> Bpe_Model: the object, token lookup, \<^verbatim>\<open>bpe_is_valid_token_pair\<close>; Bpe_Build:
    \<^verbatim>\<open>bpe_from_dictionary\<close>. Bpe_Blob: \<^verbatim>\<open>bpe_from_blob\<close> and \<^verbatim>\<open>codegen/gen_precomputed.c\<close>.
  \<^item> Bpe_Encode: decoding, table and greedy encoders; Bpe_Minimal: \<^verbatim>\<open>bpe_encode_minimal\<close>;
    Bpe_Heap: the priority-queue encoder and the self check; Bpe_Backtrack: the backtracking encoder,
    counts and the scratch API; Bpe_Incremental: \<^verbatim>\<open>src/appendable_encoder.c\<close> and
    \<^verbatim>\<open>src/prependable_encoder.c\<close>, one locale with two interpretations.
  \<^item> Parent_Tree: trees given by parents, numbered so that a subtree is an interval (a locale);
    Bpe_Interval: \<^verbatim>\<open>src/interval_encoding.c\<close>.
  \<^item> Utf8, Pretok: \<^verbatim>\<open>include/pretok.h\<close>, \<^verbatim>\<open>include/pretok_ucd.h\<close>; Pretok_Cl100k, Pretok_O200k:
    \<^verbatim>\<open>src/pretok_cl100k.c\<close>, \<^verbatim>\<open>src/pretok_o200k.c\<close>; Pretok_Regex: the documented patterns under
    backtracking semantics. Tokenizer: \<^verbatim>\<open>src/tokenizer.c\<close>.
  \<^item> Work_Queue: the ring buffer of \<^verbatim>\<open>src/threadpool.c\<close> and its contract as a bounded queue;
    Threadpool: workers, callers and the destruction of the pool as step relations, and the batch
    functions of \<^verbatim>\<open>src/threadpool.c\<close> and \<^verbatim>\<open>src/parallel.c\<close>; Threadpool_Inv: the invariant of the pool;
    Threadpool_Run: no deadlock, termination, results.
  \<^item> Pymodule: the methods of \<^verbatim>\<open>src/pymodule.c\<close> over Python values.
  \<^item> Bpe_Examples, Pretok_Examples: concrete dictionaries and tables for the witnesses.

  Conventions. A function that can leave an array or fail to return has an option result, and
  \<open>None\<close> stands for both; a loop without a structural measure is a \<open>partial_function\<close>, so that
  \<open>= Some ...\<close> says that it terminates within its arrays. Token ids, sizes and indices are natural
  numbers; where the code's width matters the wrap-around is written out (\<open>add32\<close>, \<open>sub32\<close>, \<open>usub\<close>,
  \<open>mod 2 ^ 64\<close>), and hashes, bit sets and code points are words. Arrays from \<^verbatim>\<open>malloc\<close>
  that are read before they are written hold \<open>None\<close>, and a function that returns such an array with a
  count returns its first \<open>count\<close> entries (\<open>filled\<close>: \<open>None\<close> when one of them is not written), or both.
  Allocation is taken to succeed. The \<^verbatim>\<open>int32_t\<close> capacities and offsets of the tries and automata are
  checked where they grow (\<open>tb_new_node\<close>, \<open>bfs_output\<close>, \<open>grow_cap32\<close>, \<open>da_find_base\<close>, \<open>dat_grow\<close>,
  \<open>dat_ensure\<close>): an overflow, undefined in C, has no result. A trie has at most one node more than the
  tokens have bytes, and after \<open>k\<close> nodes the packing has used no slot beyond \<open>256 * k\<close>, so that with
  at most 4,100,000 nodes, which is more than 4,000,000 bytes give, no capacity reaches \<open>2 ^ 31\<close>
  (the vocabularies of the program have below two million bytes).

  A critical section of the pool is one step of one thread, and a step may also be a spurious wake-up;
  the interleaving is arbitrary. In the pool \<open>None\<close> as the result of a step is undefined behaviour, or
  the execution of an item that has no result.
  CPython is an argument, a record of the conversions the module calls.

  What is shown. C1: construction yields an object that satisfies \<open>bpe_ok\<close>. C2 to C13: each encoder,
  decoder and counter computes its reference over that object, or fails to in the stated way. C14 to C21:
  the automata, the hash tables, the bit field, the cache and the heap. C22 to C31: the pretokenizers equal
  their documented patterns outside stated cases (the apostrophe U+2019, the long s U+017F after an
  apostrophe, white space with two runs of newlines; for the one the test for a single white space, for the
  other marks at the start and runs of capitals), and the tokenizer's loops terminate on UTF-8 text and not
  on some other bytes. C32 to C35: the minimal and the incremental encoders, the interval encoding and the
  precomputed object. C36 to C38: the pool gives the results of the sequential loop, its threads
  run to the end, and one use of a tracker after its lifetime is the only undefined behaviour outside the
  encoding of a text. C39, C40: the
  round trip from Python, and the parallel batch against the sequential one.

  Assumptions. \<open>dict_wf D hf\<close>: the dictionary is well formed (each token of two or more bytes is merged
  from two earlier ones in its own rank), not empty, has at most \<open>2 ^ 29\<close> tokens and less than 4 GiB of
  bytes, and its tokens have distinct hashes under the factor; the dictionaries are generated data.
  \<open>dict_input D hf\<close>: besides, it has at most 4,000,000 bytes, so that construction returns.
  \<open>built bpe D hf\<close>: the object was built from such a dictionary, of whatever size.
  \<open>covers D t\<close>: every byte of the text is a token. \<open>ucd_ok T\<close>: the tables of PCRE2, which are
  an argument, answer for every code point up to 10FFFF.

  Not modelled: the release of memory; the deallocators, type tables, registration and clock of
  \<^verbatim>\<open>src/pymodule.c\<close>; the C11 thread shim; PCRE2; and the tests. (No source file includes \<^verbatim>\<open>include/lru_cache.h\<close>.)
\<close>

section \<open>Construction\<close>

text \<open>C1: From a well-formed dictionary with distinct token hashes and at most 4,000,000 bytes,
  \<^verbatim>\<open>bpe_from_dictionary\<close> returns an object: no array is left, no loop runs forever, and no \<^verbatim>\<open>int32_t\<close>
  capacity or offset of the tries and automata overflows. From such a dictionary of any size the object
  it returns, if it does not overflow, has every table right: the
  hash map finds every token, the three automata recognise the tokens, each token knows its next
  shorter prefix, and the split tables and the pair map hold the merge that forms each token.\<close>

theorem construction_correct:
  assumes "dict_wf D hf"
  shows "(length (concat D) \<le> 4000000 \<longrightarrow>
      (\<exists>bpe. bpe_from_dictionary (concat D) (starts D) (length D) hf = Some bpe)) \<and>
    (\<forall>bpe. bpe_from_dictionary (concat D) (starts D) (length D) hf = Some bpe \<longrightarrow> bpe_ok bpe D)"
  using from_dictionary_ok [OF assms] by auto

theorem construction_correct_witness:
  "\<exists>bpe. bpe_from_dictionary (concat ab_dict) (starts ab_dict) (length ab_dict) 1 = Some bpe \<and> bpe_ok bpe ab_dict"
proof -
  have w: "dict_wf ab_dict 1" and s: "length (concat ab_dict) \<le> 4000000"
    using ab_input by (simp_all add: dict_input_def)
  show ?thesis using construction_correct [OF w] s by blast
qed

section \<open>Encoders\<close>

text \<open>C2: \<^verbatim>\<open>bpe_encode_via_backtracking\<close> terminates on every text over the dictionary's
  bytes and returns the byte pair encoding of the text, and \<^verbatim>\<open>bpe_count\<close> returns the number of its
  tokens.\<close>

theorem backtracking_exact:
  assumes "built bpe D hf" and "covers D t"
  shows "bpe_encode_via_backtracking bpe t = Some (bpe_ids D t) \<and> bpe_count bpe t = Some (length (bpe_ids D t))"
  using encode_via_backtracking_ok [OF built_ok [OF assms(1)] assms(2)] count_ok [OF built_ok [OF assms(1)] assms(2)]
  by simp

theorem backtracking_exact_witness:
  "\<exists>bpe. bpe_encode_via_backtracking bpe [97, 98, 97, 98, 97] = Some [2, 3] \<and> bpe_count bpe [97, 98, 97, 98, 97] = Some 2"
proof -
  obtain bpe where "built bpe ab_dict 1" by (rule ab_built)
  from backtracking_exact [OF this ab_covers(1)] show ?thesis by (auto simp: eval_nat_numeral)
qed

text \<open>C3: \<^verbatim>\<open>bpe_encode_via_table\<close> returns the byte pair encoding of every nonempty text.\<close>

theorem table_exact:
  assumes "built bpe D hf" and "covers D t" and "t \<noteq> []"
  shows "bpe_encode_via_table bpe t = Some (bpe_ids D t)"
  by (rule encode_via_table_ok [OF built_ok [OF assms(1)] assms(2,3)])

theorem table_exact_witness: "\<exists>bpe. bpe_encode_via_table bpe [97, 98, 97, 98, 97] = Some [2, 3]"
proof -
  obtain bpe where "built bpe ab_dict 1" by (rule ab_built)
  from table_exact [OF this ab_covers(1)] show ?thesis by auto
qed

text \<open>C4: \<^verbatim>\<open>bpe_is_valid_token_pair\<close> terminates on every two tokens and decides whether the
  two of them, put next to each other, encode to just these two tokens.\<close>

theorem valid_pair_correct:
  assumes "built bpe D hf" and "i < length D" and "j < length D"
  shows "bpe_is_valid_token_pair bpe i j = Some (bpe_ids D (D ! i @ D ! j) = [i, j])"
  using bpe_valid_pair [OF built_ok [OF assms(1)] assms(2,3)]
    bpe_ids_iff [OF bpe_okD(1) [OF built_ok [OF assms(1)]], of "[i, j]"] assms(2,3)
  by simp

theorem valid_pair_correct_witness:
  "\<exists>bpe. bpe_is_valid_token_pair bpe 0 1 = Some False \<and> bpe_is_valid_token_pair bpe 2 3 = Some True"
proof -
  obtain bpe where b: "built bpe ab_dict 1" by (rule ab_built)
  have "bpe_ids ab_dict (ab_dict ! 0 @ ab_dict ! 1) = [2]" "bpe_ids ab_dict (ab_dict ! 2 @ ab_dict ! 3) = [2, 3]"
    by (simp_all add: ab_dict_def bpe_ids_def bpe_encode_def numeral_2_eq_2 numeral_3_eq_3)
  then show ?thesis using valid_pair_correct [OF b, of 0 1] valid_pair_correct [OF b, of 2 3] by auto
qed

text \<open>C5: \<^verbatim>\<open>bpe_encode_all_prefixes\<close> returns for every position the last token of the
  encoding of the prefix that ends there.\<close>

theorem all_prefixes_correct:
  assumes "built bpe D hf" and "covers D t"
  shows "bpe_encode_all_prefixes bpe t =
    Some (map (\<lambda>j. Some (last (bpe_ids D (take (Suc j) t)))) [0..<length t])"
  by (rule encode_all_prefixes_ok [OF built_ok [OF assms(1)] assms(2)])

theorem all_prefixes_correct_witness:
  "\<exists>bpe r. bpe_encode_all_prefixes bpe [97, 98, 97, 98, 97] = Some r \<and> r ! 4 = Some 3"
proof -
  obtain bpe where b: "built bpe ab_dict 1" by (rule ab_built)
  show ?thesis
    by (rule exI [of _ bpe], rule exI, rule conjI, rule all_prefixes_correct [OF b ab_covers(1)])
      (simp add: eval_nat_numeral)
qed

text \<open>C6: Decoding: \<^verbatim>\<open>bpe_decode_tokens\<close> returns a buffer with the concatenated bytes of the tokens
  and a terminating zero, every byte of it written, together with the number of the bytes before the
  zero; or its error value when some id is not below \<^verbatim>\<open>num_tokens\<close>; no access is out of range.\<close>

theorem decode_correct:
  assumes "built bpe D hf"
  shows "bpe_decode_tokens bpe ts =
    Some (if \<forall>i \<in> set ts. i < length D
          then Some (map Some (concat (map (\<lambda>i. D ! i) ts)) @ [Some 0], length (concat (map (\<lambda>i. D ! i) ts)))
          else None)"
  by (rule decode_tokens_ok [OF bpe_okD(2) [OF built_ok [OF assms]]])

theorem decode_correct_witness:
  "\<exists>bpe. bpe_decode_tokens bpe [2, 0] = Some (Some ([Some 97, Some 98, Some 97, Some 0], 3)) \<and>
     bpe_decode_tokens bpe [2, 9] = Some None"
proof -
  obtain bpe where b: "built bpe ab_dict 1" by (rule ab_built)
  show ?thesis using decode_correct [OF b, of "[2, 0]"] decode_correct [OF b, of "[2, 9]"]
    by (auto simp: ab_dict_def numeral_3_eq_3)
qed

text \<open>C7: Round trip: decoding what \<^verbatim>\<open>bpe_encode_via_backtracking\<close> returns gives the text back, with
  its length.\<close>

theorem encode_decode_roundtrip:
  assumes "built bpe D hf" and "covers D t"
  shows "\<exists>ts. bpe_encode_via_backtracking bpe t = Some ts \<and> bpe_decode_tokens bpe ts = Some (Some (map Some t @ [Some 0], length t))"
  using encode_via_backtracking_ok [OF built_ok [OF assms(1)] assms(2)]
    decode_bpe_ids [OF bpe_okD(2) [OF built_ok [OF assms(1)]] assms(2)]
  by simp

theorem encode_decode_roundtrip_witness:
  "\<exists>bpe ts. bpe_encode_via_backtracking bpe [97, 98, 97, 98, 97] = Some ts \<and>
     bpe_decode_tokens bpe ts = Some (Some ([Some 97, Some 98, Some 97, Some 98, Some 97, Some 0], 5))"
proof -
  obtain bpe where "built bpe ab_dict 1" by (rule ab_built)
  from encode_decode_roundtrip [OF this ab_covers(1)] show ?thesis by (auto simp: eval_nat_numeral)
qed

text \<open>C8: \<^verbatim>\<open>bpe_count_till_limit\<close> with a limit for which neither the slack nor the size of
  the token array wraps around: a count above the limit is always reported as such, whether the loop
  stops early or not, and a count within the limit is returned, when no prefix of the text takes
  more than ten tokens above the limit.\<close>

theorem count_till_limit_correct:
  assumes "built bpe D hf" and "covers D t" and "limit + 16 < 2 ^ 62"
  shows "(limit < length (bpe_ids D t) \<longrightarrow> bpe_count_till_limit bpe t limit = Some SIZE_MAX) \<and>
    (length (bpe_ids D t) \<le> limit \<longrightarrow> (\<forall>p \<le> length t. length (bpe_ids D (take p t)) \<le> limit + 10) \<longrightarrow>
       bpe_count_till_limit bpe t limit = Some (length (bpe_ids D t)))"
proof -
  have m: "(limit + 10) mod 2 ^ 64 = limit + 10" using assms(3) by simp
  show ?thesis
    using count_till_limit_cases [OF built_ok [OF assms(1)] assms(2), of limit] unfolding m
    by (auto simp: not_le [symmetric])
qed

text \<open>With the limit 0 the loop over twelve tokens stops early.\<close>

theorem count_till_limit_correct_witness:
  "\<exists>bpe. bpe_count_till_limit bpe [97, 98, 97, 98, 97] 2 = Some 2 \<and>
     bpe_count_till_limit bpe [97, 98, 97, 98, 97] 1 = Some SIZE_MAX \<and>
     bpe_count_till_limit bpe (replicate 12 98) 0 = Some SIZE_MAX"
proof -
  obtain bpe where b: "built bpe ab_dict 1" by (rule ab_built)
  have len: "\<forall>p \<le> length [97, 98, 97, 98, 97 :: byte]. length (bpe_ids ab_dict (take p [97, 98, 97, 98, 97])) \<le> 2 + 10"
  proof (intro allI impI)
    show "length (bpe_ids ab_dict (take p [97, 98, 97, 98, 97])) \<le> 2 + 10" for p
      using length_bpe_ids [of ab_dict "take p [97, 98, 97, 98, 97]"] by simp
  qed
  have n: "length (bpe_ids ab_dict [97, 98, 97, 98, 97]) = 2" by (simp only: ab_ids) simp
  have c: "covers ab_dict (replicate 12 98)" by (simp add: covers_def ab_dict_def)
  have "bpe_ids ab_dict (replicate 12 98) = replicate 12 1"
    by (simp add: ab_dict_def bpe_ids_def bpe_encode_def eval_nat_numeral)
  then have "0 < length (bpe_ids ab_dict (replicate 12 98))" by simp
  then have "bpe_count_till_limit bpe (replicate 12 98) 0 = Some SIZE_MAX"
    using count_till_limit_correct [OF b c, of 0] by simp
  moreover have "bpe_count_till_limit bpe [97, 98, 97, 98, 97] 2 = Some 2"
    using count_till_limit_correct [OF b ab_covers(1), of 2] len n by simp
  moreover have "bpe_count_till_limit bpe [97, 98, 97, 98, 97] 1 = Some SIZE_MAX"
    using count_till_limit_correct [OF b ab_covers(1), of 1] n by simp
  ultimately show ?thesis by blast
qed

text \<open>C9: With a limit within ten of \<^verbatim>\<open>SIZE_MAX\<close> the slack \<^verbatim>\<open>token_limit + 10\<close> wraps around, and
  \<^verbatim>\<open>bpe_count_till_limit\<close> reports a text of more than ten tokens as over the limit although
  its count is far below it.\<close>

theorem count_till_limit_wraps:
  assumes "built bpe D hf" and "covers D t" and "2 ^ 64 - 10 \<le> limit" and "limit < 2 ^ 64"
    and "10 < length (bpe_ids D t)"
  shows "bpe_count_till_limit bpe t limit = Some SIZE_MAX"
proof -
  have "(limit + 10) mod 2 ^ 64 = limit + 10 - 2 ^ 64"
    using assms(3,4) by (simp add: mod_if)
  then have "Suc ((limit + 10) mod 2 ^ 64) < length (bpe_ids D t)" using assms(3-5) by simp
  then show ?thesis
    using count_till_limit_cases [OF built_ok [OF assms(1)] assms(2), of limit] by auto
qed

theorem count_till_limit_wraps_witness:
  "\<exists>bpe. bpe_count_till_limit bpe (replicate 11 98) SIZE_MAX = Some SIZE_MAX"
proof -
  obtain bpe where b: "built bpe ab_dict 1" by (rule ab_built)
  have "covers ab_dict (replicate 11 98)" by (simp add: covers_def ab_dict_def)
  moreover have "bpe_ids ab_dict (replicate 11 98) = replicate 11 1"
    by (simp add: ab_dict_def bpe_ids_def bpe_encode_def eval_nat_numeral)
  ultimately show ?thesis
    using count_till_limit_wraps [OF b, of "replicate 11 98" SIZE_MAX] by (auto simp: SIZE_MAX_def)
qed

text \<open>C10: \<^verbatim>\<open>bpe_encode_piece\<close> returns the encoding whatever the scratch buffers hold from
  earlier calls, and the scratch then holds the returned tokens; \<^verbatim>\<open>bpe_count_piece\<close> returns their
  number.\<close>

theorem pieces_any_scratch:
  assumes "built bpe D hf" and "covers D t"
  shows "(\<exists>s'. bpe_encode_piece bpe t s = Some (bpe_ids D t, s') \<and> sc_tokens s' = bpe_ids D t) \<and>
    (\<exists>s'. bpe_count_piece bpe t s = Some (length (bpe_ids D t), s'))"
  using encode_piece_ok [OF built_ok [OF assms(1)] assms(2)] count_piece_ok [OF built_ok [OF assms(1)] assms(2)] by blast

theorem pieces_any_scratch_witness:
  "\<exists>bpe s'. bpe_encode_piece bpe [97, 98, 97, 98, 97] bpe_scratch_new = Some ([2, 3], s')"
proof -
  obtain bpe where "built bpe ab_dict 1" by (rule ab_built)
  from pieces_any_scratch [OF this ab_covers(1), of bpe_scratch_new] show ?thesis by auto
qed

text \<open>C11: \<^verbatim>\<open>bpe_encode_via_bitfield\<close> terminates within its arrays on every text shorter than
  4 GiB; the number of tokens it reports is the size of the array it returns, every entry of which is
  written, and these tokens exist and spell the text.\<close>

theorem bitfield_encoder_spells:
  assumes "built bpe D hf" and "covers D t" and "length t < 2 ^ 32"
  shows "\<exists>ts. bpe_encode_via_bitfield bpe t = Some (map Some ts, length ts) \<and> (\<forall>i \<in> set ts. i < length D) \<and>
    concat (map (\<lambda>i. D ! i) ts) = t"
  by (rule encode_via_bitfield_ok [OF built_ok [OF assms(1)] assms(2,3)])

theorem bitfield_encoder_spells_witness:
  "\<exists>bpe ts. bpe_encode_via_bitfield bpe [97, 98, 97, 98, 97] = Some (map Some ts, length ts) \<and>
     concat (map (\<lambda>i. ab_dict ! i) ts) = [97, 98, 97, 98, 97]"
proof -
  obtain bpe where "built bpe ab_dict 1" by (rule ab_built)
  from bitfield_encoder_spells [OF this ab_covers(1)] show ?thesis by auto
qed

text \<open>C12: \<^verbatim>\<open>bpe_encode_via_bitfield\<close> is not exact: the heap orders candidates by token only,
  so that candidates of one token are not popped from left to right. With the tokens
  "a" and "aa", the text "aaaaa" becomes "aa", "a", "aa" instead of "aa", "aa", "a".\<close>

theorem bitfield_encoder_not_exact:
  "\<exists>bpe. built bpe tie_dict 1 \<and> bpe_encode_via_bitfield bpe tie_text = Some ([Some 1, Some 0, Some 1], 3) \<and>
     bpe_encode_via_backtracking bpe tie_text = Some [1, 1, 0]"
proof -
  obtain bpe where b: "built bpe tie_dict 1" using built_exists [OF tie_input] by blast
  then show ?thesis
    using tie_encode [OF built_ok] encode_via_backtracking_ok [OF built_ok tie_covers] tie_ids by auto
qed

text \<open>C13: \<^verbatim>\<open>bpe_encode_greedy\<close> returns the greedy segmentation of the text: at every
  position the longest token that starts there.\<close>

theorem greedy_correct:
  assumes "built bpe D hf" and "covers D t"
  shows "\<exists>ts. bpe_encode_greedy bpe t = Some ts \<and> greedy_of D t ts \<and> concat (map (\<lambda>i. D ! i) ts) = t"
  using encode_greedy_ok [OF built_ok [OF assms(1)] assms(2)] greedy_of_concat by fastforce

theorem greedy_correct_witness:
  "\<exists>bpe ts. bpe_encode_greedy bpe [97, 98, 97, 98, 97] = Some ts \<and> greedy_of ab_dict [97, 98, 97, 98, 97] ts"
proof -
  obtain bpe where "built bpe ab_dict 1" by (rule ab_built)
  from greedy_correct [OF this ab_covers(1)] show ?thesis by auto
qed

section \<open>Data structures\<close>

lemma one_token_trie:
  obtains nodes where "tb_insert [trie_node_new] [98] 0 = Some nodes" "trie_of nodes [[98]]" "length nodes \<le> 4100000"
proof -
  have "trie_of [trie_node_new] []" using trie_of_Nil by (simp add: ac_builder_new_def)
  from trie_of_insert [OF this, of "[98]"] that show thesis by (auto simp: UINT32_MAX_def)
qed

text \<open>C14: The leftmost-longest search of an automaton built from any list of tokens with a
  nonempty one finds an occurrence iff there is one, and of all occurrences the leftmost and, among
  these, the longest.\<close>

theorem leftmost_longest_correct:
  assumes "trie_of nodes D" and "length D \<le> UINT32_MAX" and "\<exists>w \<in> set D. w \<noteq> []"
    and "build_automaton_from_trie nodes kind = Some a"
  shows "ac_leftmost_longest a t = Some None \<and> occs D t = {} \<or>
    (\<exists>s e. ac_leftmost_longest a t = Some (Some (tok_id D (slice t s e), e)) \<and> (s, e) \<in> occs D t \<and>
       (\<forall>s' e'. (s', e') \<in> occs D t \<longrightarrow> s < s' \<or> s' = s \<and> e' \<le> e))"
  using ac_leftmost_longest_ok [OF build_automaton_some(1) [OF assms] assms(2)] by auto

theorem leftmost_longest_correct_witness:
  "\<exists>nodes a. tb_insert [trie_node_new] [98] 0 = Some nodes \<and>
     build_automaton_from_trie nodes AC_KIND_LEFTMOST_LONGEST = Some a \<and>
     (ac_leftmost_longest a [97, 98] = Some None \<and> occs [[98]] [97, 98] = {} \<or>
      (\<exists>s e. ac_leftmost_longest a [97, 98] = Some (Some (tok_id [[98 :: byte]] (slice [97, 98] s e), e)) \<and>
        (s, e) \<in> occs [[98]] [97, 98] \<and>
        (\<forall>s' e'. (s', e') \<in> occs [[98]] [97, 98] \<longrightarrow> s < s' \<or> s' = s \<and> e' \<le> e)))"
proof -
  obtain nodes where n: "tb_insert [trie_node_new] [98] 0 = Some nodes" "trie_of nodes [[98]]" "length nodes \<le> 4100000"
    by (rule one_token_trie)
  have l: "length [[98 :: byte]] \<le> UINT32_MAX" and w: "\<exists>w \<in> set [[98 :: byte]]. w \<noteq> []"
    by (simp_all add: UINT32_MAX_def)
  obtain a where a: "build_automaton_from_trie nodes AC_KIND_LEFTMOST_LONGEST = Some a"
    using build_automaton_small [OF n(2) l w n(3)] by blast
  show ?thesis using n(1) a leftmost_longest_correct [OF n(2) l w a, of "[97, 98]"] by blast
qed

text \<open>C15: A step of the iterator of a built automaton: after the text \<open>t\<close> and the byte \<open>b\<close> the
  matches pending are exactly the tokens that end there, longest first.\<close>

theorem iterator_correct:
  assumes "trie_of nodes D" and "length D \<le> UINT32_MAX" and "\<exists>w \<in> set D. w \<noteq> []"
    and "build_automaton_from_trie nodes kind = Some a" and "it_state it = ac_state a D t"
  shows "\<exists>it'. ac_iter_advance a it b e = Some it' \<and> it_state it' = ac_state a D (t @ [b]) \<and>
    pending a it' e (smatch D (t @ [b]))"
  using ac_iter_advance_ok [OF build_automaton_some(1) [OF assms(1-4)] assms(5)] by auto

theorem iterator_correct_witness:
  "\<exists>nodes a it'. build_automaton_from_trie nodes AC_KIND_OVERLAPPING_FWD = Some a \<and>
     ac_iter_advance a ac_iter_new 98 1 = Some it' \<and> pending a it' 1 [(0, 1)]"
proof -
  obtain nodes where n: "trie_of nodes [[98]]" "length nodes \<le> 4100000" using one_token_trie by blast
  have l: "length [[98 :: byte]] \<le> UINT32_MAX" and w: "\<exists>w \<in> set [[98 :: byte]]. w \<noteq> []"
    by (simp_all add: UINT32_MAX_def)
  obtain a where a: "build_automaton_from_trie nodes AC_KIND_OVERLAPPING_FWD = Some a"
    using build_automaton_small [OF n(1) l w n(2)] by blast
  have "it_state ac_iter_new = ac_state a [[98]] []" by (simp add: ac_iter_new_def)
  from iterator_correct [OF n(1) l w a this, of 98 1] a show ?thesis by auto
qed

text \<open>C16: The previous automaton \<^verbatim>\<open>src/ac_bpe_old.c\<close>, built from the same trie of tokens of at most
  200000 bytes, answers like the present one: every leftmost-longest search has the same result, and the loop
  over a text that takes all matches after each byte yields, for both, exactly the tokens that end at each
  position, longest first, with their starts. From a trie of at most 4,100,000 nodes, root included, its
  construction returns; beyond that it may overflow an \<^verbatim>\<open>int32_t\<close>.\<close>

theorem previous_automaton_agrees:
  assumes "trie_of nodes D" and "length D \<le> UINT32_MAX" and "\<exists>w \<in> set D. w \<noteq> []"
    and "\<forall>w \<in> set D. length w \<le> 200000" and "build_automaton_from_trie nodes kind = Some a"
  shows "(length nodes \<le> 4100000 \<longrightarrow> (\<exists>old. old_builder_build \<lparr>tb_nodes = nodes, tb_kind = kind\<rparr> = Some old)) \<and>
    (\<forall>old. old_builder_build \<lparr>tb_nodes = nodes, tb_kind = kind\<rparr> = Some old \<longrightarrow>
      (\<forall>t. old_leftmost_longest old t = ac_leftmost_longest a t) \<and>
      (\<forall>t. scan_text (old_iter_advance old) (old_iter_next_match old) old_iter_new t 0 = Some (matches_from D [] t) \<and>
         scan_text (ac_iter_advance a) (ac_iter_next_match a) ac_iter_new t 0 = Some (matches_from D [] t)))"
proof (intro conjI impI allI)
  show "\<exists>old. old_builder_build \<lparr>tb_nodes = nodes, tb_kind = kind\<rparr> = Some old" if "length nodes \<le> 4100000"
    using old_builder_build_ok(2) [OF assms(1,2,4) that] by blast
next
  fix old t
  assume b: "old_builder_build \<lparr>tb_nodes = nodes, tb_kind = kind\<rparr> = Some old"
  obtain w where old: "old_ok old D w" using old_builder_build_ok(1) [OF assms(1,2,4) b] by blast
  have new: "ac_ok a D" by (rule build_automaton_some(1) [OF assms(1-3,5)])
  have start: "it_state old_iter_new = old_state w D []" "it_state ac_iter_new = ac_state a D []"
    using old_state_facts(4) [OF old] by (simp_all add: old_iter_new_def ac_iter_new_def)
  show "old_leftmost_longest old t = ac_leftmost_longest a t" using old_search_same [OF old new] by simp
  show "scan_text (old_iter_advance old) (old_iter_next_match old) old_iter_new t 0 = Some (matches_from D [] t)"
    using old start(1) old_iter.scan_text_ok [where t = "[]" and it = old_iter_new and a = old] by auto
  show "scan_text (ac_iter_advance a) (ac_iter_next_match a) ac_iter_new t 0 = Some (matches_from D [] t)"
    using new start(2) new_iter.scan_text_ok [where t = "[]" and it = ac_iter_new and a = a] by auto
qed

theorem previous_automaton_agrees_witness:
  "\<exists>nodes old. tb_insert [trie_node_new] [98] 0 = Some nodes \<and>
     old_builder_build \<lparr>tb_nodes = nodes, tb_kind = AC_KIND_OVERLAPPING_FWD\<rparr> = Some old \<and>
     scan_text (old_iter_advance old) (old_iter_next_match old) old_iter_new [97, 98, 98] 0 = Some [(0, 1), (0, 2)]"
proof -
  obtain nodes where n: "tb_insert [trie_node_new] [98] 0 = Some nodes" "trie_of nodes [[98]]" "length nodes \<le> 4100000"
    by (rule one_token_trie)
  have l: "length [[98 :: byte]] \<le> UINT32_MAX" and w: "\<exists>w \<in> set [[98 :: byte]]. w \<noteq> []"
    and s: "\<forall>w \<in> set [[98 :: byte]]. length w \<le> 200000"
    by (simp_all add: UINT32_MAX_def)
  obtain a where a: "build_automaton_from_trie nodes AC_KIND_OVERLAPPING_FWD = Some a"
    using build_automaton_small [OF n(2) l w n(3)] by blast
  have m: "matches_from [[98 :: byte]] [] [97, 98, 98] = [(0, 1), (0, 2)]" by simp
  obtain old where "old_builder_build \<lparr>tb_nodes = nodes, tb_kind = AC_KIND_OVERLAPPING_FWD\<rparr> = Some old"
    "\<And>t. scan_text (old_iter_advance old) (old_iter_next_match old) old_iter_new t 0 = Some (matches_from [[98]] [] t)"
    using previous_automaton_agrees [OF n(2) l w s a] n(3) by blast
  then show ?thesis using n(1) m by metis
qed

text \<open>C17: \<^verbatim>\<open>PairMap\<close> and \<^verbatim>\<open>BytesMap\<close>: putting entries with different keys into a new map
  succeeds, and every lookup then terminates with what was put, or \<^verbatim>\<open>UINT32_MAX\<close>. A \<^verbatim>\<open>PairMap\<close> takes
  any number of entries up to \<open>2 ^ 30\<close>, whatever capacity it was made with: it grows, and puts its slots
  into the larger table, each time it is half full. A \<^verbatim>\<open>BytesMap\<close> does not grow and takes as many as
  were announced.\<close>

theorem hash_maps_lookup:
  assumes "n \<le> 2 ^ 30" and "0 < n"
    and "length es \<le> 2 ^ 30" and "distinct (map fst es)" and "\<forall>v \<in> snd ` set es. v \<noteq> UINT32_MAX"
    and "length ds \<le> n" and "distinct (map fst ds)" and "\<forall>v \<in> snd ` set ds. v \<noteq> UINT32_MAX"
  shows "(\<exists>m m'. pairmap_new n = Some m \<and> pair_table.put_all es m = Some m' \<and>
      (\<forall>t1 t2. pairmap_get m' t1 t2 = Some (found (map_of es (t1, t2))))) \<and>
    (\<exists>m m'. bytesmap_new n = Some m \<and> bytes_table.put_all ds m = Some m' \<and>
      (\<forall>h. bytesmap_get m' h = Some (found (map_of ds h))))"
proof
  obtain m where m: "pairmap_new n = Some m" "pm_inv (2 ^ 30) m" "pm_content m = Map.empty"
    using pairmap_new_room [OF assms(1)] by blast
  have "pm_inv (length es + 0) m" using pm_inv_less [OF m(2)] assms(3) by simp
  then obtain m' where "pair_table.put_all es m = Some m'" "pm_inv 0 m'" "pm_content m' = map_of es"
    using pair_table.put_all_ok [of es 0 m] assms(4,5) m(3) by auto
  then show "\<exists>m m'. pairmap_new n = Some m \<and> pair_table.put_all es m = Some m' \<and>
      (\<forall>t1 t2. pairmap_get m' t1 t2 = Some (found (map_of es (t1, t2))))"
    using m(1) pairmap_get_ok by auto
next
  obtain m where m: "bytesmap_new n = Some m" "bm_inv n m" "bm_content m = Map.empty"
    using bytesmap_new_ok [OF assms(2,1)] by blast
  have "bm_inv (length ds + (n - length ds)) m" using m(2) assms(6) by simp
  then obtain m' where "bytes_table.put_all ds m = Some m'" "bm_inv (n - length ds) m'" "bm_content m' = map_of ds"
    using bytes_table.put_all_ok [of ds "n - length ds" m] assms(7,8) m(3) by auto
  then show "\<exists>m m'. bytesmap_new n = Some m \<and> bytes_table.put_all ds m = Some m' \<and>
      (\<forall>h. bytesmap_get m' h = Some (found (map_of ds h)))"
    using m(1) bytesmap_get_ok by auto
qed

text \<open>Twenty entries in a map made for one: it has 16 slots and grows twice.\<close>

theorem hash_maps_lookup_witness:
  "(\<exists>m m'. pairmap_new 1 = Some m \<and> pm_capacity m = 16 \<and>
      pair_table.put_all (map (\<lambda>i. ((i, i + 1), i + 2)) [0..<20]) m = Some m' \<and>
      pairmap_get m' 19 20 = Some 21 \<and> pairmap_get m' 20 21 = Some UINT32_MAX) \<and>
   (\<exists>m m'. bytesmap_new 1 = Some m \<and> bytes_table.put_all [(5, 2)] m = Some m' \<and> bytesmap_get m' 5 = Some 2)"
proof -
  let ?es = "map (\<lambda>i. ((i, i + 1), i + 2)) [0..<20] :: ((nat \<times> nat) \<times> nat) list"
  have d: "distinct (map fst ?es)" by (simp add: upt_conv_Cons)
  have v: "\<forall>v \<in> snd ` set ?es. v \<noteq> UINT32_MAX" by (auto simp: UINT32_MAX_def)
  have g: "map_of ?es (19, 20) = Some 21" "map_of ?es (20, 21) = None" by (simp_all add: upt_conv_Cons)
  have c: "pm_capacity m = 16" if "pairmap_new 1 = Some m" for m
    using that by (auto simp: pairmap_new_def round_cap.simps)
  have all: "(\<exists>m m'. pairmap_new 1 = Some m \<and> pair_table.put_all ?es m = Some m' \<and>
      (\<forall>t1 t2. pairmap_get m' t1 t2 = Some (found (map_of ?es (t1, t2))))) \<and>
    (\<exists>m m'. bytesmap_new 1 = Some m \<and> bytes_table.put_all [(5, 2)] m = Some m' \<and>
      (\<forall>h. bytesmap_get m' h = Some (found (map_of [(5, 2)] h))))"
    by (rule hash_maps_lookup [OF _ _ _ d v]) (simp_all add: UINT32_MAX_def)
  from conjunct1 [OF all] obtain m m' where m: "pairmap_new 1 = Some m" "pair_table.put_all ?es m = Some m'"
      "\<forall>t1 t2. pairmap_get m' t1 t2 = Some (found (map_of ?es (t1, t2)))"
    by blast
  have "pairmap_get m' 19 20 = Some 21" "pairmap_get m' 20 21 = Some UINT32_MAX"
    using m(3) g by (simp_all only: found_simps)
  moreover from conjunct2 [OF all] obtain b b' where b: "bytesmap_new 1 = Some b" "bytes_table.put_all [(5, 2)] b = Some b'"
      "\<forall>h. bytesmap_get b' h = Some (found (map_of [(5, 2)] h))"
    by blast
  moreover have "bytesmap_get b' 5 = Some 2" using b(3) by simp
  ultimately show ?thesis using m c by blast
qed

text \<open>C18: \<^verbatim>\<open>bitfield_successor\<close> returns the first set position from \<open>i\<close> on, across word boundaries, and
  \<^verbatim>\<open>bitfield_predecessor\<close> the last one up to \<open>i\<close>.\<close>

theorem bitfield_neighbours:
  assumes "bits bf j"
  shows "(i \<le> j \<longrightarrow> (\<exists>s. bitfield_successor bf i = Some s \<and> bits bf s \<and> i \<le> s \<and> (\<forall>k. i \<le> k \<and> k < s \<longrightarrow> \<not> bits bf k))) \<and>
    (j \<le> i \<and> i < 64 * length (bf_words bf) \<longrightarrow>
      (\<exists>s. bitfield_predecessor bf i = Some s \<and> bits bf s \<and> s \<le> i \<and> (\<forall>k. s < k \<and> k \<le> i \<longrightarrow> \<not> bits bf k)))"
  using bitfield_successor_ok [OF assms] bitfield_predecessor_ok [OF assms] by blast

theorem bitfield_neighbours_witness:
  "(\<exists>s. bitfield_successor (bitfield_new 70) 64 = Some s \<and> bits (bitfield_new 70) s) \<and>
   (\<exists>s. bitfield_predecessor (bitfield_new 70) 64 = Some s \<and> bits (bitfield_new 70) s)"
proof -
  have "bits (bitfield_new 70) 64" using bits_new [of 70 64] by simp
  moreover have "(64 :: nat) < 64 * length (bf_words (bitfield_new 70))" by (simp add: bitfield_new_def)
  ultimately show ?thesis using bitfield_neighbours [of "bitfield_new 70" 64 64] by auto
qed

text \<open>C19: The cache of \<^verbatim>\<open>lru_cache.h\<close>, used for token ids or for arrays: any sequence of puts and gets on a
  new cache terminates without undefined behaviour, leaves at most as many entries as the capacity (one if
  it is 0), and every get misses or returns what was put last for its key.\<close>

theorem lru_returns_last_put:
  assumes "cap \<le> 2 ^ 30"
  shows "\<exists>c. lru_cache_new cap = Some c \<and>
    (\<forall>ops. \<exists>rs c'. run_cache lru_put_u32 lru_get_u32 c ops = Some (rs, c') \<and> lru_count c' \<le> max 1 cap \<and> length rs = length ops \<and>
      (\<forall>i < length ops. \<forall>k. ops ! i = Get k \<longrightarrow>
         rs ! i = Some UINT32_MAX \<or> (\<exists>v. puts Map.empty (take i ops) k = Some v \<and> rs ! i = Some v))) \<and>
    (\<forall>ops. \<exists>rs c'. run_cache lru_put_arr lru_get_arr c ops = Some (rs, c') \<and> lru_count c' \<le> max 1 cap \<and> length rs = length ops \<and>
      (\<forall>i < length ops. \<forall>k. ops ! i = Get k \<longrightarrow>
         rs ! i = Some (None, None) \<or> (\<exists>a n. puts Map.empty (take i ops) k = Some (a, n) \<and> rs ! i = Some (a, Some n))))"
proof -
  obtain c where c: "lru_cache_new cap = Some c" "lru_rep cap n_val_u32 c []" "lru_rep cap arr_value c []"
    using cache_new_ok [OF assms, of n_val_u32] cache_new_ok [OF assms, of arr_value] by auto
  show ?thesis using c(1) token_run [OF c(2)] merge_run [OF c(3)] by (intro exI [of _ c] conjI allI)
qed

theorem lru_returns_last_put_witness:
  "\<exists>c rs c'. lru_cache_new 2 = Some c \<and> run_cache lru_put_u32 lru_get_u32 c [Put [97] 7, Put [97] 8, Get [97]] = Some (rs, c') \<and>
     (rs ! 2 = Some UINT32_MAX \<or> rs ! 2 = Some 8)"
proof -
  let ?ops = "[Put [97] 7, Put [97] 8, Get [97]] :: (bytes, nat) cache_op list"
  have "(2::nat) \<le> 2 ^ 30" by simp
  from lru_returns_last_put [OF this] obtain c where c: "lru_cache_new 2 = Some c"
    and "\<exists>rs c'. run_cache lru_put_u32 lru_get_u32 c ?ops = Some (rs, c') \<and> (\<forall>i < length ?ops. \<forall>k. ?ops ! i = Get k \<longrightarrow>
      rs ! i = Some UINT32_MAX \<or> (\<exists>v. puts Map.empty (take i ?ops) k = Some v \<and> rs ! i = Some v))"
    by meson
  then obtain rs c' where r: "run_cache lru_put_u32 lru_get_u32 c ?ops = Some (rs, c')"
    and *: "\<forall>i < length ?ops. \<forall>k. ?ops ! i = Get k \<longrightarrow>
      rs ! i = Some UINT32_MAX \<or> (\<exists>v. puts Map.empty (take i ?ops) k = Some v \<and> rs ! i = Some v)"
    by blast
  have "2 < length ?ops" "?ops ! 2 = Get [97]" by simp_all
  then have "rs ! 2 = Some UINT32_MAX \<or> (\<exists>v. puts Map.empty (take 2 ?ops) [97] = Some v \<and> rs ! 2 = Some v)"
    using * by blast
  moreover have "take 2 ?ops = [Put [97] 7, Put [97] 8]" by simp
  ultimately have "rs ! 2 = Some UINT32_MAX \<or> rs ! 2 = Some 8" by simp
  then show ?thesis using c r by blast
qed

text \<open>C20: An eviction can lose another entry: in a cache for three, after putting \<open>a\<close>, \<open>j\<close>, \<open>q\<close> and
  \<open>k\<close> the last three should be there, but evicting \<open>a\<close> leaves an empty bucket on the way to \<open>q\<close>, which has
  the same home, because the entry behind \<open>a\<close> is at its own home and stops the shift.\<close>

theorem lru_eviction_loses_entry:
  "\<exists>c c'. lru_cache_new 3 = Some c \<and>
     run_cache lru_put_u32 lru_get_u32 c [Put [97] 1, Put [106] 2, Put [113] 3, Put [107] 4, Get [113]] =
       Some ([None, None, None, None, Some UINT32_MAX], c') \<and>
     lru_count c' = 3"
  by (rule lost_entry)

text \<open>C21: The heap of the priority-queue encoder: pushing keeps the heap and adds the item; popping
  returns an item of least priority and leaves a heap of the other items.\<close>

theorem heap_operations:
  assumes "is_heap h"
  shows "(\<exists>h'. heap_push h pri start = Some h' \<and> is_heap h' \<and> mset h' = add_mset (pri, start) (mset h)) \<and>
    (h \<noteq> [] \<longrightarrow> (\<exists>x h'. heap_pop h = Some (x, h') \<and> is_heap h' \<and> mset h = add_mset x (mset h') \<and>
      (\<forall>y \<in> set h. fst x \<le> fst y)))"
  using heap_push_ok [OF assms] heap_pop_ok [OF assms] by blast

theorem heap_operations_witness:
  "\<exists>x h'. heap_pop [(1, 5), (2, 6)] = Some (x, h') \<and> fst x \<le> 1"
proof -
  have "is_heap [(1, 5), (2, 6)]" by (simp add: is_heap_def less_Suc_eq)
  from heap_operations [OF this, of 0 0] show ?thesis by auto
qed

section \<open>Pretokenizers and tokenizer\<close>

text \<open>C22: \<^verbatim>\<open>pretok_cl100k\<close> agrees with the regular expression of its header comment, under the
  backtracking semantics, at every position of a UTF-8 text, unless the text from there on starts
  with a typographic apostrophe, with an apostrophe and a long s (U+017F, an \<^verbatim>\<open>s\<close> in a caseless match), with
  white space that has a second run of newlines, or with two or
  more white-space code points as long in bytes as the code point after them.\<close>

theorem cl100k_documented:
  assumes "ucd_ok T" and "\<forall>c \<in> set cs. scalar c"
    and "\<not> split_newlines cs" and "\<not> spaces_clash cs" and "cs = [] \<or> hd cs \<noteq> 0x2019"
    and "take 2 cs \<noteq> [0x27, 0x17F]"
  shows "pretok_cl100k T (utf8 (ds @ cs)) (length (utf8 ds)) = pick ds cs (cl100k_doc T cs)"
  using pretok_cl100k_utf8 [OF assms(1,2)] cl100k_code_doc [OF assms(3-6)] by simp

theorem cl100k_documented_witness:
  "pretok_cl100k demo_tables (utf8 ([0x61] @ [0x20, 0x61])) (length (utf8 [0x61])) =
     pick [0x61] [0x20, 0x61] (cl100k_doc demo_tables [0x20, 0x61])"
  by (rule cl100k_documented [OF demo_ok])
    (simp_all add: scalar_def split_newlines_def spaces_clash_def ucd_is_whitespace_def ucd_is_newline_def)

text \<open>C23: \<^verbatim>\<open>pretok_o200k\<close> agrees with the regular expression of its header comment at every
  position of a UTF-8 text, unless there are two runs of newlines, a typographic apostrophe, an apostrophe
  directly before a long s (U+017F), a mark at the start, or a run of capitals with letters without case from which the expression would
  give back some.\<close>

theorem o200k_documented:
  assumes "ucd_ok T" and "\<forall>c \<in> set cs. scalar c"
    and "\<not> split_newlines cs" and "\<not> caps_clash T cs" and "cs = [] \<or> \<not> mark_cp T (hd cs)" and "0x2019 \<notin> set cs"
    and "\<not> long_s_after cs"
  shows "pretok_o200k T (utf8 (ds @ cs)) (length (utf8 ds)) = pick ds cs (o200k_doc T cs)"
  using pretok_o200k_utf8 [OF assms(1,2)] o200k_code_doc [OF assms(3-7)] by simp

theorem o200k_documented_witness:
  "pretok_o200k demo_tables (utf8 ([0x61] @ [0x20, 0x61])) (length (utf8 [0x61])) =
     pick [0x61] [0x20, 0x61] (o200k_doc demo_tables [0x20, 0x61])"
  by (rule o200k_documented [OF demo_ok])
    (simp_all add: scalar_def split_newlines_def caps_clash_def after_prefix_def prefix_cp_def Let_def demo_classes
      ucd_is_whitespace_def ucd_is_newline_def)

text \<open>C24: Two or more blanks before a word are split by the documented pattern of \<^verbatim>\<open>pretok_cl100k\<close>
  so that the last one stays with the word; the code takes them all when their length in bytes is
  that of the first code point of the word.\<close>

theorem cl100k_takes_last_space:
  assumes "ucd_ok T" and "2 \<le> length ws" and "\<forall>w \<in> set ws. blank_cp T w" and "\<not> ucd_is_whitespace c"
    and "length (utf8 ws) = length (utf8_encode c)" and "\<forall>x \<in> set (ws @ c # cs). scalar x"
  shows "pretok_cl100k T (utf8 (ws @ c # cs)) 0 =
      Some (Some \<lparr>m_start = 0, m_end = length (utf8 ws), pattern_id = 2, lookahead = False\<rparr>) \<and>
    cl100k_doc T (ws @ c # cs) = Some (c # cs, 1, True)"
  using pretok_cl100k_utf8 [OF assms(1,6), of "[]"] spaces_doc_code [OF assms(2-4)] assms(5)
  by (simp add: pick_def on_match_def)

theorem cl100k_takes_last_space_witness:
  "pretok_cl100k demo_tables (utf8 [0x20, 0x20, 0xE9]) 0 =
      Some (Some \<lparr>m_start = 0, m_end = 2, pattern_id = 2, lookahead = False\<rparr>) \<and>
    cl100k_doc demo_tables [0x20, 0x20, 0xE9] = Some ([0xE9], 1, True)"
  using cl100k_takes_last_space [OF demo_ok, of "[0x20, 0x20]" "0xE9" "[]"]
  by (simp add: blank_cp_def demo_classes ucd_is_whitespace_def ucd_is_newline_def scalar_def utf8_encode_def)

text \<open>C25: White space with two runs of newlines: \<^verbatim>\<open>pretok_cl100k\<close> stops after the first run, where
  the documented pattern matches up to the last one.\<close>

theorem cl100k_first_newlines:
  assumes "ucd_ok T" and "blank_cp T 0x20" and "\<not> letter_cp T 0x0A" and "\<not> number_cp T 0x0A"
  shows "pretok_cl100k T (utf8 [0x0A, 0x20, 0x0A]) 0 =
      Some (Some \<lparr>m_start = 0, m_end = 1, pattern_id = 0, lookahead = False\<rparr>) \<and>
    cl100k_doc T [0x0A, 0x20, 0x0A] = Some ([], 0, False)"
proof -
  have "\<forall>c \<in> set [0x0A, 0x20, 0x0A]. scalar c" by (simp add: scalar_def)
  from pretok_cl100k_utf8 [OF assms(1) this, of "[]"] newlines_apart [OF assms(2-4)] show ?thesis
    by (simp add: pick_def on_match_def utf8_encode_def)
qed

theorem cl100k_first_newlines_witness:
  "pretok_cl100k demo_tables (utf8 [0x0A, 0x20, 0x0A]) 0 =
      Some (Some \<lparr>m_start = 0, m_end = 1, pattern_id = 0, lookahead = False\<rparr>)"
  using cl100k_first_newlines [OF demo_ok]
  by (simp add: blank_cp_def demo_classes ucd_is_whitespace_def ucd_is_newline_def)

text \<open>C26: A letter without case before a capital: \<^verbatim>\<open>pretok_o200k\<close> matches both as one word, the
  documented pattern only the first.\<close>

theorem o200k_joins_capitals:
  assumes "ucd_ok T" and "scalar l" and "scalar u" and "cat T l = ucp_Lo" and "cat T u = ucp_Lu"
  shows "pretok_o200k T (utf8 [l, u]) 0 =
      Some (Some \<lparr>m_start = 0, m_end = length (utf8 [l, u]), pattern_id = 0, lookahead = False\<rparr>) \<and>
    o200k_doc T [l, u] = Some ([u], 0, False)"
proof -
  have "\<forall>c \<in> set [l, u]. scalar c" using assms(2,3) by simp
  from pretok_o200k_utf8 [OF assms(1) this, of "[]"] capitals_joined [OF assms(4,5)] show ?thesis
    by (simp add: pick_def on_match_def)
qed

theorem o200k_joins_capitals_witness:
  "pretok_o200k demo_tables (utf8 [0x4F60, 0x41]) 0 =
      Some (Some \<lparr>m_start = 0, m_end = length (utf8 [0x4F60, 0x41]), pattern_id = 0, lookahead = False\<rparr>)"
  using o200k_joins_capitals [OF demo_ok, of "0x4F60" "0x41"] by (simp add: scalar_def demo_cat)

text \<open>C27: In the caseless part of the documented patterns the long s (U+017F) matches \<^verbatim>\<open>s\<close>. After an
  apostrophe the documented pattern of \<^verbatim>\<open>pretok_cl100k\<close> stops after it, where the code goes on to the
  letter that follows; after a lower-case letter and an apostrophe the documented pattern of
  \<^verbatim>\<open>pretok_o200k\<close> takes it, where the code stops after the letter.\<close>

theorem long_s_not_folded:
  assumes "ucd_ok T" and "cat T 0x27 = ucp_Po" and "letter_cp T 0x17F"
    and "scalar c" and "letter_cp T c" and "scalar l" and "cat T l = ucp_Ll"
  shows "(pretok_cl100k T (utf8 [0x27, 0x17F, c]) 0 =
      Some (Some \<lparr>m_start = 0, m_end = length (utf8 [0x27, 0x17F, c]), pattern_id = 0, lookahead = False\<rparr>) \<and>
      cl100k_doc T [0x27, 0x17F, c] = Some ([c], 0, False)) \<and>
    (pretok_o200k T (utf8 [l, 0x27, 0x17F]) 0 =
      Some (Some \<lparr>m_start = 0, m_end = length (utf8 [l]), pattern_id = 0, lookahead = False\<rparr>) \<and>
      o200k_doc T [l, 0x27, 0x17F] = Some ([], 0, False))"
proof -
  have sc: "\<forall>x \<in> set [0x27, 0x17F, c]. scalar x" "\<forall>x \<in> set [l, 0x27, 0x17F]. scalar x"
    using assms(4,6) by (simp_all add: scalar_def)
  have "prefix_cp T 0x27"
    using assms(2) by (simp add: prefix_cp_def letter_cp_def number_cp_def ucp_gentype_def ucd_is_newline_def)
  note cl = long_s_cl100k [OF assms(3,5) this] and o2 = long_s_o200k [OF assms(7,2)]
  show ?thesis
    using pretok_cl100k_utf8 [OF assms(1) sc(1), of "[]"] pretok_o200k_utf8 [OF assms(1) sc(2), of "[]"] cl o2
    by (simp add: pick_def on_match_def)
qed

theorem long_s_not_folded_witness:
  "pretok_cl100k demo_tables (utf8 [0x27, 0x17F, 0x61]) 0 =
      Some (Some \<lparr>m_start = 0, m_end = 4, pattern_id = 0, lookahead = False\<rparr>) \<and>
    pretok_o200k demo_tables (utf8 [0x61, 0x27, 0x17F]) 0 =
      Some (Some \<lparr>m_start = 0, m_end = 1, pattern_id = 0, lookahead = False\<rparr>)"
proof -
  have c: "cat demo_tables 0x27 = ucp_Po" "cat demo_tables 0x17F = ucp_Lo"
    by (simp_all add: demo_tables_def cat_def GET_UCD_def rd_def nth_append)
  have l: "letter_cp demo_tables 0x17F" "letter_cp demo_tables 0x61"
    by (simp_all add: demo_classes c)
  have s: "scalar 0x61" by (simp add: scalar_def)
  have "length (utf8 [0x27, 0x17F, 0x61]) = 4" "length (utf8 [0x61]) = 1" by (simp_all add: utf8_encode_def)
  then show ?thesis using long_s_not_folded [OF demo_ok c(1) l(1) s l(2) s] by (simp add: demo_cat)
qed

text \<open>C28: \<^verbatim>\<open>utf8_decode\<close> reads back every Unicode scalar value from its UTF-8 bytes, whatever
  follows them.\<close>

theorem utf8_roundtrip:
  assumes "scalar c"
  shows "utf8_decode (utf8_encode c @ r) = Some (c, length (utf8_encode c))"
  by (rule utf8_decode_encode [OF assms])

theorem utf8_roundtrip_witness: "utf8_decode [0xE4, 0xBD, 0xA0, 0x41] = Some (0x4F60, 3)"
  using utf8_roundtrip [of "0x4F60" "[0x41]"]
  by (simp add: scalar_def utf8_encode_def cont_byte_def numeral_3_eq_3)

text \<open>C29: On UTF-8 text \<^verbatim>\<open>tokenizer_encode\<close> terminates, with either pretokenizer: the matches split
  the text into nonempty pieces, the result is the byte pair encoding of the pieces one after the
  other, and decoding it gives the text back.\<close>

theorem tokenizer_encode_correct:
  assumes "built bpe D hf" and "ucd_ok T" and "\<forall>c \<in> set cs. scalar c" and "covers D (utf8 cs)"
    and "(fn, f) \<in> {(pretok_cl100k T, cl100k_code T), (pretok_o200k T, o200k_code T)}"
  shows "\<exists>ps. splits f cs ps \<and> concat ps = cs \<and> [] \<notin> set ps \<and>
    tokenizer_encode (tokenizer_new_native bpe (Some fn)) (utf8 cs) = Some (piece_ids D ps) \<and>
    bpe_decode_tokens bpe (piece_ids D ps) = Some (Some (map Some (utf8 cs) @ [Some 0], length (utf8 cs)))"
proof -
  have ok: "bpe_ok bpe D" by (rule built_ok [OF assms(1)])
  obtain ps where ps: "splits f cs ps" using cl100k.pieces_exist [OF assms(2)] o200k.pieces_exist [OF assms(2)] assms(5)
    by blast
  then have "tokenizer_encode (tokenizer_new_native bpe (Some fn)) (utf8 cs) = Some (piece_ids D ps)"
    using cl100k.encode_ok [OF ok assms(2-4)] o200k.encode_ok [OF ok assms(2-4)] assms(5) by blast
  then show ?thesis
    using ps splits_concat [OF ps] splits_nonempty [OF ps] decode_piece_ids [OF bpe_okD(2) [OF ok], of ps] assms(4) by auto
qed

theorem tokenizer_encode_correct_witness:
  "\<exists>bpe. tokenizer_encode (tokenizer_new_native bpe (Some (pretok_cl100k demo_tables))) (utf8 [0x61, 0x20, 0x61]) =
     Some [1, 0, 1]"
proof -
  obtain bpe where "built bpe sp_dict 1" by (rule sp_built)
  from tokenizer_encode_correct [OF this demo_ok sp_covers(2,1), of "pretok_cl100k demo_tables" "cl100k_code demo_tables"]
  obtain ps where "splits (cl100k_code demo_tables) [0x61, 0x20, 0x61] ps"
    "tokenizer_encode (tokenizer_new_native bpe (Some (pretok_cl100k demo_tables))) (utf8 [0x61, 0x20, 0x61]) =
       Some (piece_ids sp_dict ps)"
    by blast
  then show ?thesis using splits_unique [OF sp_splits] sp_ids(1) by metis
qed

text \<open>C30: \<^verbatim>\<open>tokenizer_count\<close> returns the length of that result, and \<^verbatim>\<open>tokenizer_count_till_limit\<close>
  decides it against the limit, when no prefix of a piece takes more than ten tokens more than the piece.\<close>

theorem tokenizer_count_correct:
  assumes "built bpe D hf" and "ucd_ok T" and "\<forall>c \<in> set cs. scalar c" and "covers D (utf8 cs)"
    and "(fn, f) \<in> {(pretok_cl100k T, cl100k_code T), (pretok_o200k T, o200k_code T)}" and "splits f cs ps"
    and "\<forall>p \<in> set ps. slack_ok D (utf8 p)" and "limit + 16 < 2 ^ 62"
  shows "tokenizer_count (tokenizer_new_native bpe (Some fn)) (utf8 cs) = Some (length (piece_ids D ps)) \<and>
    tokenizer_count_till_limit (tokenizer_new_native bpe (Some fn)) (utf8 cs) limit =
      Some (if length (piece_ids D ps) \<le> limit then length (piece_ids D ps) else SIZE_MAX)"
  using cl100k.count_all_ok [OF built_ok [OF assms(1)] assms(2-4)] o200k.count_all_ok [OF built_ok [OF assms(1)] assms(2-4)]
    cl100k.count_till_limit_ok [OF built_ok [OF assms(1)] assms(2-4) _ assms(7,8)]
    o200k.count_till_limit_ok [OF built_ok [OF assms(1)] assms(2-4) _ assms(7,8)] assms(5,6)
  by blast

theorem tokenizer_count_correct_witness:
  "\<exists>bpe. tokenizer_count_till_limit (tokenizer_new_native bpe (Some (pretok_cl100k demo_tables)))
     (utf8 [0x61, 0x20, 0x61]) 2 = Some SIZE_MAX"
proof -
  obtain bpe where b: "built bpe sp_dict 1" by (rule sp_built)
  have "slack_ok sp_dict (utf8 p)" if "p \<in> set [[0x61], [0x20, 0x61]]" for p
  proof -
    have "length (utf8 p) \<le> 2" using that sp_utf8 by auto
    then have "length (bpe_ids sp_dict (take k (utf8 p))) \<le> 10" for k
      using length_bpe_ids [of sp_dict "take k (utf8 p)"] by simp
    then show ?thesis unfolding slack_ok_def by (meson trans_le_add2)
  qed
  then have s: "\<forall>p \<in> set [[0x61], [0x20, 0x61]]. slack_ok sp_dict (utf8 p)" by blast
  have "(2 :: nat) + 16 < 2 ^ 62" by simp
  from tokenizer_count_correct [OF b demo_ok sp_covers(2,1) _ sp_splits s this] show ?thesis
    unfolding sp_ids(1) by auto
qed

text \<open>C31: \<^verbatim>\<open>tokenizer_encode\<close> does not return on the bytes 85 85 61, with either pretokenizer: both
  stray bytes are read as the white space U+0085, and the walk back over continuation bytes leaves
  an empty piece, so that the next match starts at the same place.\<close>

theorem tokenizer_encode_never_returns:
  assumes "ucd_ok T" and "cat T 0x85 = ucp_Cc"
  shows "tokenizer_encode (tokenizer_new_native bpe (Some (pretok_cl100k T))) stuck_text = None \<and>
    tokenizer_encode (tokenizer_new_native bpe (Some (pretok_o200k T))) stuck_text = None"
  using stuck_pretok [OF assms(2,1)] by (simp add: tokenizer_encode_stuck)

theorem tokenizer_encode_never_returns_witness:
  "\<forall>bpe. tokenizer_encode (tokenizer_new_native bpe (Some (pretok_cl100k demo_tables))) stuck_text = None"
  using tokenizer_encode_never_returns [OF demo_ok demo_cat(7)] by blast

section \<open>Further encoders and precomputed objects\<close>

text \<open>C32: \<^verbatim>\<open>bpe_encode_minimal\<close> terminates on every text shorter than \<^verbatim>\<open>UINT32_MAX\<close> bytes and
  returns a segmentation of it into tokens, of which no segmentation has fewer.\<close>

theorem minimal_optimal:
  assumes "built bpe D hf" and "covers D t" and "length t < UINT32_MAX"
  shows "\<exists>ts. bpe_encode_minimal bpe t = Some ts \<and> seg D t ts \<and> (\<forall>us. seg D t us \<longrightarrow> length ts \<le> length us)"
  using encode_minimal_ok [OF built_ok [OF assms(1)] assms(2,3)] min_count_le by metis

theorem minimal_optimal_witness:
  "\<exists>bpe ts. bpe_encode_minimal bpe [97, 98, 97, 98, 97] = Some ts \<and> length ts \<le> 2"
proof -
  obtain bpe where b: "built bpe ab_dict 1" by (rule ab_built)
  have "seg ab_dict [97, 98, 97, 98, 97] [2, 3]"
    by (simp add: seg_def ab_dict_def numeral_2_eq_2 numeral_3_eq_3)
  then show ?thesis using minimal_optimal [OF b ab_covers(1)] by (fastforce simp: UINT32_MAX_def)
qed

text \<open>C33: The incremental encoders refine a byte string: after any sequence of pushes, extensions and
  truncations over the dictionary's bytes the encoder exists and its length and token count are those of
  the string, for \<^verbatim>\<open>AppendableEncoder\<close> as read, for \<^verbatim>\<open>PrependableEncoder\<close> reversed (the count
  modulo \<open>2 ^ 32\<close>, the width of its field).\<close>

theorem incremental_encoders_refine:
  assumes "built bpe D hf" and "\<forall>x \<in> set ops. \<forall>b \<in> set (op_bytes x). [b] \<in> set D"
  shows "(\<exists>e. run_ops appendable_encoder_push appendable_encoder_extend appendable_encoder_truncate
      (appendable_encoder_new bpe) ops = Some e \<and>
      appendable_encoder_token_count e = Some (length (bpe_ids D (taken [] ops)) mod 2 ^ 32) \<and>
      appendable_encoder_len e = length (taken [] ops)) \<and>
    (\<exists>e. run_ops prependable_encoder_push prependable_encoder_extend prependable_encoder_truncate
      (prependable_encoder_new bpe) ops = Some e \<and>
      prependable_encoder_token_count e = Some (length (bpe_ids D (rev (taken [] ops))) mod 2 ^ 32) \<and>
      prependable_encoder_len e = length (taken [] ops))"
  using appendable.run_counts [OF app_new [OF built_ok [OF assms(1)]] assms(2)]
    prependable.run_counts [OF prep_new [OF built_ok [OF assms(1)]] assms(2)]
  by (rule conjI)

theorem incremental_encoders_refine_witness:
  "\<exists>bpe e. run_ops appendable_encoder_push appendable_encoder_extend appendable_encoder_truncate
      (appendable_encoder_new bpe) [Extend [97, 98, 98], Truncate 2, Push 97, Extend [98, 97]] = Some e \<and>
    appendable_encoder_token_count e = Some 2"
proof -
  let ?ops = "[Extend [97, 98, 98], Truncate 2, Push 97, Extend [98, 97]]"
  obtain bpe where b: "built bpe ab_dict 1" by (rule ab_built)
  have ops: "\<forall>x \<in> set ?ops. \<forall>b \<in> set (op_bytes x). [b] \<in> set ab_dict" by (simp add: ab_dict_def)
  have t: "taken [] ?ops = [97, 98, 97, 98, 97]" by simp
  have n: "length (bpe_ids ab_dict (taken [] ?ops)) mod 2 ^ 32 = 2" unfolding t by simp
  obtain e where "run_ops appendable_encoder_push appendable_encoder_extend appendable_encoder_truncate
      (appendable_encoder_new bpe) ?ops = Some e"
    "appendable_encoder_token_count e = Some (length (bpe_ids ab_dict (taken [] ?ops)) mod 2 ^ 32)"
    using conjunct1 [OF incremental_encoders_refine [OF b ops]] by blast
  then show ?thesis unfolding n by blast
qed

text \<open>C34: An interval encoding of a text shorter than \<open>2 ^ 32 - 1\<close> bytes counts the tokens of every slice
  of it, as \<^verbatim>\<open>bpe_count\<close> does on the slice, although it may stop before the end of the slice and
  take the rest from the depths of its tree; construction and count leave no array and terminate.\<close>

theorem interval_count_correct:
  assumes "built bpe D hf" and "covers D t" and "length t + 1 < 2 ^ 32"
  shows "\<exists>ie. interval_encoding_new bpe t = Some ie \<and>
    (\<forall>start stop. start \<le> stop \<and> stop \<le> length t \<longrightarrow>
       interval_encoding_count ie start stop = Some (length (bpe_ids D (slice t start stop))) \<and>
       interval_encoding_count ie start stop = bpe_count bpe (slice t start stop))"
  using interval_encoding_new_ok [OF built_ok [OF assms(1)] assms(2,3)]
    interval_encoding_count_ok [OF built_ok [OF assms(1)] assms(2,3)]
    count_ok [OF built_ok [OF assms(1)] covers_slice [OF assms(2)]]
  by simp

theorem interval_count_correct_witness:
  "\<exists>bpe ie. interval_encoding_new bpe [97, 98, 97, 98, 97] = Some ie \<and>
    interval_encoding_count ie 1 5 = Some 2 \<and> interval_encoding_count ie 0 2 = Some 1"
proof -
  obtain bpe where b: "built bpe ab_dict 1" by (rule ab_built)
  obtain ie where ie: "interval_encoding_new bpe [97, 98, 97, 98, 97] = Some ie"
    "\<And>start stop. start \<le> stop \<Longrightarrow> stop \<le> 5 \<Longrightarrow> interval_encoding_count ie start stop =
       Some (length (bpe_ids ab_dict (slice [97, 98, 97, 98, 97] start stop)))"
    using interval_count_correct [OF b ab_covers(1)] by auto
  have "length (bpe_ids ab_dict (slice [97, 98, 97, 98, 97] 1 5)) = 2" "length (bpe_ids ab_dict (slice [97, 98, 97, 98, 97] 0 2)) = 1"
    by (simp_all add: slice_def ab_dict_def bpe_ids_def bpe_encode_def eval_nat_numeral)
  then show ?thesis using ie(1) ie(2) [of 1 5] ie(2) [of 0 2] by auto
qed

text \<open>C35: What the generator of \<^verbatim>\<open>gen_precomputed.c\<close> writes for an object whose arrays have the
  sizes of its counters and whose numbers fit their 32 bits, \<^verbatim>\<open>bpe_from_blob\<close> reads back as the very
  same object, whatever follows the blob.\<close>

theorem blob_reload:
  assumes "blob_fits bpe"
  shows "\<exists>blob. serialize_bpe bpe (num_tokens bpe) = Some blob \<and>
    (\<forall>r. bpe_from_blob (all_tokens bpe) (token_starts bpe) (blob @ r) = Some bpe)"
  by (rule blob_roundtrip [OF assms])

theorem blob_reload_witness:
  "\<exists>blob. serialize_bpe small_bpe 1 = Some blob \<and> bpe_from_blob [97] [0, 1] (blob @ [0]) = Some small_bpe"
  using blob_reload [OF small_fits(1)] by (auto simp: small_bpe_def bpe_alloc_def)

section \<open>Thread pool\<close>

lemma sp_encode:
  obtains bpe where "tokenizer_encode (tokenizer_new_native bpe (Some (pretok_cl100k demo_tables))) (utf8 [0x61, 0x20, 0x61]) =
    Some [1, 0, 1]"
proof -
  obtain bpe where "built bpe sp_dict 1" by (rule sp_built)
  from cl100k.encode_ok [OF built_ok [OF this] demo_ok sp_covers(2,1) sp_splits] show thesis
    using that unfolding sp_ids(1) by blast
qed

text \<open>C36: In every reachable state of a pool on which any calls were made, and whatever the threads do
  and wherever they are interrupted: a call of \<^verbatim>\<open>pool_run\<close> with fewer than \<open>2 ^ 31\<close> texts
  that has returned has filled its output arrays with what the sequential loop of \<^verbatim>\<open>parallel.c\<close>
  computes.\<close>

theorem batch_results:
  assumes "pool_reach (bpe_pool_create hw ok n) bs s" and "\<forall>b \<in> set bs. fresh b" and "c < length bs"
    and "bs ! c = pool_run tok texts (int_cast (length texts)) type limit" and "length texts < 2 ^ 31"
    and "b_pc (batches s ! c) = P_Return"
  shows "\<exists>rs. sequential_batch type tok limit texts = Some rs \<and> b_outs (batches s ! c) = map Some rs"
  by (rule pool_results [OF assms(1-4) _ assms(6)]) (use assms(5) in simp)

theorem batch_results_witness:
  "\<exists>bpe s rs. let tok = tokenizer_new_native bpe (Some (pretok_cl100k demo_tables)); texts = [utf8 [0x61, 0x20, 0x61]] in
     pool_reach (bpe_pool_create 8 (\<lambda>i. True) 1) [pool_run tok texts 1 WORK_ENCODE 0] s \<and>
     b_outs (batches s ! 0) = map Some rs \<and> sequential_batch WORK_ENCODE tok 0 texts = Some rs"
proof -
  obtain bpe where b: "tokenizer_encode (tokenizer_new_native bpe (Some (pretok_cl100k demo_tables))) (utf8 [0x61, 0x20, 0x61]) =
     Some [1, 0, 1]" by (rule sp_encode)
  define tok where "tok = tokenizer_new_native bpe (Some (pretok_cl100k demo_tables))"
  define t where "t = utf8 [0x61, 0x20, 0x61]"
  have "run_text WORK_ENCODE tok 0 t = Some (Tokens [1, 0, 1])" using b by (simp add: run_text_def tok_def t_def)
  then obtain s where s: "pool_reach (bpe_pool_create 8 (\<lambda>i. True) 1) [pool_run tok [t] 1 WORK_ENCODE 0] s"
    "b_pc (batches s ! 0) = P_Return"
    using late_signal_reached [OF one_worker] by blast
  have f: "pool_run tok [t] 1 WORK_ENCODE 0 = pool_run tok [t] (int_cast (length [t])) WORK_ENCODE 0"
    by (simp add: int_cast_small)
  then have "fresh (pool_run tok [t] 1 WORK_ENCODE 0)" unfolding fresh_def by blast
  then have "\<forall>b \<in> set [pool_run tok [t] 1 WORK_ENCODE 0]. fresh b" by simp
  from batch_results [OF s(1) this, of 0 tok "[t]" WORK_ENCODE 0] s(2) f
  obtain rs where "sequential_batch WORK_ENCODE tok 0 [t] = Some rs" "b_outs (batches s ! 0) = map Some rs"
    by auto
  with s(1) show ?thesis unfolding tok_def t_def Let_def by blast
qed

text \<open>C37: Once the calls are made, at least one worker exists and the pool is not shut down, the
  threads cannot run forever (without spurious wake-ups: at most \<open>pool_work s\<close> steps) and do
  not block one another: when no thread can go on, every call has returned, unless a worker signals a
  caller that has left (the undefined behaviour of the next property). The texts have results.\<close>

theorem threads_run_to_the_end:
  assumes "pool_reach (bpe_pool_create hw ok n) bs s" and "\<forall>b \<in> set bs. fresh b"
    and "\<not> q_shutdown (queue s)" and "workers (bpe_pool_create hw ok n) \<noteq> []"
    and "\<forall>b \<in> set bs. \<forall>t \<in> set (b_texts b). run_text (b_type b) (b_tok b) (b_limit b) t \<noteq> None"
    and "thread_run s m s'"
  shows "m \<le> pool_work s \<and>
    ((\<exists>s''. thread_step s' (Some s'')) \<or> late_signal s' \<or> (\<forall>b \<in> set (batches s'). b_pc b = P_Return))"
  using threads_finish [OF assms] by blast

theorem threads_run_to_the_end_witness:
  "\<exists>bpe. \<forall>m s'. let tok = tokenizer_new_native bpe (Some (pretok_cl100k demo_tables)) in
     thread_run ((bpe_pool_create 8 (\<lambda>i. True) 1)\<lparr>batches := [bpe_pool_encode_batch tok [utf8 [0x61, 0x20, 0x61]]]\<rparr>) m s' \<longrightarrow>
     m \<le> 11 \<and> ((\<exists>s''. thread_step s' (Some s'')) \<or> late_signal s' \<or> (\<forall>b \<in> set (batches s'). b_pc b = P_Return))"
proof -
  obtain bpe where b: "tokenizer_encode (tokenizer_new_native bpe (Some (pretok_cl100k demo_tables))) (utf8 [0x61, 0x20, 0x61]) =
     Some [1, 0, 1]" by (rule sp_encode)
  define tok where "tok = tokenizer_new_native bpe (Some (pretok_cl100k demo_tables))"
  define bt where "bt = bpe_pool_encode_batch tok [utf8 [0x61, 0x20, 0x61]]"
  let ?p = "bpe_pool_create 8 (\<lambda>i. True) 1"
  have f: "\<forall>b \<in> set [bt]. fresh b" by (simp add: bt_def fresh_batches)
  have r: "\<forall>b \<in> set [bt]. \<forall>t \<in> set (b_texts b). run_text (b_type b) (b_tok b) (b_limit b) t \<noteq> None"
    using b by (simp add: bt_def bpe_pool_encode_batch_def pool_run_def run_text_def tok_def)
  have q: "\<not> q_shutdown (queue (?p\<lparr>batches := [bt]\<rparr>))" and w: "workers ?p \<noteq> []"
    using one_worker by simp_all
  have "batch_work bt = 10"
    by (simp add: bt_def bpe_pool_encode_batch_def pool_run_def batch_work_def pushed_def push_or_check_def int_cast_small)
  then have work: "pool_work (?p\<lparr>batches := [bt]\<rparr>) = 11"
    using one_worker by (simp add: pool_work_def queue_init_def)
  have "\<forall>m s'. thread_run (?p\<lparr>batches := [bt]\<rparr>) m s' \<longrightarrow>
     m \<le> 11 \<and> ((\<exists>s''. thread_step s' (Some s'')) \<or> late_signal s' \<or> (\<forall>b \<in> set (batches s'). b_pc b = P_Return))"
  proof (intro allI impI)
    fix m s'
    assume "thread_run (?p\<lparr>batches := [bt]\<rparr>) m s'"
    from threads_run_to_the_end [OF pool_reach.start f q w r this]
    show "m \<le> 11 \<and> ((\<exists>s''. thread_step s' (Some s'')) \<or> late_signal s' \<or> (\<forall>b \<in> set (batches s'). b_pc b = P_Return))"
      unfolding work .
  qed
  then show ?thesis unfolding bt_def tok_def Let_def by (rule exI)
qed

text \<open>C38: As long as the pool is not shut down, a worker that has decremented the counter of a
  batch to 0 locks the mutex of its tracker in line 125, when the caller may have seen the 0 without
  waiting, returned, and taken the tracker, which is a local variable of \<^verbatim>\<open>pool_run\<close>, with it. This
  does happen, on any pool with a worker and for any call with one text that has a result. The threads
  have no other undefined behaviour, except inside the execution of an item for a text of some call that
  has no result on its own either (its encoding is undefined or does not return).\<close>

theorem tracker_used_after_return:
  assumes "workers (bpe_pool_create hw ok n) \<noteq> []" and "run_text type tok limit t = Some r"
  shows "(\<exists>s. pool_reach (bpe_pool_create hw ok n) [pool_run tok [t] 1 type limit] s \<and> thread_step s None \<and> late_signal s) \<and>
    (\<forall>bs s. pool_reach (bpe_pool_create hw ok n) bs s \<and> (\<forall>b \<in> set bs. fresh b) \<and> \<not> q_shutdown (queue s) \<and>
       thread_step s None \<longrightarrow>
       late_signal s \<or> (\<exists>k wi. k < length (workers s) \<and> workers s ! k = W_Exec wi \<and> execute_work_item wi = None \<and>
         (\<exists>b \<in> set bs. \<exists>t \<in> set (b_texts b). run_text (b_type b) (b_tok b) (b_limit b) t = None)))"
proof
  obtain ws where ws: "workers (bpe_pool_create hw ok n) = W_Lock # ws" "W_Wait \<notin> set ws"
    using assms(1) pool_create_fields(1) [of hw ok n] by (cases "workers (bpe_pool_create hw ok n)") auto
  show "\<exists>s. pool_reach (bpe_pool_create hw ok n) [pool_run tok [t] 1 type limit] s \<and> thread_step s None \<and> late_signal s"
    using late_signal_reached [OF ws pool_create_fields(2) _ assms(2)] pool_create_fields(3) [of hw ok n] by blast
next
  show "\<forall>bs s. pool_reach (bpe_pool_create hw ok n) bs s \<and> (\<forall>b \<in> set bs. fresh b) \<and> \<not> q_shutdown (queue s) \<and>
       thread_step s None \<longrightarrow>
       late_signal s \<or> (\<exists>k wi. k < length (workers s) \<and> workers s ! k = W_Exec wi \<and> execute_work_item wi = None \<and>
         (\<exists>b \<in> set bs. \<exists>t \<in> set (b_texts b). run_text (b_type b) (b_tok b) (b_limit b) t = None))"
  proof (intro allI impI, elim conjE)
    fix bs s
    assume r: "pool_reach (bpe_pool_create hw ok n) bs s" and f: "\<forall>b \<in> set bs. fresh b"
      and up: "\<not> q_shutdown (queue s)" and st: "thread_step s None"
    have "pool_data s" using reach_inv(1) [OF r f] by (simp add: pool_inv_def)
    from undefined_step [OF this reach_inv(2) [OF r f] up st]
    show "late_signal s \<or> (\<exists>k wi. k < length (workers s) \<and> workers s ! k = W_Exec wi \<and> execute_work_item wi = None \<and>
         (\<exists>b \<in> set bs. \<exists>t \<in> set (b_texts b). run_text (b_type b) (b_tok b) (b_limit b) t = None))" .
  qed
qed

theorem tracker_used_after_return_witness:
  "\<exists>bpe s. let tok = tokenizer_new_native bpe (Some (pretok_cl100k demo_tables)) in
     pool_reach (bpe_pool_create 8 (\<lambda>i. True) 1) [pool_run tok [utf8 [0x61, 0x20, 0x61]] 1 WORK_ENCODE 0] s \<and>
     thread_step s None"
proof -
  obtain bpe where b: "tokenizer_encode (tokenizer_new_native bpe (Some (pretok_cl100k demo_tables))) (utf8 [0x61, 0x20, 0x61]) =
     Some [1, 0, 1]" by (rule sp_encode)
  have "run_text WORK_ENCODE (tokenizer_new_native bpe (Some (pretok_cl100k demo_tables))) 0 (utf8 [0x61, 0x20, 0x61]) =
      Some (Tokens [1, 0, 1])"
    using b by (simp add: run_text_def)
  moreover have "workers (bpe_pool_create 8 (\<lambda>i. True) 1) \<noteq> []" using one_worker(1) by simp
  ultimately show ?thesis using tracker_used_after_return unfolding Let_def by blast
qed

section \<open>Extension module\<close>

text \<open>C39: From Python: \<^verbatim>\<open>cl100k_base()\<close> and \<^verbatim>\<open>o200k_base()\<close> make a tokenizer from the dictionary
  header and return the same one again; for a string of Unicode scalar values whose bytes are in the
  dictionary, \<^verbatim>\<open>decode(encode(s))\<close> is \<^verbatim>\<open>s\<close> and \<^verbatim>\<open>count(s)\<close> the length of \<^verbatim>\<open>encode(s)\<close>.\<close>

theorem python_roundtrip:
  assumes "dict_input D hf" and "ucd_ok T" and "\<forall>c \<in> set cs. scalar c" and "covers D (utf8 cs)" and "py_documented py"
    and "(base, cached) \<in> {(py_cl100k_base T, py_is_cached_cl100k), (py_o200k_base T, py_is_cached_o200k)}"
  shows "\<exists>tok g lst. base (header D hf) None \<lparr>g_cl100k = None, g_o200k = None\<rparr> = Some (tok, g) \<and>
    base (header D hf) None g = Some (tok, g) \<and> cached g = PyBool True \<and>
    PyTokenizer_encode py (Some tok) (PyUnicode cs) = Some (Inr (PyList lst)) \<and>
    PyTokenizer_decode py (Some tok) (PyList lst) = Some (Inr (PyUnicode cs)) \<and>
    PyTokenizer_count py (Some tok) (PyUnicode cs) = Some (Inr (PyLong (int (length lst))))"
proof -
  obtain bpe where b: "built bpe D hf" using built_exists [OF assms(1)] by blast
  note build = build_from_header [OF b]
  have c: "py_cl100k_base T (header D hf) None \<lparr>g_cl100k = None, g_o200k = None\<rparr> =
      Some (tokenizer_new_native bpe (Some (pretok_cl100k T)),
        \<lparr>g_cl100k = Some (tokenizer_new_native bpe (Some (pretok_cl100k T))), g_o200k = None\<rparr>)"
    by (simp add: py_cl100k_base_def build_cl100k_def build)
  have o2: "py_o200k_base T (header D hf) None \<lparr>g_cl100k = None, g_o200k = None\<rparr> =
      Some (tokenizer_new_native bpe (Some (pretok_o200k T)),
        \<lparr>g_cl100k = None, g_o200k = Some (tokenizer_new_native bpe (Some (pretok_o200k T)))\<rparr>)"
    by (simp add: py_o200k_base_def build_o200k_def build)
  from assms(6) consider "base = py_cl100k_base T" "cached = py_is_cached_cl100k" | "base = py_o200k_base T" "cached = py_is_cached_o200k"
    by blast
  then show ?thesis
  proof cases
    case 1
    then show ?thesis using cl100k.method_roundtrip [OF b assms(2-5)] c
      by (simp add: py_cl100k_base_def py_is_cached_cl100k_def)
  next
    case 2
    then show ?thesis using o200k.method_roundtrip [OF b assms(2-5)] o2
      by (simp add: py_o200k_base_def py_is_cached_o200k_def)
  qed
qed

theorem python_roundtrip_witness:
  "\<exists>tok g lst. py_cl100k_base demo_tables (header sp_dict 1) None \<lparr>g_cl100k = None, g_o200k = None\<rparr> = Some (tok, g) \<and>
    PyTokenizer_encode demo_py (Some tok) (PyUnicode [0x61, 0x20, 0x61]) = Some (Inr (PyList lst)) \<and>
    PyTokenizer_decode demo_py (Some tok) (PyList lst) = Some (Inr (PyUnicode [0x61, 0x20, 0x61]))"
  using python_roundtrip [OF sp_input demo_ok sp_covers(2,1) demo_py_documented,
      of "py_cl100k_base demo_tables" py_is_cached_cl100k] by blast

text \<open>C40: \<^verbatim>\<open>encode_batch_parallel\<close> returns the token lists and the total of \<^verbatim>\<open>encode_batch\<close>, whatever the
  interleaving of the threads and whatever other calls use the pool: \<open>run\<close> leaves the output arrays as
  a call that has returned has left them.\<close>

theorem python_parallel_equals_sequential:
  assumes "pool_reach (bpe_pool_create hw ok n) bs s" and "\<forall>b \<in> set bs. fresh b" and "c < length bs"
    and "bs ! c = bpe_pool_encode_batch tok texts" and "length texts < 2 ^ 31" and "b_pc (batches s ! c) = P_Return"
    and "text_loop py items [] = Inr texts" and "run (Some tok) texts = Some (b_outs (batches s ! c))"
  shows "\<exists>lists total. PyTokenizer_encode_batch py (Some tok) e (PyList items) =
      Some (Inr (PyTuple [PyList lists, total, PyFloat e])) \<and>
    PyTokenizer_encode_batch_parallel py run nthreads (Some tok) e (PyList items) opts =
      Some (Inr (PyTuple [PyList lists, total, PyFloat e, PyLong (int nthreads)]))"
proof -
  have "length texts < 2147483648" using assms(5) by simp
  from pool_results [OF assms(1-3) _ this assms(6), of tok WORK_ENCODE 0] assms(4)
  obtain rs where "sequential_batch WORK_ENCODE tok 0 texts = Some rs" "b_outs (batches s ! c) = map Some rs"
    by (auto simp: bpe_pool_encode_batch_def)
  then show ?thesis using batches_agree [OF assms(7)] assms(8) by simp
qed

theorem python_parallel_equals_sequential_witness:
  "\<exists>bpe run lists total. let tok = tokenizer_new_native bpe (Some (pretok_cl100k demo_tables)) in
     PyTokenizer_encode_batch demo_py (Some tok) 0 (PyList [PyUnicode [0x61, 0x20, 0x61]]) =
       Some (Inr (PyTuple [PyList lists, total, PyFloat 0])) \<and>
     PyTokenizer_encode_batch_parallel demo_py run 1 (Some tok) 0 (PyList [PyUnicode [0x61, 0x20, 0x61]]) PyNone =
       Some (Inr (PyTuple [PyList lists, total, PyFloat 0, PyLong 1]))"
proof -
  obtain bpe where b: "tokenizer_encode (tokenizer_new_native bpe (Some (pretok_cl100k demo_tables))) (utf8 [0x61, 0x20, 0x61]) =
     Some [1, 0, 1]" by (rule sp_encode)
  define tok where "tok = tokenizer_new_native bpe (Some (pretok_cl100k demo_tables))"
  define t where "t = utf8 [0x61, 0x20, 0x61]"
  have "run_text WORK_ENCODE tok 0 t = Some (Tokens [1, 0, 1])" using b by (simp add: run_text_def tok_def t_def)
  then obtain s where s: "pool_reach (bpe_pool_create 8 (\<lambda>i. True) 1) [pool_run tok [t] 1 WORK_ENCODE 0] s"
    "b_pc (batches s ! 0) = P_Return"
    using late_signal_reached [OF one_worker] by blast
  have e: "pool_run tok [t] 1 WORK_ENCODE 0 = bpe_pool_encode_batch tok [t]"
    by (simp add: bpe_pool_encode_batch_def int_cast_small)
  have "as_utf8 demo_py (PyUnicode [0x61, 0x20, 0x61]) = Inr t"
    using demo_py_documented sp_covers(2) by (simp add: py_documented_def t_def del: utf8_simps)
  then have l: "text_loop demo_py [PyUnicode [0x61, 0x20, 0x61]] [] = Inr [t]" by simp
  have f: "\<forall>b \<in> set [bpe_pool_encode_batch tok [t]]. fresh b" by (simp add: fresh_batches)
  have "\<exists>lists total. PyTokenizer_encode_batch demo_py (Some tok) 0 (PyList [PyUnicode [0x61, 0x20, 0x61]]) =
       Some (Inr (PyTuple [PyList lists, total, PyFloat 0])) \<and>
     PyTokenizer_encode_batch_parallel demo_py (\<lambda>_ _. Some (b_outs (batches s ! 0))) 1 (Some tok) 0
       (PyList [PyUnicode [0x61, 0x20, 0x61]]) PyNone = Some (Inr (PyTuple [PyList lists, total, PyFloat 0, PyLong (int 1)]))"
    by (rule python_parallel_equals_sequential [OF s(1) [unfolded e] f _ _ _ s(2) l]) simp_all
  then show ?thesis unfolding tok_def Let_def by auto
qed

end
